(* ===== verification/LOB_Prelude.thy ===== *)
theory LOB_Prelude
  imports Main "HOL-Library.Word" "HOL-Library.Monad_Syntax" "HOL-Library.Multiset"
begin

text \<open>
  Shared vocabulary of the LightningLOB development.

  Every operation of the program is a function into \<open>option\<close>.  \<open>Some r\<close> is a run that returns
  \<open>r\<close>; \<open>None\<close> collects what the C++ program must never do: an index outside a vector, a failed
  \<open>assert\<close>, a signed 64-bit overflow, or a loop that never ends.  A theorem that concludes
  \<open>f x = Some y\<close> therefore shows termination and absence of undefined behaviour together with
  the functional result.

  The theory holds the machine-integer abbreviations, the checked arithmetic on \<open>int64_t\<close>, the
  checked vector accesses, a monadic fold (usable under \<open>partial_function\<close>), trailing- and
  leading-zero counts of 64-bit words, and the cyclic arithmetic used by both the open-addressing
  hash table and the ring buffer.
\<close>

unbundle bit_operations_syntax

named_theorems ub_simps \<open>equations that discharge the checks for undefined behaviour\<close>
named_theorems lob_defs \<open>unfoldings of small accessors of the model\<close>

type_synonym u32 = "32 word"
type_synonym u64 = "64 word"

section \<open>Signed 64-bit arithmetic\<close>

definition i64_max :: int where
  "i64_max = 9223372036854775807"

definition in_i64 :: "int \<Rightarrow> bool" where
  "in_i64 x \<longleftrightarrow> - i64_max - 1 \<le> x \<and> x \<le> i64_max"

text \<open>Overflow of a signed integer is undefined in C++: the checked value is \<open>None\<close> there.\<close>

definition chk64 :: "int \<Rightarrow> int option" where
  "chk64 x = (if in_i64 x then Some x else None)"

lemma chk64_Some [ub_simps]: "in_i64 x \<Longrightarrow> chk64 x = Some x"
  by (simp add: chk64_def)

lemma chk64_eq_Some_iff [simp]: "chk64 x = Some y \<longleftrightarrow> in_i64 x \<and> y = x"
  by (auto simp: chk64_def)

lemma in_i64_le: "0 \<le> x \<Longrightarrow> x \<le> y \<Longrightarrow> y \<le> i64_max \<Longrightarrow> in_i64 x"
  by (simp add: in_i64_def i64_max_def)

lemma in_i64_diff: "0 \<le> x \<Longrightarrow> 0 \<le> y \<Longrightarrow> x \<le> i64_max \<Longrightarrow> y \<le> i64_max \<Longrightarrow> in_i64 (x - y)"
  by (simp add: in_i64_def i64_max_def)

section \<open>Vectors\<close>

definition vget :: "'a list \<Rightarrow> nat \<Rightarrow> 'a option" where
  "vget xs i = (if i < length xs then Some (xs ! i) else None)"

definition vset :: "'a list \<Rightarrow> nat \<Rightarrow> 'a \<Rightarrow> 'a list option" where
  "vset xs i x = (if i < length xs then Some (xs[i := x]) else None)"

definition oassert :: "bool \<Rightarrow> unit option" where
  "oassert b = (if b then Some () else None)"

lemma vget_Some [ub_simps]: "i < length xs \<Longrightarrow> vget xs i = Some (xs ! i)"
  by (simp add: vget_def)

lemma vset_Some [ub_simps]: "i < length xs \<Longrightarrow> vset xs i x = Some (xs[i := x])"
  by (simp add: vset_def)

lemma oassert_True [ub_simps, simp]: "b \<Longrightarrow> oassert b = Some ()"
  by (simp add: oassert_def)

lemma vget_eq_Some_iff: "vget xs i = Some x \<longleftrightarrow> i < length xs \<and> x = xs ! i"
  by (auto simp: vget_def)

lemma vset_eq_Some_iff: "vset xs i x = Some ys \<longleftrightarrow> i < length xs \<and> ys = xs[i := x]"
  by (auto simp: vset_def)

lemma in_set_update_other:
  "x \<noteq> s \<Longrightarrow> x \<noteq> T ! i \<Longrightarrow> x \<in> set (T[i := s]) \<longleftrightarrow> x \<in> set T"
  by (cases "i < length T")
    (force simp: in_set_conv_nth nth_list_update list_update_beyond)+

text \<open>
  Capacity of a \<open>std::vector\<close> after one \<open>push_back\<close> at size \<open>n\<close>: unchanged while there is room,
  doubled otherwise (libstdc++).
\<close>

definition push_capacity :: "nat \<Rightarrow> nat \<Rightarrow> nat" where
  "push_capacity n cap = (if n < cap then cap else max 1 (2 * n))"

lemma push_capacity_gt: "n \<le> cap \<Longrightarrow> n < push_capacity n cap"
  by (auto simp: push_capacity_def)

lemma push_capacity_ge: "n \<le> cap \<Longrightarrow> cap \<le> push_capacity n cap"
  by (auto simp: push_capacity_def)

section \<open>A monadic fold\<close>

primrec foldM :: "('a \<Rightarrow> 's \<Rightarrow> 's option) \<Rightarrow> 'a list \<Rightarrow> 's \<Rightarrow> 's option" where
  "foldM f [] s = Some s"
| "foldM f (x # xs) s = Option.bind (f x s) (foldM f xs)"

lemma foldM_append: "foldM f (xs @ ys) s = Option.bind (foldM f xs s) (foldM f ys)"
proof (induction xs arbitrary: s)
  case Nil
  show ?case by simp
next
  case (Cons x xs)
  show ?case by (cases "f x s") (simp_all add: Cons.IH)
qed

lemma foldM_mono [partial_function_mono]:
  assumes "\<And>x s. mono_option (\<lambda>f. B f x s)"
  shows "mono_option (\<lambda>f. foldM (B f) xs s)"
proof (induction xs arbitrary: s)
  case Nil
  show ?case by (simp add: monotone_def option.leq_refl)
next
  case (Cons x xs)
  show ?case
    using bind_mono [OF assms [of x s] Cons.IH] by simp
qed

section \<open>Bit counting\<close>

text \<open>\<open>std::countr_zero\<close>, \<open>std::countl_zero\<close> and \<open>std::popcount\<close> on a 64-bit word.\<close>

definition countr_zero :: "u64 \<Rightarrow> nat" where
  "countr_zero w = length (takeWhile (\<lambda>i. \<not> bit w i) [0..<64])"

definition countl_zero :: "u64 \<Rightarrow> nat" where
  "countl_zero w = length (takeWhile (\<lambda>i. \<not> bit w (63 - i)) [0..<64])"

definition popcount :: "u64 \<Rightarrow> nat" where
  "popcount w = length (filter (bit w) [0..<64])"

lemma takeWhile_upt_length:
  fixes n :: nat
  assumes "i < n" and "\<not> P i" and "\<And>j. j < i \<Longrightarrow> P j"
  shows "length (takeWhile P [0..<n]) = i"
proof -
  have "[0..<n] = [0..<i] @ i # [Suc i..<n]"
    using assms(1) upt_add_eq_append [of 0 i "n - i"] by (simp add: upt_conv_Cons)
  moreover have "takeWhile P ([0..<i] @ i # [Suc i..<n]) = [0..<i]"
    using assms(2,3) by (subst takeWhile_append2) auto
  ultimately show ?thesis by simp
qed

lemma takeWhile_upt_all:
  fixes n :: nat
  shows "(\<And>j. j < n \<Longrightarrow> P j) \<Longrightarrow> length (takeWhile P [0..<n]) = n"
  by (subst takeWhile_eq_all_conv [THEN iffD2]) auto

section \<open>Cyclic indices\<close>

text \<open>
  \<open>cyc_dist n i j\<close> is the number of forward steps from \<open>i\<close> to \<open>j\<close> on a ring of \<open>n\<close> slots.
\<close>

definition cyc_dist :: "nat \<Rightarrow> nat \<Rightarrow> nat \<Rightarrow> nat" where
  "cyc_dist n i j = (if i \<le> j then j - i else j + n - i)"

definition cyc_next :: "nat \<Rightarrow> nat \<Rightarrow> nat" where
  "cyc_next n i = (if Suc i = n then 0 else Suc i)"

lemma and_mask_mod:
  fixes x :: nat
  shows "n = 2 ^ k \<Longrightarrow> x AND (n - 1) = x mod n"
  using take_bit_eq_mask [of k x] by (simp add: mask_nat_def take_bit_eq_mod)

lemma cyc_next_and:
  "n = 2 ^ k \<Longrightarrow> i < n \<Longrightarrow> Suc i AND (n - 1) = cyc_next n i"
  using and_mask_mod [of n k "Suc i"] by (auto simp: cyc_next_def)

lemma cyc_next_less [simp]: "i < n \<Longrightarrow> cyc_next n i < n"
  by (auto simp: cyc_next_def)

lemma cyc_dist_less [simp]: "i < n \<Longrightarrow> j < n \<Longrightarrow> cyc_dist n i j < n"
  by (auto simp: cyc_dist_def)

lemma cyc_dist_self [simp]: "cyc_dist n i i = 0"
  by (simp add: cyc_dist_def)

lemma cyc_dist_0_iff [simp]: "i < n \<Longrightarrow> j < n \<Longrightarrow> cyc_dist n i j = 0 \<longleftrightarrow> i = j"
  by (auto simp: cyc_dist_def)

lemma cyc_dist_next_left:
  "i < n \<Longrightarrow> j < n \<Longrightarrow> i \<noteq> j \<Longrightarrow> cyc_dist n i j = Suc (cyc_dist n (cyc_next n i) j)"
  by (auto simp: cyc_dist_def cyc_next_def)

lemma cyc_dist_next_right:
  "i < n \<Longrightarrow> j < n \<Longrightarrow> cyc_next n j \<noteq> i \<Longrightarrow> cyc_dist n i (cyc_next n j) = Suc (cyc_dist n i j)"
  by (auto simp: cyc_dist_def cyc_next_def split: if_splits)

lemma cyc_dist_inj:
  "i < n \<Longrightarrow> j < n \<Longrightarrow> j' < n \<Longrightarrow> cyc_dist n i j = cyc_dist n i j' \<Longrightarrow> j = j'"
  by (auto simp: cyc_dist_def split: if_splits)

lemma cyc_dist_before:
  "r < n \<Longrightarrow> q < n \<Longrightarrow> p < n \<Longrightarrow>
   cyc_dist n r q < cyc_dist n r p \<longleftrightarrow> q \<noteq> p \<and> cyc_dist n q p \<le> cyc_dist n r p"
  by (auto simp: cyc_dist_def)

lemma cyc_dist_via:
  "r < n \<Longrightarrow> i < n \<Longrightarrow> j < n \<Longrightarrow> p < n \<Longrightarrow> cyc_dist n r i < cyc_dist n r p \<Longrightarrow>
   cyc_dist n i j < cyc_dist n i p \<Longrightarrow> cyc_dist n r j < cyc_dist n r p"
  by (auto simp: cyc_dist_def split: if_splits)

lemma member_le_sum_list_int:
  fixes xs :: "int list"
  shows "x \<in> set xs \<Longrightarrow> \<forall>y \<in> set xs. 0 \<le> y \<Longrightarrow> x \<le> sum_list xs"
  by (induction xs) (auto simp: sum_list_nonneg)

end
