(* ===== verification/Core_Types.thy ===== *)
theory Core_Types
  imports LOB_Prelude
begin

text \<open>
  The value types of LightningLOB: \<open>include/lightninglob/types.hpp\<close> and \<open>order.hpp\<close>.

  Identifiers, timestamps and handles keep their width as words.  \<open>Price\<close> and \<open>Quantity\<close> are
  \<open>int64_t\<close> in the source; they are \<open>int\<close> here, and every sum or difference the program forms of
  them goes through \<open>chk64\<close>, so that a signed overflow is visible as \<open>None\<close>.
\<close>

section \<open>types.hpp\<close>

type_synonym OrderId = u64
type_synonym Price = int
type_synonym Quantity = int
type_synonym Timestamp = u64
type_synonym SymbolId = u32
type_synonym ParticipantId = u32

datatype Side = Buy | Sell

datatype OrderType = Limit | Market

datatype TimeInForce = GTC | IOC | FOK

datatype OrderStatus = New | PartiallyFilled | Filled | Cancelled | Rejected

datatype RejectReason = NoReason | InvalidQuantity | InvalidPrice | PriceOutOfRange | UnknownSymbol
  | DuplicateOrderId | UnknownOrder | RiskMaxOrderSize | RiskMaxPosition | RiskRateLimited

datatype SelfTradePrevention = NoPrevention | CancelResting | CancelIncoming | CancelBoth

fun to_string_Side :: "Side \<Rightarrow> string" where
  "to_string_Side Buy = ''BUY''"
| "to_string_Side Sell = ''SELL''"

fun to_string_OrderType :: "OrderType \<Rightarrow> string" where
  "to_string_OrderType Limit = ''LIMIT''"
| "to_string_OrderType Market = ''MARKET''"

fun to_string_TimeInForce :: "TimeInForce \<Rightarrow> string" where
  "to_string_TimeInForce GTC = ''GTC''"
| "to_string_TimeInForce IOC = ''IOC''"
| "to_string_TimeInForce FOK = ''FOK''"

fun to_string_OrderStatus :: "OrderStatus \<Rightarrow> string" where
  "to_string_OrderStatus New = ''NEW''"
| "to_string_OrderStatus PartiallyFilled = ''PARTIALLY_FILLED''"
| "to_string_OrderStatus Filled = ''FILLED''"
| "to_string_OrderStatus Cancelled = ''CANCELLED''"
| "to_string_OrderStatus Rejected = ''REJECTED''"

fun to_string_RejectReason :: "RejectReason \<Rightarrow> string" where
  "to_string_RejectReason NoReason = ''NONE''"
| "to_string_RejectReason InvalidQuantity = ''INVALID_QUANTITY''"
| "to_string_RejectReason InvalidPrice = ''INVALID_PRICE''"
| "to_string_RejectReason PriceOutOfRange = ''PRICE_OUT_OF_RANGE''"
| "to_string_RejectReason UnknownSymbol = ''UNKNOWN_SYMBOL''"
| "to_string_RejectReason DuplicateOrderId = ''DUPLICATE_ORDER_ID''"
| "to_string_RejectReason UnknownOrder = ''UNKNOWN_ORDER''"
| "to_string_RejectReason RiskMaxOrderSize = ''RISK_MAX_ORDER_SIZE''"
| "to_string_RejectReason RiskMaxPosition = ''RISK_MAX_POSITION''"
| "to_string_RejectReason RiskRateLimited = ''RISK_RATE_LIMITED''"

abbreviation kInvalidOrderId :: OrderId where
  "kInvalidOrderId \<equiv> 0"

definition kMarketOrderPrice :: Price where
  "kMarketOrderPrice = 0"

abbreviation kNoParticipant :: ParticipantId where
  "kNoParticipant \<equiv> 0"

definition kNullIndex :: u32 where
  "kNullIndex = - 1"

section \<open>order.hpp\<close>

record OrderRequest =
  req_client_order_id :: OrderId
  req_symbol :: SymbolId
  req_participant_id :: ParticipantId
  req_side :: Side
  req_type :: OrderType
  req_price :: Price
  req_quantity :: Quantity
  req_time_in_force :: TimeInForce

record Order =
  o_id :: OrderId
  o_price :: Price
  o_quantity :: Quantity
  o_remaining_quantity :: Quantity
  o_timestamp :: Timestamp
  o_symbol :: SymbolId
  o_participant_id :: ParticipantId
  o_side :: Side
  o_type :: OrderType
  o_time_in_force :: TimeInForce

definition rests_in_book :: "Order \<Rightarrow> bool" where
  "rests_in_book ord \<longleftrightarrow> o_type ord = Limit \<and> o_time_in_force ord = GTC"

record Trade =
  t_taker_order_id :: OrderId
  t_maker_order_id :: OrderId
  t_symbol :: SymbolId
  t_price :: Price
  t_quantity :: Quantity
  t_timestamp :: Timestamp
  t_taker_side :: Side
  t_taker_participant_id :: ParticipantId
  t_maker_participant_id :: ParticipantId

record ExecutionReport =
  r_order_id :: OrderId
  r_status :: OrderStatus
  r_filled_quantity :: Quantity
  r_remaining_quantity :: Quantity
  r_reject_reason :: RejectReason

text \<open>The braced initialiser \<open>{id, status, filled, remaining, reason}\<close> of the return statements.\<close>

definition report :: "OrderId \<Rightarrow> OrderStatus \<Rightarrow> Quantity \<Rightarrow> Quantity \<Rightarrow> RejectReason \<Rightarrow> ExecutionReport" where
  "report i st fl rem rsn = \<lparr>r_order_id = i, r_status = st, r_filled_quantity = fl,
     r_remaining_quantity = rem, r_reject_reason = rsn\<rparr>"

definition accepted :: "ExecutionReport \<Rightarrow> bool" where
  "accepted r \<longleftrightarrow> r_status r \<noteq> Rejected"

record PriceLevelView =
  v_price :: Price
  v_total_quantity :: Quantity
  v_order_count :: u32

text \<open>A well-typed order: its signed fields fit \<open>int64_t\<close>.\<close>

definition order_typed :: "Order \<Rightarrow> bool" where
  "order_typed ord \<longleftrightarrow> in_i64 (o_price ord) \<and> in_i64 (o_quantity ord) \<and> in_i64 (o_remaining_quantity ord)"

section \<open>The outside world of a book\<close>

text \<open>
  \<open>now_ns()\<close> reads the steady clock and the trade callback hands trades to the outside.  A
  \<open>World\<close> carries the readings the clock will give (the \<open>k\<close>-th call returns \<open>clock w k\<close>), how
  many were taken, and the trades delivered so far, oldest first.
\<close>

record World =
  clock :: "nat \<Rightarrow> Timestamp"
  ticks :: nat
  events :: "Trade list"

definition now_ns :: "World \<Rightarrow> Timestamp \<times> World" where
  "now_ns w = (clock w (ticks w), w\<lparr>ticks := Suc (ticks w)\<rparr>)"

definition deliver :: "Trade \<Rightarrow> World \<Rightarrow> World" where
  "deliver t w = w\<lparr>events := events w @ [t]\<rparr>"

lemma report_simps [simp]:
  "r_order_id (report i st fl rem rsn) = i"
  "r_status (report i st fl rem rsn) = st"
  "r_filled_quantity (report i st fl rem rsn) = fl"
  "r_remaining_quantity (report i st fl rem rsn) = rem"
  "r_reject_reason (report i st fl rem rsn) = rsn"
  by (simp_all add: report_def)

lemma report_inject [simp]:
  "report i st fl rem rsn = report i' st' fl' rem' rsn' \<longleftrightarrow>
   i = i' \<and> st = st' \<and> fl = fl' \<and> rem = rem' \<and> rsn = rsn'"
  by (auto simp: report_def)

end
