(* ===== verification/Order_Pool.thy ===== *)
theory Order_Pool
  imports Core_Types
begin

text \<open>
  \<open>include/lightninglob/order_pool.hpp\<close>: the slot pool with its free list, and the intrusive
  doubly linked FIFO of a price level.

  Handles are 32-bit words, \<open>kNullIndex\<close> is the null link.  \<open>dll\<close> says that a list of handles is a
  doubly linked segment of the pool, \<open>level_rep\<close> that a \<open>PriceLevel\<close> heads such a list with the right
  tail, count and aggregate quantity.  The operations are shown to be list operations on it:
  \<open>level_push_back\<close> appends, \<open>level_unlink\<close> removes, \<open>level_reduce_quantity\<close> keeps the list.
\<close>

section \<open>Model\<close>

record OrderNode =
  n_order :: Order
  n_prev :: u32
  n_next :: u32

record PriceLevel =
  l_price :: Price
  l_total_quantity :: Quantity
  l_order_count :: u32
  l_head :: u32
  l_tail :: u32

definition empty_level :: PriceLevel where
  "empty_level = \<lparr>l_price = 0, l_total_quantity = 0, l_order_count = 0,
     l_head = kNullIndex, l_tail = kNullIndex\<rparr>"

definition level_empty :: "PriceLevel \<Rightarrow> bool" where
  "level_empty lv \<longleftrightarrow> l_order_count lv = 0"

definition clear_orders :: "PriceLevel \<Rightarrow> PriceLevel" where
  "clear_orders lv = lv\<lparr>l_total_quantity := 0, l_order_count := 0, l_head := kNullIndex, l_tail := kNullIndex\<rparr>"

text \<open>The two vectors of the pool with their capacities.\<close>

record OrderPool =
  p_nodes :: "OrderNode list"
  p_nodes_cap :: nat
  p_free_list :: "u32 list"
  p_free_cap :: nat

definition pool_new :: "nat \<Rightarrow> OrderPool" where
  "pool_new capacity_hint = \<lparr>p_nodes = [], p_nodes_cap = capacity_hint,
     p_free_list = [], p_free_cap = capacity_hint\<rparr>"

text \<open>\<open>operator[]\<close>: reading and replacing a node; the \<open>assert\<close> is the range check.\<close>

definition pool_get :: "OrderPool \<Rightarrow> u32 \<Rightarrow> OrderNode option" where
  "pool_get p idx = vget (p_nodes p) (unat idx)"

definition pool_set :: "OrderPool \<Rightarrow> u32 \<Rightarrow> OrderNode \<Rightarrow> OrderPool option" where
  "pool_set p idx nd = do { ns \<leftarrow> vset (p_nodes p) (unat idx) nd; Some (p\<lparr>p_nodes := ns\<rparr>) }"

text \<open>The free list is a stack whose top is its last element.\<close>

definition acquire :: "OrderPool \<Rightarrow> Order \<Rightarrow> (u32 \<times> OrderPool) option" where
  "acquire p ord =
     (if p_free_list p \<noteq> [] then do {
        let idx = last (p_free_list p);
        let p = p\<lparr>p_free_list := butlast (p_free_list p)\<rparr>;
        p \<leftarrow> pool_set p idx \<lparr>n_order = ord, n_prev = kNullIndex, n_next = kNullIndex\<rparr>;
        Some (idx, p) }
      else do {
        let idx = word_of_nat (length (p_nodes p));
        let cap = push_capacity (length (p_nodes p)) (p_nodes_cap p);
        Some (idx, p\<lparr>p_nodes := p_nodes p @ [\<lparr>n_order = ord, n_prev = kNullIndex, n_next = kNullIndex\<rparr>],
          p_nodes_cap := cap, p_free_cap := max (p_free_cap p) cap\<rparr>) })"

definition release :: "OrderPool \<Rightarrow> u32 \<Rightarrow> OrderPool option" where
  "release p idx = do {
     oassert (unat idx < length (p_nodes p));
     Some (p\<lparr>p_free_list := p_free_list p @ [idx],
             p_free_cap := push_capacity (length (p_free_list p)) (p_free_cap p)\<rparr>) }"

definition pool_reset :: "OrderPool \<Rightarrow> OrderPool" where
  "pool_reset p = p\<lparr>p_nodes := [], p_free_list := []\<rparr>"

definition live_count :: "OrderPool \<Rightarrow> nat" where
  "live_count p = length (p_nodes p) - length (p_free_list p)"

definition pool_capacity :: "OrderPool \<Rightarrow> nat" where
  "pool_capacity p = p_nodes_cap p"

definition level_push_back :: "PriceLevel \<Rightarrow> OrderPool \<Rightarrow> u32 \<Rightarrow> (PriceLevel \<times> OrderPool) option" where
  "level_push_back lv p idx = do {
     nd \<leftarrow> pool_get p idx;
     p \<leftarrow> pool_set p idx (nd\<lparr>n_prev := l_tail lv, n_next := kNullIndex\<rparr>);
     (lv, p) \<leftarrow> (if l_tail lv \<noteq> kNullIndex then do {
         t \<leftarrow> pool_get p (l_tail lv);
         p \<leftarrow> pool_set p (l_tail lv) (t\<lparr>n_next := idx\<rparr>);
         Some (lv, p) }
       else Some (lv\<lparr>l_head := idx\<rparr>, p));
     q \<leftarrow> chk64 (l_total_quantity lv + o_remaining_quantity (n_order nd));
     Some (lv\<lparr>l_tail := idx, l_order_count := l_order_count lv + 1, l_total_quantity := q\<rparr>, p) }"

text \<open>\<open>level_unlink\<close>: the predecessor's side of the node, the successor's side, and the whole.\<close>

definition unlink_prev :: "PriceLevel \<Rightarrow> OrderPool \<Rightarrow> OrderNode \<Rightarrow> (PriceLevel \<times> OrderPool) option" where
  "unlink_prev lv p nd =
     (if n_prev nd \<noteq> kNullIndex then do {
        a \<leftarrow> pool_get p (n_prev nd);
        p \<leftarrow> pool_set p (n_prev nd) (a\<lparr>n_next := n_next nd\<rparr>);
        Some (lv, p) }
      else Some (lv\<lparr>l_head := n_next nd\<rparr>, p))"

definition unlink_next :: "PriceLevel \<Rightarrow> OrderPool \<Rightarrow> OrderNode \<Rightarrow> (PriceLevel \<times> OrderPool) option" where
  "unlink_next lv p nd =
     (if n_next nd \<noteq> kNullIndex then do {
        a \<leftarrow> pool_get p (n_next nd);
        p \<leftarrow> pool_set p (n_next nd) (a\<lparr>n_prev := n_prev nd\<rparr>);
        Some (lv, p) }
      else Some (lv\<lparr>l_tail := n_prev nd\<rparr>, p))"

definition level_unlink :: "PriceLevel \<Rightarrow> OrderPool \<Rightarrow> u32 \<Rightarrow> (PriceLevel \<times> OrderPool) option" where
  "level_unlink lv p idx = do {
     nd \<leftarrow> pool_get p idx;
     (lv, p) \<leftarrow> unlink_prev lv p nd;
     nd \<leftarrow> pool_get p idx;
     (lv, p) \<leftarrow> unlink_next lv p nd;
     Some (lv\<lparr>l_order_count := l_order_count lv - 1\<rparr>, p) }"

definition level_reduce_quantity :: "PriceLevel \<Rightarrow> OrderPool \<Rightarrow> u32 \<Rightarrow> Quantity \<Rightarrow> (PriceLevel \<times> OrderPool) option" where
  "level_reduce_quantity lv p idx qty = do {
     nd \<leftarrow> pool_get p idx;
     r \<leftarrow> chk64 (o_remaining_quantity (n_order nd) - qty);
     p \<leftarrow> pool_set p idx (nd\<lparr>n_order := (n_order nd)\<lparr>o_remaining_quantity := r\<rparr>\<rparr>);
     t \<leftarrow> chk64 (l_total_quantity lv - qty);
     Some (lv\<lparr>l_total_quantity := t\<rparr>, p) }"

section \<open>The pool\<close>

abbreviation node_at :: "OrderNode list \<Rightarrow> u32 \<Rightarrow> OrderNode" where
  "node_at N x \<equiv> N ! unat x"

abbreviation ord_at :: "OrderNode list \<Rightarrow> u32 \<Rightarrow> Order" where
  "ord_at N x \<equiv> n_order (N ! unat x)"

abbreviation rem_at :: "OrderNode list \<Rightarrow> u32 \<Rightarrow> Quantity" where
  "rem_at N x \<equiv> o_remaining_quantity (n_order (N ! unat x))"

text \<open>
  Handles stay below \<open>kNullIndex\<close>, the free list holds distinct slots of the pool, and the free
  list's capacity keeps up with the pool's.
\<close>

definition pool_ok :: "OrderPool \<Rightarrow> bool" where
  "pool_ok p \<longleftrightarrow> length (p_nodes p) \<le> unat kNullIndex \<and> distinct (p_free_list p)
     \<and> (\<forall>x \<in> set (p_free_list p). unat x < length (p_nodes p))
     \<and> length (p_nodes p) \<le> p_nodes_cap p \<and> p_nodes_cap p \<le> p_free_cap p"

lemma unat_null: "unat kNullIndex = 4294967295"
  by (simp add: kNullIndex_def unsigned_minus_1_eq_mask mask_eq_exp_minus_1)

lemma unat_eq_word [simp]: "unat (x :: u32) = unat y \<longleftrightarrow> x = y"
  by (rule word_unat_eq_iff [symmetric])

lemma valid_not_null: "unat x < n \<Longrightarrow> n \<le> unat kNullIndex \<Longrightarrow> x \<noteq> kNullIndex"
  by auto

lemma unat_word_of_nat_small: "n < unat kNullIndex \<Longrightarrow> unat (word_of_nat n :: u32) = n"
  by (simp add: unat_null unat_of_nat)

lemma length_free_le:
  assumes "pool_ok p"
  shows "length (p_free_list p) \<le> length (p_nodes p)"
proof -
  have "card (unat ` set (p_free_list p)) \<le> card {..<length (p_nodes p)}"
    using assms by (intro card_mono) (auto simp: pool_ok_def)
  moreover have "card (unat ` set (p_free_list p)) = length (p_free_list p)"
    using assms by (simp add: pool_ok_def distinct_card card_image inj_on_def)
  ultimately show ?thesis by simp
qed

lemma pool_fresh_nodes [simp]: "p_nodes (pool_new hint) = []" "p_nodes (pool_reset p) = []"
  by (simp_all add: pool_new_def pool_reset_def)

lemma pool_new_ok: "pool_ok (pool_new hint)"
  by (simp add: pool_ok_def pool_new_def)

lemma pool_reset_ok: "pool_ok p \<Longrightarrow> pool_ok (pool_reset p)"
  by (simp add: pool_ok_def pool_reset_def)

text \<open>
  A slot is handed out that was free before: its node holds exactly the order, every other node is
  untouched.
\<close>

definition fresh_node :: "Order \<Rightarrow> OrderNode" where
  "fresh_node ord = \<lparr>n_order = ord, n_prev = kNullIndex, n_next = kNullIndex\<rparr>"

lemma acquire_reuse:
  assumes "pool_ok p" "p_free_list p \<noteq> []"
  shows "acquire p ord = Some (last (p_free_list p),
      p\<lparr>p_free_list := butlast (p_free_list p),
        p_nodes := (p_nodes p)[unat (last (p_free_list p)) := fresh_node ord]\<rparr>)"
  using assms by (simp add: acquire_def pool_set_def ub_simps pool_ok_def fresh_node_def Let_def)

lemma acquire_extend:
  assumes "p_free_list p = []"
  shows "acquire p ord = Some (word_of_nat (length (p_nodes p)),
      p\<lparr>p_nodes := p_nodes p @ [fresh_node ord],
        p_nodes_cap := push_capacity (length (p_nodes p)) (p_nodes_cap p),
        p_free_cap := max (p_free_cap p) (push_capacity (length (p_nodes p)) (p_nodes_cap p))\<rparr>)"
  using assms by (simp add: acquire_def fresh_node_def Let_def)

text \<open>Room for one more order: a free slot, or an index left below \<open>kNullIndex\<close>.\<close>

definition pool_room :: "OrderPool \<Rightarrow> bool" where
  "pool_room p \<longleftrightarrow> p_free_list p \<noteq> [] \<or> length (p_nodes p) < unat kNullIndex"

lemma acquire_correct:
  assumes ok: "pool_ok p" and room: "pool_room p"
  obtains x p' where "acquire p ord = Some (x, p')" "pool_ok p'"
    and "x \<in> set (p_free_list p) \<or> unat x = length (p_nodes p)" "x \<notin> set (p_free_list p')"
    and "set (p_free_list p') = set (p_free_list p) - {x}"
    and "unat x < length (p_nodes p')" "length (p_nodes p') = max (length (p_nodes p)) (Suc (unat x))"
    and "node_at (p_nodes p') x = fresh_node ord"
    and "\<And>y. unat y < length (p_nodes p) \<Longrightarrow> y \<noteq> x \<Longrightarrow> node_at (p_nodes p') y = node_at (p_nodes p) y"
proof (cases "p_free_list p = []")
  case False
  let ?x = "last (p_free_list p)"
  have sp: "p_free_list p = butlast (p_free_list p) @ [?x]" using False by simp
  then have x: "?x \<notin> set (butlast (p_free_list p))" "distinct (butlast (p_free_list p))"
    using ok by (metis distinct.simps(2) distinct_append not_distinct_conv_prefix pool_ok_def,
        metis ok distinct_butlast pool_ok_def)
  have st: "set (butlast (p_free_list p)) = set (p_free_list p) - {?x}"
    using x(1) arg_cong [OF sp, of set] by auto
  have "unat ?x < length (p_nodes p)"
    using ok False by (simp add: pool_ok_def)
  then show thesis
    using that [OF acquire_reuse [OF ok False]] ok False x st
    by (auto simp: pool_ok_def)
next
  case True
  have u: "unat (word_of_nat (length (p_nodes p)) :: u32) = length (p_nodes p)"
    using room True by (simp add: pool_room_def unat_word_of_nat_small)
  show thesis
    using that [OF acquire_extend [OF True]] ok True room u push_capacity_gt [of "length (p_nodes p)" "p_nodes_cap p"]
    by (auto simp: pool_ok_def pool_room_def nth_append)
qed

text \<open>
  \<open>release\<close> pushes onto the free list without growing it, as its \<open>noexcept\<close> claims: a slot that is
  not free yet finds room within the reserved capacity.
\<close>

lemma release_correct:
  assumes ok: "pool_ok p" and x: "unat x < length (p_nodes p)" "x \<notin> set (p_free_list p)"
  shows "release p x = Some (p\<lparr>p_free_list := p_free_list p @ [x]\<rparr>)"
    and "pool_ok (p\<lparr>p_free_list := p_free_list p @ [x]\<rparr>)"
    and "length (p_free_list p) < p_free_cap p"
proof -
  have ok': "pool_ok (p\<lparr>p_free_list := p_free_list p @ [x]\<rparr>)"
    using ok x by (auto simp: pool_ok_def)
  then show "pool_ok (p\<lparr>p_free_list := p_free_list p @ [x]\<rparr>)" .
  have "Suc (length (p_free_list p)) \<le> length (p_nodes p)"
    using length_free_le [OF ok'] by simp
  then show lt: "length (p_free_list p) < p_free_cap p"
    using ok by (simp add: pool_ok_def)
  then show "release p x = Some (p\<lparr>p_free_list := p_free_list p @ [x]\<rparr>)"
    using x by (simp add: release_def push_capacity_def)
qed

section \<open>Doubly linked segments\<close>

fun dll :: "OrderNode list \<Rightarrow> u32 \<Rightarrow> u32 list \<Rightarrow> u32 \<Rightarrow> bool" where
  "dll N a [] b = True"
| "dll N a (x # xs) b = (unat x < length N \<and> n_prev (node_at N x) = a
     \<and> n_next (node_at N x) = hd (xs @ [b]) \<and> dll N x xs b)"

definition level_links :: "OrderNode list \<Rightarrow> PriceLevel \<Rightarrow> u32 list \<Rightarrow> bool" where
  "level_links N lv xs \<longleftrightarrow> distinct xs \<and> dll N kNullIndex xs kNullIndex
     \<and> l_head lv = hd (xs @ [kNullIndex]) \<and> l_tail lv = last (kNullIndex # xs)
     \<and> l_order_count lv = word_of_nat (length xs)"

definition level_rep :: "OrderNode list \<Rightarrow> PriceLevel \<Rightarrow> u32 list \<Rightarrow> bool" where
  "level_rep N lv xs \<longleftrightarrow> level_links N lv xs \<and> l_total_quantity lv = (\<Sum>x\<leftarrow>xs. rem_at N x)"

lemma hd_append_snoc [simp]: "hd ((xs @ ys) @ [b]) = hd (xs @ [hd (ys @ [b])])"
  by (cases xs) simp_all

lemma dll_append:
  "dll N a (xs @ ys) b \<longleftrightarrow> dll N a xs (hd (ys @ [b])) \<and> dll N (last (a # xs)) ys b"
proof (induction xs arbitrary: a)
  case Nil
  show ?case by simp
next
  case (Cons x xs)
  then show ?case using hd_append_snoc [of xs ys b] by auto
qed

lemma dll_valid: "dll N a xs b \<Longrightarrow> x \<in> set xs \<Longrightarrow> unat x < length N"
  by (induction xs arbitrary: a) auto

lemma dll_frame:
  assumes "length N' = length N" "\<And>x. x \<in> set xs \<Longrightarrow> node_at N' x = node_at N x"
  shows "dll N' a xs b \<longleftrightarrow> dll N a xs b"
  using assms(2) by (induction xs arbitrary: a) (auto simp: assms(1))

lemma level_links_frame:
  assumes "length N' = length N" "\<And>x. x \<in> set xs \<Longrightarrow> node_at N' x = node_at N x"
  shows "level_links N' lv xs \<longleftrightarrow> level_links N lv xs"
  using dll_frame [of N' N xs] assms by (auto simp: level_links_def)

lemma level_rep_frame:
  assumes "length N \<le> length N'" "\<And>x. x \<in> set xs \<Longrightarrow> node_at N' x = node_at N x" "level_rep N lv xs"
  shows "level_rep N' lv xs"
proof -
  have "dll N' a xs b" if "dll N a xs b" for a b
    using that assms(1,2) by (induction xs arbitrary: a) auto
  moreover have "(\<Sum>x\<leftarrow>xs. rem_at N' x) = (\<Sum>x\<leftarrow>xs. rem_at N x)"
    using assms(2) by (metis (mono_tags, lifting) map_eq_conv)
  ultimately show ?thesis using assms(3) by (simp add: level_rep_def level_links_def)
qed

lemma level_length:
  assumes "level_links N lv xs"
  shows "length xs \<le> length N"
proof -
  have "card (unat ` set xs) \<le> card {..<length N}"
    using assms dll_valid by (intro card_mono) (auto simp: level_links_def)
  moreover have "card (unat ` set xs) = length xs"
    using assms by (simp add: level_links_def distinct_card card_image inj_on_def)
  ultimately show ?thesis by simp
qed

lemma level_empty_iff:
  assumes "level_links N lv xs" "length N \<le> unat kNullIndex"
  shows "level_empty lv \<longleftrightarrow> xs = []" and "l_head lv = kNullIndex \<longleftrightarrow> xs = []"
proof -
  have "length xs < 2 ^ 32"
    using level_length [OF assms(1)] assms(2) by (simp add: unat_null)
  then have "unat (l_order_count lv) = length xs"
    using assms(1) by (simp add: level_links_def unat_of_nat)
  then show "level_empty lv \<longleftrightarrow> xs = []"
    by (metis length_0_conv level_empty_def unat_0 unat_eq_word)
  show "l_head lv = kNullIndex \<longleftrightarrow> xs = []"
    using assms valid_not_null by (cases xs) (auto simp: level_links_def)
qed

lemma empty_level_rep: "level_rep N (empty_level\<lparr>l_price := pr\<rparr>) []"
  by (simp add: level_rep_def level_links_def empty_level_def)

text \<open>The handles of a level, read off the pool by following \<open>next\<close>.\<close>

fun follow :: "OrderNode list \<Rightarrow> nat \<Rightarrow> u32 \<Rightarrow> u32 list" where
  "follow N 0 i = []"
| "follow N (Suc f) i =
     (if i = kNullIndex \<or> length N \<le> unat i then [] else i # follow N f (n_next (node_at N i)))"

definition level_idxs :: "OrderNode list \<Rightarrow> PriceLevel \<Rightarrow> u32 list" where
  "level_idxs N lv = follow N (length N) (l_head lv)"

lemma follow_dll:
  assumes "dll N a xs kNullIndex" "length xs \<le> f" "length N \<le> unat kNullIndex"
  shows "follow N f (hd (xs @ [kNullIndex])) = xs"
  using assms
proof (induction xs arbitrary: a f)
  case Nil
  then show ?case by (cases f) simp_all
next
  case (Cons x xs)
  then obtain f' where "f = Suc f'" by (cases f) auto
  moreover have "x \<noteq> kNullIndex" using Cons.prems valid_not_null by auto
  ultimately show ?case using Cons by auto
qed

lemma level_idxs_eq:
  "level_links N lv xs \<Longrightarrow> length N \<le> unat kNullIndex \<Longrightarrow> level_idxs N lv = xs"
  using level_length [of N lv xs] follow_dll [of N kNullIndex xs "length N"]
  by (simp add: level_idxs_def level_links_def)

section \<open>The FIFO operations\<close>

lemma node_at_update [simp]:
  "unat t < length N \<Longrightarrow> node_at (N[unat t := v]) y = (if y = t then v else node_at N y)"
  by (auto simp: nth_list_update)

lemma dll_relink_end:
  assumes "dll N a xs b" "distinct xs" "length N' = length N"
    and "\<And>y. y \<in> set xs \<Longrightarrow> node_at N' y = (if y = last xs then (node_at N y)\<lparr>n_next := c\<rparr> else node_at N y)"
  shows "dll N' a xs c"
proof (cases xs rule: rev_cases)
  case (snoc ys t)
  have "dll N' a ys t \<longleftrightarrow> dll N a ys t"
    by (rule dll_frame [OF assms(3)]) (use snoc assms(2,4) in auto)
  with snoc assms show ?thesis by (auto simp: dll_append)
qed simp

lemma dll_relink_front:
  assumes "dll N a xs b" "distinct xs" "length N' = length N"
    and "\<And>y. y \<in> set xs \<Longrightarrow> node_at N' y = (if y = hd xs then (node_at N y)\<lparr>n_prev := c\<rparr> else node_at N y)"
  shows "dll N' c xs b"
proof (cases xs)
  case (Cons z zs)
  have "dll N' z zs b \<longleftrightarrow> dll N z zs b"
    by (rule dll_frame [OF assms(3)]) (use Cons assms(2,4) in auto)
  with Cons assms show ?thesis by auto
qed simp

lemma level_push_back_correct:
  assumes rep: "level_rep (p_nodes p) lv xs" and x: "unat x < length (p_nodes p)" "x \<notin> set xs"
    and small: "length (p_nodes p) \<le> unat kNullIndex"
    and fits: "in_i64 (l_total_quantity lv + rem_at (p_nodes p) x)"
  shows "\<exists>lv' N'. level_push_back lv p x = Some (lv', p\<lparr>p_nodes := N'\<rparr>) \<and> level_rep N' lv' (xs @ [x])
     \<and> l_price lv' = l_price lv \<and> length N' = length (p_nodes p)
     \<and> (\<forall>y. ord_at N' y = ord_at (p_nodes p) y) \<and> (\<forall>y. y \<notin> set (xs @ [x]) \<longrightarrow> node_at N' y = node_at (p_nodes p) y)"
proof -
  let ?N = "p_nodes p" and ?t = "last (kNullIndex # xs)"
  have links: "distinct xs" "dll ?N kNullIndex xs kNullIndex" "l_head lv = hd (xs @ [kNullIndex])"
    "l_tail lv = ?t" "l_order_count lv = word_of_nat (length xs)"
    and tot: "l_total_quantity lv = (\<Sum>y\<leftarrow>xs. rem_at ?N y)"
    using rep by (simp_all add: level_rep_def level_links_def)
  have t: "unat ?t < length ?N" "?t \<noteq> kNullIndex" "?t \<noteq> x" if "xs \<noteq> []"
  proof -
    have "?t \<in> set xs" using that by simp
    then show "unat ?t < length ?N" "?t \<noteq> x" using dll_valid [OF links(2)] x(2) by auto
    then show "?t \<noteq> kNullIndex" using valid_not_null small by blast
  qed
  define N1 where "N1 = ?N[unat x := (node_at ?N x)\<lparr>n_prev := ?t, n_next := kNullIndex\<rparr>]"
  define N2 where "N2 = (if xs = [] then N1 else N1[unat ?t := (node_at ?N ?t)\<lparr>n_next := x\<rparr>])"
  define lv' where "lv' = lv\<lparr>l_head := hd ((xs @ [x]) @ [kNullIndex]), l_tail := x,
     l_order_count := l_order_count lv + 1, l_total_quantity := l_total_quantity lv + rem_at ?N x\<rparr>"
  have node2: "node_at N2 y = (if y = x then (node_at ?N x)\<lparr>n_prev := ?t, n_next := kNullIndex\<rparr>
      else if xs \<noteq> [] \<and> y = ?t then (node_at ?N ?t)\<lparr>n_next := x\<rparr> else node_at ?N y)" for y
    using x t by (auto simp: N2_def N1_def)
  have len2: "length N2 = length ?N" by (simp add: N2_def N1_def)
  have "dll N2 kNullIndex xs x"
    by (rule dll_relink_end [OF links(2,1) len2]) (use x node2 in \<open>auto split: if_splits\<close>)
  then have "dll N2 kNullIndex (xs @ [x]) kNullIndex"
    using x node2 len2 by (simp add: dll_append)
  moreover have ords: "ord_at N2 y = ord_at ?N y" for y by (simp add: node2)
  ultimately have "level_rep N2 lv' (xs @ [x])"
    using links tot x(2) by (simp add: level_rep_def level_links_def lv'_def)
  moreover have "level_push_back lv p x = Some (lv', p\<lparr>p_nodes := N2\<rparr>)"
  proof (cases "xs = []")
    case True
    then show ?thesis
      using links x fits by (simp add: level_push_back_def pool_get_def pool_set_def ub_simps lv'_def N2_def N1_def)
  next
    case False
    then have hd: "hd (xs @ [x, kNullIndex]) = l_head lv" using links by simp
    show ?thesis
      using False hd links x t fits
      by (simp add: level_push_back_def pool_get_def pool_set_def ub_simps lv'_def N2_def N1_def)
  qed
  moreover have "\<forall>y. y \<notin> set (xs @ [x]) \<longrightarrow> node_at N2 y = node_at ?N y"
    using node2 by auto
  ultimately show ?thesis using len2 ords by (auto simp: lv'_def)
qed

text \<open>The nodes after the neighbours of an element between \<open>as\<close> and \<open>bs\<close> have been linked past it.\<close>

definition bypass_left :: "u32 list \<Rightarrow> u32 list \<Rightarrow> OrderNode list \<Rightarrow> OrderNode list" where
  "bypass_left as bs N = (if as = [] then N
     else N[unat (last (kNullIndex # as)) := (node_at N (last (kNullIndex # as)))\<lparr>n_next := hd (bs @ [kNullIndex])\<rparr>])"

definition bypass :: "u32 list \<Rightarrow> u32 list \<Rightarrow> OrderNode list \<Rightarrow> OrderNode list" where
  "bypass as bs N = (if bs = [] then bypass_left as bs N
     else (bypass_left as bs N)[unat (hd (bs @ [kNullIndex])) := (node_at N (hd (bs @ [kNullIndex])))\<lparr>n_prev := last (kNullIndex # as)\<rparr>])"

lemma length_bypass [simp]: "length (bypass_left as bs N) = length N" "length (bypass as bs N) = length N"
  by (simp_all add: bypass_left_def bypass_def)

lemma node_at_bypass:
  assumes "\<forall>y \<in> set (as @ bs). unat y < length N"
  shows "node_at (bypass_left as bs N) y = (if as \<noteq> [] \<and> y = last as then (node_at N y)\<lparr>n_next := hd (bs @ [kNullIndex])\<rparr> else node_at N y)"
    "node_at (bypass as bs N) y = (if bs \<noteq> [] \<and> y = hd bs then (node_at N y)\<lparr>n_prev := last (kNullIndex # as)\<rparr>
       else node_at (bypass_left as bs N) y)"
  using assms by (auto simp: bypass_left_def bypass_def)

lemma bypass_dll:
  assumes da: "dll N kNullIndex as x" and db: "dll N x bs kNullIndex" and d: "distinct (as @ x # bs)"
  shows "dll (bypass as bs N) kNullIndex (as @ bs) kNullIndex"
proof -
  have valid: "\<forall>y \<in> set (as @ bs). unat y < length N" using dll_valid [OF da] dll_valid [OF db] by auto
  note node = node_at_bypass [OF valid]
  have dis: "y \<in> set as \<Longrightarrow> y \<notin> set bs" for y using d by auto
  have "node_at (bypass as bs N) y = (if y = last as then (node_at N y)\<lparr>n_next := hd (bs @ [kNullIndex])\<rparr> else node_at N y)" if "y \<in> set as" for y
    using that dis [OF that] node by auto
  then have "dll (bypass as bs N) kNullIndex as (hd (bs @ [kNullIndex]))"
    by (intro dll_relink_end [OF da]) (use d in simp_all)
  moreover have "node_at (bypass as bs N) y = (if y = hd bs then (node_at N y)\<lparr>n_prev := last (kNullIndex # as)\<rparr> else node_at N y)" if "y \<in> set bs" for y
    using that dis node by auto
  then have "dll (bypass as bs N) (last (kNullIndex # as)) bs kNullIndex"
    by (intro dll_relink_front [OF db]) (use d in simp_all)
  ultimately show ?thesis by (simp add: dll_append)
qed

lemma level_unlink_eq:
  assumes links: "level_links (p_nodes p) lv (as @ x # bs)" and small: "length (p_nodes p) \<le> unat kNullIndex"
  shows "level_unlink lv p x = Some (lv\<lparr>l_head := hd ((as @ bs) @ [kNullIndex]), l_tail := last (kNullIndex # as @ bs),
     l_order_count := l_order_count lv - 1\<rparr>, p\<lparr>p_nodes := bypass as bs (p_nodes p)\<rparr>)"
proof -
  let ?N = "p_nodes p" and ?a = "last (kNullIndex # as)" and ?b = "hd (bs @ [kNullIndex])"
  have d: "distinct (as @ x # bs)" and da: "dll ?N kNullIndex as x" and db: "dll ?N x bs kNullIndex"
    and x: "unat x < length ?N" "n_prev (node_at ?N x) = ?a" "n_next (node_at ?N x) = ?b"
    and hd: "l_head lv = hd ((as @ x # bs) @ [kNullIndex])" and tl: "l_tail lv = last (kNullIndex # as @ x # bs)"
    using links by (simp_all add: level_links_def dll_append)
  have a: "unat ?a < length ?N" "?a \<noteq> kNullIndex" "?a \<in> set as" if "as \<noteq> []"
    using that dll_valid [OF da, of ?a] valid_not_null [OF _ small] by auto
  have b: "unat ?b < length ?N" "?b \<noteq> kNullIndex" "?b \<in> set bs" if "bs \<noteq> []"
    using that dll_valid [OF db, of ?b] valid_not_null [OF _ small] by auto
  have null: "?a = kNullIndex \<longleftrightarrow> as = []" "?b = kNullIndex \<longleftrightarrow> bs = []" using a b by (auto, cases bs, auto)
  have "\<forall>y \<in> set (as @ bs). unat y < length ?N" using dll_valid [OF da] dll_valid [OF db] by auto
  note node = node_at_bypass(1) [OF this]
  let ?lv1 = "lv\<lparr>l_head := hd ((as @ bs) @ [kNullIndex])\<rparr>"
  have step1: "unlink_prev lv p (node_at ?N x) = Some (?lv1, p\<lparr>p_nodes := bypass_left as bs ?N\<rparr>)"
    using a null x hd by (cases as) (auto simp: unlink_prev_def pool_get_def pool_set_def ub_simps bypass_left_def)
  have "node_at (bypass_left as bs ?N) x = node_at ?N x" using node d by auto
  moreover have "unlink_next ?lv1 (p\<lparr>p_nodes := bypass_left as bs ?N\<rparr>) (node_at ?N x)
      = Some (?lv1\<lparr>l_tail := last (kNullIndex # as @ bs)\<rparr>, p\<lparr>p_nodes := bypass as bs ?N\<rparr>)"
  proof (cases "bs = []")
    case True
    then show ?thesis using x null by (simp add: unlink_next_def bypass_def)
  next
    case False
    moreover have "?b \<notin> set as" using d b(3) [OF False] by auto
    then have "node_at (bypass_left as bs ?N) ?b = node_at ?N ?b" using node by auto
    ultimately show ?thesis using x null b tl by (simp add: unlink_next_def bypass_def pool_get_def pool_set_def ub_simps)
  qed
  ultimately show ?thesis using step1 x by (simp add: level_unlink_def pool_get_def ub_simps)
qed

lemma level_unlink_correct:
  assumes links: "level_links (p_nodes p) lv (as @ x # bs)" and small: "length (p_nodes p) \<le> unat kNullIndex"
  shows "\<exists>lv' N'. level_unlink lv p x = Some (lv', p\<lparr>p_nodes := N'\<rparr>) \<and> level_links N' lv' (as @ bs)
     \<and> l_price lv' = l_price lv \<and> l_total_quantity lv' = l_total_quantity lv \<and> length N' = length (p_nodes p)
     \<and> (\<forall>y. ord_at N' y = ord_at (p_nodes p) y) \<and> (\<forall>y. y \<notin> set (as @ bs) \<longrightarrow> node_at N' y = node_at (p_nodes p) y)"
proof -
  let ?lv = "lv\<lparr>l_head := hd ((as @ bs) @ [kNullIndex]), l_tail := last (kNullIndex # as @ bs), l_order_count := l_order_count lv - 1\<rparr>"
  have d: "distinct (as @ x # bs)" and da: "dll (p_nodes p) kNullIndex as x" and db: "dll (p_nodes p) x bs kNullIndex"
    and cnt: "l_order_count lv = word_of_nat (length (as @ x # bs))"
    using links by (simp_all add: level_links_def dll_append)
  have "\<forall>y \<in> set (as @ bs). unat y < length (p_nodes p)" using dll_valid [OF da] dll_valid [OF db] by auto
  note node = node_at_bypass [OF this]
  have "level_links (bypass as bs (p_nodes p)) ?lv (as @ bs)"
    using bypass_dll [OF da db d] d cnt by (simp add: level_links_def)
  moreover have "ord_at (bypass as bs (p_nodes p)) y = ord_at (p_nodes p) y" for y by (simp add: node)
  moreover have "node_at (bypass as bs (p_nodes p)) y = node_at (p_nodes p) y" if "y \<notin> set (as @ bs)" for y using that node by auto
  ultimately show ?thesis using level_unlink_eq [OF links small] by (intro exI [of _ ?lv] exI [of _ "bypass as bs (p_nodes p)"]) simp
qed

text \<open>\<open>set_rem N x r\<close>: the pool with the remaining quantity of slot \<open>x\<close> set to \<open>r\<close>.\<close>

definition set_rem :: "OrderNode list \<Rightarrow> u32 \<Rightarrow> Quantity \<Rightarrow> OrderNode list" where
  "set_rem N x r = N[unat x := (node_at N x)\<lparr>n_order := (ord_at N x)\<lparr>o_remaining_quantity := r\<rparr>\<rparr>]"

lemma length_set_rem [simp]: "length (set_rem N x r) = length N"
  by (simp add: set_rem_def)

lemma node_at_set_rem:
  "unat x < length N \<Longrightarrow> node_at (set_rem N x r) y =
    (if y = x then (node_at N x)\<lparr>n_order := (ord_at N x)\<lparr>o_remaining_quantity := r\<rparr>\<rparr> else node_at N y)"
  by (simp add: set_rem_def)

lemma dll_set_rem:
  assumes "unat x < length N" "dll N a xs b"
  shows "dll (set_rem N x r) a xs b"
  using assms by (induction xs arbitrary: a) (auto simp: node_at_set_rem)

lemma sum_rem_set_rem:
  assumes "unat x < length N" "distinct xs"
  shows "(\<Sum>y\<leftarrow>xs. rem_at (set_rem N x r) y) = (\<Sum>y\<leftarrow>xs. rem_at N y) + (if x \<in> set xs then r - rem_at N x else 0)"
  using assms by (induction xs) (auto simp: node_at_set_rem)

lemma level_reduce_quantity_correct:
  assumes links: "level_links (p_nodes p) lv xs" and x: "x \<in> set xs"
    and fits: "in_i64 (rem_at (p_nodes p) x - q)" "in_i64 (l_total_quantity lv - q)"
  shows "level_reduce_quantity lv p x q = Some (lv\<lparr>l_total_quantity := l_total_quantity lv - q\<rparr>,
      p\<lparr>p_nodes := set_rem (p_nodes p) x (rem_at (p_nodes p) x - q)\<rparr>)"
    and "level_links (set_rem (p_nodes p) x (rem_at (p_nodes p) x - q))
      (lv\<lparr>l_total_quantity := l_total_quantity lv - q\<rparr>) xs"
    and "level_rep (p_nodes p) lv xs \<Longrightarrow> level_rep (set_rem (p_nodes p) x (rem_at (p_nodes p) x - q))
      (lv\<lparr>l_total_quantity := l_total_quantity lv - q\<rparr>) xs"
proof -
  let ?N = "p_nodes p" and ?lv = "lv\<lparr>l_total_quantity := l_total_quantity lv - q\<rparr>"
  have v: "unat x < length ?N" using links x dll_valid by (auto simp: level_links_def)
  then show "level_reduce_quantity lv p x q = Some (?lv, p\<lparr>p_nodes := set_rem ?N x (rem_at ?N x - q)\<rparr>)"
    using fits by (simp add: level_reduce_quantity_def pool_get_def pool_set_def ub_simps set_rem_def)
  show lk: "level_links (set_rem ?N x (rem_at ?N x - q)) ?lv xs"
    using links v by (simp add: level_links_def dll_set_rem)
  show "level_rep (set_rem ?N x (rem_at ?N x - q)) ?lv xs" if "level_rep ?N lv xs"
    using that lk x v sum_rem_set_rem [OF v, of xs]
    by (simp add: level_rep_def level_links_def)
qed

section \<open>The pool's promises\<close>

text \<open>
  The states of a pool under a client that keeps to the contract: it starts empty with any capacity hint, takes
  a slot while fewer than \<open>kNullIndex\<close> are out, writes any node, gives back only slots it holds, and may reset
  the pool.  \<open>L\<close> is the set of slots the client holds.
\<close>

inductive pool_session :: "nat \<Rightarrow> OrderPool \<Rightarrow> u32 set \<Rightarrow> bool" for hint :: nat where
  pool_start: "pool_session hint (pool_new hint) {}"
| pool_take: "pool_session hint p L \<Longrightarrow> card L < unat kNullIndex \<Longrightarrow> acquire p ord = Some (x, p')
    \<Longrightarrow> pool_session hint p' (insert x L)"
| pool_write: "pool_session hint p L \<Longrightarrow> pool_set p x nd = Some p' \<Longrightarrow> pool_session hint p' L"
| pool_give: "pool_session hint p L \<Longrightarrow> x \<in> L \<Longrightarrow> release p x = Some p' \<Longrightarrow> pool_session hint p' (L - {x})"
| pool_restart: "pool_session hint p L \<Longrightarrow> pool_session hint (pool_reset p) {}"

definition live_slots :: "OrderPool \<Rightarrow> u32 set" where
  "live_slots p = {x. unat x < length (p_nodes p)} - set (p_free_list p)"

lemma live_count_slots:
  assumes "pool_ok p"
  shows "live_count p = card (live_slots p)"
proof -
  have "{..<length (p_nodes p)} \<subseteq> unat ` {x :: u32. unat x < length (p_nodes p)}"
  proof
    fix n assume n: "n \<in> {..<length (p_nodes p)}"
    then have "unat (word_of_nat n :: u32) = n"
      using assms by (intro unat_word_of_nat_small) (auto simp: pool_ok_def)
    with n show "n \<in> unat ` {x :: u32. unat x < length (p_nodes p)}"
      by (intro image_eqI [of _ _ "word_of_nat n"]) simp_all
  qed
  then have "unat ` {x :: u32. unat x < length (p_nodes p)} = {..<length (p_nodes p)}" by auto
  then have "card {x :: u32. unat x < length (p_nodes p)} = length (p_nodes p)"
    using card_image [of "unat :: u32 \<Rightarrow> nat" "{x. unat x < length (p_nodes p)}"] by (simp add: inj_on_def)
  then show ?thesis
    using assms by (subst live_slots_def, subst card_Diff_subset) (auto simp: pool_ok_def live_count_def distinct_card)
qed

lemma live_room:
  assumes "pool_ok p" "card (live_slots p) < unat kNullIndex"
  shows "pool_room p"
  using assms live_count_slots [OF assms(1)] by (auto simp: pool_room_def live_count_def)

lemma session_pool_ok: "pool_session hint p L \<Longrightarrow> pool_ok p \<and> live_slots p = L"
proof (induction rule: pool_session.induct)
  case pool_start
  then show ?case using pool_new_ok by (auto simp: live_slots_def)
next
  case (pool_take p L ord x p')
  then have "pool_room p" using live_room [of p] by blast
  with pool_take obtain p'' y where "acquire p ord = Some (y, p'')" "pool_ok p''"
    and "y \<in> set (p_free_list p) \<or> unat y = length (p_nodes p)" "y \<notin> set (p_free_list p'')"
    and "set (p_free_list p'') = set (p_free_list p) - {y}"
    and "unat y < length (p_nodes p'')" "length (p_nodes p'') = max (length (p_nodes p)) (Suc (unat y))"
    using acquire_correct [of p ord] by metis
  moreover have "\<forall>z \<in> set (p_free_list p). unat z < length (p_nodes p)" using pool_take by (simp add: pool_ok_def)
  ultimately show ?case
    using pool_take unat_eq_word [of _ y] by (auto simp: live_slots_def less_max_iff_disj less_Suc_eq simp del: unat_eq_word)
next
  case (pool_write p L x nd p')
  then show ?case by (auto simp: pool_set_def vset_def live_slots_def pool_ok_def split: if_splits)
next
  case (pool_give p L x p')
  then show ?case using release_correct [of p x] by (auto simp: live_slots_def)
next
  case (pool_restart p L)
  then show ?case using pool_reset_ok by (auto simp: live_slots_def)
qed

text \<open>
  C20.  In every session on a pool, whatever its capacity hint: the number of live slots is the number the client
  holds.  Releasing any held slot succeeds without reallocating either vector, as its \<open>noexcept\<close> promises, keeps
  every node, and the released slot is the one handed out next, again without reallocating.  As long as fewer
  than \<open>kNullIndex\<close> slots are held an acquire succeeds with a slot nobody holds, whose node carries exactly the
  order with null links, and every held node keeps its content.
\<close>

theorem release_never_allocates:
  assumes "pool_session hint p L"
  shows "live_count p = card L
    \<and> (\<forall>x. x \<in> L \<longrightarrow> (\<exists>p'. release p x = Some p' \<and> p_nodes p' = p_nodes p
        \<and> p_free_cap p' = p_free_cap p \<and> p_nodes_cap p' = p_nodes_cap p
        \<and> (\<exists>p''. acquire p' ord = Some (x, p'') \<and> p_free_cap p'' = p_free_cap p \<and> p_nodes_cap p'' = p_nodes_cap p)))
    \<and> (card L < unat kNullIndex \<longrightarrow> (\<exists>y p'. acquire p ord = Some (y, p') \<and> y \<notin> L
        \<and> pool_get p' y = Some (fresh_node ord) \<and> (\<forall>z. z \<in> L \<longrightarrow> pool_get p' z = pool_get p z)))"
proof (intro conjI allI impI)
  have ok: "pool_ok p" and L: "live_slots p = L" using session_pool_ok [OF assms] by simp_all
  show "live_count p = card L" using live_count_slots [OF ok] L by simp
  show "\<exists>p'. release p x = Some p' \<and> p_nodes p' = p_nodes p
      \<and> p_free_cap p' = p_free_cap p \<and> p_nodes_cap p' = p_nodes_cap p
      \<and> (\<exists>p''. acquire p' ord = Some (x, p'') \<and> p_free_cap p'' = p_free_cap p \<and> p_nodes_cap p'' = p_nodes_cap p)" if "x \<in> L" for x
  proof -
    have x: "unat x < length (p_nodes p)" "x \<notin> set (p_free_list p)" using that L by (auto simp: live_slots_def)
    note rel = release_correct [OF ok x]
    show ?thesis using rel(1) acquire_reuse [OF rel(2)] by simp
  qed
  show "\<exists>y p'. acquire p ord = Some (y, p') \<and> y \<notin> L
      \<and> pool_get p' y = Some (fresh_node ord) \<and> (\<forall>z. z \<in> L \<longrightarrow> pool_get p' z = pool_get p z)" if "card L < unat kNullIndex"
  proof -
    have "pool_room p" using live_room ok L that by blast
    with ok obtain y p' where "acquire p ord = Some (y, p')"
      and "y \<in> set (p_free_list p) \<or> unat y = length (p_nodes p)"
      and "unat y < length (p_nodes p')" "length (p_nodes p') = max (length (p_nodes p)) (Suc (unat y))"
      and "node_at (p_nodes p') y = fresh_node ord"
      and "\<And>z. unat z < length (p_nodes p) \<Longrightarrow> z \<noteq> y \<Longrightarrow> node_at (p_nodes p') z = node_at (p_nodes p) z"
      using acquire_correct [of p ord] by metis
    moreover from this have "y \<notin> L" using L by (auto simp: live_slots_def)
    ultimately show ?thesis using L by (auto simp: pool_get_def vget_def live_slots_def)
  qed
qed

definition sample_order :: Order where
  "sample_order = \<lparr>o_id = 1, o_price = 100, o_quantity = 5, o_remaining_quantity = 5, o_timestamp = 0, o_symbol = 1,
     o_participant_id = 0, o_side = Buy, o_type = Limit, o_time_in_force = GTC\<rparr>"

text \<open>Two orders in a pool built with hint 0: both vectors have grown to 2 by the time a slot is released.\<close>

definition grown_pool :: OrderPool where
  "grown_pool = \<lparr>p_nodes = [fresh_node sample_order, fresh_node sample_order], p_nodes_cap = 2, p_free_list = [], p_free_cap = 2\<rparr>"

theorem release_never_allocates_witness:
  "pool_session 0 grown_pool {0, 1} \<and> live_count grown_pool = 2
   \<and> (\<exists>p' p''. release grown_pool 0 = Some p' \<and> p_free_cap p' = 2 \<and> p_nodes_cap p' = 2 \<and> acquire p' sample_order = Some (0, p''))
   \<and> (\<exists>y p'. acquire grown_pool sample_order = Some (y, p') \<and> y \<notin> {0, 1} \<and> pool_get p' y = Some (fresh_node sample_order))"
proof -
  let ?one = "\<lparr>p_nodes = [fresh_node sample_order], p_nodes_cap = 1, p_free_list = [], p_free_cap = 1\<rparr>"
  have "acquire (pool_new 0) sample_order = Some (0, ?one)" "acquire ?one sample_order = Some (1, grown_pool)"
    by (simp_all add: acquire_def pool_new_def push_capacity_def grown_pool_def fresh_node_def Let_def)
  moreover have "card ({} :: u32 set) < unat kNullIndex" "card {0 :: u32} < unat kNullIndex"
    by (simp_all add: unat_null)
  ultimately have s: "pool_session 0 grown_pool (insert 1 {0})"
    using pool_take [OF pool_take [OF pool_start [of 0]], of sample_order 0 ?one sample_order 1 grown_pool] by simp
  have c: "p_free_cap grown_pool = 2" "p_nodes_cap grown_pool = 2" by (simp_all add: grown_pool_def)
  note t = release_never_allocates [OF s, of sample_order, unfolded c, simplified]
  show ?thesis using s t by (auto simp: insert_commute unat_null)
qed

text \<open>
  C21.  The intrusive list of a level is a queue: pushing appends at the tail and keeps the level's total, and
  any order, wherever it stands, can be unlinked and leaves the others in their order.
\<close>

theorem level_queue_operations:
  assumes "level_rep (p_nodes p) lv xs" "unat x < length (p_nodes p)" "x \<notin> set xs" "length (p_nodes p) \<le> unat kNullIndex"
    and "in_i64 (l_total_quantity lv + rem_at (p_nodes p) x)"
  shows "\<exists>lv1 p1. level_push_back lv p x = Some (lv1, p1) \<and> level_rep (p_nodes p1) lv1 (xs @ [x])
    \<and> (\<forall>as y bs. xs @ [x] = as @ y # bs \<longrightarrow> (\<exists>lv2 p2. level_unlink lv1 p1 y = Some (lv2, p2) \<and> level_links (p_nodes p2) lv2 (as @ bs)))"
proof -
  obtain lv1 N where push: "level_push_back lv p x = Some (lv1, p\<lparr>p_nodes := N\<rparr>)" "level_rep N lv1 (xs @ [x])" "length N = length (p_nodes p)"
    using level_push_back_correct [OF assms] by blast
  have "\<exists>lv2 p2. level_unlink lv1 (p\<lparr>p_nodes := N\<rparr>) y = Some (lv2, p2) \<and> level_links (p_nodes p2) lv2 (as @ bs)"
    if "xs @ [x] = as @ y # bs" for as y bs
  proof -
    have "level_links (p_nodes (p\<lparr>p_nodes := N\<rparr>)) lv1 (as @ y # bs)" using push(2) that by (simp add: level_rep_def)
    moreover have "length (p_nodes (p\<lparr>p_nodes := N\<rparr>)) \<le> unat kNullIndex" using push(3) assms(4) by simp
    ultimately show ?thesis using level_unlink_correct by fastforce
  qed
  with push show ?thesis by auto
qed

definition two_slots :: OrderPool where
  "two_slots = \<lparr>p_nodes = replicate 2 (fresh_node sample_order), p_nodes_cap = 2, p_free_list = [], p_free_cap = 2\<rparr>"

theorem level_queue_operations_witness:
  "\<exists>lv1 p1 lv2 p2. level_push_back empty_level two_slots 1 = Some (lv1, p1) \<and> level_rep (p_nodes p1) lv1 [1]
     \<and> level_unlink lv1 p1 1 = Some (lv2, p2) \<and> level_links (p_nodes p2) lv2 []"
proof -
  have "level_rep (p_nodes two_slots) empty_level []" using empty_level_rep [of _ 0] by (simp add: empty_level_def)
  moreover have "unat (1 :: u32) < length (p_nodes two_slots)" "length (p_nodes two_slots) \<le> unat kNullIndex"
    "in_i64 (l_total_quantity empty_level + rem_at (p_nodes two_slots) 1)"
    by (simp_all add: two_slots_def sample_order_def empty_level_def fresh_node_def unat_null in_i64_def i64_max_def)
  ultimately show ?thesis using level_queue_operations [of two_slots empty_level "[]" 1] by fastforce
qed

end
