(* ===== verification/Id_Index_Map.thy ===== *)
theory Id_Index_Map
  imports Core_Types
begin

text \<open>
  \<open>include/lightninglob/id_index_map.hpp\<close>: the open-addressing hash map from \<open>OrderId\<close> to pool
  index with Fibonacci hashing, linear probing and backward-shift deletion.

  The table is a list of slots, an empty slot has key \<open>kInvalidOrderId\<close>.  The probe loops may run
  forever on a full table, so they are \<open>partial_function (option)\<close>s; under the invariant
  \<open>id_inv\<close> they are shown to return.  \<open>id_lookup\<close> is the finite map a table stands for, and the
  locale \<open>id_store\<close> is the contract the order books rely on.
\<close>

section \<open>Model\<close>

record Slot =
  s_key :: OrderId
  s_value :: u32

definition empty_slot :: Slot where
  "empty_slot = \<lparr>s_key = kInvalidOrderId, s_value = 0\<rparr>"

record IdIndexMap =
  im_slots :: "Slot list"
  im_size :: nat
  im_shift :: nat

definition kMinCapacity :: nat where
  "kMinCapacity = 16"

definition kFibonacciMul :: u64 where
  "kFibonacciMul = 0x9E3779B97F4A7C15"

definition id_mask :: "IdIndexMap \<Rightarrow> nat" where
  "id_mask m = length (im_slots m) - 1"

definition slot_for :: "IdIndexMap \<Rightarrow> OrderId \<Rightarrow> nat" where
  "slot_for m key = unat (drop_bit (im_shift m) (key * kFibonacciMul))"

definition allocate :: "nat \<Rightarrow> IdIndexMap \<Rightarrow> IdIndexMap" where
  "allocate cap m = m\<lparr>im_slots := replicate cap empty_slot, im_shift := 64 - countr_zero (of_nat cap)\<rparr>"

text \<open>The constructor's loop: double the capacity until it is at least twice the hint.\<close>

function fit_capacity :: "nat \<Rightarrow> nat \<Rightarrow> nat" where
  "fit_capacity hint cap = (if 0 < cap \<and> cap < hint * 2 then fit_capacity hint (cap * 2) else cap)"
  by pat_completeness auto
termination
  by (relation "measure (\<lambda>(hint, cap). hint * 2 - cap)") auto

definition id_new :: "nat \<Rightarrow> IdIndexMap" where
  "id_new capacity_hint =
     allocate (fit_capacity capacity_hint kMinCapacity) \<lparr>im_slots = [], im_size = 0, im_shift = 64 - 4\<rparr>"

text \<open>
  The probe loop shared by \<open>insert\<close>, \<open>find\<close> and \<open>erase\<close>: walk from \<open>idx\<close> until a slot is empty or
  holds the key.
\<close>

partial_function (option) probe :: "IdIndexMap \<Rightarrow> OrderId \<Rightarrow> nat \<Rightarrow> nat option" where
  "probe m key idx = do {
     s \<leftarrow> vget (im_slots m) idx;
     if s_key s \<noteq> kInvalidOrderId \<and> s_key s \<noteq> key then probe m key ((idx + 1) AND id_mask m)
     else Some idx }"

definition id_find :: "IdIndexMap \<Rightarrow> OrderId \<Rightarrow> u32 option option" where
  "id_find m key = do {
     idx \<leftarrow> probe m key (slot_for m key);
     s \<leftarrow> vget (im_slots m) idx;
     Some (if s_key s \<noteq> kInvalidOrderId then Some (s_value s) else None) }"

definition id_contains :: "IdIndexMap \<Rightarrow> OrderId \<Rightarrow> bool option" where
  "id_contains m key = do {
     r \<leftarrow> id_find m key;
     Some (r \<noteq> None) }"

text \<open>
  \<open>insert\<close>, with \<open>grow()\<close> at its only call site: the old slots are moved out, a table of twice
  the size is allocated, and every occupied slot is inserted again.
\<close>

partial_function (option) id_insert :: "IdIndexMap \<Rightarrow> OrderId \<Rightarrow> u32 \<Rightarrow> (bool \<times> IdIndexMap) option" where
  "id_insert m key v = do {
     oassert (key \<noteq> kInvalidOrderId);
     m \<leftarrow> (if (im_size m + 1) * 2 > length (im_slots m)
       then foldM (\<lambda>s m'. if s_key s \<noteq> kInvalidOrderId
                     then Option.bind (id_insert m' (s_key s) (s_value s)) (\<lambda>r. Some (snd r)) else Some m')
              (im_slots m) ((allocate (length (im_slots m) * 2) m)\<lparr>im_size := 0\<rparr>)
       else Some m);
     idx \<leftarrow> probe m key (slot_for m key);
     s \<leftarrow> vget (im_slots m) idx;
     if s_key s \<noteq> kInvalidOrderId then Some (False, m)
     else do {
       sl \<leftarrow> vset (im_slots m) idx \<lparr>s_key = key, s_value = v\<rparr>;
       Some (True, m\<lparr>im_slots := sl, im_size := im_size m + 1\<rparr>) } }"

text \<open>\<open>grow()\<close> on its own, as \<open>id_insert\<close> runs it.\<close>

definition grow :: "IdIndexMap \<Rightarrow> IdIndexMap option" where
  "grow m = foldM (\<lambda>s m'. if s_key s \<noteq> kInvalidOrderId
                     then Option.bind (id_insert m' (s_key s) (s_value s)) (\<lambda>r. Some (snd r)) else Some m')
              (im_slots m) ((allocate (length (im_slots m) * 2) m)\<lparr>im_size := 0\<rparr>)"

definition r_between_i_and_j :: "nat \<Rightarrow> nat \<Rightarrow> nat \<Rightarrow> bool" where
  "r_between_i_and_j i j r = (if i \<le> j then i < r \<and> r \<le> j else i < r \<or> r \<le> j)"

text \<open>The repair loop of \<open>erase\<close>: \<open>i\<close> is the hole, \<open>j\<close> the slot looked at last.\<close>

partial_function (option) backshift :: "IdIndexMap \<Rightarrow> nat \<Rightarrow> nat \<Rightarrow> IdIndexMap option" where
  "backshift m i j = do {
     let j = (j + 1) AND id_mask m;
     s \<leftarrow> vget (im_slots m) j;
     if s_key s = kInvalidOrderId then Some m
     else if r_between_i_and_j i j (slot_for m (s_key s)) then backshift m i j
     else do {
       sl \<leftarrow> vset (im_slots m) i s;
       sl \<leftarrow> vset sl j empty_slot;
       backshift (m\<lparr>im_slots := sl\<rparr>) j j } }"

definition id_erase :: "IdIndexMap \<Rightarrow> OrderId \<Rightarrow> (bool \<times> IdIndexMap) option" where
  "id_erase m key = do {
     i \<leftarrow> probe m key (slot_for m key);
     s \<leftarrow> vget (im_slots m) i;
     if s_key s = kInvalidOrderId then Some (False, m)
     else do {
       sl \<leftarrow> vset (im_slots m) i empty_slot;
       m \<leftarrow> backshift (m\<lparr>im_slots := sl, im_size := im_size m - 1\<rparr>) i i;
       Some (True, m) } }"

definition id_clear :: "IdIndexMap \<Rightarrow> IdIndexMap" where
  "id_clear m = m\<lparr>im_slots := replicate (length (im_slots m)) empty_slot, im_size := 0\<rparr>"

definition id_size :: "IdIndexMap \<Rightarrow> nat" where
  "id_size m = im_size m"

definition id_capacity :: "IdIndexMap \<Rightarrow> nat" where
  "id_capacity m = length (im_slots m)"

declare fit_capacity.simps [simp del]

section \<open>What a table stands for\<close>

definition live :: "Slot list \<Rightarrow> OrderId list" where
  "live T = filter (\<lambda>k. k \<noteq> kInvalidOrderId) (map s_key T)"

definition table_lookup :: "Slot list \<Rightarrow> OrderId \<Rightarrow> u32 option" where
  "table_lookup T = map_of (map (\<lambda>s. (s_key s, s_value s)) (filter (\<lambda>s. s_key s \<noteq> kInvalidOrderId) T))"

definition id_lookup :: "IdIndexMap \<Rightarrow> OrderId \<Rightarrow> u32 option" where
  "id_lookup m = table_lookup (im_slots m)"

abbreviation occ :: "Slot list \<Rightarrow> nat \<Rightarrow> bool" where
  "occ T p \<equiv> s_key (T ! p) \<noteq> kInvalidOrderId"

text \<open>
  Every entry is reachable from its home slot: no slot before it in probe order is empty, except
  those in \<open>X\<close> (the hole while an entry is being erased).
\<close>

definition probe_ok :: "(OrderId \<Rightarrow> nat) \<Rightarrow> Slot list \<Rightarrow> nat set \<Rightarrow> bool" where
  "probe_ok h T X \<longleftrightarrow> (\<forall>p < length T. occ T p \<longrightarrow> (\<forall>q < length T. q \<notin> X \<longrightarrow>
     cyc_dist (length T) (h (s_key (T ! p))) q < cyc_dist (length T) (h (s_key (T ! p))) p \<longrightarrow> occ T q))"

definition empties_ok :: "Slot list \<Rightarrow> bool" where
  "empties_ok T \<longleftrightarrow> (\<forall>s \<in> set T. s_key s = kInvalidOrderId \<longrightarrow> s = empty_slot)"

definition id_inv :: "IdIndexMap \<Rightarrow> bool" where
  "id_inv m \<longleftrightarrow> (\<exists>k \<ge> 4. length (im_slots m) = 2 ^ k \<and> im_shift m = 64 - k)
     \<and> im_size m = length (live (im_slots m)) \<and> 2 * im_size m \<le> length (im_slots m)
     \<and> distinct (live (im_slots m)) \<and> probe_ok (slot_for m) (im_slots m) {} \<and> empties_ok (im_slots m)"

lemma probe_okD:
  "probe_ok h T X \<Longrightarrow> p < length T \<Longrightarrow> occ T p \<Longrightarrow> q < length T \<Longrightarrow> q \<notin> X \<Longrightarrow>
   cyc_dist (length T) (h (s_key (T ! p))) q < cyc_dist (length T) (h (s_key (T ! p))) p \<Longrightarrow> occ T q"
  unfolding probe_ok_def by blast

lemma empty_slot_key [simp]: "s_key empty_slot = kInvalidOrderId"
  by (simp add: empty_slot_def)

lemma slot_for_slots [simp]:
  "slot_for (m\<lparr>im_slots := T\<rparr>) = slot_for m" "slot_for (m\<lparr>im_size := z\<rparr>) = slot_for m"
  by (simp_all add: slot_for_def fun_eq_iff)

lemma live_append [simp]: "live (xs @ ys) = live xs @ live ys"
  by (simp add: live_def)

lemma live_Cons: "live (s # T) = (if s_key s = kInvalidOrderId then live T else s_key s # live T)"
  by (simp add: live_def)

lemma live_Nil [simp]: "live [] = []"
  by (simp add: live_def)

lemma live_replicate [simp]: "live (replicate n empty_slot) = []"
  by (simp add: live_def)

lemma in_live_iff: "k \<in> set (live T) \<longleftrightarrow> k \<noteq> kInvalidOrderId \<and> (\<exists>s \<in> set T. s_key s = k)"
  by (auto simp: live_def)

lemma zero_not_live [simp]: "0 \<notin> set (live T)"
  by (simp add: in_live_iff)

lemma nth_in_live: "p < length T \<Longrightarrow> occ T p \<Longrightarrow> s_key (T ! p) \<in> set (live T)"
  by (auto simp: in_live_iff)

lemma live_split:
  assumes "i < length T"
  shows "live T = live (take i T) @ live [T ! i] @ live (drop (Suc i) T)"
    and "live (T[i := s]) = live (take i T) @ live [s] @ live (drop (Suc i) T)"
proof -
  have "T = take i T @ [T ! i] @ drop (Suc i) T"
    using id_take_nth_drop [OF assms] by simp
  then show "live T = live (take i T) @ live [T ! i] @ live (drop (Suc i) T)"
    by (metis live_append)
  have "T[i := s] = take i T @ [s] @ drop (Suc i) T"
    using upd_conv_take_nth_drop [OF assms] by simp
  then show "live (T[i := s]) = live (take i T) @ live [s] @ live (drop (Suc i) T)"
    by (metis live_append)
qed

lemma length_live_le: "length (live T) \<le> length T"
  unfolding live_def by (rule le_trans [OF length_filter_le]) simp

lemma live_nth_unique:
  assumes "distinct (live T)" "p < length T" "q < length T" "occ T p" "s_key (T ! p) = s_key (T ! q)"
  shows "p = q"
proof (rule ccontr)
  assume "p \<noteq> q"
  define s where "s = T ! p"
  have "s_key (T ! q) \<in> set (live (T[p := empty_slot]))"
    using assms \<open>p \<noteq> q\<close> nth_in_live [of q "T[p := empty_slot]"] by simp
  moreover have "s_key s \<notin> set (live (T[p := empty_slot]))"
    using assms by (simp add: s_def live_split live_Cons)
  ultimately show False using assms(5) s_def by simp
qed

lemma mset_live: "mset (live T) = filter_mset (\<lambda>k. k \<noteq> kInvalidOrderId) (image_mset s_key (mset T))"
  by (simp add: live_def)

lemma distinct_live_mset: "mset T = mset T' \<Longrightarrow> distinct (live T) = distinct (live T')"
  by (rule mset_eq_imp_distinct_iff) (simp add: mset_live)

lemma length_live_mset: "mset T = mset T' \<Longrightarrow> length (live T) = length (live T')"
  by (rule mset_eq_length) (simp add: mset_live)

lemma table_lookup_iff:
  assumes "distinct (live T)"
  shows "table_lookup T k = Some v \<longleftrightarrow> k \<noteq> kInvalidOrderId \<and> \<lparr>s_key = k, s_value = v\<rparr> \<in> set T"
proof -
  let ?kv = "map (\<lambda>s. (s_key s, s_value s)) (filter (\<lambda>s. s_key s \<noteq> kInvalidOrderId) T)"
  have fst_kv: "map fst ?kv = live T"
    by (simp add: live_def filter_map comp_def)
  have "table_lookup T k = Some v \<longleftrightarrow> (k, v) \<in> set ?kv"
    unfolding table_lookup_def using assms fst_kv by (intro map_of_eq_Some_iff) simp
  also have "\<dots> \<longleftrightarrow> k \<noteq> kInvalidOrderId \<and> \<lparr>s_key = k, s_value = v\<rparr> \<in> set T"
    by (auto simp: image_iff) (metis Slot.surjective old.unit.exhaust)+
  finally show ?thesis .
qed

lemma table_lookup_None_iff:
  "table_lookup T k = None \<longleftrightarrow> k \<notin> set (live T)"
  by (force simp: table_lookup_def map_of_eq_None_iff live_def)

lemma dom_table_lookup: "dom (table_lookup T) = set (live T)"
  by (simp add: set_eq_iff domIff table_lookup_None_iff)

lemma table_lookup_eqI:
  assumes "distinct (live T)" "distinct (live T')"
    and "\<And>s. s_key s \<noteq> kInvalidOrderId \<Longrightarrow> s \<in> set T \<longleftrightarrow> s \<in> set T'"
  shows "table_lookup T = table_lookup T'"
proof
  fix k
  have "table_lookup T k = Some v \<longleftrightarrow> table_lookup T' k = Some v" for v
    using assms(3) [of "\<lparr>s_key = k, s_value = v\<rparr>"] by (simp add: table_lookup_iff assms(1,2)) blast
  then show "table_lookup T k = table_lookup T' k"
    by (metis not_Some_eq)
qed

section \<open>Probing\<close>

lemma slot_for_less:
  assumes "length (im_slots m) = 2 ^ k" "im_shift m = 64 - k"
  shows "slot_for m key < length (im_slots m)"
proof -
  let ?w = "key * kFibonacciMul"
  have "unat ?w < 2 ^ LENGTH(64)"
    by (rule unsigned_less)
  then have "unat ?w < 2 ^ 64" by simp
  moreover have "(2::nat) ^ 64 = 2 ^ (64 - min k 64) * 2 ^ min k 64"
    by (simp add: power_add [symmetric])
  moreover have "64 - k = 64 - min k 64" by simp
  ultimately have "unat ?w div 2 ^ (64 - k) < 2 ^ min k 64"
    by (metis div_less_iff_less_mult mult.commute zero_less_numeral zero_less_power)
  also have "\<dots> \<le> 2 ^ k" by (simp add: power_increasing)
  finally show ?thesis
    using assms by (simp add: slot_for_def unat_drop_bit_eq drop_bit_nat_def)
qed

lemma id_invD:
  assumes "id_inv m"
  obtains k where "4 \<le> k" "length (im_slots m) = 2 ^ k" "im_shift m = 64 - k"
    and "im_size m = length (live (im_slots m))" "2 * im_size m \<le> length (im_slots m)"
    and "distinct (live (im_slots m))" "probe_ok (slot_for m) (im_slots m) {}"
    and "empties_ok (im_slots m)"
  using assms unfolding id_inv_def by blast

lemma id_inv_home: "id_inv m \<Longrightarrow> slot_for m key < length (im_slots m)"
  by (erule id_invD) (rule slot_for_less)

lemma id_inv_has_empty:
  assumes "id_inv m"
  obtains e where "e < length (im_slots m)" "\<not> occ (im_slots m) e"
proof -
  obtain k where k: "length (im_slots m) = 2 ^ k" "2 * length (live (im_slots m)) \<le> length (im_slots m)"
    using assms by (metis id_invD)
  have "\<exists>e < length (im_slots m). \<not> occ (im_slots m) e"
  proof (rule ccontr)
    assume "\<not> ?thesis"
    then have "live (im_slots m) = map s_key (im_slots m)"
      by (auto simp: live_def filter_id_conv all_set_conv_all_nth)
    with k show False by simp
  qed
  then show thesis using that by blast
qed

lemma probe_returns:
  assumes len: "length (im_slots m) = 2 ^ k"
    and e: "e < length (im_slots m)" "\<not> occ (im_slots m) e" and "idx < length (im_slots m)"
  shows "\<exists>i < length (im_slots m). probe m key idx = Some i
     \<and> (occ (im_slots m) i \<longrightarrow> s_key (im_slots m ! i) = key)
     \<and> (\<forall>q < length (im_slots m). cyc_dist (length (im_slots m)) idx q < cyc_dist (length (im_slots m)) idx i
          \<longrightarrow> occ (im_slots m) q \<and> s_key (im_slots m ! q) \<noteq> key)"
  using assms(4)
proof (induction "cyc_dist (length (im_slots m)) idx e" arbitrary: idx rule: less_induct)
  case less
  let ?T = "im_slots m" and ?n = "length (im_slots m)"
  show ?case
  proof (cases "occ ?T idx \<and> s_key (?T ! idx) \<noteq> key")
    case False
    then have "probe m key idx = Some idx"
      using less.prems by (subst probe.simps) (auto simp: ub_simps)
    with False less.prems show ?thesis by auto
  next
    case True
    let ?nx = "cyc_next ?n idx"
    have step: "probe m key idx = probe m key ?nx"
      using True less.prems cyc_next_and [OF len less.prems]
      by (subst probe.simps) (simp add: ub_simps id_mask_def)
    have "idx \<noteq> e" using True e by blast
    then have "cyc_dist ?n ?nx e < cyc_dist ?n idx e"
      using cyc_dist_next_left [OF less.prems e(1)] by simp
    from less.hyps [OF this] less.prems obtain i where i: "i < ?n" "probe m key ?nx = Some i"
      "occ ?T i \<longrightarrow> s_key (?T ! i) = key"
      "\<And>q. q < ?n \<Longrightarrow> cyc_dist ?n ?nx q < cyc_dist ?n ?nx i \<Longrightarrow> occ ?T q \<and> s_key (?T ! q) \<noteq> key"
      by auto
    have "occ ?T q \<and> s_key (?T ! q) \<noteq> key" if "q < ?n" "cyc_dist ?n idx q < cyc_dist ?n idx i" for q
    proof (cases "q = idx")
      case False
      have "i \<noteq> idx" using that by auto
      then show ?thesis
        using that False i(4) [of q] cyc_dist_next_left [OF less.prems that(1)]
          cyc_dist_next_left [OF less.prems i(1)] by auto
    qed (use True in simp)
    then show ?thesis using i step by auto
  qed
qed

text \<open>The outcome of a probe for a key from its home slot.\<close>

lemma probe_home:
  assumes inv: "id_inv m"
  obtains i where "i < length (im_slots m)" "probe m key (slot_for m key) = Some i"
    and "occ (im_slots m) i \<Longrightarrow> s_key (im_slots m ! i) = key"
    and "\<not> occ (im_slots m) i \<Longrightarrow> key \<notin> set (live (im_slots m))"
    and "\<And>q. q < length (im_slots m) \<Longrightarrow>
      cyc_dist (length (im_slots m)) (slot_for m key) q < cyc_dist (length (im_slots m)) (slot_for m key) i
      \<Longrightarrow> occ (im_slots m) q"
proof -
  let ?T = "im_slots m" and ?n = "length (im_slots m)" and ?r = "slot_for m key"
  obtain k where k: "?n = 2 ^ k" and ok: "probe_ok (slot_for m) ?T {}"
    using inv by (metis id_invD)
  obtain e where "e < ?n" "\<not> occ ?T e" by (rule id_inv_has_empty [OF inv])
  from probe_returns [OF k this id_inv_home [OF inv]] obtain i where i: "i < ?n"
    "probe m key ?r = Some i" "occ ?T i \<longrightarrow> s_key (?T ! i) = key"
    and before: "\<forall>q < ?n. cyc_dist ?n ?r q < cyc_dist ?n ?r i \<longrightarrow> occ ?T q \<and> s_key (?T ! q) \<noteq> key"
    by blast
  have "key \<notin> set (live ?T)" if "\<not> occ ?T i"
  proof
    assume "key \<in> set (live ?T)"
    then obtain p where p: "p < ?n" "s_key (?T ! p) = key" "occ ?T p"
      by (metis in_live_iff in_set_conv_nth)
    have "\<not> cyc_dist ?n ?r i < cyc_dist ?n ?r p"
      using ok p i(1) that unfolding probe_ok_def by blast
    moreover have "\<not> cyc_dist ?n ?r p < cyc_dist ?n ?r i"
      using before p by blast
    moreover have "i \<noteq> p" using p that by auto
    ultimately show False
      using cyc_dist_inj [OF id_inv_home [OF inv] i(1) p(1)] by (meson nat_neq_iff)
  qed
  with i before show thesis using that by blast
qed

theorem id_find_lookup:
  assumes "id_inv m"
  shows "id_find m key = Some (id_lookup m key)"
proof -
  let ?T = "im_slots m"
  obtain i where i: "i < length ?T" "probe m key (slot_for m key) = Some i"
    "occ ?T i \<Longrightarrow> s_key (?T ! i) = key" "\<not> occ ?T i \<Longrightarrow> key \<notin> set (live ?T)"
    using probe_home [OF assms, of key] by blast
  have dl: "distinct (live ?T)" using assms by (metis id_invD)
  show ?thesis
  proof (cases "occ ?T i")
    case True
    then have "\<lparr>s_key = key, s_value = s_value (?T ! i)\<rparr> = ?T ! i"
      using i(3) by (cases "?T ! i") simp
    then have "\<lparr>s_key = key, s_value = s_value (?T ! i)\<rparr> \<in> set ?T"
      using nth_mem [OF i(1)] by (simp only:)
    then have "table_lookup ?T key = Some (s_value (?T ! i))"
      using True i(3) by (simp add: table_lookup_iff dl)
    with True i show ?thesis by (simp add: id_find_def ub_simps id_lookup_def)
  next
    case False
    then have "table_lookup ?T key = None"
      using i(4) by (simp add: table_lookup_None_iff)
    with False i show ?thesis by (simp add: id_find_def ub_simps id_lookup_def)
  qed
qed

section \<open>Insertion\<close>

definition put :: "IdIndexMap \<Rightarrow> OrderId \<Rightarrow> u32 \<Rightarrow> (bool \<times> IdIndexMap) option" where
  "put m key v = do {
     idx \<leftarrow> probe m key (slot_for m key);
     s \<leftarrow> vget (im_slots m) idx;
     if s_key s \<noteq> kInvalidOrderId then Some (False, m)
     else do {
       sl \<leftarrow> vset (im_slots m) idx \<lparr>s_key = key, s_value = v\<rparr>;
       Some (True, m\<lparr>im_slots := sl, im_size := im_size m + 1\<rparr>) } }"

lemma id_insert_unfold:
  "id_insert m key v = do {
     oassert (key \<noteq> kInvalidOrderId);
     m1 \<leftarrow> (if (im_size m + 1) * 2 > length (im_slots m) then grow m else Some m);
     put m1 key v }"
  unfolding grow_def put_def by (rule id_insert.simps)

text \<open>Writing a new key into an empty slot.\<close>

lemma fill_live:
  assumes "i < length T" "\<not> occ T i" "key \<noteq> kInvalidOrderId"
  shows "mset (live (T[i := \<lparr>s_key = key, s_value = v\<rparr>])) = add_mset key (mset (live T))"
  using assms by (simp add: live_split live_Cons)

lemma fill_distinct:
  assumes "i < length T" "\<not> occ T i" "key \<noteq> kInvalidOrderId" "key \<notin> set (live T)" "distinct (live T)"
  shows "distinct (live (T[i := \<lparr>s_key = key, s_value = v\<rparr>]))"
  using fill_live [OF assms(1-3)] assms(4,5) by (metis distinct.simps(2) mset.simps(2) mset_eq_imp_distinct_iff)

lemma fill_probe_ok:
  assumes i: "i < length T" and key: "key \<noteq> kInvalidOrderId" and ok: "probe_ok h T {}"
    and path: "\<And>q. q < length T \<Longrightarrow> cyc_dist (length T) (h key) q < cyc_dist (length T) (h key) i \<Longrightarrow> occ T q"
  shows "probe_ok h (T[i := \<lparr>s_key = key, s_value = v\<rparr>]) {}"
  unfolding probe_ok_def
proof (intro allI impI)
  let ?T = "T[i := \<lparr>s_key = key, s_value = v\<rparr>]"
  fix p q
  assume p: "p < length ?T" "occ ?T p" and q: "q < length ?T"
    and d: "cyc_dist (length ?T) (h (s_key (?T ! p))) q < cyc_dist (length ?T) (h (s_key (?T ! p))) p"
  have "occ T q"
  proof (cases "p = i")
    case True
    then show ?thesis using d i path q by simp
  next
    case False
    then show ?thesis using probe_okD [OF ok, of p q] p q d by simp
  qed
  then show "occ ?T q" using key i by (cases "q = i") auto
qed

lemma fill_lookup:
  assumes i: "i < length T" and empty: "\<not> occ T i" and key: "key \<noteq> kInvalidOrderId" and new: "key \<notin> set (live T)" and dl: "distinct (live T)"
  shows "table_lookup (T[i := \<lparr>s_key = key, s_value = v\<rparr>]) = (table_lookup T)(key \<mapsto> v)"
proof
  fix k'
  let ?s = "\<lparr>s_key = key, s_value = v\<rparr>"
  note dl' = fill_distinct [OF assms, of v]
  have "table_lookup (T[i := ?s]) k' = Some w \<longleftrightarrow> ((table_lookup T)(key \<mapsto> v)) k' = Some w" for w
  proof (cases "k' = key")
    case True
    have "\<lparr>s_key = key, s_value = w\<rparr> \<notin> set T" using new key by (force simp: in_live_iff)
    then have "\<lparr>s_key = key, s_value = w\<rparr> \<in> set (T[i := ?s]) \<longleftrightarrow> w = v"
      using set_update_subset_insert [of T i ?s] set_update_memI [OF i, of ?s] by auto
    with True key show ?thesis by (auto simp: table_lookup_iff dl')
  next
    case False
    have "\<lparr>s_key = k', s_value = w\<rparr> \<in> set (T[i := ?s]) \<longleftrightarrow> \<lparr>s_key = k', s_value = w\<rparr> \<in> set T" if "k' \<noteq> kInvalidOrderId"
      by (rule in_set_update_other) (use empty that False in \<open>auto dest: arg_cong [of _ _ s_key]\<close>)
    with False show ?thesis by (auto simp: table_lookup_iff dl dl')
  qed
  then show "table_lookup (T[i := ?s]) k' = ((table_lookup T)(key \<mapsto> v)) k'" by (metis not_Some_eq)
qed

lemma put_correct:
  assumes inv: "id_inv m" and key: "key \<noteq> kInvalidOrderId" and room: "(im_size m + 1) * 2 \<le> length (im_slots m)"
    and new: "id_lookup m key = None"
  shows "\<exists>m'. put m key v = Some (True, m') \<and> id_inv m' \<and> id_lookup m' = (id_lookup m)(key \<mapsto> v)
     \<and> im_size m' = Suc (im_size m) \<and> length (im_slots m') = length (im_slots m)"
proof -
  let ?T = "im_slots m" and ?r = "slot_for m key" and ?s = "\<lparr>s_key = key, s_value = v\<rparr>"
  obtain k where k: "4 \<le> k" "length ?T = 2 ^ k" "im_shift m = 64 - k"
    and sz: "im_size m = length (live ?T)" and dl: "distinct (live ?T)"
    and ok: "probe_ok (slot_for m) ?T {}" and em: "empties_ok ?T"
    by (rule id_invD [OF inv])
  obtain i where i: "i < length ?T" "probe m key ?r = Some i" "occ ?T i \<Longrightarrow> s_key (?T ! i) = key"
    "\<And>q. q < length ?T \<Longrightarrow> cyc_dist (length ?T) ?r q < cyc_dist (length ?T) ?r i \<Longrightarrow> occ ?T q"
    using probe_home [OF inv, of key] by blast
  have notin: "key \<notin> set (live ?T)" using new by (simp add: id_lookup_def table_lookup_None_iff)
  then have empty: "\<not> occ ?T i" using i(1,3) nth_in_live by metis
  let ?m' = "m\<lparr>im_slots := ?T[i := ?s], im_size := im_size m + 1\<rparr>"
  have put: "put m key v = Some (True, ?m')" using i(1,2) empty by (simp add: put_def ub_simps)
  have "empties_ok (?T[i := ?s])" using em key set_update_subset_insert [of ?T i ?s] unfolding empties_ok_def by auto
  moreover have "length (live (?T[i := ?s])) = Suc (length (live ?T))"
    using fill_live [OF i(1) empty key, of v] by (metis size_add_mset size_mset)
  ultimately have "id_inv ?m'"
    using k sz fill_distinct [OF i(1) empty key notin dl, of v] fill_probe_ok [OF i(1) key ok i(4), of v] room
    unfolding id_inv_def by auto
  then show ?thesis using put fill_lookup [OF i(1) empty key notin dl, of v] by (simp add: id_lookup_def)
qed

lemma put_duplicate:
  assumes inv: "id_inv m" and "id_lookup m key \<noteq> None"
  shows "put m key v = Some (False, m)"
proof -
  let ?T = "im_slots m"
  obtain i where i: "i < length ?T" "probe m key (slot_for m key) = Some i"
    "\<not> occ ?T i \<Longrightarrow> key \<notin> set (live ?T)"
    using probe_home [OF inv, of key] by blast
  then show ?thesis
    using assms(2) by (auto simp: put_def ub_simps id_lookup_def table_lookup_None_iff)
qed

section \<open>Growth\<close>

lemma countr_zero_power: "countr_zero (2 ^ k) = min k 64"
proof (cases "k < 64")
  case True
  have "bit (2 ^ k :: u64) i \<longleftrightarrow> i = k" if "i < 64" for i
    using that by (auto simp: bit_exp_iff possible_bit_def)
  then show ?thesis
    unfolding countr_zero_def using True by (simp add: takeWhile_upt_length [where i = k])
next
  case False
  then have "\<not> bit (2 ^ k :: u64) i" if "i < 64" for i
    using that by (simp add: bit_exp_iff possible_bit_def)
  then show ?thesis
    unfolding countr_zero_def using False takeWhile_upt_all [of 64] by simp
qed

lemma id_inv_allocate:
  assumes "4 \<le> k"
  shows "id_inv ((allocate (2 ^ k) m)\<lparr>im_size := 0\<rparr>)"
    and "id_lookup ((allocate (2 ^ k) m)\<lparr>im_size := 0\<rparr>) = Map.empty"
proof -
  have "probe_ok h (replicate n empty_slot) {}" for h n
    by (simp add: probe_ok_def)
  moreover have "(64::nat) - min k 64 = 64 - k" by simp
  ultimately show "id_inv ((allocate (2 ^ k) m)\<lparr>im_size := 0\<rparr>)"
    using assms by (auto simp: id_inv_def allocate_def countr_zero_power empties_ok_def)
  show "id_lookup ((allocate (2 ^ k) m)\<lparr>im_size := 0\<rparr>) = Map.empty"
    by (simp add: id_lookup_def table_lookup_def allocate_def)
qed

lemma id_insert_no_grow:
  assumes "id_inv m" "key \<noteq> kInvalidOrderId" "(im_size m + 1) * 2 \<le> length (im_slots m)"
  shows "id_insert m key v = put m key v"
  using assms by (simp add: id_insert_unfold)

lemma rehash_correct:
  assumes "id_inv m" "distinct (live S)" "set (live S) \<inter> dom (id_lookup m) = {}"
    and "(im_size m + length (live S)) * 2 \<le> length (im_slots m)"
  shows "\<exists>m'. foldM (\<lambda>s m'. if s_key s \<noteq> kInvalidOrderId
                then Option.bind (id_insert m' (s_key s) (s_value s)) (\<lambda>r. Some (snd r)) else Some m') S m
              = Some m'
     \<and> id_inv m' \<and> id_lookup m' = id_lookup m ++ table_lookup S
     \<and> im_size m' = im_size m + length (live S) \<and> length (im_slots m') = length (im_slots m)"
  using assms
proof (induction S arbitrary: m)
  case Nil
  then show ?case by (simp add: table_lookup_def)
next
  case (Cons s S)
  show ?case
  proof (cases "s_key s = kInvalidOrderId")
    case True
    then have "table_lookup (s # S) = table_lookup S" by (simp add: table_lookup_def)
    with True Cons show ?thesis by (simp add: live_Cons)
  next
    case False
    then have "id_lookup m (s_key s) = None" "(im_size m + 1) * 2 \<le> length (im_slots m)"
      using Cons.prems by (auto simp: live_Cons)
    from put_correct [OF Cons.prems(1) False this(2,1)] obtain m1 where m1:
      "put m (s_key s) (s_value s) = Some (True, m1)" "id_inv m1"
      "id_lookup m1 = (id_lookup m)(s_key s \<mapsto> s_value s)" "im_size m1 = Suc (im_size m)"
      "length (im_slots m1) = length (im_slots m)" by blast
    have ins: "id_insert m (s_key s) (s_value s) = Some (True, m1)"
      using id_insert_no_grow [OF Cons.prems(1) False] m1(1) \<open>(im_size m + 1) * 2 \<le> length (im_slots m)\<close>
      by simp
    have "set (live S) \<inter> dom (id_lookup m1) = {}"
      using Cons.prems(2,3) False by (auto simp: m1(3) live_Cons)
    moreover have "distinct (live S)" "(im_size m1 + length (live S)) * 2 \<le> length (im_slots m1)"
      using Cons.prems(2,4) False m1(4,5) by (auto simp: live_Cons)
    ultimately obtain m' where
      "foldM (\<lambda>s m'. if s_key s \<noteq> kInvalidOrderId
                then Option.bind (id_insert m' (s_key s) (s_value s)) (\<lambda>r. Some (snd r)) else Some m') S m1
              = Some m'" "id_inv m'" "id_lookup m' = id_lookup m1 ++ table_lookup S"
      "im_size m' = im_size m1 + length (live S)" "length (im_slots m') = length (im_slots m1)"
      using Cons.IH [OF m1(2)] by blast
    moreover have "id_lookup m1 ++ table_lookup S = id_lookup m ++ table_lookup (s # S)"
    proof -
      have "s_key s \<notin> dom (table_lookup S)"
        using Cons.prems(2) False by (simp add: dom_table_lookup live_Cons)
      moreover have "table_lookup (s # S) = (table_lookup S)(s_key s \<mapsto> s_value s)"
        using False by (simp add: table_lookup_def)
      ultimately show ?thesis
        by (simp add: m1(3) fun_eq_iff map_add_def domIff split: option.split)
    qed
    ultimately show ?thesis using ins False m1 by (simp add: live_Cons)
  qed
qed

lemma grow_correct:
  assumes inv: "id_inv m"
  shows "\<exists>m'. grow m = Some m' \<and> id_inv m' \<and> id_lookup m' = id_lookup m \<and> im_size m' = im_size m
     \<and> length (im_slots m') = 2 * length (im_slots m)"
proof -
  obtain k where k: "4 \<le> k" "length (im_slots m) = 2 ^ k"
    and sz: "im_size m = length (live (im_slots m))" "2 * im_size m \<le> length (im_slots m)"
    and dl: "distinct (live (im_slots m))"
    by (rule id_invD [OF inv])
  let ?m0 = "(allocate (2 ^ Suc k) m)\<lparr>im_size := 0\<rparr>"
  have "id_inv ?m0" "id_lookup ?m0 = Map.empty"
    using id_inv_allocate [of "Suc k" m] k by simp_all
  then show ?thesis
    using rehash_correct [of ?m0 "im_slots m"] dl sz k
    by (auto simp: grow_def id_lookup_def allocate_def mult.commute)
qed

theorem id_insert_new:
  assumes inv: "id_inv m" and key: "key \<noteq> kInvalidOrderId" and new: "id_lookup m key = None"
  shows "\<exists>m'. id_insert m key v = Some (True, m') \<and> id_inv m' \<and> id_lookup m' = (id_lookup m)(key \<mapsto> v)"
proof -
  obtain m1 where m1: "(if (im_size m + 1) * 2 > length (im_slots m) then grow m else Some m) = Some m1"
    "id_inv m1" "id_lookup m1 = id_lookup m" "(im_size m1 + 1) * 2 \<le> length (im_slots m1)"
  proof (cases "(im_size m + 1) * 2 > length (im_slots m)")
    case True
    obtain k where "4 \<le> k" "length (im_slots m) = 2 ^ k" "2 * im_size m \<le> length (im_slots m)"
      by (rule id_invD [OF inv])
    moreover from this have "(16::nat) \<le> 2 ^ k"
      using power_increasing [of 4 k "2::nat"] by simp
    ultimately show thesis using that grow_correct [OF inv] True by auto
  qed (use that inv in auto)
  with put_correct [OF m1(2) key m1(4)] new key show ?thesis
    by (auto simp: id_insert_unfold)
qed

theorem id_insert_dup:
  assumes inv: "id_inv m" and old: "id_lookup m key \<noteq> None"
  shows "\<exists>m'. id_insert m key v = Some (False, m') \<and> id_inv m' \<and> id_lookup m' = id_lookup m"
proof -
  have "key \<noteq> kInvalidOrderId"
    using old by (auto simp: id_lookup_def table_lookup_None_iff)
  then show ?thesis
    using grow_correct [OF inv] put_duplicate [OF inv] put_duplicate old inv
    by (auto simp: id_insert_unfold)
qed

section \<open>Backward-shift deletion\<close>

text \<open>
  The source's cyclic interval test decides whether the hole \<open>i\<close> lies on the probe path from the
  home \<open>r\<close> to the slot \<open>j\<close>.
\<close>

lemma r_between_iff:
  "i < n \<Longrightarrow> j < n \<Longrightarrow> r < n \<Longrightarrow> i \<noteq> j \<Longrightarrow>
   r_between_i_and_j i j r \<longleftrightarrow> \<not> cyc_dist n r i < cyc_dist n r j"
  by (auto simp: r_between_i_and_j_def cyc_dist_def)

text \<open>
  The loop invariant: \<open>i\<close> is the only hole in a probe path, and none of the entries scanned so far
  (those at distance at most that of \<open>j\<close> from the hole) has the hole on its path.
\<close>

definition scanned :: "(OrderId \<Rightarrow> nat) \<Rightarrow> Slot list \<Rightarrow> nat \<Rightarrow> nat \<Rightarrow> bool" where
  "scanned h T i j \<longleftrightarrow> (\<forall>q < length T. 0 < cyc_dist (length T) i q \<longrightarrow>
     cyc_dist (length T) i q \<le> cyc_dist (length T) i j \<longrightarrow> occ T q \<and>
     \<not> cyc_dist (length T) (h (s_key (T ! q))) i < cyc_dist (length T) (h (s_key (T ! q))) q)"

lemma scannedD:
  assumes "scanned h T i j" "q < length T" "q \<noteq> i" "i < length T"
    and "cyc_dist (length T) i q \<le> cyc_dist (length T) i j"
  shows "occ T q \<and> \<not> cyc_dist (length T) (h (s_key (T ! q))) i < cyc_dist (length T) (h (s_key (T ! q))) q"
proof -
  have "0 < cyc_dist (length T) i q"
    using assms(2-4) by (metis cyc_dist_0_iff gr0I)
  then show ?thesis using assms(1,2,5) unfolding scanned_def by blast
qed

lemma scanned_self: "scanned h T i i"
  by (simp add: scanned_def)

lemma backshift_stop:
  assumes T: "i < length T" "j < length T" and h: "\<And>k. h k < length T" and "\<not> occ T i"
    and ok: "probe_ok h T {i}" and sc: "scanned h T i j"
    and stop: "\<not> occ T (cyc_next (length T) j)"
  shows "probe_ok h T {}"
  unfolding probe_ok_def
proof (intro allI impI)
  let ?n = "length T" and ?j = "cyc_next (length T) j"
  fix p q
  assume p: "p < ?n" "occ T p" and q: "q < ?n"
    and d: "cyc_dist ?n (h (s_key (T ! p))) q < cyc_dist ?n (h (s_key (T ! p))) p"
  show "occ T q"
  proof (cases "q = i")
    case False
    then show ?thesis using probe_okD [OF ok p q _ d] by simp
  next
    case True
    have "p \<noteq> i" "p \<noteq> ?j" using p assms(4) stop by auto
    then have far: "cyc_dist ?n i j < cyc_dist ?n i p"
      using scannedD [OF sc p(1) _ T(1)] d True not_le_imp_less by blast
    then have "?j \<noteq> i"
      using T p(1) by (auto simp: cyc_dist_def cyc_next_def split: if_splits)
    then have "cyc_dist ?n i ?j < cyc_dist ?n i p"
      using far \<open>p \<noteq> ?j\<close> cyc_dist_next_right [OF T] cyc_dist_inj [OF T(1) _ p(1), of ?j] T(2)
      by (metis Suc_leI cyc_next_less le_neq_implies_less)
    then have "cyc_dist ?n (h (s_key (T ! p))) ?j < cyc_dist ?n (h (s_key (T ! p))) p"
      using cyc_dist_via [OF h T(1) _ p(1)] d True T(2) cyc_next_less by blast
    then have "occ T ?j"
      using probe_okD [OF ok p, of ?j] \<open>?j \<noteq> i\<close> T(2) by simp
    with stop show ?thesis by simp
  qed
qed

lemma backshift_move:
  assumes T: "i < length T" "j < length T" and ne: "i \<noteq> j" and j: "occ T j"
    and ok: "probe_ok h T {i}"
    and on_path: "cyc_dist (length T) (h (s_key (T ! j))) i < cyc_dist (length T) (h (s_key (T ! j))) j"
  shows "probe_ok h (T[i := T ! j, j := empty_slot]) {j}"
  unfolding probe_ok_def
proof (intro allI impI)
  let ?T' = "T[i := T ! j, j := empty_slot]" and ?n = "length T"
  have occ': "occ ?T' q" if "q \<noteq> j" "q = i \<or> occ T q" for q
    using that j T by (auto simp: nth_list_update)
  fix p q
  assume p: "p < length ?T'" "occ ?T' p" and q: "q < length ?T'" "q \<notin> {j}"
    and d: "cyc_dist (length ?T') (h (s_key (?T' ! p))) q < cyc_dist (length ?T') (h (s_key (?T' ! p))) p"
  have pj: "p \<noteq> j" using p T by auto
  show "occ ?T' q"
  proof (cases "p = i")
    case True
    then have "cyc_dist ?n (h (s_key (T ! j))) q < cyc_dist ?n (h (s_key (T ! j))) i"
      using d T ne by simp
    then show ?thesis
      using probe_okD [OF ok T(2) j, of q] on_path q occ' by auto
  next
    case False
    then show ?thesis
      using probe_okD [OF ok, of p q] p q d pj T ne occ' [of q] by (cases "q = i") auto
  qed
qed

lemma scanned_next:
  assumes ij: "i < length T" "j < length T" "i \<noteq> cyc_next (length T) j" and h: "\<And>k. h k < length T" and sc: "scanned h T i j"
    and keep: "occ T (cyc_next (length T) j)" "r_between_i_and_j i (cyc_next (length T) j) (h (s_key (T ! cyc_next (length T) j)))"
  shows "scanned h T i (cyc_next (length T) j)"
  unfolding scanned_def
proof (intro allI impI)
  let ?n = "length T" and ?j = "cyc_next (length T) j"
  have j': "?j < ?n" using ij(2) by simp
  fix q assume q: "q < ?n" "0 < cyc_dist ?n i q" "cyc_dist ?n i q \<le> cyc_dist ?n i ?j"
  show "occ T q \<and> \<not> cyc_dist ?n (h (s_key (T ! q))) i < cyc_dist ?n (h (s_key (T ! q))) q"
  proof (cases "q = ?j")
    case True
    then show ?thesis using keep r_between_iff [OF ij(1) j' h ij(3)] by simp
  next
    case False
    then have "cyc_dist ?n i q \<le> cyc_dist ?n i j"
      using q(1,3) cyc_dist_next_right [OF ij(1,2)] ij(3) cyc_dist_inj [OF ij(1) q(1) j'] by force
    then show ?thesis using sc q unfolding scanned_def by blast
  qed
qed

lemma backshift_correct:
  assumes len: "length (im_slots m) = 2 ^ k" and h: "\<And>k. slot_for m k < length (im_slots m)"
    and "i < length (im_slots m)" "j < length (im_slots m)"
    and "im_slots m ! i = empty_slot" "probe_ok (slot_for m) (im_slots m) {i}"
    and "scanned (slot_for m) (im_slots m) i j"
    and e: "e < length (im_slots m)" "e \<noteq> i" "\<not> occ (im_slots m) e"
  shows "\<exists>T'. backshift m i j = Some (m\<lparr>im_slots := T'\<rparr>) \<and> mset T' = mset (im_slots m)
     \<and> probe_ok (slot_for m) T' {}"
  using assms
proof (induction "cyc_dist (length (im_slots m)) j e" arbitrary: m i j rule: less_induct)
  case less
  let ?T = "im_slots m" and ?n = "length (im_slots m)"
  let ?j = "cyc_next ?n j" and ?r = "slot_for m (s_key (im_slots m ! cyc_next (length (im_slots m)) j))"
  note prems = less.prems
  have hole: "\<not> occ ?T i" using prems(5) by simp
  have jand: "(j + 1) AND id_mask m = ?j"
    using cyc_next_and [OF prems(1,4)] by (simp add: id_mask_def)
  have j': "?j < ?n" using prems(4) by simp
  have "j \<noteq> e"
    using scannedD [OF prems(7,4) _ prems(3)] prems(9,10) by (cases "j = i") auto
  then have dec: "cyc_dist ?n ?j e < cyc_dist ?n j e"
    using cyc_dist_next_left [OF prems(4,8)] by simp
  consider (stop) "\<not> occ ?T ?j" | (keep) "occ ?T ?j" "r_between_i_and_j i ?j ?r"
    | (move) "occ ?T ?j" "\<not> r_between_i_and_j i ?j ?r" by blast
  then show ?case
  proof cases
    case stop
    then have "backshift m i j = Some m"
      using jand j' by (subst backshift.simps) (simp add: ub_simps)
    moreover have "probe_ok (slot_for m) ?T {}"
      by (rule backshift_stop [OF prems(3,4) prems(2) hole prems(6,7) stop])
    ultimately show ?thesis by (intro exI [of _ ?T]) simp
  next
    case keep
    have ij: "i \<noteq> ?j" using keep hole by auto
    have "scanned (slot_for m) ?T i ?j" by (rule scanned_next [OF prems(3,4) ij prems(2,7) keep])
    then obtain T' where "backshift m i ?j = Some (m\<lparr>im_slots := T'\<rparr>)" "mset T' = mset ?T"
      "probe_ok (slot_for m) T' {}"
      using less.hyps [OF dec prems(1-3) j' prems(5,6) _ prems(8-10)] by blast
    moreover have "backshift m i j = backshift m i ?j"
      using keep jand j' by (subst backshift.simps) (simp add: ub_simps)
    ultimately show ?thesis by auto
  next
    case move
    have ij: "i \<noteq> ?j" using move hole by auto
    have ej: "e \<noteq> ?j" using move prems(10) by auto
    let ?T' = "?T[i := ?T ! ?j, ?j := empty_slot]"
    let ?m' = "m\<lparr>im_slots := ?T'\<rparr>"
    have step: "backshift m i j = backshift ?m' ?j ?j"
      using move jand j' prems(3) by (subst backshift.simps) (simp add: ub_simps Let_def)
    have ok': "probe_ok (slot_for m) ?T' {?j}"
      using backshift_move [OF prems(3) j' ij move(1) prems(6)]
        move(2) r_between_iff [OF prems(3) j' prems(2) ij] by blast
    have ms: "mset ?T' = mset ?T"
      using mset_swap [OF j' prems(3)] prems(5) by (simp add: list_update_swap ij)
    have "\<exists>U. backshift ?m' ?j ?j = Some (?m'\<lparr>im_slots := U\<rparr>) \<and> mset U = mset (im_slots ?m')
       \<and> probe_ok (slot_for ?m') U {}"
      by (rule less.hyps)
        (use dec prems j' ok' ij ej in \<open>auto simp: scanned_def nth_list_update\<close>)
    with step ms show ?thesis by auto
  qed
qed

lemma probe_ok_hole:
  assumes "i < length T" and ok: "probe_ok h T {}"
  shows "probe_ok h (T[i := empty_slot]) {i}"
  unfolding probe_ok_def
proof (intro allI impI)
  let ?T = "T[i := empty_slot]"
  fix p q
  assume p: "p < length ?T" "occ ?T p" and q: "q < length ?T" "q \<notin> {i}"
    and d: "cyc_dist (length ?T) (h (s_key (?T ! p))) q < cyc_dist (length ?T) (h (s_key (?T ! p))) p"
  have "p \<noteq> i" using p assms(1) by auto
  then show "occ ?T q" using probe_okD [OF ok, of p q] p q d by simp
qed

lemma clear_live:
  assumes "i < length T" "occ T i" "distinct (live T)"
  shows "mset (live T) = add_mset (s_key (T ! i)) (mset (live (T[i := empty_slot])))"
    "distinct (live (T[i := empty_slot]))" "s_key (T ! i) \<notin> set (live (T[i := empty_slot]))"
proof -
  show ms: "mset (live T) = add_mset (s_key (T ! i)) (mset (live (T[i := empty_slot])))" using assms by (simp add: live_split live_Cons)
  then show "distinct (live (T[i := empty_slot]))" "s_key (T ! i) \<notin> set (live (T[i := empty_slot]))"
    using assms(3) mset_eq_imp_distinct_iff [of "live T" "s_key (T ! i) # live (T[i := empty_slot])"] by auto
qed

lemma clear_lookup:
  assumes "i < length T" "occ T i" "distinct (live T)"
  shows "table_lookup (T[i := empty_slot]) = (table_lookup T)(s_key (T ! i) := None)"
proof
  fix k'
  note cl = clear_live [OF assms]
  have "table_lookup (T[i := empty_slot]) k' = Some w \<longleftrightarrow> table_lookup T k' = Some w" if "k' \<noteq> s_key (T ! i)" for w
  proof -
    have "k' \<noteq> kInvalidOrderId \<Longrightarrow> \<lparr>s_key = k', s_value = w\<rparr> \<in> set (T[i := empty_slot]) \<longleftrightarrow> \<lparr>s_key = k', s_value = w\<rparr> \<in> set T"
      using that by (intro in_set_update_other) (metis Slot.select_convs(1) empty_slot_key)+
    then show ?thesis using assms(3) cl(2) by (auto simp: table_lookup_iff)
  qed
  then show "table_lookup (T[i := empty_slot]) k' = ((table_lookup T)(s_key (T ! i) := None)) k'"
    using cl(3) by (simp add: table_lookup_None_iff) (metis not_Some_eq)
qed

theorem id_erase_present:
  assumes inv: "id_inv m" and old: "id_lookup m key \<noteq> None"
  shows "\<exists>m'. id_erase m key = Some (True, m') \<and> id_inv m' \<and> id_lookup m' = (id_lookup m)(key := None)"
proof -
  let ?T = "im_slots m" and ?h = "slot_for m"
  obtain k where k: "4 \<le> k" "length ?T = 2 ^ k" "im_shift m = 64 - k"
    and sz: "im_size m = length (live ?T)" "2 * im_size m \<le> length ?T" and dl: "distinct (live ?T)"
    and ok: "probe_ok ?h ?T {}" and em: "empties_ok ?T"
    by (rule id_invD [OF inv])
  obtain i where i: "i < length ?T" "probe m key (?h key) = Some i" "occ ?T i" "s_key (?T ! i) = key"
  proof -
    have "key \<in> set (live ?T)" using old by (simp add: id_lookup_def table_lookup_None_iff)
    then show thesis using probe_home [OF inv, of key] that by metis
  qed
  obtain e where e: "e < length ?T" "\<not> occ ?T e" by (rule id_inv_has_empty [OF inv])
  define T1 where "T1 = ?T[i := empty_slot]"
  define m1 where "m1 = m\<lparr>im_slots := T1, im_size := im_size m - 1\<rparr>"
  have T1: "length T1 = length ?T" "im_slots m1 = T1" "slot_for m1 = ?h" "im_shift m1 = im_shift m"
    by (simp_all add: T1_def m1_def slot_for_def fun_eq_iff)
  have live1: "mset (live ?T) = add_mset key (mset (live T1))" and dl1: "distinct (live T1)"
    using clear_live(1,2) [OF i(1,3) dl] i(4) by (simp_all add: T1_def)
  have ok1: "probe_ok ?h T1 {i}"
    unfolding T1_def by (rule probe_ok_hole [OF i(1) ok])
  have "\<exists>T'. backshift m1 i i = Some (m1\<lparr>im_slots := T'\<rparr>) \<and> mset T' = mset T1 \<and> probe_ok ?h T' {}"
  proof -
    have "e \<noteq> i" using e i by auto
    then show ?thesis
      using backshift_correct [of m1 k i i e] k i(1) ok1 e id_inv_home [OF inv] T1
      by (simp add: T1_def scanned_self)
  qed
  then obtain T' where T': "backshift m1 i i = Some (m1\<lparr>im_slots := T'\<rparr>)" "mset T' = mset T1"
    "probe_ok ?h T' {}" by blast
  let ?m' = "m1\<lparr>im_slots := T'\<rparr>"
  have dl': "distinct (live T')" using dl1 distinct_live_mset [OF T'(2)] by simp
  have set': "set T' = set T1" using T'(2) by (rule mset_eq_setD)
  have len': "length T' = length ?T" using mset_eq_length [OF T'(2)] T1 by simp
  have lv: "length (live ?T) = Suc (length (live T'))"
    using arg_cong [OF live1, of size] length_live_mset [OF T'(2)] by simp
  have "empties_ok T'"
    using em set_update_subset_insert [of ?T i empty_slot] unfolding empties_ok_def set' T1_def by auto
  then have "id_inv ?m'"
    unfolding id_inv_def using k sz lv len' dl' T'(3) T1 by (auto simp: m1_def)
  moreover have "id_lookup ?m' = (id_lookup m)(key := None)"
  proof -
    have "table_lookup T' = table_lookup T1"
      using table_lookup_eqI dl' dl1 set' by blast
    moreover have "table_lookup T1 = (table_lookup ?T)(key := None)" using clear_lookup [OF i(1,3) dl] i(4) by (simp add: T1_def)
    ultimately show ?thesis by (simp add: id_lookup_def)
  qed
  moreover have "id_erase m key = Some (True, ?m')"
    using i T'(1) by (simp add: id_erase_def ub_simps T1_def m1_def)
  ultimately show ?thesis by blast
qed

theorem id_erase_absent:
  assumes inv: "id_inv m" and "id_lookup m key = None"
  shows "id_erase m key = Some (False, m)"
proof -
  let ?T = "im_slots m"
  obtain i where i: "i < length ?T" "probe m key (slot_for m key) = Some i"
    "occ ?T i \<Longrightarrow> s_key (?T ! i) = key"
    using probe_home [OF inv, of key] by blast
  have "\<not> occ ?T i"
    using i assms(2) nth_in_live [OF i(1)] by (auto simp: id_lookup_def table_lookup_None_iff)
  with i show ?thesis by (simp add: id_erase_def ub_simps)
qed

section \<open>Construction, clearing, size\<close>

lemma fit_capacity_power:
  "cap = 2 ^ k \<Longrightarrow> 4 \<le> k \<Longrightarrow> \<exists>k' \<ge> 4. fit_capacity hint cap = 2 ^ k' \<and> hint * 2 \<le> 2 ^ k'"
proof (induction hint cap arbitrary: k rule: fit_capacity.induct)
  case (1 hint cap)
  show ?case
  proof (cases "cap < hint * 2")
    case True
    then have "fit_capacity hint cap = fit_capacity hint (cap * 2)"
      using "1.prems" by (subst fit_capacity.simps) simp
    with True "1.IH" [of "Suc k"] "1.prems" show ?thesis by simp
  next
    case False
    then have "fit_capacity hint cap = cap" by (subst fit_capacity.simps) simp
    with False "1.prems" show ?thesis by auto
  qed
qed

lemma id_new_inv: "id_inv (id_new hint)" and id_new_lookup: "id_lookup (id_new hint) = Map.empty"
proof -
  obtain k where k: "4 \<le> k" "fit_capacity hint kMinCapacity = 2 ^ k"
    using fit_capacity_power [of kMinCapacity 4 hint] by (auto simp: kMinCapacity_def)
  let ?m = "\<lparr>im_slots = [], im_size = 0, im_shift = 64 - 4\<rparr>"
  have "id_new hint = (allocate (2 ^ k) ?m)\<lparr>im_size := 0\<rparr>"
    using k by (simp add: id_new_def allocate_def)
  then show "id_inv (id_new hint)" "id_lookup (id_new hint) = Map.empty"
    using id_inv_allocate [OF k(1), of ?m] by simp_all
qed

lemma id_new_capacity: "hint * 2 \<le> id_capacity (id_new hint)"
proof -
  obtain k where k: "4 \<le> k" "fit_capacity hint kMinCapacity = 2 ^ k" "hint * 2 \<le> 2 ^ k"
    using fit_capacity_power [of kMinCapacity 4 hint] by (auto simp: kMinCapacity_def)
  then show ?thesis by (simp add: id_new_def id_capacity_def allocate_def)
qed

lemma id_clear_inv: "id_inv m \<Longrightarrow> id_inv (id_clear m)"
  and id_clear_lookup: "id_lookup (id_clear m) = Map.empty"
  by (auto simp: id_inv_def id_clear_def probe_ok_def empties_ok_def id_lookup_def table_lookup_def)

lemma id_size_card: "id_inv m \<Longrightarrow> id_size m = card (dom (id_lookup m))"
  by (erule id_invD) (simp add: id_size_def id_lookup_def dom_table_lookup distinct_card)

lemma id_contains_lookup: "id_inv m \<Longrightarrow> id_contains m key = Some (id_lookup m key \<noteq> None)"
  by (simp add: id_contains_def id_find_lookup)

lemma id_insert_zero: "id_insert m kInvalidOrderId v = None"
  by (simp add: id_insert_unfold oassert_def)

section \<open>The contract of the index\<close>

text \<open>
  A run of index operations, over any implementation given by its three functions, and the same
  run over a plain finite map.  This is the shape of the differential test of
  \<open>tests/id_index_map_test.cpp\<close>, which compares the table with \<open>std::unordered_map\<close>.
\<close>

datatype id_op = Insert OrderId u32 | Erase OrderId | Find OrderId

datatype id_res = Flag bool | Found "u32 option"

primrec run_ids :: "('m \<Rightarrow> OrderId \<Rightarrow> u32 option option) \<Rightarrow> ('m \<Rightarrow> OrderId \<Rightarrow> u32 \<Rightarrow> (bool \<times> 'm) option)
    \<Rightarrow> ('m \<Rightarrow> OrderId \<Rightarrow> (bool \<times> 'm) option) \<Rightarrow> id_op list \<Rightarrow> 'm \<Rightarrow> (id_res list \<times> 'm) option" where
  "run_ids fnd ins del [] m = Some ([], m)"
| "run_ids fnd ins del (x # xs) m = do {
     (r, m1) \<leftarrow> (case x of
         Insert k v \<Rightarrow> Option.bind (ins m k v) (\<lambda>(b, m'). Some (Flag b, m'))
       | Erase k \<Rightarrow> Option.bind (del m k) (\<lambda>(b, m'). Some (Flag b, m'))
       | Find k \<Rightarrow> Option.bind (fnd m k) (\<lambda>res. Some (Found res, m)));
     (rs, m2) \<leftarrow> run_ids fnd ins del xs m1;
     Some (r # rs, m2) }"

primrec ref_ids :: "id_op list \<Rightarrow> (OrderId \<rightharpoonup> u32) \<Rightarrow> id_res list \<times> (OrderId \<rightharpoonup> u32)" where
  "ref_ids [] f = ([], f)"
| "ref_ids (x # xs) f = (let (r, f1) = (case x of
         Insert k v \<Rightarrow> (Flag (f k = None), if f k = None then f(k \<mapsto> v) else f)
       | Erase k \<Rightarrow> (Flag (f k \<noteq> None), f(k := None))
       | Find k \<Rightarrow> (Found (f k), f));
       (rs, f2) = ref_ids xs f1 in (r # rs, f2))"

fun valid_id_op :: "id_op \<Rightarrow> bool" where
  "valid_id_op (Insert k v) = (k \<noteq> kInvalidOrderId)"
| "valid_id_op _ = True"

locale id_store =
  fixes inv :: "'m \<Rightarrow> bool" and lookup :: "'m \<Rightarrow> OrderId \<Rightarrow> u32 option"
    and find :: "'m \<Rightarrow> OrderId \<Rightarrow> u32 option option"
    and insert :: "'m \<Rightarrow> OrderId \<Rightarrow> u32 \<Rightarrow> (bool \<times> 'm) option"
    and erase :: "'m \<Rightarrow> OrderId \<Rightarrow> (bool \<times> 'm) option"
    and clear :: "'m \<Rightarrow> 'm" and count :: "'m \<Rightarrow> nat"
  assumes find_law: "inv m \<Longrightarrow> find m k = Some (lookup m k)"
    and insert_new_law: "inv m \<Longrightarrow> k \<noteq> kInvalidOrderId \<Longrightarrow> lookup m k = None \<Longrightarrow>
      \<exists>m'. insert m k v = Some (True, m') \<and> inv m' \<and> lookup m' = (lookup m)(k \<mapsto> v)"
    and insert_dup_law: "inv m \<Longrightarrow> lookup m k \<noteq> None \<Longrightarrow>
      \<exists>m'. insert m k v = Some (False, m') \<and> inv m' \<and> lookup m' = lookup m"
    and erase_present_law: "inv m \<Longrightarrow> lookup m k \<noteq> None \<Longrightarrow>
      \<exists>m'. erase m k = Some (True, m') \<and> inv m' \<and> lookup m' = (lookup m)(k := None)"
    and erase_absent_law: "inv m \<Longrightarrow> lookup m k = None \<Longrightarrow> erase m k = Some (False, m)"
    and clear_inv_law: "inv m \<Longrightarrow> inv (clear m)"
    and clear_law: "lookup (clear m) = Map.empty"
    and count_law: "inv m \<Longrightarrow> count m = card (dom (lookup m))"
begin

lemma insert_step:
  assumes "inv m" "k \<noteq> kInvalidOrderId"
  obtains m' where "insert m k v = Some (lookup m k = None, m')" "inv m'"
    "lookup m' = (if lookup m k = None then (lookup m)(k \<mapsto> v) else lookup m)"
  using insert_new_law [OF assms, of v] insert_dup_law [OF assms(1), of k v]
  by (cases "lookup m k = None") auto

lemma erase_step:
  assumes "inv m"
  obtains m' where "erase m k = Some (lookup m k \<noteq> None, m')" "inv m'" "lookup m' = (lookup m)(k := None)"
  using erase_present_law [OF assms, of k] erase_absent_law [OF assms, of k] assms
  by (cases "lookup m k = None") (auto simp: fun_upd_idem)

lemma run_refines:
  assumes "inv m" "list_all valid_id_op xs"
  shows "\<exists>m'. run_ids find insert erase xs m = Some (fst (ref_ids xs (lookup m)), m')
     \<and> inv m' \<and> lookup m' = snd (ref_ids xs (lookup m))"
  using assms
proof (induction xs arbitrary: m)
  case Nil
  then show ?case by simp
next
  case (Cons x xs)
  obtain r m1 where step: "run_ids find insert erase (x # xs) m =
      Option.bind (run_ids find insert erase xs m1) (\<lambda>(rs, m2). Some (r # rs, m2))"
    and "inv m1" and ref: "ref_ids (x # xs) (lookup m) =
      (let (rs, f2) = ref_ids xs (lookup m1) in (r # rs, f2))"
  proof (cases x)
    case (Insert k v)
    then show thesis
      using Cons.prems that by (auto elim: insert_step [of m k v])
  next
    case (Erase k)
    then show thesis
      using Cons.prems that by (auto elim: erase_step [of m k])
  next
    case (Find k)
    then show thesis
      using Cons.prems that [of m] by (auto simp: find_law)
  qed
  with Cons.IH [of m1] Cons.prems show ?case
    by (auto simp: Let_def split: prod.splits)
qed

lemma insert_then_find:
  assumes "inv m" "k \<noteq> kInvalidOrderId" "lookup m k = None" "insert m k v = Some (b, m')"
  shows "find m' k = Some (Some v)" and "k' \<noteq> k \<Longrightarrow> find m' k' = find m k'"
  using insert_new_law [OF assms(1-3), of v] assms(1,4) by (auto simp: find_law)

lemma insert_erase_roundtrip:
  assumes "inv m" "k \<noteq> kInvalidOrderId" "lookup m k = None"
  shows "\<exists>m1 m2. insert m k v = Some (True, m1) \<and> erase m1 k = Some (True, m2) \<and> inv m2
     \<and> lookup m2 = lookup m"
  using insert_new_law [OF assms, of v] erase_present_law [where k = k] assms(3)
  by (fastforce simp: fun_upd_idem)

end

interpretation idx: id_store id_inv id_lookup id_find id_insert id_erase id_clear id_size
  by unfold_locales
    (simp_all add: id_find_lookup id_insert_new id_insert_dup id_erase_present id_erase_absent
      id_clear_inv id_clear_lookup id_size_card)

section \<open>Sessions on a fresh index\<close>

text \<open>
  C19.  Every sequence of insertions, erasures and lookups on a fresh index answers as a finite map does, growing
  as needed; erasing by shifting entries back never hides another key, and the table stays at most half full.
\<close>

theorem id_session_refines:
  assumes "list_all valid_id_op xs"
  shows "\<exists>m'. run_ids id_find id_insert id_erase xs (id_new hint) = Some (fst (ref_ids xs Map.empty), m')
    \<and> id_inv m' \<and> id_lookup m' = snd (ref_ids xs Map.empty) \<and> 2 * id_size m' \<le> id_capacity m'"
  using idx.run_refines [OF id_new_inv assms, of hint]
  by (auto simp: id_new_lookup id_size_def id_capacity_def id_inv_def)

theorem id_session_refines_witness:
  "\<exists>m'. run_ids id_find id_insert id_erase [Insert 5 1, Insert 21 2, Insert 5 3, Erase 5, Find 5, Find 21, Erase 5] (id_new 4) =
     Some ([Flag True, Flag True, Flag False, Flag True, Found None, Found (Some 2), Flag False], m') \<and> 2 * id_size m' \<le> id_capacity m'"
  using id_session_refines [of "[Insert 5 1, Insert 21 2, Insert 5 3, Erase 5, Find 5, Find 21, Erase 5]" 4] by auto

end
