(* ===== verification/Book_Spec.thy ===== *)
theory Book_Spec
  imports Core_Types
begin

text \<open>
  The abstract order book: what \<open>OrderBookMap\<close>, \<open>OrderBookVector\<close> and \<open>OrderBookArray\<close> promise to
  their clients, with price levels, pools and indices abstracted away.

  A book is two lists of resting orders in priority order (best price first, oldest first within a
  price).  Matching walks the opposite list from its head; resting inserts behind every order of the
  same or a better price.  The predicate \<open>rng\<close> is the price range a book accepts (everything for the
  map and vector books, \<open>[min_price, max_price]\<close> for the array book).
\<close>

section \<open>Abstract operations\<close>

record ABook =
  a_bids :: "Order list"
  a_asks :: "Order list"

type_synonym fill = "Order \<times> Quantity"

text \<open>The self-trade test of the matching loops.\<close>

definition self_trade :: "SelfTradePrevention \<Rightarrow> Order \<Rightarrow> Order \<Rightarrow> bool" where
  "self_trade stp taker maker \<longleftrightarrow> stp \<noteq> NoPrevention \<and> o_participant_id taker \<noteq> kNoParticipant
     \<and> o_participant_id taker = o_participant_id maker"

text \<open>The crossing condition: a limit taker trades at its price or better, a market taker at any.\<close>

definition price_ok :: "Order \<Rightarrow> Price \<Rightarrow> bool" where
  "price_ok taker pr \<longleftrightarrow> (o_type taker = Limit \<longrightarrow>
     (if o_side taker = Buy then pr \<le> o_price taker else o_price taker \<le> pr))"

primrec spec_match :: "SelfTradePrevention \<Rightarrow> Order \<Rightarrow> Order list \<Rightarrow> bool \<times> Order \<times> Order list \<times> fill list" where
  "spec_match stp t [] = (False, t, [], [])"
| "spec_match stp t (m # ms) =
     (if \<not> 0 < o_remaining_quantity t \<or> \<not> price_ok t (o_price m) then (False, t, m # ms, [])
      else if self_trade stp t m then
        (if stp = CancelIncoming then (True, t, m # ms, [])
         else if stp = CancelBoth then (True, t, ms, [])
         else spec_match stp t ms)
      else let q = min (o_remaining_quantity t) (o_remaining_quantity m);
               t' = t\<lparr>o_remaining_quantity := o_remaining_quantity t - q\<rparr>
        in if o_remaining_quantity m = q
           then let (k, t2, ms2, fs) = spec_match stp t' ms in (k, t2, ms2, (m, q) # fs)
           else (False, t', m\<lparr>o_remaining_quantity := o_remaining_quantity m - q\<rparr> # ms, [(m, q)]))"

text \<open>Trades are reported at the maker's price, each with its own clock reading.\<close>

definition mk_trade :: "SymbolId \<Rightarrow> Order \<Rightarrow> Order \<Rightarrow> Price \<Rightarrow> Quantity \<Rightarrow> Timestamp \<Rightarrow> Trade" where
  "mk_trade symb taker maker pr q ts = \<lparr>t_taker_order_id = o_id taker, t_maker_order_id = o_id maker,
     t_symbol = symb, t_price = pr, t_quantity = q, t_timestamp = ts, t_taker_side = o_side taker,
     t_taker_participant_id = o_participant_id taker, t_maker_participant_id = o_participant_id maker\<rparr>"

definition emit_trade :: "bool \<Rightarrow> SymbolId \<Rightarrow> Order \<Rightarrow> Order \<Rightarrow> Price \<Rightarrow> Quantity \<Rightarrow> World \<Rightarrow> World" where
  "emit_trade cb symb taker maker pr q w =
     (if cb then let (ts, w') = now_ns w in deliver (mk_trade symb taker maker pr q ts) w' else w)"

fun emit_fills :: "bool \<Rightarrow> SymbolId \<Rightarrow> Order \<Rightarrow> fill list \<Rightarrow> World \<Rightarrow> World" where
  "emit_fills cb symb t [] w = w"
| "emit_fills cb symb t ((m, q) # fs) w = emit_fills cb symb t fs (emit_trade cb symb t m (o_price m) q w)"

text \<open>\<open>at_least side p q\<close>: on that side of the book, price \<open>p\<close> has priority over or ties with \<open>q\<close>.\<close>

fun at_least :: "Side \<Rightarrow> Price \<Rightarrow> Price \<Rightarrow> bool" where
  "at_least Buy p q = (q \<le> p)"
| "at_least Sell p q = (p \<le> q)"

fun opposite :: "Side \<Rightarrow> Side" where
  "opposite Buy = Sell"
| "opposite Sell = Buy"

fun side_of :: "Side \<Rightarrow> ABook \<Rightarrow> Order list" where
  "side_of Buy A = a_bids A"
| "side_of Sell A = a_asks A"

fun set_side :: "Side \<Rightarrow> Order list \<Rightarrow> ABook \<Rightarrow> ABook" where
  "set_side Buy xs A = A\<lparr>a_bids := xs\<rparr>"
| "set_side Sell xs A = A\<lparr>a_asks := xs\<rparr>"

definition resting :: "ABook \<Rightarrow> Order list" where
  "resting A = a_bids A @ a_asks A"

definition ids :: "ABook \<Rightarrow> OrderId set" where
  "ids A = o_id ` set (resting A)"

fun place :: "Side \<Rightarrow> Order \<Rightarrow> Order list \<Rightarrow> Order list" where
  "place s x [] = [x]"
| "place s x (y # ys) = (if at_least s (o_price y) (o_price x) then y # place s x ys else x # y # ys)"

definition volume :: "Order list \<Rightarrow> Quantity" where
  "volume xs = (\<Sum>x\<leftarrow>xs. o_remaining_quantity x)"

text \<open>Resting quantity a taker could reach.\<close>

definition reachable_volume :: "Order \<Rightarrow> Order list \<Rightarrow> Quantity" where
  "reachable_volume t xs = volume (takeWhile (\<lambda>m. price_ok t (o_price m)) xs)"

definition spec_execute :: "SelfTradePrevention \<Rightarrow> bool \<Rightarrow> SymbolId \<Rightarrow> Order \<Rightarrow> ABook \<Rightarrow> World
    \<Rightarrow> ExecutionReport \<times> ABook \<times> World" where
  "spec_execute stp cb symb ord A w =
     (let t0 = ord\<lparr>o_remaining_quantity := o_quantity ord\<rparr>;
          (killed, t, opp, fs) = spec_match stp t0 (side_of (opposite (o_side ord)) A);
          A1 = set_side (opposite (o_side ord)) opp A;
          w1 = emit_fills cb symb t0 fs w;
          filled = o_quantity ord - o_remaining_quantity t
      in if o_remaining_quantity t = 0 then (report (o_id ord) Filled filled 0 NoReason, A1, w1)
         else if \<not> killed \<and> rests_in_book ord then
           (report (o_id ord) (if filled > 0 then PartiallyFilled else New) filled (o_remaining_quantity t) NoReason,
            set_side (o_side ord) (place (o_side ord) t (side_of (o_side ord) A1)) A1, w1)
         else (report (o_id ord) Cancelled filled 0 NoReason, A1, w1))"

definition spec_add :: "(Price \<Rightarrow> bool) \<Rightarrow> SelfTradePrevention \<Rightarrow> bool \<Rightarrow> SymbolId \<Rightarrow> Order \<Rightarrow> ABook \<Rightarrow> World
    \<Rightarrow> ExecutionReport \<times> ABook \<times> World" where
  "spec_add rng stp cb symb ord A w =
     (if o_quantity ord \<le> 0 then (report (o_id ord) Rejected 0 0 InvalidQuantity, A, w)
      else if o_type ord = Limit \<and> o_price ord \<le> 0 then (report (o_id ord) Rejected 0 0 InvalidPrice, A, w)
      else if o_type ord = Limit \<and> \<not> rng (o_price ord) then (report (o_id ord) Rejected 0 0 PriceOutOfRange, A, w)
      else if o_id ord \<in> ids A then (report (o_id ord) Rejected 0 0 DuplicateOrderId, A, w)
      else if o_time_in_force ord = FOK \<and> reachable_volume ord (side_of (opposite (o_side ord)) A) < o_quantity ord
      then (report (o_id ord) Cancelled 0 0 NoReason, A, w)
      else spec_execute stp cb symb ord A w)"

definition remove_id :: "OrderId \<Rightarrow> ABook \<Rightarrow> ABook" where
  "remove_id i A = A\<lparr>a_bids := filter (\<lambda>x. o_id x \<noteq> i) (a_bids A),
                     a_asks := filter (\<lambda>x. o_id x \<noteq> i) (a_asks A)\<rparr>"

definition spec_cancel :: "OrderId \<Rightarrow> ABook \<Rightarrow> bool \<times> ABook" where
  "spec_cancel i A = (if i \<in> ids A then (True, remove_id i A) else (False, A))"

definition resize :: "OrderId \<Rightarrow> Quantity \<Rightarrow> Order \<Rightarrow> Order" where
  "resize i q x = (if o_id x = i then x\<lparr>o_remaining_quantity := q\<rparr> else x)"

text \<open>An amend that names a price outside the book's range.\<close>

definition price_refused :: "(Price \<Rightarrow> bool) \<Rightarrow> Price option \<Rightarrow> bool" where
  "price_refused rng new_price = (case new_price of None \<Rightarrow> False | Some p \<Rightarrow> \<not> rng p)"

lemma price_refused_iff [simp]: "price_refused rng np \<longleftrightarrow> (\<exists>p. np = Some p \<and> \<not> rng p)"
  by (cases np) (simp_all add: price_refused_def)

definition spec_amend :: "(Price \<Rightarrow> bool) \<Rightarrow> SelfTradePrevention \<Rightarrow> bool \<Rightarrow> SymbolId \<Rightarrow> OrderId \<Rightarrow> Quantity
    \<Rightarrow> Price option \<Rightarrow> ABook \<Rightarrow> World \<Rightarrow> ExecutionReport \<times> ABook \<times> World" where
  "spec_amend rng stp cb symb i new_quantity new_price A w =
     (case find (\<lambda>x. o_id x = i) (resting A) of
        None \<Rightarrow> (report i Rejected 0 0 UnknownOrder, A, w)
      | Some snapshot \<Rightarrow>
          if new_quantity \<le> 0 then (report i Rejected 0 0 InvalidQuantity, A, w)
          else if price_refused rng new_price then (report i Rejected 0 0 PriceOutOfRange, A, w)
          else if (case new_price of None \<Rightarrow> True | Some p \<Rightarrow> p = o_price snapshot)
                  \<and> new_quantity \<le> o_remaining_quantity snapshot
          then (report i New 0 new_quantity NoReason,
                A\<lparr>a_bids := map (resize i new_quantity) (a_bids A),
                  a_asks := map (resize i new_quantity) (a_asks A)\<rparr>, w)
          else let (ts, w1) = now_ns w;
                   replacement = snapshot\<lparr>o_price := (case new_price of None \<Rightarrow> o_price snapshot | Some p \<Rightarrow> p),
                     o_quantity := new_quantity, o_remaining_quantity := new_quantity, o_timestamp := ts\<rparr>
               in spec_add rng stp cb symb replacement (remove_id i A) w1)"

text \<open>Best price of a side, and the aggregated levels a depth query shows.\<close>

definition best_price :: "Order list \<Rightarrow> Price option" where
  "best_price xs = (if xs = [] then None else Some (o_price (hd xs)))"

function depth_of :: "Order list \<Rightarrow> PriceLevelView list" where
  "depth_of [] = []"
| "depth_of (x # xs) =
     (let level = x # takeWhile (\<lambda>y. o_price y = o_price x) xs
      in \<lparr>v_price = o_price x, v_total_quantity = volume level, v_order_count = of_nat (length level)\<rparr>
         # depth_of (dropWhile (\<lambda>y. o_price y = o_price x) xs))"
  by pat_completeness auto
termination
  by (relation "measure length") (auto simp: less_Suc_eq_le length_dropWhile_le)

section \<open>Well-formed abstract books\<close>

definition resting_ok :: "Side \<Rightarrow> Order \<Rightarrow> bool" where
  "resting_ok s x \<longleftrightarrow> o_side x = s \<and> rests_in_book x \<and> 0 < o_price x \<and> o_price x \<le> i64_max
     \<and> 0 < o_remaining_quantity x \<and> o_id x \<noteq> kInvalidOrderId"

definition in_priority :: "Side \<Rightarrow> Order list \<Rightarrow> bool" where
  "in_priority s xs \<longleftrightarrow> sorted_wrt (\<lambda>x y. at_least s (o_price x) (o_price y)) xs"

definition uncrossed :: "ABook \<Rightarrow> bool" where
  "uncrossed A \<longleftrightarrow> (\<forall>b \<in> set (a_bids A). \<forall>a \<in> set (a_asks A). o_price b < o_price a)"

definition abook_ok :: "ABook \<Rightarrow> bool" where
  "abook_ok A \<longleftrightarrow> list_all (resting_ok Buy) (a_bids A) \<and> list_all (resting_ok Sell) (a_asks A)
     \<and> in_priority Buy (a_bids A) \<and> in_priority Sell (a_asks A)
     \<and> distinct (map o_id (resting A)) \<and> uncrossed A
     \<and> volume (a_bids A) \<le> i64_max \<and> volume (a_asks A) \<le> i64_max"

definition empty_abook :: ABook where
  "empty_abook = \<lparr>a_bids = [], a_asks = []\<rparr>"

lemma empty_abook_ok: "abook_ok empty_abook"
  by (simp add: abook_ok_def empty_abook_def in_priority_def resting_def uncrossed_def volume_def i64_max_def)

section \<open>The matching walk\<close>

abbreviation rq :: "Order \<Rightarrow> Quantity" where
  "rq \<equiv> o_remaining_quantity"

lemma price_ok_rem [simp]: "price_ok (t\<lparr>o_remaining_quantity := q\<rparr>) = price_ok t"
  by (simp add: price_ok_def fun_eq_iff)

lemma self_trade_rem [simp]:
  "self_trade stp (t\<lparr>o_remaining_quantity := q\<rparr>) m = self_trade stp t m"
  "self_trade stp t (m\<lparr>o_remaining_quantity := q\<rparr>) = self_trade stp t m"
  by (simp_all add: self_trade_def)

lemma self_trade_policy: "self_trade stp t m \<Longrightarrow> stp \<noteq> NoPrevention"
  by (simp add: self_trade_def)

text \<open>One step of the walk, by cases; the induction principle of every proof about it.\<close>

lemma spec_match_cases:
  obtains (stop) "\<not> 0 < rq t \<or> \<not> price_ok t (o_price m)"
      "spec_match stp t (m # ms) = (False, t, m # ms, [])"
  | (incoming) "0 < rq t" "price_ok t (o_price m)" "self_trade stp t m" "stp = CancelIncoming"
      "spec_match stp t (m # ms) = (True, t, m # ms, [])"
  | (both) "0 < rq t" "price_ok t (o_price m)" "self_trade stp t m" "stp = CancelBoth"
      "spec_match stp t (m # ms) = (True, t, ms, [])"
  | (skip) "0 < rq t" "price_ok t (o_price m)" "self_trade stp t m" "stp = CancelResting"
      "spec_match stp t (m # ms) = spec_match stp t ms"
  | (part) "0 < rq t" "price_ok t (o_price m)" "\<not> self_trade stp t m" "rq t < rq m"
      "spec_match stp t (m # ms) =
        (False, t\<lparr>o_remaining_quantity := 0\<rparr>, m\<lparr>o_remaining_quantity := rq m - rq t\<rparr> # ms, [(m, rq t)])"
  | (full) k t2 ms2 fs where "0 < rq t" "price_ok t (o_price m)" "\<not> self_trade stp t m" "rq m \<le> rq t"
      "spec_match stp (t\<lparr>o_remaining_quantity := rq t - rq m\<rparr>) ms = (k, t2, ms2, fs)"
      "spec_match stp t (m # ms) = (k, t2, ms2, (m, rq m) # fs)"
proof -
  consider "\<not> 0 < rq t \<or> \<not> price_ok t (o_price m)"
    | "0 < rq t" "price_ok t (o_price m)" "self_trade stp t m"
    | "0 < rq t" "price_ok t (o_price m)" "\<not> self_trade stp t m" "rq t < rq m"
    | "0 < rq t" "price_ok t (o_price m)" "\<not> self_trade stp t m" "rq m \<le> rq t"
    by linarith
  then show thesis
  proof cases
    case 2
    then show thesis using incoming both skip self_trade_policy [OF 2(3)]
      by (cases stp) auto
  next
    case 4
    obtain k t2 ms2 fs where r: "spec_match stp (t\<lparr>o_remaining_quantity := rq t - rq m\<rparr>) ms = (k, t2, ms2, fs)"
      by (metis prod_cases4)
    show thesis by (rule full [OF 4 r]) (use 4 r in \<open>simp add: Let_def min_def\<close>)
  qed (use stop part in \<open>auto simp: Let_def\<close>)
qed

lemma spec_match_idle:
  "ms = [] \<or> \<not> 0 < rq t \<or> \<not> price_ok t (o_price (hd ms)) \<Longrightarrow> spec_match stp t ms = (False, t, ms, [])"
  by (cases ms) auto

lemma spec_match_append:
  assumes "spec_match stp t ys = (k, t1, ys1, f1)"
  shows "spec_match stp t (ys @ zs) =
    (if k \<or> ys1 \<noteq> [] then (k, t1, ys1 @ zs, f1)
     else (let (k2, t2, zs2, f2) = spec_match stp t1 zs in (k2, t2, zs2, f1 @ f2)))"
  using assms
proof (induction ys arbitrary: t k t1 ys1 f1)
  case Nil
  then show ?case by (auto split: prod.splits)
next
  case (Cons m ys)
  show ?case
  proof (cases rule: spec_match_cases [where stp = stp and t = t and m = m and ms = ys])
    case (full k' t2 ms2 fs)
    note IH = Cons.IH [OF full(5)]
    have "k' = k" "t2 = t1" "ms2 = ys1" "f1 = (m, rq m) # fs"
      using full(6) Cons.prems by auto
    then show ?thesis using IH full(1-4) by (auto simp: Let_def min_def split: prod.splits)
  next
    case part
    then show ?thesis using Cons.prems by (auto simp: Let_def)
  next
    case skip
    then show ?thesis using Cons.prems Cons.IH [of t k t1 ys1 f1] by auto
  qed (use Cons.prems in auto)
qed

lemma spec_match_induct [consumes 1, case_names nil stop incoming both skip part full]:
  assumes "spec_match stp t ms = (k, t', ms', fs)"
    and "\<And>t. P t [] False t [] []"
    and "\<And>t m ms. \<not> 0 < rq t \<or> \<not> price_ok t (o_price m) \<Longrightarrow> P t (m # ms) False t (m # ms) []"
    and "\<And>t m ms. 0 < rq t \<Longrightarrow> price_ok t (o_price m) \<Longrightarrow> self_trade stp t m \<Longrightarrow> stp = CancelIncoming \<Longrightarrow>
      P t (m # ms) True t (m # ms) []"
    and "\<And>t m ms. 0 < rq t \<Longrightarrow> price_ok t (o_price m) \<Longrightarrow> self_trade stp t m \<Longrightarrow> stp = CancelBoth \<Longrightarrow>
      P t (m # ms) True t ms []"
    and "\<And>t m ms k t' ms' fs. 0 < rq t \<Longrightarrow> price_ok t (o_price m) \<Longrightarrow> self_trade stp t m \<Longrightarrow>
      stp = CancelResting \<Longrightarrow> P t ms k t' ms' fs \<Longrightarrow> P t (m # ms) k t' ms' fs"
    and "\<And>t m ms. 0 < rq t \<Longrightarrow> price_ok t (o_price m) \<Longrightarrow> \<not> self_trade stp t m \<Longrightarrow> rq t < rq m \<Longrightarrow>
      P t (m # ms) False (t\<lparr>o_remaining_quantity := 0\<rparr>) (m\<lparr>o_remaining_quantity := rq m - rq t\<rparr> # ms) [(m, rq t)]"
    and "\<And>t m ms k t' ms' fs. 0 < rq t \<Longrightarrow> price_ok t (o_price m) \<Longrightarrow> \<not> self_trade stp t m \<Longrightarrow> rq m \<le> rq t \<Longrightarrow>
      P (t\<lparr>o_remaining_quantity := rq t - rq m\<rparr>) ms k t' ms' fs \<Longrightarrow> P t (m # ms) k t' ms' ((m, rq m) # fs)"
  shows "P t ms k t' ms' fs"
  using assms(1)
proof (induction ms arbitrary: t k t' ms' fs)
  case Nil
  then show ?case using assms(2) by simp
next
  case (Cons m ms)
  show ?case
  proof (cases rule: spec_match_cases [where stp = stp and t = t and m = m and ms = ms])
    case (full k' t2 ms2 fs')
    then show ?thesis using Cons.IH [OF full(5)] assms(8) [OF full(1-4)] Cons.prems by auto
  next
    case skip
    then show ?thesis using Cons.IH [of t] assms(6) [OF skip(1-4)] Cons.prems by auto
  qed (use Cons.prems assms(3-5,7) in auto)
qed

text \<open>What the walk does to the taker, to the quantities and to the book.\<close>

lemma spec_match_taker:
  "spec_match stp t ms = (k, t', ms', fs) \<Longrightarrow> t' = t\<lparr>o_remaining_quantity := rq t'\<rparr>"
  by (induction rule: spec_match_induct) auto

lemma spec_match_conserves:
  "spec_match stp t ms = (k, t', ms', fs) \<Longrightarrow> rq t = rq t' + (\<Sum>f\<leftarrow>fs. snd f)"
  by (induction rule: spec_match_induct) auto

lemma spec_match_bounds:
  assumes "spec_match stp t ms = (k, t', ms', fs)" "0 \<le> rq t" "\<forall>m \<in> set ms. 0 < rq m"
  shows "0 \<le> rq t' \<and> rq t' \<le> rq t \<and> (\<forall>f \<in> set fs. 0 < snd f)"
  using assms by (induction rule: spec_match_induct) auto

lemma spec_match_fills:
  "spec_match stp t ms = (k, t', ms', fs) \<Longrightarrow> f \<in> set fs \<Longrightarrow>
    \<not> self_trade stp t (fst f) \<and> price_ok t (o_price (fst f)) \<and> fst f \<in> set ms \<and> snd f \<le> rq (fst f)"
  by (induction rule: spec_match_induct) auto

lemma spec_match_killed:
  "spec_match stp t ms = (k, t', ms', fs) \<Longrightarrow> k \<Longrightarrow>
    0 < rq t' \<and> (stp = CancelIncoming \<or> stp = CancelBoth) \<and> (\<exists>m \<in> set ms. self_trade stp t m)"
  by (induction rule: spec_match_induct) auto

text \<open>A taker that survives with quantity left has met no more price it accepts.\<close>

lemma spec_match_exhausted:
  "spec_match stp t ms = (k, t', ms', fs) \<Longrightarrow> \<not> k \<Longrightarrow> 0 < rq t' \<Longrightarrow>
    ms' = [] \<or> \<not> price_ok t (o_price (hd ms'))"
  by (induction rule: spec_match_induct) auto

text \<open>
  The book that is left is the original queue without a prefix, its new head possibly reduced.
\<close>

definition leftover :: "Order list \<Rightarrow> Order list \<Rightarrow> bool" where
  "leftover ms ms' \<longleftrightarrow> (\<exists>n. ms' = drop n ms) \<or>
     (\<exists>n m rest r. drop n ms = m # rest \<and> 0 < r \<and> r < rq m \<and> ms' = m\<lparr>o_remaining_quantity := r\<rparr> # rest)"

lemma leftover_Cons: "leftover ms ms' \<Longrightarrow> leftover (m # ms) ms'"
  unfolding leftover_def by (metis drop_Suc_Cons)

lemma leftover_self: "leftover ms ms" "leftover (m # ms) ms"
  unfolding leftover_def by (metis drop0, metis drop0 drop_Suc_Cons)

lemma leftover_part: "0 < r \<Longrightarrow> r < rq m \<Longrightarrow> leftover (m # ms) (m\<lparr>o_remaining_quantity := r\<rparr> # ms)"
  unfolding leftover_def by (metis drop0)

lemma spec_match_leftover:
  "spec_match stp t ms = (k, t', ms', fs) \<Longrightarrow> leftover ms ms'"
  by (induction rule: spec_match_induct) (auto intro: leftover_Cons leftover_self leftover_part)

lemma leftover_maps:
  assumes "leftover ms ms'"
  obtains n where "map o_id ms' = drop n (map o_id ms)" "map o_price ms' = drop n (map o_price ms)"
  using assms unfolding leftover_def
proof (elim disjE exE conjE)
  fix n m rest r
  assume "drop n ms = m # rest" "ms' = m\<lparr>o_remaining_quantity := r\<rparr> # rest"
  then have "map o_id ms' = drop n (map o_id ms)" "map o_price ms' = drop n (map o_price ms)"
    by (simp_all add: drop_map)
  then show thesis by (rule that)
qed (use that in \<open>auto simp: drop_map\<close>)

lemma leftover_resting:
  assumes "leftover ms ms'" "list_all (resting_ok s) ms"
  shows "list_all (resting_ok s) ms'" "volume ms' \<le> volume ms"
proof -
  have pos: "0 \<le> volume (take n ms)" for n
    using assms(2) unfolding volume_def list_all_iff resting_ok_def
    by (intro sum_list_nonneg) (fastforce dest: in_set_takeD)
  have split: "volume ms = volume (take n ms) + volume (drop n ms)" for n
    by (metis append_take_drop_id map_append sum_list_append volume_def)
  have dr: "list_all (resting_ok s) (drop n ms)" for n
    using assms(2) by (auto simp: list_all_iff dest: in_set_dropD)
  from assms(1) show "list_all (resting_ok s) ms'"
    unfolding leftover_def
  proof (elim disjE exE conjE)
    fix n m rest r
    assume "drop n ms = m # rest" "0 < r" "ms' = m\<lparr>o_remaining_quantity := r\<rparr> # rest"
    then show ?thesis using dr [of n] by (simp add: resting_ok_def rests_in_book_def)
  qed (use dr in auto)
  from assms(1) show "volume ms' \<le> volume ms"
    unfolding leftover_def
  proof (elim disjE exE conjE)
    fix n assume "ms' = drop n ms"
    then show ?thesis using pos [of n] split [of n] by simp
  next
    fix n m rest r
    assume "drop n ms = m # rest" "r < rq m" "ms' = m\<lparr>o_remaining_quantity := r\<rparr> # rest"
    then show ?thesis using pos [of n] split [of n] by (simp add: volume_def)
  qed
qed

section \<open>Every operation keeps the book well-formed\<close>

lemma side_of_set_side [simp]: "side_of s (set_side s' xs A) = (if s = s' then xs else side_of s A)"
  by (cases s; cases s') auto

lemma opposite_neq [simp]: "opposite s \<noteq> s" "s \<noteq> opposite s" "opposite (opposite s) = s"
  by (cases s; simp)+

lemma resting_set: "set (resting A) = set (side_of s A) \<union> set (side_of (opposite s) A)"
  by (cases s) (auto simp: resting_def)

text \<open>\<open>apart s p q\<close>: a price \<open>p\<close> on side \<open>s\<close> does not cross a price \<open>q\<close> on the other side.\<close>

fun apart :: "Side \<Rightarrow> Price \<Rightarrow> Price \<Rightarrow> bool" where
  "apart Buy p q = (p < q)"
| "apart Sell p q = (q < p)"

lemma uncrossed_side:
  "uncrossed A \<longleftrightarrow> (\<forall>x \<in> set (side_of s A). \<forall>y \<in> set (side_of (opposite s) A). apart s (o_price x) (o_price y))"
  by (cases s) (auto simp: uncrossed_def)

lemma distinct_ids_side:
  "distinct (map o_id (resting A)) \<longleftrightarrow> distinct (map o_id (side_of s A)) \<and> distinct (map o_id (side_of (opposite s) A))
     \<and> o_id ` set (side_of s A) \<inter> o_id ` set (side_of (opposite s) A) = {}"
  by (cases s) (auto simp: resting_def)

lemma abook_ok_side:
  "abook_ok A \<longleftrightarrow> (\<forall>s. list_all (resting_ok s) (side_of s A) \<and> in_priority s (side_of s A)
      \<and> volume (side_of s A) \<le> i64_max) \<and> distinct (map o_id (resting A)) \<and> uncrossed A"
proof -
  have all: "(\<forall>s. P s) \<longleftrightarrow> P Buy \<and> P Sell" for P by (metis Side.exhaust)
  show ?thesis unfolding abook_ok_def all by auto
qed

lemma set_side_ok:
  assumes "abook_ok A" "list_all (resting_ok s) xs" "in_priority s xs" "volume xs \<le> i64_max"
    and "distinct (map o_id xs)" "o_id ` set xs \<inter> o_id ` set (side_of (opposite s) A) = {}"
    and "\<forall>x \<in> set xs. \<forall>y \<in> set (side_of (opposite s) A). apart s (o_price x) (o_price y)"
  shows "abook_ok (set_side s xs A)"
  using assms unfolding abook_ok_side
  by (auto simp: uncrossed_side [of _ s] distinct_ids_side [of _ s])

lemma in_priority_prices: "in_priority s xs \<longleftrightarrow> sorted_wrt (at_least s) (map o_price xs)"
  by (simp add: in_priority_def sorted_wrt_map)

lemma leftover_in_priority: "leftover ms ms' \<Longrightarrow> in_priority s ms \<Longrightarrow> in_priority s ms'"
  by (metis in_priority_prices leftover_maps sorted_wrt_drop)

lemma leftover_images:
  assumes "leftover ms ms'"
  shows "o_id ` set ms' \<subseteq> o_id ` set ms" "o_price ` set ms' \<subseteq> o_price ` set ms"
    and "distinct (map o_id ms) \<Longrightarrow> distinct (map o_id ms')"
proof -
  obtain n where n: "map o_id ms' = drop n (map o_id ms)" "map o_price ms' = drop n (map o_price ms)"
    by (rule leftover_maps [OF assms])
  show "o_id ` set ms' \<subseteq> o_id ` set ms" "o_price ` set ms' \<subseteq> o_price ` set ms"
    using n set_drop_subset by (metis list.set_map)+
  show "distinct (map o_id ms) \<Longrightarrow> distinct (map o_id ms')" using n by simp
qed

lemma leftover_ok:
  assumes ok: "abook_ok A" and left: "leftover (side_of s A) ms'"
  shows "abook_ok (set_side s ms' A)"
proof (rule set_side_ok [OF ok])
  have side: "list_all (resting_ok s) (side_of s A)" "in_priority s (side_of s A)"
    "volume (side_of s A) \<le> i64_max" "distinct (map o_id (side_of s A))"
    using ok unfolding abook_ok_side distinct_ids_side [of _ s] by blast+
  show "list_all (resting_ok s) ms'" "volume ms' \<le> i64_max"
    using leftover_resting [OF left side(1)] side(3) by simp_all
  show "in_priority s ms'" using leftover_in_priority left side(2) .
  show "distinct (map o_id ms')" using leftover_images(3) left side(4) .
  show "o_id ` set ms' \<inter> o_id ` set (side_of (opposite s) A) = {}"
    using leftover_images(1) [OF left] ok unfolding abook_ok_side distinct_ids_side [of _ s] by blast
  show "\<forall>x \<in> set ms'. \<forall>y \<in> set (side_of (opposite s) A). apart s (o_price x) (o_price y)"
  proof (intro ballI)
    fix x y assume x: "x \<in> set ms'" and y: "y \<in> set (side_of (opposite s) A)"
    have "o_price x \<in> o_price ` set (side_of s A)"
      using leftover_images(2) [OF left] x by blast
    then obtain x0 where x0: "o_price x = o_price x0" "x0 \<in> set (side_of s A)"
      by (rule imageE)
    have "uncrossed A" using ok by (simp add: abook_ok_def)
    then show "apart s (o_price x) (o_price y)"
      using y x0 unfolding uncrossed_side [of A s] by simp
  qed
qed

lemma place_split:
  "place s x ys = takeWhile (\<lambda>y. at_least s (o_price y) (o_price x)) ys @ x #
     dropWhile (\<lambda>y. at_least s (o_price y) (o_price x)) ys"
  by (induction ys) auto

lemma mset_place: "mset (place s x ys) = add_mset x (mset ys)"
  by (induction ys) auto

lemma set_place [simp]: "set (place s x ys) = insert x (set ys)"
  by (induction ys) auto

lemma volume_place: "volume (place s x ys) = rq x + volume ys"
  by (induction ys) (auto simp: volume_def)

lemma distinct_place: "distinct (map o_id (place s x ys)) \<longleftrightarrow> o_id x \<notin> o_id ` set ys \<and> distinct (map o_id ys)"
  by (induction ys) auto

lemma at_least_total: "at_least s p q \<or> at_least s q p"
  by (cases s) auto

lemma at_least_trans: "at_least s p q \<Longrightarrow> at_least s q r \<Longrightarrow> at_least s p r"
  by (cases s) auto

lemma in_priority_place: "in_priority s ys \<Longrightarrow> in_priority s (place s x ys)"
  using at_least_total at_least_trans unfolding in_priority_def
  by (induction ys) (auto, metis+)

text \<open>Nothing left on the other side is at a price the taker accepts.\<close>

lemma exhausted_apart:
  assumes prio: "in_priority (opposite (o_side t)) ms" and lim: "o_type t = Limit"
    and ex: "ms = [] \<or> \<not> price_ok t (o_price (hd ms))"
  shows "\<forall>y \<in> set ms. apart (o_side t) (o_price t) (o_price y)"
proof (cases ms)
  case (Cons m ms')
  then have "at_least (opposite (o_side t)) (o_price m) (o_price y)" if "y \<in> set ms" for y
    using prio that by (cases "o_side t") (auto simp: in_priority_def)
  then show ?thesis
    using ex Cons lim by (cases "o_side t") (fastforce simp: price_ok_def)+
qed simp

lemma spec_execute_cases:
  obtains (filled) k t opp fs where
      "spec_match stp (ord\<lparr>o_remaining_quantity := o_quantity ord\<rparr>) (side_of (opposite (o_side ord)) A) = (k, t, opp, fs)"
      "rq t = 0"
      "spec_execute stp cb symb ord A w = (report (o_id ord) Filled (o_quantity ord) 0 NoReason,
         set_side (opposite (o_side ord)) opp A,
         emit_fills cb symb (ord\<lparr>o_remaining_quantity := o_quantity ord\<rparr>) fs w)"
  | (rested) t opp fs where
      "spec_match stp (ord\<lparr>o_remaining_quantity := o_quantity ord\<rparr>) (side_of (opposite (o_side ord)) A) = (False, t, opp, fs)"
      "rq t \<noteq> 0" "rests_in_book ord"
      "spec_execute stp cb symb ord A w =
        (report (o_id ord) (if 0 < o_quantity ord - rq t then PartiallyFilled else New) (o_quantity ord - rq t) (rq t) NoReason,
         set_side (o_side ord) (place (o_side ord) t (side_of (o_side ord) A)) (set_side (opposite (o_side ord)) opp A),
         emit_fills cb symb (ord\<lparr>o_remaining_quantity := o_quantity ord\<rparr>) fs w)"
  | (killed) k t opp fs where
      "spec_match stp (ord\<lparr>o_remaining_quantity := o_quantity ord\<rparr>) (side_of (opposite (o_side ord)) A) = (k, t, opp, fs)"
      "rq t \<noteq> 0" "k \<or> \<not> rests_in_book ord"
      "spec_execute stp cb symb ord A w = (report (o_id ord) Cancelled (o_quantity ord - rq t) 0 NoReason,
         set_side (opposite (o_side ord)) opp A,
         emit_fills cb symb (ord\<lparr>o_remaining_quantity := o_quantity ord\<rparr>) fs w)"
proof -
  obtain k t opp fs where m: "spec_match stp (ord\<lparr>o_remaining_quantity := o_quantity ord\<rparr>)
      (side_of (opposite (o_side ord)) A) = (k, t, opp, fs)"
    by (metis prod_cases4)
  consider "rq t = 0" | "rq t \<noteq> 0" "\<not> k" "rests_in_book ord" | "rq t \<noteq> 0" "k \<or> \<not> rests_in_book ord"
    by blast
  then show thesis
  proof cases
    case 1
    then show ?thesis using filled [OF m] by (simp add: spec_execute_def m)
  next
    case 2
    have "k = False" using 2 by simp
    then show ?thesis using rested [of t opp fs] 2 m by (simp add: spec_execute_def)
  next
    case 3
    then show ?thesis using killed [OF m] by (auto simp: spec_execute_def m)
  qed
qed

text \<open>What a caller must guarantee for the 64-bit quantities and the index to be in range.\<close>

definition admissible :: "Order \<Rightarrow> ABook \<Rightarrow> bool" where
  "admissible ord A \<longleftrightarrow> o_id ord \<noteq> kInvalidOrderId \<and> in_i64 (o_price ord) \<and> in_i64 (o_quantity ord)
     \<and> volume (side_of (o_side ord) A) + o_quantity ord \<le> i64_max"

lemma abook_okD:
  assumes "abook_ok A"
  shows "list_all (resting_ok s) (side_of s A)" "in_priority s (side_of s A)"
    "volume (side_of s A) \<le> i64_max" "distinct (map o_id (side_of s A))"
    "o_id ` set (side_of s A) \<inter> o_id ` set (side_of (opposite s) A) = {}"
  using assms unfolding abook_ok_side by (auto simp: distinct_ids_side [of A s])

lemma abook_ok_global: "abook_ok A \<Longrightarrow> distinct (map o_id (resting A))" "abook_ok A \<Longrightarrow> uncrossed A"
  by (simp_all add: abook_ok_def)

lemma spec_execute_ok:
  assumes ok: "abook_ok A" and adm: "admissible ord A" and q: "0 < o_quantity ord"
    and pr: "o_type ord = Limit \<Longrightarrow> 0 < o_price ord" and new: "o_id ord \<notin> ids A"
  shows "abook_ok (fst (snd (spec_execute stp cb symb ord A w)))"
proof -
  let ?s = "o_side ord" and ?t0 = "ord\<lparr>o_remaining_quantity := o_quantity ord\<rparr>"
  note opp = abook_okD [OF ok, of "opposite ?s"] and own = abook_okD [OF ok, of ?s]
  have pos: "\<forall>m \<in> set (side_of (opposite ?s) A). 0 < rq m"
    using opp(1) by (auto simp: list_all_iff resting_ok_def)
  show ?thesis
  proof (cases rule: spec_execute_cases [where stp = stp and ord = ord and A = A and cb = cb and symb = symb and w = w])
    case (rested t ms fs)
    note left = spec_match_leftover [OF rested(1)]
    let ?A1 = "set_side (opposite ?s) ms A"
    have A1: "abook_ok ?A1" using leftover_ok [OF ok left] .
    have bnd: "0 < rq t" "rq t \<le> o_quantity ord"
      using spec_match_bounds [OF rested(1)] pos q rested(2) by auto
    have t: "t = ?t0\<lparr>o_remaining_quantity := rq t\<rparr>" by (rule spec_match_taker [OF rested(1)])
    then have t_id: "o_id t = o_id ord" and t_price: "o_price t = o_price ord"
      and t_side: "o_side t = ?s" and t_lim: "o_type t = Limit" "price_ok ?t0 = price_ok t"
      using rested(3) by (metis Order.ext_inject Order.surjective Order.update_convs(4),
          metis Order.ext_inject Order.surjective Order.update_convs(4),
          metis Order.ext_inject Order.surjective Order.update_convs(4),
          metis Order.ext_inject Order.surjective Order.update_convs(4) rests_in_book_def,
          metis price_ok_rem)
    have t_ok: "resting_ok ?s t"
      using t bnd adm pr rested(3)
      by (cases t; cases ord) (auto simp: resting_ok_def rests_in_book_def admissible_def in_i64_def)
    have notin: "o_id t \<notin> o_id ` set (side_of ?s A)" "o_id t \<notin> o_id ` set ms"
      using new leftover_images(1) [OF left] t_id unfolding ids_def resting_set [of A ?s] by auto
    have ap: "\<forall>y \<in> set ms. apart ?s (o_price t) (o_price y)"
      using exhausted_apart [of t ms] leftover_in_priority [OF left opp(2)]
        spec_match_exhausted [OF rested(1)] bnd t_lim t_side by simp
    have "abook_ok (set_side ?s (place ?s t (side_of ?s ?A1)) ?A1)"
    proof (rule set_side_ok [OF A1])
      show "list_all (resting_ok ?s) (place ?s t (side_of ?s ?A1))"
        using own(1) t_ok by (simp add: list_all_iff)
      show "in_priority ?s (place ?s t (side_of ?s ?A1))"
        using own(2) by (simp add: in_priority_place)
      show "volume (place ?s t (side_of ?s ?A1)) \<le> i64_max"
        using adm bnd by (simp add: volume_place admissible_def)
      show "distinct (map o_id (place ?s t (side_of ?s ?A1)))"
        using own(4) notin(1) by (simp add: distinct_place)
      show "o_id ` set (place ?s t (side_of ?s ?A1)) \<inter> o_id ` set (side_of (opposite ?s) ?A1) = {}"
        using abook_okD(5) [OF A1, of ?s] notin(2) by auto
      show "\<forall>x \<in> set (place ?s t (side_of ?s ?A1)). \<forall>y \<in> set (side_of (opposite ?s) ?A1).
          apart ?s (o_price x) (o_price y)"
        using abook_ok_global(2) [OF A1] ap unfolding uncrossed_side [of _ ?s] by simp
    qed
    then show ?thesis using rested(4) by simp
  qed (use leftover_ok [OF ok] spec_match_leftover in auto)
qed

theorem spec_add_ok:
  assumes "abook_ok A" "admissible ord A"
  shows "abook_ok (fst (snd (spec_add rng stp cb symb ord A w)))"
  using assms(1) spec_execute_ok [OF assms, of stp cb symb w] by (auto simp: spec_add_def)

lemma ids_remove: "ids (remove_id i A) = ids A - {i}"
  by (auto simp: ids_def remove_id_def resting_def)

lemma side_of_remove: "side_of s (remove_id i A) = filter (\<lambda>x. o_id x \<noteq> i) (side_of s A)"
  by (cases s) (simp_all add: remove_id_def)

lemma volume_filter: "\<forall>x \<in> set xs. 0 < rq x \<Longrightarrow> volume (filter P xs) \<le> volume xs"
  by (induction xs) (auto simp: volume_def)

lemma resting_ok_rq: "list_all (resting_ok s) xs \<Longrightarrow> \<forall>x \<in> set xs. 0 < rq x"
  by (simp add: list_all_iff resting_ok_def)

theorem remove_id_ok:
  assumes "abook_ok A"
  shows "abook_ok (remove_id i A)"
proof -
  have side: "list_all (resting_ok s) (side_of s (remove_id i A)) \<and> in_priority s (side_of s (remove_id i A))
      \<and> volume (side_of s (remove_id i A)) \<le> i64_max" for s
  proof -
    have "volume (side_of s (remove_id i A)) \<le> volume (side_of s A)"
      using volume_filter [OF resting_ok_rq [OF abook_okD(1) [OF assms]]] by (simp add: side_of_remove)
    then show ?thesis
      using abook_okD(1-3) [OF assms, of s]
      by (auto simp: side_of_remove list_all_iff in_priority_def sorted_wrt_filter)
  qed
  moreover have "distinct (map o_id (resting (remove_id i A)))"
    using abook_ok_global(1) [OF assms]
    by (simp add: resting_def remove_id_def distinct_map_filter flip: filter_append)
  moreover have "uncrossed (remove_id i A)"
    using abook_ok_global(2) [OF assms] by (auto simp: uncrossed_def remove_id_def)
  ultimately show ?thesis unfolding abook_ok_side by blast
qed

lemma spec_cancel_ok: "abook_ok A \<Longrightarrow> abook_ok (snd (spec_cancel i A))"
  by (simp add: spec_cancel_def remove_id_ok)

lemma resize_simps [simp]: "o_id (resize i q x) = o_id x" "o_price (resize i q x) = o_price x"
  "o_side (resize i q x) = o_side x" "o_type (resize i q x) = o_type x"
  "o_time_in_force (resize i q x) = o_time_in_force x"
  "rq (resize i q x) = (if o_id x = i then q else rq x)"
  by (simp_all add: resize_def)

lemma volume_resize:
  "(\<And>x. x \<in> set xs \<Longrightarrow> o_id x = i \<Longrightarrow> q \<le> rq x) \<Longrightarrow> volume (map (resize i q) xs) \<le> volume xs"
  unfolding volume_def map_map by (rule sum_list_mono) (auto simp: resize_def)

definition resize_book :: "OrderId \<Rightarrow> Quantity \<Rightarrow> ABook \<Rightarrow> ABook" where
  "resize_book i q A = A\<lparr>a_bids := map (resize i q) (a_bids A), a_asks := map (resize i q) (a_asks A)\<rparr>"

lemma side_of_resize: "side_of s (resize_book i q A) = map (resize i q) (side_of s A)"
  by (cases s) (simp_all add: resize_book_def)

lemma ids_resize_book: "map o_id (resting (resize_book i q A)) = map o_id (resting A)"
  by (simp add: resize_book_def resting_def comp_def)

lemma resize_book_ok:
  assumes ok: "abook_ok A" and q: "0 < q" "\<And>x. x \<in> set (resting A) \<Longrightarrow> o_id x = i \<Longrightarrow> q \<le> rq x"
  shows "abook_ok (resize_book i q A)"
proof -
  have "list_all (resting_ok s) (side_of s (resize_book i q A)) \<and> in_priority s (side_of s (resize_book i q A))
      \<and> volume (side_of s (resize_book i q A)) \<le> i64_max" for s
  proof -
    have "volume (map (resize i q) (side_of s A)) \<le> volume (side_of s A)"
      by (rule volume_resize) (use q(2) resting_set [of A s] in auto)
    then show ?thesis
      using abook_okD(1-3) [OF ok, of s] q(1)
      by (auto simp: side_of_resize list_all_iff in_priority_prices comp_def resting_ok_def rests_in_book_def)
  qed
  moreover have "uncrossed (resize_book i q A)"
    using abook_ok_global(2) [OF ok] by (auto simp: uncrossed_def resize_book_def)
  ultimately show ?thesis
    using abook_ok_global(1) [OF ok] unfolding abook_ok_side ids_resize_book by blast
qed

definition amend_admissible :: "OrderId \<Rightarrow> Quantity \<Rightarrow> Price option \<Rightarrow> ABook \<Rightarrow> bool" where
  "amend_admissible i q np A \<longleftrightarrow> in_i64 q \<and> (case np of None \<Rightarrow> True | Some p \<Rightarrow> in_i64 p) \<and>
     (\<forall>x \<in> set (resting A). o_id x = i \<longrightarrow> volume (side_of (o_side x) (remove_id i A)) + q \<le> i64_max)"

lemma find_id_Some:
  assumes "find (\<lambda>x. o_id x = i) xs = Some x"
  shows "x \<in> set xs" "o_id x = i"
  using assms by (auto simp: find_Some_iff)

text \<open>With distinct ids, the order an id names is unique.\<close>

lemma same_id_same_order:
  "distinct (map o_id xs) \<Longrightarrow> x \<in> set xs \<Longrightarrow> y \<in> set xs \<Longrightarrow> o_id x = o_id y \<Longrightarrow> x = y"
  by (metis distinct_map inj_onD)

lemma resting_side_ok: "abook_ok A \<Longrightarrow> x \<in> set (resting A) \<Longrightarrow> resting_ok (o_side x) x"
  using abook_okD(1) [of A Buy] abook_okD(1) [of A Sell] by (auto simp: resting_def list_all_iff resting_ok_def)

text \<open>The replacement a cancel-replace amend submits is admissible once the original is gone.\<close>

lemma amend_replacement_admissible:
  assumes ok: "abook_ok A" and adm: "amend_admissible i q np A" and x: "find (\<lambda>x. o_id x = i) (resting A) = Some x"
  shows "admissible (x\<lparr>o_price := (case np of None \<Rightarrow> o_price x | Some p \<Rightarrow> p), o_quantity := q,
       o_remaining_quantity := q, o_timestamp := ts\<rparr>) (remove_id i A)"
  using adm find_id_Some [OF x] resting_side_ok [OF ok find_id_Some(1) [OF x]]
  by (auto simp: amend_admissible_def admissible_def resting_ok_def in_i64_def i64_max_def split: option.splits)

theorem spec_amend_ok:
  assumes ok: "abook_ok A" and adm: "amend_admissible i q np A"
  shows "abook_ok (fst (snd (spec_amend rng stp cb symb i q np A w)))"
proof (cases "find (\<lambda>x. o_id x = i) (resting A)")
  case None
  then show ?thesis using ok by (simp add: spec_amend_def)
next
  case (Some x)
  note x = find_id_Some [OF Some]
  consider (rej) "q \<le> 0 \<or> (\<exists>p. np = Some p \<and> \<not> rng p)"
    | (down) "0 < q" "\<not> (\<exists>p. np = Some p \<and> \<not> rng p)" "(case np of None \<Rightarrow> True | Some p \<Rightarrow> p = o_price x) \<and> q \<le> rq x"
    | (replace) "0 < q" "\<not> (\<exists>p. np = Some p \<and> \<not> rng p)" "\<not> ((case np of None \<Rightarrow> True | Some p \<Rightarrow> p = o_price x) \<and> q \<le> rq x)"
    by (meson not_le)
  then show ?thesis
  proof cases
    case rej
    then show ?thesis using ok Some by (auto simp: spec_amend_def)
  next
    case down
    then have "fst (snd (spec_amend rng stp cb symb i q np A w)) = resize_book i q A"
      using Some by (auto simp: spec_amend_def resize_book_def)
    moreover have "abook_ok (resize_book i q A)"
    proof (rule resize_book_ok [OF ok down(1)])
      fix y assume "y \<in> set (resting A)" "o_id y = i"
      then have "y = x" using same_id_same_order [OF abook_ok_global(1) [OF ok]] x by metis
      then show "q \<le> rq y" using down(3) by simp
    qed
    ultimately show ?thesis by simp
  next
    case replace
    obtain ts w1 where now: "now_ns w = (ts, w1)" by force
    let ?r = "x\<lparr>o_price := (case np of None \<Rightarrow> o_price x | Some p \<Rightarrow> p), o_quantity := q,
       o_remaining_quantity := q, o_timestamp := ts\<rparr>"
    have "spec_amend rng stp cb symb i q np A w = spec_add rng stp cb symb ?r (remove_id i A) w1"
      using replace Some now by (auto simp: spec_amend_def)
    moreover have "admissible ?r (remove_id i A)" by (rule amend_replacement_admissible [OF ok adm Some])
    ultimately show ?thesis using spec_add_ok [OF remove_id_ok [OF ok]] by simp
  qed
qed

section \<open>Price-time priority, fill volume and reported trades\<close>

text \<open>
  Makers are filled in queue order, skipping only those self-trade prevention excludes, and every
  maker but the last one is filled completely.
\<close>

lemma spec_match_priority:
  "spec_match stp t ms = (k, t', ms', fs) \<Longrightarrow>
     map fst fs = take (length fs) (filter (\<lambda>m. \<not> self_trade stp t m) ms)
     \<and> (\<forall>f \<in> set (butlast fs). snd f = rq (fst f))"
  by (induction rule: spec_match_induct) auto

lemma reachable_volume_simps [simp]:
  "reachable_volume t [] = 0"
  "reachable_volume t (m # ms) = (if price_ok t (o_price m) then rq m + reachable_volume t ms else 0)"
  "reachable_volume (t\<lparr>o_remaining_quantity := q\<rparr>) ms = reachable_volume t ms"
  by (simp_all add: reachable_volume_def volume_def)

lemma reachable_volume_nonneg: "\<forall>m \<in> set ms. 0 < rq m \<Longrightarrow> 0 \<le> reachable_volume t ms"
  by (induction ms) auto

text \<open>Without self-trades the taker gets what it asks for or all it can reach.\<close>

lemma spec_match_volume:
  assumes "spec_match stp t ms = (k, t', ms', fs)" "0 \<le> rq t" "\<forall>m \<in> set ms. 0 < rq m"
    and "\<forall>m \<in> set ms. \<not> self_trade stp t m"
  shows "(\<Sum>f\<leftarrow>fs. snd f) = min (rq t) (reachable_volume t ms) \<and> \<not> k"
  using assms
proof (induction rule: spec_match_induct)
  case (stop t m ms)
  then show ?case using reachable_volume_nonneg [of ms t] by auto
next
  case (part t m ms)
  then show ?case using reachable_volume_nonneg [of ms t] by auto
qed auto

lemma emit_fills_append: "emit_fills cb symb t (xs @ ys) w = emit_fills cb symb t ys (emit_fills cb symb t xs w)"
  by (induction cb symb t xs w rule: emit_fills.induct) auto

lemma emit_trade_rem [simp]:
  "emit_trade cb symb (t\<lparr>o_remaining_quantity := q\<rparr>) m pr v w = emit_trade cb symb t m pr v w"
  "emit_trade cb symb t (m\<lparr>o_remaining_quantity := q\<rparr>) pr v w = emit_trade cb symb t m pr v w"
  by (simp_all add: emit_trade_def mk_trade_def)

lemma emit_fills_rem [simp]: "emit_fills cb symb (t\<lparr>o_remaining_quantity := q\<rparr>) fs w = emit_fills cb symb t fs w"
  by (induction cb symb t fs w rule: emit_fills.induct) auto

definition trades_of :: "SymbolId \<Rightarrow> Order \<Rightarrow> fill list \<Rightarrow> World \<Rightarrow> Trade list" where
  "trades_of symb t fs w = map (\<lambda>(i, m, q). mk_trade symb t m (o_price m) q (clock w i))
     (enumerate (ticks w) fs)"

lemma emit_fills_world:
  "emit_fills cb symb t fs w =
     (if cb then w\<lparr>ticks := ticks w + length fs, events := events w @ trades_of symb t fs w\<rparr> else w)"
proof (induction cb symb t fs w rule: emit_fills.induct)
  case (1 cb symb t w)
  then show ?case by (simp add: trades_of_def)
next
  case (2 cb symb t m q fs w)
  then show ?case by (auto simp: emit_trade_def now_ns_def deliver_def trades_of_def)
qed

end
