(* ===== verification/Book_Core.thy ===== *)
theory Book_Core
  imports Order_Pool Id_Index_Map Book_Spec
begin

text \<open>
  What the three order books have in common: the members \<open>symbol_\<close>, \<open>pool_\<close>, \<open>id_index_\<close>,
  \<open>trade_callback_\<close> and \<open>stp_policy_\<close>, and the loop that drains one price level against a taker.

  Each book is a record that extends \<open>BookCore\<close> by its level containers, so the functions here work
  on all of them.  The trade callback is an arbitrary \<open>std::function\<close>; the books only ask whether one
  is set and hand it trades, so the field is a flag and the trades are delivered to the \<open>World\<close>.
\<close>

section \<open>Model\<close>

record BookCore =
  b_symbol :: SymbolId
  b_pool :: OrderPool
  b_id_index :: IdIndexMap
  b_trade_callback :: bool
  b_stp_policy :: SelfTradePrevention

definition set_trade_callback :: "bool \<Rightarrow> 'a BookCore_scheme \<Rightarrow> 'a BookCore_scheme" where
  "set_trade_callback cb b = b\<lparr>b_trade_callback := cb\<rparr>"

definition order_count :: "'a BookCore_scheme \<Rightarrow> nat" where
  "order_count b = id_size (b_id_index b)"

text \<open>A maker leaves the book inside the loop: unlinked, forgotten by id, its slot freed.\<close>

definition drop_maker :: "PriceLevel \<Rightarrow> 'a BookCore_scheme \<Rightarrow> u32 \<Rightarrow> OrderId
    \<Rightarrow> (PriceLevel \<times> 'a BookCore_scheme) option" where
  "drop_maker level b maker_idx maker_id = do {
     (level, p) \<leftarrow> level_unlink level (b_pool b) maker_idx;
     (_, m) \<leftarrow> id_erase (b_id_index b) maker_id;
     p \<leftarrow> release p maker_idx;
     Some (level, b\<lparr>b_pool := p, b_id_index := m\<rparr>) }"

text \<open>The result of the loop: was the taker killed, the taker, the level, the book, the world.\<close>

partial_function (option) drain_level :: "Price \<Rightarrow> Order \<Rightarrow> PriceLevel \<Rightarrow> 'a BookCore_scheme \<Rightarrow> World
    \<Rightarrow> (bool \<times> Order \<times> PriceLevel \<times> 'a BookCore_scheme \<times> World) option" where
  "drain_level level_price taker level b w =
     (if l_head level \<noteq> kNullIndex \<and> o_remaining_quantity taker > 0 then do {
        let maker_idx = l_head level;
        nd \<leftarrow> pool_get (b_pool b) maker_idx;
        let maker = n_order nd;
        if self_trade (b_stp_policy b) taker maker then do {
          (level, b) \<leftarrow> (if b_stp_policy b = CancelResting \<or> b_stp_policy b = CancelBoth then do {
              tq \<leftarrow> chk64 (l_total_quantity level - o_remaining_quantity maker);
              drop_maker (level\<lparr>l_total_quantity := tq\<rparr>) b maker_idx (o_id maker) }
            else Some (level, b));
          if b_stp_policy b = CancelIncoming \<or> b_stp_policy b = CancelBoth
          then Some (True, taker, level, b, w)
          else drain_level level_price taker level b w }
        else do {
          let trade_qty = min (o_remaining_quantity taker) (o_remaining_quantity maker);
          r \<leftarrow> chk64 (o_remaining_quantity taker - trade_qty);
          let taker = taker\<lparr>o_remaining_quantity := r\<rparr>;
          (level, p) \<leftarrow> level_reduce_quantity level (b_pool b) maker_idx trade_qty;
          let b = b\<lparr>b_pool := p\<rparr>;
          let w = emit_trade (b_trade_callback b) (b_symbol b) taker maker level_price trade_qty w;
          nd \<leftarrow> pool_get (b_pool b) maker_idx;
          (level, b) \<leftarrow> (if o_remaining_quantity (n_order nd) = 0
            then drop_maker level b maker_idx (o_id maker) else Some (level, b));
          drain_level level_price taker level b w } }
      else Some (False, taker, level, b, w))"

section \<open>Slots, ids and live orders\<close>

abbreviation nodes :: "'a BookCore_scheme \<Rightarrow> OrderNode list" where
  "nodes b \<equiv> p_nodes (b_pool b)"

text \<open>
  \<open>core_ok b X\<close>: the slots of the pool are either live (the set \<open>X\<close>) or free, and the id index maps
  exactly the ids of the live orders to their slots.
\<close>

definition core_ok :: "'a BookCore_scheme \<Rightarrow> u32 set \<Rightarrow> bool" where
  "core_ok b X \<longleftrightarrow> pool_ok (b_pool b) \<and> X \<inter> set (p_free_list (b_pool b)) = {}
     \<and> X \<union> set (p_free_list (b_pool b)) = {x. unat x < length (nodes b)}
     \<and> id_inv (b_id_index b)
     \<and> (\<forall>k x. id_lookup (b_id_index b) k = Some x \<longleftrightarrow> x \<in> X \<and> o_id (ord_at (nodes b) x) = k)"

lemma core_okD:
  assumes "core_ok b X"
  shows "pool_ok (b_pool b)" "length (nodes b) \<le> unat kNullIndex" "id_inv (b_id_index b)"
    and "x \<in> X \<Longrightarrow> unat x < length (nodes b)" "x \<in> X \<Longrightarrow> x \<notin> set (p_free_list (b_pool b))"
    and "id_lookup (b_id_index b) k = Some x \<longleftrightarrow> x \<in> X \<and> o_id (ord_at (nodes b) x) = k"
  using assms by (auto simp: core_ok_def pool_ok_def)

lemma core_ok_cong:
  assumes "core_ok b X" "b_pool b' = b_pool b" "b_id_index b' = b_id_index b"
  shows "core_ok b' X"
  using assms by (simp add: core_ok_def)

lemma core_ok_nodes:
  assumes "core_ok b X" "length N' = length (nodes b)" "\<And>x. o_id (ord_at N' x) = o_id (ord_at (nodes b) x)"
  shows "core_ok (b\<lparr>b_pool := (b_pool b)\<lparr>p_nodes := N'\<rparr>\<rparr>) X"
  using assms by (simp add: core_ok_def pool_ok_def)

lemma id_lookup_zero [simp]: "id_lookup m kInvalidOrderId = None"
  by (simp add: id_lookup_def table_lookup_None_iff)

lemma core_ok_ids:
  assumes "core_ok b X"
  shows "inj_on (\<lambda>x. o_id (ord_at (nodes b) x)) X" "x \<in> X \<Longrightarrow> o_id (ord_at (nodes b) x) \<noteq> kInvalidOrderId"
proof -
  show "inj_on (\<lambda>x. o_id (ord_at (nodes b) x)) X"
    by (rule inj_onI) (metis assms core_okD(6) option.inject)
  show "x \<in> X \<Longrightarrow> o_id (ord_at (nodes b) x) \<noteq> kInvalidOrderId"
    by (metis assms core_okD(6) id_lookup_zero option.distinct(1))
qed

text \<open>An order leaves: its id is erased, its slot goes to the free list.\<close>

lemma core_ok_leave:
  assumes ok: "core_ok b X" and x: "x \<in> X"
  obtains m p where "id_erase (b_id_index b) (o_id (ord_at (nodes b) x)) = Some (True, m)"
    and "release (b_pool b) x = Some p" "p_nodes p = nodes b"
    and "core_ok (b\<lparr>b_pool := p, b_id_index := m\<rparr>) (X - {x})"
proof -
  let ?k = "o_id (ord_at (nodes b) x)"
  have "id_lookup (b_id_index b) ?k = Some x" using core_okD(6) [OF ok] x by simp
  then obtain m where m: "id_erase (b_id_index b) ?k = Some (True, m)" "id_inv m"
      "id_lookup m = (id_lookup (b_id_index b))(?k := None)"
    using id_erase_present [OF core_okD(3) [OF ok], of ?k] by auto
  note rel = release_correct [OF core_okD(1) [OF ok] core_okD(4,5) [OF ok x]]
  show thesis
  proof (rule that [OF m(1) rel(1)])
    show "core_ok (b\<lparr>b_pool := (b_pool b)\<lparr>p_free_list := p_free_list (b_pool b) @ [x]\<rparr>, b_id_index := m\<rparr>) (X - {x})"
      using ok rel(2) m(2,3) x core_ok_ids(1) [OF ok]
      by (auto simp: core_ok_def inj_on_def)
  qed simp
qed

section \<open>Draining a level\<close>

text \<open>\<open>core_step b b'\<close>: only the pool and the id index changed.  \<open>frame Y N N'\<close>: only nodes in \<open>Y\<close> did.\<close>

definition core_step :: "'a BookCore_scheme \<Rightarrow> 'a BookCore_scheme \<Rightarrow> bool" where
  "core_step b b' \<longleftrightarrow> b' = b\<lparr>b_pool := b_pool b', b_id_index := b_id_index b'\<rparr>"

definition frame :: "u32 set \<Rightarrow> OrderNode list \<Rightarrow> OrderNode list \<Rightarrow> bool" where
  "frame Y N N' \<longleftrightarrow> length N' = length N \<and> (\<forall>y. y \<notin> Y \<longrightarrow> node_at N' y = node_at N y)"

lemma core_step_refl: "core_step b b"
  by (simp add: core_step_def)

lemma core_step_trans: "core_step b b1 \<Longrightarrow> core_step b1 b2 \<Longrightarrow> core_step b b2"
  unfolding core_step_def by (cases b; cases b1; cases b2) auto

lemma core_step_fields:
  assumes "core_step b b'"
  shows "b_symbol b' = b_symbol b" "b_trade_callback b' = b_trade_callback b" "b_stp_policy b' = b_stp_policy b"
  using assms unfolding core_step_def by (cases b; cases b'; simp)+

lemma core_step_update [intro]: "core_step b (b\<lparr>b_pool := p, b_id_index := m\<rparr>)" "core_step b (b\<lparr>b_pool := p\<rparr>)"
  by (simp_all add: core_step_def)

lemma frame_refl [simp]: "frame Y N N"
  by (simp add: frame_def)

lemma frame_trans: "frame Y N N1 \<Longrightarrow> frame Z N1 N2 \<Longrightarrow> Y \<subseteq> V \<Longrightarrow> Z \<subseteq> V \<Longrightarrow> frame V N N2"
  unfolding frame_def by (metis subsetD)

lemma level_repD:
  assumes "level_rep N lv xs"
  shows "distinct xs" "x \<in> set xs \<Longrightarrow> unat x < length N" "l_head lv = hd (xs @ [kNullIndex])"
    "l_total_quantity lv = (\<Sum>x\<leftarrow>xs. rem_at N x)" "level_links N lv xs"
  using assms dll_valid [of N kNullIndex xs kNullIndex] by (auto simp: level_rep_def level_links_def)

lemma drop_maker_correct:
  assumes ok: "core_ok b X" and x: "x \<in> X" and links: "level_links (nodes b) lv (as @ x # bs)"
    and tot: "l_total_quantity lv = (\<Sum>y\<leftarrow>as @ bs. rem_at (nodes b) y)"
  obtains lv' b' where "drop_maker lv b x (o_id (ord_at (nodes b) x)) = Some (lv', b')"
    and "level_rep (nodes b') lv' (as @ bs)" "l_price lv' = l_price lv" "core_ok b' (X - {x})"
    and "core_step b b'" "frame (set (as @ bs)) (nodes b) (nodes b')"
    and "\<And>y. ord_at (nodes b') y = ord_at (nodes b) y"
proof -
  obtain lv' N' where un: "level_unlink lv (b_pool b) x = Some (lv', (b_pool b)\<lparr>p_nodes := N'\<rparr>)"
      "level_links N' lv' (as @ bs)" "l_price lv' = l_price lv" "l_total_quantity lv' = l_total_quantity lv"
      "length N' = length (nodes b)" "\<And>y. ord_at N' y = ord_at (nodes b) y"
      "\<forall>y. y \<notin> set (as @ bs) \<longrightarrow> node_at N' y = node_at (nodes b) y"
    using level_unlink_correct [OF links core_okD(2) [OF ok]] by blast
  let ?b = "b\<lparr>b_pool := (b_pool b)\<lparr>p_nodes := N'\<rparr>\<rparr>"
  have ok1: "core_ok ?b X" using core_ok_nodes [OF ok un(5)] un(6) by simp
  obtain m p where out: "id_erase (b_id_index b) (o_id (ord_at (nodes b) x)) = Some (True, m)"
      "release ((b_pool b)\<lparr>p_nodes := N'\<rparr>) x = Some p" "p_nodes p = N'"
      "core_ok (b\<lparr>b_pool := p, b_id_index := m\<rparr>) (X - {x})"
    using core_ok_leave [OF ok1 x] un(6) by auto
  show thesis
    by (rule that [of lv' "b\<lparr>b_pool := p, b_id_index := m\<rparr>"])
      (use un out tot in \<open>auto simp: drop_maker_def level_rep_def frame_def\<close>)
qed

text \<open>The makers a drained level still holds: a suffix of its queue.\<close>

definition drained :: "u32 list \<Rightarrow> u32 list \<Rightarrow> bool" where
  "drained xs ys \<longleftrightarrow> (\<exists>n. ys = drop n xs)"

lemma drained_refl: "drained xs xs"
  unfolding drained_def by (metis drop0)

lemma drained_Cons: "drained xs ys \<Longrightarrow> drained (x # xs) ys"
  unfolding drained_def by (metis drop_Suc_Cons)

lemma drained_set: "drained xs ys \<Longrightarrow> set ys \<subseteq> set xs"
  by (auto simp: drained_def dest: in_set_dropD)

text \<open>What a run of the loop on one level must achieve, given what the abstract walk does.\<close>

definition drain_post :: "Price \<Rightarrow> u32 list \<Rightarrow> 'a BookCore_scheme \<Rightarrow> u32 set \<Rightarrow> Order list \<Rightarrow> PriceLevel
    \<Rightarrow> 'a BookCore_scheme \<Rightarrow> bool" where
  "drain_post pr xs b X ms' lv' b' \<longleftrightarrow> (\<exists>ys. drained xs ys \<and> level_rep (nodes b') lv' ys
     \<and> map (ord_at (nodes b')) ys = ms' \<and> l_price lv' = pr \<and> core_ok b' (X - (set xs - set ys))
     \<and> core_step b b' \<and> frame (set xs) (nodes b) (nodes b'))"

lemma drain_postI_self:
  assumes "core_ok b X" "level_rep (nodes b) lv xs" "l_price lv = pr"
  shows "drain_post pr xs b X (map (ord_at (nodes b)) xs) lv b"
  unfolding drain_post_def using assms core_step_refl by (intro exI [of _ xs]) (auto simp: drained_refl)

text \<open>The head maker goes, the rest of the level is drained.\<close>

lemma drain_post_Cons:
  assumes post: "drain_post pr xs b1 (X - {x}) ms' lv' b'" and x: "x \<notin> set xs"
    and st: "core_step b b1" and fr: "frame (set (x # xs)) (nodes b) (nodes b1)"
  shows "drain_post pr (x # xs) b X ms' lv' b'"
proof -
  obtain ys where ys: "drained xs ys" "level_rep (nodes b') lv' ys" "map (ord_at (nodes b')) ys = ms'"
      "l_price lv' = pr" "core_ok b' (X - {x} - (set xs - set ys))" "core_step b1 b'"
      "frame (set xs) (nodes b1) (nodes b')"
    using post unfolding drain_post_def by auto
  have "X - {x} - (set xs - set ys) = X - (set (x # xs) - set ys)"
    using x drained_set [OF ys(1)] by auto
  then have ok: "core_ok b' (X - (set (x # xs) - set ys))" using ys(5) by (simp only:)
  have fr': "frame (set (x # xs)) (nodes b) (nodes b')" by (rule frame_trans [OF fr ys(7)]) auto
  show ?thesis
    unfolding drain_post_def
    by (rule exI [of _ ys], intro conjI)
      (rule drained_Cons ys ok fr' core_step_trans [OF st ys(6)])+
qed

text \<open>The situation of the loop: the level holds \<open>xs\<close>, all live and at the same, acceptable price.\<close>

definition drain_pre :: "Price \<Rightarrow> u32 list \<Rightarrow> 'a BookCore_scheme \<Rightarrow> u32 set \<Rightarrow> PriceLevel \<Rightarrow> Order \<Rightarrow> bool" where
  "drain_pre pr xs b X lv t \<longleftrightarrow> core_ok b X \<and> set xs \<subseteq> X \<and> level_rep (nodes b) lv xs \<and> l_price lv = pr
     \<and> (\<forall>x \<in> set xs. o_price (ord_at (nodes b) x) = pr \<and> 0 < rem_at (nodes b) x)
     \<and> l_total_quantity lv \<le> i64_max \<and> price_ok t pr \<and> 0 \<le> rq t \<and> rq t \<le> i64_max"

lemma drain_preD:
  assumes "drain_pre pr (x # xs) b X lv t"
  shows "core_ok b X" "x \<in> X" "unat x < length (nodes b)" "x \<noteq> kNullIndex" "l_head lv = x" "x \<notin> set xs"
    "set xs \<subseteq> X - {x}" "o_price (ord_at (nodes b) x) = pr" "0 < rem_at (nodes b) x"
    "pool_get (b_pool b) x = Some (node_at (nodes b) x)" "level_links (nodes b) lv ([] @ x # xs)"
    "l_total_quantity lv = rem_at (nodes b) x + (\<Sum>y\<leftarrow>xs. rem_at (nodes b) y)"
    "0 \<le> (\<Sum>y\<leftarrow>xs. rem_at (nodes b) y)"
    "l_price lv = pr" "l_total_quantity lv \<le> i64_max" "price_ok t pr" "0 \<le> rq t" "rq t \<le> i64_max"
    "level_rep (nodes b) lv (x # xs)"
proof -
  show "core_ok b X" "x \<in> X" "l_price lv = pr" "l_total_quantity lv \<le> i64_max" "price_ok t pr" "0 \<le> rq t"
      "rq t \<le> i64_max" "level_rep (nodes b) lv (x # xs)" "o_price (ord_at (nodes b) x) = pr" "0 < rem_at (nodes b) x"
    using assms by (auto simp: drain_pre_def)
  show "0 \<le> (\<Sum>y\<leftarrow>xs. rem_at (nodes b) y)"
    using assms by (intro sum_list_nonneg) (force simp: drain_pre_def)
  note rep = level_repD [OF \<open>level_rep (nodes b) lv (x # xs)\<close>]
  show "unat x < length (nodes b)" "l_head lv = x" "x \<notin> set xs" "level_links (nodes b) lv ([] @ x # xs)"
    "l_total_quantity lv = rem_at (nodes b) x + (\<Sum>y\<leftarrow>xs. rem_at (nodes b) y)"
    using rep by auto
  then show "x \<noteq> kNullIndex" "set xs \<subseteq> X - {x}" "pool_get (b_pool b) x = Some (node_at (nodes b) x)"
    using assms core_okD(2) [of b X] valid_not_null by (auto simp: drain_pre_def pool_get_def ub_simps)
qed

text \<open>Whatever takes the head maker out leaves the same situation for the rest of the level.\<close>

definition head_gone :: "Price \<Rightarrow> u32 \<Rightarrow> u32 list \<Rightarrow> 'a BookCore_scheme \<Rightarrow> u32 set \<Rightarrow> Order \<Rightarrow> PriceLevel
    \<Rightarrow> 'a BookCore_scheme \<Rightarrow> bool" where
  "head_gone pr x xs b X t lv1 b1 \<longleftrightarrow> drain_pre pr xs b1 (X - {x}) lv1 t \<and> core_step b b1
     \<and> frame (set (x # xs)) (nodes b) (nodes b1) \<and> map (ord_at (nodes b1)) xs = map (ord_at (nodes b)) xs"

lemma head_goneI:
  assumes pre: "drain_pre pr (x # xs) b X lv t" and t1: "price_ok t1 pr" "0 \<le> rq t1" "rq t1 \<le> rq t"
    and N: "length N = length (nodes b)" "\<And>y. o_id (ord_at N y) = o_id (ord_at (nodes b) y)"
      "\<And>y. y \<noteq> x \<Longrightarrow> node_at N y = node_at (nodes b) y"
    and links: "level_links N lv0 (x # xs)" "l_price lv0 = pr"
      "l_total_quantity lv0 = l_total_quantity lv - rem_at (nodes b) x"
  obtains lv1 b1 where
    "drop_maker lv0 (b\<lparr>b_pool := (b_pool b)\<lparr>p_nodes := N\<rparr>\<rparr>) x (o_id (ord_at (nodes b) x)) = Some (lv1, b1)"
    "head_gone pr x xs b X t1 lv1 b1"
proof -
  note D = drain_preD [OF pre]
  let ?b = "b\<lparr>b_pool := (b_pool b)\<lparr>p_nodes := N\<rparr>\<rparr>"
  have same: "node_at N y = node_at (nodes b) y" if "y \<in> set xs" for y by (rule N(3)) (use that D(6) in blast)
  have sum: "(\<Sum>y\<leftarrow>xs. rem_at N y) = (\<Sum>y\<leftarrow>xs. rem_at (nodes b) y)"
    by (rule arg_cong [where f = sum_list], rule map_cong) (simp_all add: same)
  have "core_ok ?b X" by (rule core_ok_nodes [OF D(1) N(1,2)])
  then obtain lv1 b1 where out: "drop_maker lv0 ?b x (o_id (ord_at N x)) = Some (lv1, b1)"
      "level_rep (nodes b1) lv1 xs" "l_price lv1 = pr" "core_ok b1 (X - {x})"
      "core_step ?b b1" "frame (set xs) N (nodes b1)" "\<And>y. ord_at (nodes b1) y = ord_at N y"
    using drop_maker_correct [of ?b X x lv0 "[]" xs] D(2,12) links sum by auto
  have "drain_pre pr xs b1 (X - {x}) lv1 t1"
    using out(2-4) t1 pre D(7,12,13,15,17,18) level_repD(4) [OF out(2)] sum
    unfolding drain_pre_def by (auto simp: out(7) same)
  moreover have "core_step b b1" using core_step_trans [OF core_step_update(2) out(5)] .
  moreover have "frame (set (x # xs)) (nodes b) (nodes b1)"
    using out(6) N(1,3) unfolding frame_def by auto
  ultimately show thesis
    using that [of lv1 b1] out(1,7) N(2) same by (simp add: head_gone_def)
qed

lemma drain_cancels:
  assumes pre: "drain_pre pr (x # xs) b X lv t" and "0 < rq t" "self_trade (b_stp_policy b) t (ord_at (nodes b) x)"
    and "b_stp_policy b = CancelResting \<or> b_stp_policy b = CancelBoth"
  obtains lv1 b1 where "head_gone pr x xs b X t lv1 b1"
    "drain_level pr t lv b w = (if b_stp_policy b = CancelBoth then Some (True, t, lv1, b1, w)
       else drain_level pr t lv1 b1 w)"
proof -
  note D = drain_preD [OF pre]
  let ?lv0 = "lv\<lparr>l_total_quantity := l_total_quantity lv - rem_at (nodes b) x\<rparr>"
  obtain lv1 b1 where out: "drop_maker ?lv0 b x (o_id (ord_at (nodes b) x)) = Some (lv1, b1)"
      "head_gone pr x xs b X t lv1 b1"
    using head_goneI [OF pre D(16,17) order_refl, of "nodes b" ?lv0] D(11,14) by (auto simp: level_links_def)
  have fits: "in_i64 (l_total_quantity lv - rem_at (nodes b) x)"
    using D(9,12,13,15) by (intro in_i64_diff) auto
  have "b_stp_policy b1 = b_stp_policy b"
    using out(2) core_step_fields unfolding head_gone_def by blast
  then have "drain_level pr t lv b w = (if b_stp_policy b = CancelBoth then Some (True, t, lv1, b1, w)
       else drain_level pr t lv1 b1 w)"
    using assms(2-4) D(4,5,10) out(1) fits
    by (subst drain_level.simps) (auto simp: Let_def ub_simps)
  then show thesis using that out(2) by blast
qed

text \<open>A trade: the head maker is reduced, and leaves when nothing of it remains.\<close>

lemma drain_trades:
  assumes pre: "drain_pre pr (x # xs) b X lv t" and "0 < rq t" "\<not> self_trade (b_stp_policy b) t (ord_at (nodes b) x)"
    and q: "q = min (rq t) (rem_at (nodes b) x)"
  defines "N \<equiv> set_rem (nodes b) x (rem_at (nodes b) x - q)"
    and "lv0 \<equiv> lv\<lparr>l_total_quantity := l_total_quantity lv - q\<rparr>"
  shows "drain_level pr t lv b w = do {
      (level, b1) \<leftarrow> (if rem_at (nodes b) x = q
        then drop_maker lv0 (b\<lparr>b_pool := (b_pool b)\<lparr>p_nodes := N\<rparr>\<rparr>) x (o_id (ord_at (nodes b) x))
        else Some (lv0, b\<lparr>b_pool := (b_pool b)\<lparr>p_nodes := N\<rparr>\<rparr>));
      drain_level pr (t\<lparr>o_remaining_quantity := rq t - q\<rparr>) level b1
        (emit_trade (b_trade_callback b) (b_symbol b) t (ord_at (nodes b) x) pr q w) }"
    and "level_rep N lv0 (x # xs)"
proof -
  note D = drain_preD [OF pre]
  have fits: "in_i64 (rem_at (nodes b) x - q)" "in_i64 (l_total_quantity lv - q)" "in_i64 (rq t - q)"
    using q D(9,12,13,15,18) assms(2) by (auto intro!: in_i64_diff)
  note red = level_reduce_quantity_correct [OF D(11) [simplified], of x q]
  show "level_rep N lv0 (x # xs)" using red(3) fits D(19) by (simp add: N_def lv0_def)
  show "drain_level pr t lv b w = do {
      (level, b1) \<leftarrow> (if rem_at (nodes b) x = q
        then drop_maker lv0 (b\<lparr>b_pool := (b_pool b)\<lparr>p_nodes := N\<rparr>\<rparr>) x (o_id (ord_at (nodes b) x))
        else Some (lv0, b\<lparr>b_pool := (b_pool b)\<lparr>p_nodes := N\<rparr>\<rparr>));
      drain_level pr (t\<lparr>o_remaining_quantity := rq t - q\<rparr>) level b1
        (emit_trade (b_trade_callback b) (b_symbol b) t (ord_at (nodes b) x) pr q w) }"
    using D(3,4,5,10) red(1) fits assms(2,3)
    unfolding N_def lv0_def q [symmetric]
    by (subst drain_level.simps) (simp add: Let_def ub_simps pool_get_def node_at_set_rem q)
qed

lemma head_gone_post:
  assumes "head_gone pr x xs b X t lv1 b1" "x \<notin> set xs" "drain_post pr xs b1 (X - {x}) ms' lv' b'"
  shows "drain_post pr (x # xs) b X ms' lv' b'"
  using drain_post_Cons [OF assms(3,2)] assms(1) by (auto simp: head_gone_def)

lemma head_goneD:
  assumes "head_gone pr x xs b X t lv1 b1"
  shows "drain_pre pr xs b1 (X - {x}) lv1 t" "map (ord_at (nodes b1)) xs = map (ord_at (nodes b)) xs"
    "b_stp_policy b1 = b_stp_policy b" "b_trade_callback b1 = b_trade_callback b" "b_symbol b1 = b_symbol b"
  using assms core_step_fields [of b b1] by (simp_all add: head_gone_def del: map_eq_conv)

lemma head_gone_self:
  assumes "head_gone pr x xs b X t lv1 b1"
  shows "drain_post pr xs b1 (X - {x}) (map (ord_at (nodes b)) xs) lv1 b1"
  using drain_postI_self [of b1 "X - {x}" lv1 xs pr] head_goneD(1) [OF assms]
  unfolding head_goneD(2) [OF assms] by (auto simp: drain_pre_def)

text \<open>
  The loop refines the abstract walk on the queue of the level: it terminates, no check fails, and it
  returns the same verdict, taker, queue and trades.
\<close>

text \<open>The first maker is filled completely and leaves its level.\<close>

lemma drain_full:
  assumes pre: "drain_pre pr (x # xs) b X lv t" and t: "0 < rq t" "\<not> self_trade (b_stp_policy b) t (ord_at (nodes b) x)" and le: "rem_at (nodes b) x \<le> rq t"
  obtains lv1 b1 where "head_gone pr x xs b X (t\<lparr>o_remaining_quantity := rq t - rem_at (nodes b) x\<rparr>) lv1 b1"
    "drain_level pr t lv b w = drain_level pr (t\<lparr>o_remaining_quantity := rq t - rem_at (nodes b) x\<rparr>) lv1 b1
      (emit_trade (b_trade_callback b) (b_symbol b) t (ord_at (nodes b) x) pr (rem_at (nodes b) x) w)"
proof -
  note D = drain_preD [OF pre] and tr = drain_trades [OF pre t, of "rem_at (nodes b) x"]
  let ?t1 = "t\<lparr>o_remaining_quantity := rq t - rem_at (nodes b) x\<rparr>"
  let ?N2 = "set_rem (nodes b) x (rem_at (nodes b) x - rem_at (nodes b) x)"
    and ?lv2 = "lv\<lparr>l_total_quantity := l_total_quantity lv - rem_at (nodes b) x\<rparr>"
  have rep2: "level_rep ?N2 ?lv2 (x # xs)" using tr(2) le by simp
  have t1: "price_ok ?t1 pr" "0 \<le> rq ?t1" "rq ?t1 \<le> rq t" using D(9,16) le by auto
  obtain lv1 b1 where g: "drop_maker ?lv2 (b\<lparr>b_pool := (b_pool b)\<lparr>p_nodes := ?N2\<rparr>\<rparr>) x (o_id (ord_at (nodes b) x)) = Some (lv1, b1)"
      "head_gone pr x xs b X ?t1 lv1 b1"
    by (rule head_goneI [OF pre t1 _ _ _ level_repD(5) [OF rep2]]) (simp_all add: node_at_set_rem D(3,14))
  show thesis by (rule that [OF g(2)]) (use tr(1) g(1) le in auto)
qed

text \<open>The taker is filled by part of the first maker, which stays where it is.\<close>

lemma drain_part:
  assumes pre: "drain_pre pr (x # xs) b X lv t" and t: "0 < rq t" "\<not> self_trade (b_stp_policy b) t (ord_at (nodes b) x)" and less: "rq t < rem_at (nodes b) x"
  defines "N2 \<equiv> set_rem (nodes b) x (rem_at (nodes b) x - rq t)" and "lv2 \<equiv> lv\<lparr>l_total_quantity := l_total_quantity lv - rq t\<rparr>"
  defines "b2 \<equiv> b\<lparr>b_pool := (b_pool b)\<lparr>p_nodes := N2\<rparr>\<rparr>"
  shows "drain_level pr t lv b w = Some (False, t\<lparr>o_remaining_quantity := 0\<rparr>, lv2, b2,
      emit_trade (b_trade_callback b) (b_symbol b) t (ord_at (nodes b) x) pr (rq t) w)"
    "drain_post pr (x # xs) b X (map (ord_at (nodes b2)) (x # xs)) lv2 b2"
proof -
  note D = drain_preD [OF pre] and tr = drain_trades [OF pre t, of "rq t"]
  show "drain_level pr t lv b w = Some (False, t\<lparr>o_remaining_quantity := 0\<rparr>, lv2, b2,
      emit_trade (b_trade_callback b) (b_symbol b) t (ord_at (nodes b) x) pr (rq t) w)"
    using tr(1) less by (simp add: drain_level.simps N2_def lv2_def b2_def)
  have "core_ok b2 X" unfolding b2_def N2_def by (rule core_ok_nodes [OF D(1)]) (simp_all add: node_at_set_rem D(3))
  then show "drain_post pr (x # xs) b X (map (ord_at (nodes b2)) (x # xs)) lv2 b2"
    using drain_postI_self [of b2 X lv2 "x # xs" pr] tr(2) less D(3,14)
    by (auto simp: drain_post_def core_step_def frame_def node_at_set_rem drained_def N2_def lv2_def b2_def)
qed

theorem drain_level_refines:
  assumes "drain_pre pr xs b X lv t"
    and "spec_match (b_stp_policy b) t (map (ord_at (nodes b)) xs) = (k, t', ms', fs)"
  shows "\<exists>lv' b'. drain_level pr t lv b w
      = Some (k, t', lv', b', emit_fills (b_trade_callback b) (b_symbol b) t fs w)
    \<and> drain_post pr xs b X ms' lv' b'"
  using assms
proof (induction xs arbitrary: b X lv t k t' ms' fs w)
  case Nil
  have "l_head lv = kNullIndex" using Nil level_repD(3) [of "nodes b" lv "[]"] by (simp add: drain_pre_def)
  then have "drain_level pr t lv b w = Some (False, t, lv, b, w)"
    by (subst drain_level.simps) simp
  then show ?case using Nil drain_postI_self [of b X lv "[]" pr] by (auto simp: drain_pre_def)
next
  case (Cons x xs)
  note D = drain_preD [OF Cons.prems(1)]
  let ?N = "nodes b" and ?m = "ord_at (nodes b) x" and ?stp = "b_stp_policy b"
  have ms: "spec_match ?stp t (?m # map (ord_at ?N) xs) = (k, t', ms', fs)" using Cons.prems(2) by simp
  note self = drain_postI_self [OF D(1,19,14)]
  show ?case
  proof (cases rule: spec_match_cases [where stp = ?stp and t = t and m = ?m and ms = "map (ord_at ?N) xs"])
    case stop
    then have "drain_level pr t lv b w = Some (False, t, lv, b, w)"
      using D(8,16) by (subst drain_level.simps) simp
    then show ?thesis using stop(2) ms self by auto
  next
    case incoming
    then have "drain_level pr t lv b w = Some (True, t, lv, b, w)"
      using D(4,5,10) by (subst drain_level.simps) simp
    then show ?thesis using incoming ms self by auto
  next
    case both
    obtain lv1 b1 where g: "head_gone pr x xs b X t lv1 b1" "drain_level pr t lv b w = Some (True, t, lv1, b1, w)"
      using drain_cancels [OF Cons.prems(1) both(1,3), of w] both(4) by auto
    then show ?thesis using both ms head_gone_post [OF g(1) D(6) head_gone_self(1) [OF g(1)]] by auto
  next
    case skip
    obtain lv1 b1 where g: "head_gone pr x xs b X t lv1 b1" "drain_level pr t lv b w = drain_level pr t lv1 b1 w"
      using drain_cancels [OF Cons.prems(1) skip(1,3), of w] skip(4) by auto
    have "\<exists>lv' b'. drain_level pr t lv1 b1 w = Some (k, t', lv', b', emit_fills (b_trade_callback b1) (b_symbol b1) t fs w)
        \<and> drain_post pr xs b1 (X - {x}) ms' lv' b'"
      using Cons.IH [OF head_goneD(1) [OF g(1)]] ms skip(5) unfolding head_goneD(2,3) [OF g(1)] by metis
    then show ?thesis
      using g(2) head_gone_post [OF g(1) D(6)] by (auto simp: head_goneD(4,5) [OF g(1)])
  next
    case part
    let ?b2 = "b\<lparr>b_pool := (b_pool b)\<lparr>p_nodes := set_rem ?N x (rem_at ?N x - rq t)\<rparr>\<rparr>"
    have "map (ord_at (nodes ?b2)) (x # xs) = ms'" using part ms D(3,6) by (auto simp: node_at_set_rem)
    then show ?thesis using drain_part(1) [OF Cons.prems(1) part(1,3,4), of w] drain_part(2) [OF Cons.prems(1) part(1,3,4)] part ms D(8) by auto
  next
    case (full k2 t2 ms2 fs2)
    let ?t1 = "t\<lparr>o_remaining_quantity := rq t - rem_at ?N x\<rparr>"
    obtain lv1 b1 where g: "head_gone pr x xs b X ?t1 lv1 b1" "drain_level pr t lv b w =
        drain_level pr ?t1 lv1 b1 (emit_trade (b_trade_callback b) (b_symbol b) t ?m pr (rem_at ?N x) w)"
      by (rule drain_full [OF Cons.prems(1) full(1,3,4)])
    let ?w = "emit_trade (b_trade_callback b) (b_symbol b) t ?m pr (rem_at ?N x) w"
    have "\<exists>lv' b'. drain_level pr ?t1 lv1 b1 ?w = Some (k2, t2, lv', b', emit_fills (b_trade_callback b1) (b_symbol b1) ?t1 fs2 ?w)
        \<and> drain_post pr xs b1 (X - {x}) ms2 lv' b'"
      using Cons.IH [OF head_goneD(1) [OF g(1)]] full(5) unfolding head_goneD(2,3) [OF g(1)] by metis
    then show ?thesis
      using g(2) full(4,6) ms D(8) head_gone_post [OF g(1) D(6)] by (auto simp: head_goneD(4,5) [OF g(1)])
  qed
qed

end
