(* ===== verification/Book_Levels.thy ===== *)
theory Book_Levels
  imports Book_Core
begin

text \<open>
  Price levels as lists.  Whatever container a book keeps its levels in, it presents each side as a
  list of \<open>PriceLevel\<close>s in priority order.  \<open>book_rep b L H\<close> relates such lists (\<open>L Buy\<close>, \<open>L Sell\<close>) and
  the handles queued at each level (\<open>H\<close>) to the pool and the id index; \<open>abs_book\<close> reads off the abstract
  book.  The lemmas say how the steps the books are made of (drain the best level, append to a level,
  open a level, unlink an order, shrink an order) move that relation along the abstract operations.
\<close>

section \<open>Representation\<close>

fun better :: "Side \<Rightarrow> Price \<Rightarrow> Price \<Rightarrow> bool" where
  "better Buy p q = (q < p)"
| "better Sell p q = (p < q)"

definition level_ok :: "OrderNode list \<Rightarrow> PriceLevel \<Rightarrow> u32 list \<Rightarrow> bool" where
  "level_ok N lv xs \<longleftrightarrow> level_rep N lv xs \<and> xs \<noteq> [] \<and> (\<forall>x \<in> set xs. o_price (ord_at N x) = l_price lv)"

definition side_rep :: "OrderNode list \<Rightarrow> Side \<Rightarrow> PriceLevel list \<Rightarrow> u32 list list \<Rightarrow> bool" where
  "side_rep N s lvs xss \<longleftrightarrow> list_all2 (level_ok N) lvs xss
     \<and> sorted_wrt (\<lambda>a b. better s (l_price a) (l_price b)) lvs"

type_synonym sides = "Side \<Rightarrow> PriceLevel list"
type_synonym queues = "Side \<Rightarrow> u32 list list"

definition live_slots :: "queues \<Rightarrow> u32 set" where
  "live_slots H = set (concat (H Buy)) \<union> set (concat (H Sell))"

definition book_rep :: "'a BookCore_scheme \<Rightarrow> sides \<Rightarrow> queues \<Rightarrow> bool" where
  "book_rep b L H \<longleftrightarrow> (\<forall>s. side_rep (nodes b) s (L s) (H s))
     \<and> distinct (concat (H Buy) @ concat (H Sell)) \<and> core_ok b (live_slots H)"

definition abs_book :: "OrderNode list \<Rightarrow> queues \<Rightarrow> ABook" where
  "abs_book N H = \<lparr>a_bids = map (ord_at N) (concat (H Buy)), a_asks = map (ord_at N) (concat (H Sell))\<rparr>"

lemma side_of_abs [simp]: "side_of s (abs_book N H) = map (ord_at N) (concat (H s))"
  by (cases s) (simp_all add: abs_book_def)

lemma abook_eq_sides:
  assumes "side_of s (A :: ABook) = side_of s B" "side_of (opposite s) A = side_of (opposite s) B"
  shows "A = B"
  using assms by (cases s; cases A; cases B) simp_all

lemma abs_book_eqI:
  assumes "side_of s A = map (ord_at N) (concat (H s))"
    "side_of (opposite s) A = map (ord_at N) (concat (H (opposite s)))"
  shows "abs_book N H = A"
  using assms by (cases s; cases A) (simp_all add: abs_book_def)

lemma live_slots_side: "live_slots H = set (concat (H s)) \<union> set (concat (H (opposite s)))"
  by (cases s) (auto simp: live_slots_def)

lemma distinct_sides:
  "distinct (concat (H Buy) @ concat (H Sell)) \<longleftrightarrow> distinct (concat (H s)) \<and> distinct (concat (H (opposite s)))
     \<and> set (concat (H s)) \<inter> set (concat (H (opposite s))) = {}"
  by (cases s) (auto simp: Int_commute)

lemma all_sides: "(\<forall>s. P s) \<longleftrightarrow> P s \<and> P (opposite s)"
  by (cases s) (metis Side.exhaust opposite.simps)+

lemma book_repI:
  assumes "side_rep (nodes b) s (L s) (H s)" "side_rep (nodes b) (opposite s) (L (opposite s)) (H (opposite s))"
    and "distinct (concat (H s))" "distinct (concat (H (opposite s)))"
    and "set (concat (H s)) \<inter> set (concat (H (opposite s))) = {}"
    and "core_ok b (set (concat (H s)) \<union> set (concat (H (opposite s))))"
  shows "book_rep b L H"
  using assms distinct_sides [of H s] live_slots_side [of H s] all_sides [of "\<lambda>s. side_rep (nodes b) s (L s) (H s)" s]
  by (simp add: book_rep_def)

lemma book_repD:
  assumes "book_rep b L H"
  shows "side_rep (nodes b) s (L s) (H s)" "distinct (concat (H s))"
    "set (concat (H s)) \<inter> set (concat (H (opposite s))) = {}" "core_ok b (live_slots H)"
  using assms distinct_sides [of H s] by (auto simp: book_rep_def)

lemma level_rep_nil: "level_rep N lv [] \<Longrightarrow> lv = empty_level\<lparr>l_price := l_price lv\<rparr>"
  by (cases lv) (simp add: level_rep_def level_links_def empty_level_def)

lemma level_ok_frame:
  assumes "length N \<le> length N'" "\<And>x. x \<in> set xs \<Longrightarrow> node_at N' x = node_at N x" "level_ok N lv xs"
  shows "level_ok N' lv xs"
  using assms level_rep_frame [of N N' xs lv] by (auto simp: level_ok_def)

lemma side_rep_frame:
  assumes "length N \<le> length N'" "\<And>x. x \<in> set (concat xss) \<Longrightarrow> node_at N' x = node_at N x" "side_rep N s lvs xss"
  shows "side_rep N' s lvs xss"
proof -
  have "list_all2 (level_ok N') lvs xss"
    by (rule list.rel_mono_strong [of "level_ok N"])
      (use assms in \<open>auto simp: side_rep_def intro!: level_ok_frame [OF assms(1)] dest: set_zip_rightD\<close>)
  then show ?thesis using assms(3) by (simp add: side_rep_def)
qed

lemma side_rep_Cons:
  "side_rep N s (lv # lvs) (xs # xss) \<longleftrightarrow> level_ok N lv xs \<and> side_rep N s lvs xss
     \<and> (\<forall>l \<in> set lvs. better s (l_price lv) (l_price l))"
  by (auto simp: side_rep_def)

lemma side_rep_append:
  "length as = length hs \<Longrightarrow> side_rep N s (as @ bs) (hs @ ks) \<longleftrightarrow> side_rep N s as hs \<and> side_rep N s bs ks
     \<and> (\<forall>a \<in> set as. \<forall>l \<in> set bs. better s (l_price a) (l_price l))"
  by (auto simp: side_rep_def list_all2_append sorted_wrt_append)

lemma side_rep_length: "side_rep N s lvs xss \<Longrightarrow> length lvs = length xss"
  by (auto simp: side_rep_def dest: list_all2_lengthD)

lemma side_rep_nil [simp]: "side_rep N s [] xss \<longleftrightarrow> xss = []" "side_rep N s lvs [] \<longleftrightarrow> lvs = []"
  by (auto simp: side_rep_def)

lemma level_idxs_of:
  assumes "side_rep N s lvs xss" "length N \<le> unat kNullIndex"
  shows "map (level_idxs N) lvs = xss"
  using assms
proof (induction lvs arbitrary: xss)
  case (Cons lv lvs)
  then obtain xs xss' where "xss = xs # xss'" by (cases xss) auto
  with Cons show ?case
    using level_idxs_eq [of N lv xs] by (auto simp: side_rep_Cons level_ok_def level_rep_def)
qed simp

lemma level_prices:
  assumes "side_rep N s lvs xss" "x \<in> set (concat xss)"
  shows "o_price (ord_at N x) \<in> l_price ` set lvs"
  using assms
proof (induction lvs arbitrary: xss)
  case (Cons lv lvs)
  then obtain xs xss' where "xss = xs # xss'" by (cases xss) auto
  with Cons show ?case by (auto simp: side_rep_Cons level_ok_def)
qed simp

section \<open>Draining the best level\<close>

lemma book_rep_level:
  assumes rep: "book_rep b L H" and ok: "abook_ok (abs_book (nodes b) H)"
    and H: "H s = hs @ xs # ks" "L s = as @ lv # bs" "length as = length hs"
  shows "level_ok (nodes b) lv xs" "set xs \<subseteq> live_slots H" "l_total_quantity lv \<le> i64_max"
    "\<And>x. x \<in> set xs \<Longrightarrow> resting_ok s (ord_at (nodes b) x)"
    "\<And>x. x \<in> set xs \<Longrightarrow> 0 < rem_at (nodes b) x" "distinct xs" "\<And>x. x \<in> set xs \<Longrightarrow> rem_at (nodes b) x \<le> l_total_quantity lv"
proof -
  show lv: "level_ok (nodes b) lv xs"
    using book_repD(1) [OF rep, of s] H by (simp add: side_rep_append side_rep_Cons)
  show "set xs \<subseteq> live_slots H" using H by (auto simp: live_slots_side [of H s])
  have all: "list_all (resting_ok s) (map (ord_at (nodes b)) (concat (hs @ xs # ks)))"
    using abook_okD(1) [OF ok, of s] H by simp
  then show r: "\<And>x. x \<in> set xs \<Longrightarrow> resting_ok s (ord_at (nodes b) x)" by (auto simp: list_all_iff)
  then show pos: "\<And>x. x \<in> set xs \<Longrightarrow> 0 < rem_at (nodes b) x" by (auto simp: resting_ok_def)
  show "distinct xs" using book_repD(2) [OF rep, of s] H by simp
  have "0 \<le> (\<Sum>x\<leftarrow>concat hs. rem_at (nodes b) x)" "0 \<le> (\<Sum>x\<leftarrow>concat ks. rem_at (nodes b) x)"
    using resting_ok_rq [OF all] by (intro sum_list_nonneg; force)+
  moreover have "volume (map (ord_at (nodes b)) (concat (hs @ xs # ks))) \<le> i64_max"
    using abook_okD(3) [OF ok, of s] H by simp
  moreover have tot: "l_total_quantity lv = (\<Sum>x\<leftarrow>xs. rem_at (nodes b) x)"
    using lv by (simp add: level_ok_def level_rep_def)
  ultimately show "l_total_quantity lv \<le> i64_max"
    by (simp add: volume_def comp_def)
  show "rem_at (nodes b) x \<le> l_total_quantity lv" if "x \<in> set xs" for x
    unfolding tot using pos that by (intro member_le_sum_list) (auto intro: less_imp_le)
qed

text \<open>Replacing a stretch of levels of one side, the rest of the book untouched.\<close>

lemma book_rep_splice:
  assumes rep: "book_rep b L H" and H: "H s = hs @ mid @ ks" "L s = as @ lmid @ bs"
    and len: "length as = length hs" "length lmid = length mid"
    and N: "length (nodes b) \<le> length (nodes b')"
      "\<And>x. x \<notin> set (concat mid) \<union> set (concat mid') \<Longrightarrow> unat x < length (nodes b) \<Longrightarrow> node_at (nodes b') x = node_at (nodes b) x"
    and new: "side_rep (nodes b') s lmid' mid'" "distinct (concat mid')"
      "set (concat mid') \<inter> (live_slots H - set (concat mid)) = {}"
    and ok: "core_ok b' ((live_slots H - set (concat mid)) \<union> set (concat mid'))"
    and pr: "\<forall>a \<in> set as. \<forall>l \<in> set lmid'. better s (l_price a) (l_price l)"
      "\<forall>l \<in> set lmid'. \<forall>c \<in> set bs. better s (l_price l) (l_price c)"
  defines "H' \<equiv> H(s := hs @ mid' @ ks)" and "L' \<equiv> L(s := as @ lmid' @ bs)"
  shows "book_rep b' L' H'"
    and "abs_book (nodes b') H' = set_side s (map (ord_at (nodes b)) (concat hs) @ map (ord_at (nodes b')) (concat mid')
      @ map (ord_at (nodes b)) (concat ks)) (abs_book (nodes b) H)"
proof -
  note D = book_repD [OF rep]
  let ?O = "set (concat (H (opposite s)))" and ?R = "set (concat hs) \<union> set (concat ks)"
  have dist: "distinct (concat hs @ concat mid @ concat ks)" using D(2) [of s] H by simp
  have opp: "?O \<inter> (set (concat mid) \<union> ?R) = {}" using D(3) [of s] H by auto
  have rest: "live_slots H - set (concat mid) = ?R \<union> ?O"
    using H dist opp unfolding live_slots_side [of H s] by auto
  have same: "node_at (nodes b') x = node_at (nodes b) x" if x: "x \<in> ?R \<union> ?O" for x
  proof (rule N(2))
    show "x \<notin> set (concat mid) \<union> set (concat mid')" using x rest new(3) by blast
    show "unat x < length (nodes b)" using x core_okD(4) [OF D(4)] rest by blast
  qed
  have S: "side_rep (nodes b) s as hs" "side_rep (nodes b) s bs ks"
      "\<forall>a \<in> set as. \<forall>c \<in> set bs. better s (l_price a) (l_price c)"
    using D(1) [of s] H len by (auto simp: side_rep_append)
  have S': "side_rep (nodes b') s as hs" "side_rep (nodes b') s bs ks"
    by (rule side_rep_frame [OF N(1) _ S(1)] side_rep_frame [OF N(1) _ S(2)]; use same in blast)+
  show "book_rep b' L' H'"
  proof (rule book_repI [where s = s])
    show "side_rep (nodes b') s (L' s) (H' s)"
      using S' S(3) new(1) pr len side_rep_length [OF new(1)] by (auto simp: L'_def H'_def side_rep_append)
    show "side_rep (nodes b') (opposite s) (L' (opposite s)) (H' (opposite s))"
      using side_rep_frame [OF N(1) _ D(1) [of "opposite s"]] same by (simp add: L'_def H'_def)
    have "live_slots H - set (concat mid) \<union> set (concat mid') = set (concat (H' s)) \<union> set (concat (H' (opposite s)))"
      unfolding rest by (auto simp: H'_def)
    then show "core_ok b' (set (concat (H' s)) \<union> set (concat (H' (opposite s))))" using ok by simp
    show "distinct (concat (H' s))" "set (concat (H' s)) \<inter> set (concat (H' (opposite s))) = {}"
      using dist new(2,3) opp unfolding rest by (auto simp: H'_def)
    show "distinct (concat (H' (opposite s)))" using D(2) [of "opposite s"] by (simp add: H'_def)
  qed
  show "abs_book (nodes b') H' = set_side s (map (ord_at (nodes b)) (concat hs) @ map (ord_at (nodes b')) (concat mid')
      @ map (ord_at (nodes b)) (concat ks)) (abs_book (nodes b) H)"
    by (rule abs_book_eqI [where s = s]) (use same in \<open>auto simp: H'_def\<close>)
qed

lemma drain_front:
  assumes rep: "book_rep b L H" and ok: "abook_ok (abs_book (nodes b) H)"
    and H: "H s = xs # xss" "L s = lv # lvs"
    and t: "price_ok t (l_price lv)" "0 \<le> rq t" "rq t \<le> i64_max"
    and walk: "spec_match (b_stp_policy b) t (map (ord_at (nodes b)) xs) = (k, t', ms, fs)"
  obtains lv' b' H' where
    "drain_level (l_price lv) t lv b w = Some (k, t', lv', b', emit_fills (b_trade_callback b) (b_symbol b) t fs w)"
    "core_step b b'" "level_empty lv' \<longleftrightarrow> ms = []" "l_price lv' = l_price lv" "length (nodes b') = length (nodes b)"
    "level_empty lv' \<Longrightarrow> lv' = empty_level\<lparr>l_price := l_price lv\<rparr>"
    "book_rep b' (L(s := if level_empty lv' then lvs else lv' # lvs)) H'"
    "abs_book (nodes b') H' = set_side s (ms @ map (ord_at (nodes b)) (concat xss)) (abs_book (nodes b) H)"
proof -
  note lev = book_rep_level [OF rep ok, of s "[]" xs xss "[]" lv lvs, simplified, OF H]
  have pre: "drain_pre (l_price lv) xs b (live_slots H) lv t"
    using lev(1-3,5) t book_repD(4) [OF rep] by (auto simp: drain_pre_def level_ok_def)
  obtain lv' b' ys where out:
      "drain_level (l_price lv) t lv b w = Some (k, t', lv', b', emit_fills (b_trade_callback b) (b_symbol b) t fs w)"
      "drained xs ys" "level_rep (nodes b') lv' ys" "map (ord_at (nodes b')) ys = ms" "l_price lv' = l_price lv"
      "core_ok b' (live_slots H - (set xs - set ys))" "core_step b b'" "frame (set xs) (nodes b) (nodes b')"
    using drain_level_refines [OF pre walk, of w] unfolding drain_post_def by blast
  have emp: "level_empty lv' \<longleftrightarrow> ys = []"
    using level_empty_iff [OF level_repD(5) [OF out(3)]] core_okD(2) [OF out(6)] by blast
  have prices: "o_price (ord_at (nodes b') y) = l_price lv" if y: "y \<in> set ys" for y
  proof -
    obtain m where m: "m \<in> set (map (ord_at (nodes b)) xs)" "o_price m = o_price (ord_at (nodes b') y)"
      using leftover_images(2) [OF spec_match_leftover [OF walk]] y out(4) by force
    then show ?thesis using lev(1) by (auto simp: level_ok_def)
  qed
  have lvok: "ys \<noteq> [] \<Longrightarrow> level_ok (nodes b') lv' ys" using out(3,5) prices by (auto simp: level_ok_def)
  define mid' where "mid' = (if ys = [] then [] else [ys])"
  define lmid' where "lmid' = (if ys = [] then [] else [lv'])"
  have cm: "concat mid' = ys" by (simp add: mid'_def)
  have sub: "set ys \<subseteq> set xs" by (rule drained_set [OF out(2)])
  note lead = side_rep_Cons [THEN iffD1, OF book_repD(1) [OF rep, of s, unfolded H]]
  have "set (concat mid') \<inter> (live_slots H - set (concat [xs])) = {}" using sub by (auto simp: cm)
  moreover have "live_slots H - set (concat [xs]) \<union> set (concat mid') = live_slots H - (set xs - set ys)"
    using sub lev(2) by (auto simp: cm)
  moreover have "side_rep (nodes b') s lmid' mid'" using lvok by (auto simp: mid'_def lmid'_def side_rep_Cons)
  moreover have "\<forall>l \<in> set lmid'. \<forall>c \<in> set lvs. better s (l_price l) (l_price c)"
    using lead out(5) by (auto simp: lmid'_def)
  ultimately have fr: "book_rep b' (L(s := [] @ lmid' @ lvs)) (H(s := [] @ mid' @ xss))"
    "abs_book (nodes b') (H(s := [] @ mid' @ xss)) = set_side s (map (ord_at (nodes b)) (concat []) @
      map (ord_at (nodes b')) (concat mid') @ map (ord_at (nodes b)) (concat xss)) (abs_book (nodes b) H)"
    using book_rep_splice [OF rep, of s "[]" "[xs]" xss "[]" "[lv]" lvs b' mid' lmid'] H out(6,8) level_repD(1) [OF out(3)] cm
    by (auto simp: frame_def)
  have "L(s := if level_empty lv' then lvs else lv' # lvs) = L(s := [] @ lmid' @ lvs)"
    using emp by (auto simp: lmid'_def)
  then have "book_rep b' (L(s := if level_empty lv' then lvs else lv' # lvs)) (H(s := [] @ mid' @ xss))"
    using fr(1) by simp
  with out(1,7) emp out(4,5) fr(2) cm show thesis
    by (intro that [of lv' b' "H(s := [] @ mid' @ xss)"])
      (use out(8) level_rep_nil [of "nodes b'" lv'] out(3) in \<open>auto simp: frame_def\<close>)
qed

section \<open>Resting an order\<close>

lemma place_between:
  assumes "\<forall>y \<in> set ys. at_least s (o_price y) (o_price x)" "\<forall>z \<in> set zs. \<not> at_least s (o_price z) (o_price x)"
  shows "place s x (ys @ zs) = ys @ x # zs"
  using assms by (induction ys) (cases zs; auto)+

lemma better_at_least: "better s p q \<Longrightarrow> at_least s p q" "better s p q \<Longrightarrow> \<not> at_least s q p"
  by (cases s; simp)+

text \<open>A slot for a new order: a free one, so not one any queue holds.\<close>

lemma acquire_fresh:
  assumes ok: "core_ok b X" and room: "pool_room (b_pool b)"
    and new: "o_id ord \<noteq> kInvalidOrderId" "id_lookup (b_id_index b) (o_id ord) = None"
  obtains x p m where "acquire (b_pool b) ord = Some (x, p)" "id_insert (b_id_index b) (o_id ord) x = Some (True, m)"
    "x \<notin> X" "unat x < length (p_nodes p)" "ord_at (p_nodes p) x = ord" "length (nodes b) \<le> length (p_nodes p)" "length (p_nodes p) \<le> Suc (length (nodes b))"
    "\<And>y. unat y < length (nodes b) \<Longrightarrow> y \<noteq> x \<Longrightarrow> node_at (p_nodes p) y = node_at (nodes b) y"
    "core_ok (b\<lparr>b_pool := p, b_id_index := m\<rparr>) (insert x X)"
proof -
  obtain x p where a: "acquire (b_pool b) ord = Some (x, p)" "pool_ok p"
    "x \<in> set (p_free_list (b_pool b)) \<or> unat x = length (nodes b)" "x \<notin> set (p_free_list p)"
    "set (p_free_list p) = set (p_free_list (b_pool b)) - {x}"
    "unat x < length (p_nodes p)" "length (p_nodes p) = max (length (nodes b)) (Suc (unat x))"
    "node_at (p_nodes p) x = fresh_node ord"
    "\<And>y. unat y < length (nodes b) \<Longrightarrow> y \<noteq> x \<Longrightarrow> node_at (p_nodes p) y = node_at (nodes b) y"
    using acquire_correct [OF core_okD(1) [OF ok] room] by metis
  obtain m where m: "id_insert (b_id_index b) (o_id ord) x = Some (True, m)" "id_inv m"
      "id_lookup m = (id_lookup (b_id_index b))(o_id ord \<mapsto> x)"
    using id_insert_new [OF core_okD(3) [OF ok] new] by blast
  have X: "X \<inter> set (p_free_list (b_pool b)) = {}" "X \<union> set (p_free_list (b_pool b)) = {y. unat y < length (nodes b)}"
    using ok by (auto simp: core_ok_def)
  have xX: "x \<notin> X" using a(3) core_okD(4,5) [OF ok, of x] by auto
  have slots: "insert x X \<union> set (p_free_list p) = {y. unat y < length (p_nodes p)}"
  proof -
    have "insert x X \<union> set (p_free_list p) = insert x {y. unat y < length (nodes b)}"
      unfolding a(5) using X(2) by blast
    also have "\<dots> = {y. unat y < length (p_nodes p)}"
    proof (cases "unat x = length (nodes b)")
      case True
      then show ?thesis using a(7) by (auto simp: less_Suc_eq simp flip: True)
    next
      case False
      then have "unat x < length (nodes b)" using a(3) X(2) by auto
      then show ?thesis using a(7) by auto
    qed
    finally show ?thesis .
  qed
  have old: "ord_at (p_nodes p) y = ord_at (nodes b) y" if "y \<in> X" for y
  proof -
    have "y \<noteq> x" using that xX by blast
    then show ?thesis using a(9) core_okD(4) [OF ok that] by simp
  qed
  have "core_ok (b\<lparr>b_pool := p, b_id_index := m\<rparr>) (insert x X)"
    unfolding core_ok_def
  proof (intro conjI allI)
    show "id_lookup (b_id_index (b\<lparr>b_pool := p, b_id_index := m\<rparr>)) k = Some y \<longleftrightarrow>
        y \<in> insert x X \<and> o_id (ord_at (nodes (b\<lparr>b_pool := p, b_id_index := m\<rparr>)) y) = k" for k y
      using core_okD(6) [OF ok, of k y] old new(2) m(3) a(8) xX by (auto simp: fresh_node_def)
  qed (use a(2,4,5) m(2) X(1) slots in auto)
  moreover have "unat x \<le> length (nodes b)" using a(3) core_okD(1) [OF ok] by (auto simp: pool_ok_def intro: less_imp_le)
  ultimately show thesis using a m xX by (intro that) (auto simp: fresh_node_def)
qed

text \<open>
  \<open>target lmid mid pr lv xs\<close>: the level an order of price \<open>pr\<close> joins, either one that is there or a
  new empty one.
\<close>

definition target :: "PriceLevel list \<Rightarrow> u32 list list \<Rightarrow> Price \<Rightarrow> PriceLevel \<Rightarrow> u32 list \<Rightarrow> bool" where
  "target lmid mid pr lv xs \<longleftrightarrow> l_price lv = pr \<and>
     (lmid = [] \<and> mid = [] \<and> lv = empty_level\<lparr>l_price := pr\<rparr> \<and> xs = [] \<or> lmid = [lv] \<and> mid = [xs])"

lemma better_cases: "better s p q \<or> p = q \<or> better s q p"
  by (cases s) auto

lemma better_self [simp]: "\<not> better s p p"
  by (cases s) simp_all

lemma better_irrefl: "better s p q \<Longrightarrow> p \<noteq> q" "better s p q \<Longrightarrow> \<not> better s q p"
  by (cases s; simp)+

lemma better_trans: "better s p q \<Longrightarrow> better s q r \<Longrightarrow> better s p r"
  by (cases s; simp)

text \<open>Where a price belongs in a side: behind the better levels, before the worse ones.\<close>

lemma split_side:
  assumes rep: "side_rep N s lvs xss"
  obtains as lmid bs hs mid ks lv xs where "lvs = as @ lmid @ bs" "xss = hs @ mid @ ks" "length as = length hs"
    "target lmid mid pr lv xs" "\<forall>a \<in> set as. better s (l_price a) pr" "\<forall>c \<in> set bs. better s pr (l_price c)"
proof -
  let ?P = "\<lambda>l. better s (l_price l) pr"
  define as rest where "as = takeWhile ?P lvs" and "rest = dropWhile ?P lvs"
  have lvs: "lvs = as @ rest" by (simp add: as_def rest_def)
  define hs ks where "hs = take (length as) xss" and "ks = drop (length as) xss"
  have xss: "xss = hs @ ks" by (simp add: hs_def ks_def)
  have len: "length as = length hs" "length rest = length ks"
    using side_rep_length [OF rep] lvs by (auto simp: hs_def ks_def)
  have a: "\<forall>a \<in> set as. ?P a" by (auto simp: as_def dest: set_takeWhileD)
  have srt: "sorted_wrt (\<lambda>a b. better s (l_price a) (l_price b)) rest" using rep lvs by (simp add: side_rep_def sorted_wrt_append)
  show thesis
  proof (cases "rest \<noteq> [] \<and> l_price (hd rest) = pr")
    case True
    then obtain lv bs xs ks' where r: "rest = lv # bs" "ks = xs # ks'" "l_price lv = pr"
      using len(2) by (cases rest; cases ks) auto
    then show thesis
      using lvs xss len a srt by (intro that [of as "[lv]" bs hs "[xs]" ks' lv xs]) (auto simp: target_def)
  next
    case False
    have "better s pr (l_price c)" if "c \<in> set rest" for c
    proof (cases rest)
      case (Cons l ls)
      then have "\<not> ?P l" by (metis rest_def hd_dropWhile list.sel(1) list.simps(3))
      then have "better s pr (l_price l)" using False Cons better_cases [of s pr "l_price l"] by auto
      then show ?thesis using that Cons srt better_trans by auto
    qed (use that in simp)
    then show thesis
      using lvs xss len a by (intro that [of as "[]" rest hs "[]" ks "empty_level\<lparr>l_price := pr\<rparr>" "[]"]) (auto simp: target_def empty_level_def)
  qed
qed

text \<open>A level of a side, its neighbours and its queue.\<close>

lemma side_rep_neighbours:
  assumes "side_rep N s (as @ lv # bs) xss"
  shows "\<forall>a \<in> set as. better s (l_price a) (l_price lv)" "\<forall>c \<in> set bs. better s (l_price lv) (l_price c)"
    "\<forall>c \<in> set (lv # bs). \<not> better s (l_price c) (l_price lv)"
  using assms better_irrefl by (auto simp: side_rep_def sorted_wrt_append)

lemma rest_place:
  assumes side: "side_rep N s (as @ lmid @ bs) (hs @ mid @ ks)" "length as = length hs" "length lmid = length mid"
    and pr: "\<forall>a \<in> set as. better s (l_price a) (o_price ord)" "\<forall>c \<in> set bs. better s (o_price ord) (l_price c)"
    and mid: "\<forall>y \<in> set (concat mid). o_price (ord_at N y) = o_price ord"
  shows "place s ord (map (ord_at N) (concat (hs @ mid @ ks))) =
    map (ord_at N) (concat hs) @ map (ord_at N) (concat mid) @ ord # map (ord_at N) (concat ks)"
proof -
  have S: "side_rep N s as hs" "side_rep N s bs ks" using side by (auto simp: side_rep_append)
  have "at_least s (o_price (ord_at N y)) (o_price ord)" if "y \<in> set (concat hs)" for y
    using level_prices [OF S(1) that] pr(1) better_at_least(1) by auto
  moreover have "at_least s (o_price (ord_at N y)) (o_price ord)" if "y \<in> set (concat mid)" for y
    using that mid by (cases s) auto
  moreover have "\<not> at_least s (o_price (ord_at N z)) (o_price ord)" if "z \<in> set (concat ks)" for z
    using level_prices [OF S(2) that] pr(2) better_at_least(2) by auto
  ultimately have "place s ord (map (ord_at N) (concat hs @ concat mid) @ map (ord_at N) (concat ks)) =
      map (ord_at N) (concat hs @ concat mid) @ ord # map (ord_at N) (concat ks)"
    by (intro place_between) auto
  then show ?thesis by simp
qed

lemma target_cases:
  assumes "target lmid mid pr lv xs"
  obtains "lmid = []" "mid = []" "xs = []" "lv = empty_level\<lparr>l_price := pr\<rparr>" "l_total_quantity lv = 0"
  | "lmid = [lv]" "mid = [xs]" "l_price lv = pr"
  using assms unfolding target_def by (elim conjE disjE) (simp_all add: empty_level_def)

lemma target_total:
  assumes rep: "book_rep b L H" and ok: "abook_ok (abs_book (nodes b) H)"
    and H: "H s = hs @ mid @ ks" "L s = as @ lmid @ bs" "length as = length hs" and tgt: "target lmid mid pr lv xs"
  shows "0 \<le> l_total_quantity lv" "l_total_quantity lv \<le> volume (side_of s (abs_book (nodes b) H))"
proof -
  have pos: "\<And>y. y \<in> set (concat (H s)) \<Longrightarrow> 0 < rem_at (nodes b) y"
    using resting_ok_rq [OF abook_okD(1) [OF ok, of s]] by auto
  have nn: "0 \<le> (\<Sum>y\<leftarrow>ys. rem_at (nodes b) y)" if "set ys \<subseteq> set (concat (H s))" for ys
    using pos that by (intro sum_list_nonneg) force
  have tot: "l_total_quantity lv = (\<Sum>y\<leftarrow>concat mid. rem_at (nodes b) y)"
    using book_rep_level(1) [OF rep ok, of s hs xs ks as lv bs] H
    by (cases rule: target_cases [OF tgt]) (auto simp: level_ok_def level_rep_def)
  have vol: "volume (side_of s (abs_book (nodes b) H)) = (\<Sum>y\<leftarrow>concat hs. rem_at (nodes b) y) + l_total_quantity lv
      + (\<Sum>y\<leftarrow>concat ks. rem_at (nodes b) y)"
    using H tot by (simp add: volume_def comp_def)
  have "0 \<le> (\<Sum>y\<leftarrow>concat hs. rem_at (nodes b) y)" "0 \<le> (\<Sum>y\<leftarrow>concat mid. rem_at (nodes b) y)"
      "0 \<le> (\<Sum>y\<leftarrow>concat ks. rem_at (nodes b) y)"
    by (rule nn, use H in auto)+
  then show "0 \<le> l_total_quantity lv" "l_total_quantity lv \<le> volume (side_of s (abs_book (nodes b) H))"
    using tot vol by auto
qed

text \<open>The level an order is about to join, an existing one or a new one.\<close>

lemma target_level:
  assumes rep: "book_rep b L H" and ok: "abook_ok (abs_book (nodes b) H)"
    and H: "H s = hs @ mid @ ks" "L s = as @ lmid @ bs" "length as = length hs" and tgt: "target lmid mid (o_price ord) lv xs"
  shows "level_rep (nodes b) lv xs" "\<forall>y \<in> set xs. o_price (ord_at (nodes b) y) = o_price ord" "0 \<le> l_total_quantity lv"
proof -
  consider "lv = empty_level\<lparr>l_price := o_price ord\<rparr>" "xs = []" | "lmid = [lv]" "mid = [xs]"
    using tgt by (auto simp: target_def)
  then have "level_rep (nodes b) lv xs \<and> (\<forall>y \<in> set xs. o_price (ord_at (nodes b) y) = o_price ord) \<and> 0 \<le> l_total_quantity lv"
  proof cases
    case 1
    then show ?thesis using empty_level_rep [of "nodes b" "o_price ord"] by (simp add: empty_level_def)
  next
    case 2
    note lev = book_rep_level [OF rep ok, of s hs xs ks as lv bs]
    have "hd xs \<in> set xs" using lev(1) H 2 by (simp add: level_ok_def)
    then show ?thesis using lev(1) lev(5,7) [of "hd xs"] H 2 tgt by (auto simp: level_ok_def target_def)
  qed
  then show "level_rep (nodes b) lv xs" "\<forall>y \<in> set xs. o_price (ord_at (nodes b) y) = o_price ord" "0 \<le> l_total_quantity lv" by auto
qed

lemma rest_level:
  assumes rep: "book_rep b L H" and ok: "abook_ok (abs_book (nodes b) H)" and room: "pool_room (b_pool b)"
    and H: "H s = hs @ mid @ ks" "L s = as @ lmid @ bs" "length as = length hs"
    and tgt: "target lmid mid (o_price ord) lv xs"
    and pr: "\<forall>a \<in> set as. better s (l_price a) (o_price ord)" "\<forall>c \<in> set bs. better s (o_price ord) (l_price c)"
    and new: "o_id ord \<noteq> kInvalidOrderId" "id_lookup (b_id_index b) (o_id ord) = None"
    and fits: "0 < rq ord" "l_total_quantity lv + rq ord \<le> i64_max"
  obtains x p lv' p' m H' where "acquire (b_pool b) ord = Some (x, p)" "level_push_back lv p x = Some (lv', p')"
    "id_insert (b_id_index b) (o_id ord) x = Some (True, m)" "l_price lv' = o_price ord" "\<not> level_empty lv'"
    "length (p_nodes p') \<le> Suc (length (nodes b))"
    "book_rep (b\<lparr>b_pool := p', b_id_index := m\<rparr>) (L(s := as @ lv' # bs)) H'"
    "abs_book (p_nodes p') H' = set_side s (place s ord (side_of s (abs_book (nodes b) H))) (abs_book (nodes b) H)"
proof -
  note D = book_repD [OF rep]
  have cm: "concat mid = xs" "length lmid = length mid" using tgt by (auto simp: target_def)
  have xsX: "set xs \<subseteq> live_slots H" using H cm by (auto simp: live_slots_side [of H s])
  obtain x p m where a: "acquire (b_pool b) ord = Some (x, p)" "id_insert (b_id_index b) (o_id ord) x = Some (True, m)"
    "x \<notin> live_slots H" "unat x < length (p_nodes p)" "ord_at (p_nodes p) x = ord" "length (nodes b) \<le> length (p_nodes p)" "length (p_nodes p) \<le> Suc (length (nodes b))"
    "\<And>y. unat y < length (nodes b) \<Longrightarrow> y \<noteq> x \<Longrightarrow> node_at (p_nodes p) y = node_at (nodes b) y"
    "core_ok (b\<lparr>b_pool := p, b_id_index := m\<rparr>) (insert x (live_slots H))"
    using acquire_fresh [OF D(4) room new] by metis
  have old: "node_at (p_nodes p) y = node_at (nodes b) y" if "y \<in> set xs" for y
    by (rule a(8)) (use that xsX a(3) core_okD(4) [OF D(4)] in blast)+
  note lvN = target_level [OF rep ok H tgt]
  have lvp: "level_rep (p_nodes p) lv xs" by (rule level_rep_frame [OF a(6) old lvN(1)])
  have small: "length (p_nodes p) \<le> unat kNullIndex" using core_okD(2) [OF a(9)] by simp
  obtain lv' N' where push: "level_push_back lv p x = Some (lv', p\<lparr>p_nodes := N'\<rparr>)" "level_rep N' lv' (xs @ [x])"
      "l_price lv' = l_price lv" "length N' = length (p_nodes p)" "\<And>y. ord_at N' y = ord_at (p_nodes p) y"
      "\<forall>y. y \<notin> set (xs @ [x]) \<longrightarrow> node_at N' y = node_at (p_nodes p) y"
    using level_push_back_correct [OF lvp a(4) _ small] xsX a(3,5) lvN(3) fits by (auto simp: in_i64_def i64_max_def)
  let ?b = "b\<lparr>b_pool := p\<lparr>p_nodes := N'\<rparr>, b_id_index := m\<rparr>"
  have ordN: "ord_at N' x = ord" "\<And>y. y \<in> set xs \<Longrightarrow> ord_at N' y = ord_at (nodes b) y" using push(5) a(5) old by auto
  have tp: "l_price lv' = o_price ord" using push(3) tgt by (simp add: target_def)
  note spl = book_rep_splice [OF rep H cm(2), of ?b "[xs @ [x]]" "[lv']"]
  have slots: "live_slots H - set (concat mid) \<union> set (concat [xs @ [x]]) = insert x (live_slots H)"
    using xsX cm by auto
  have cok: "core_ok ?b (insert x (live_slots H))"
    by (rule core_ok_cong [OF core_ok_nodes [OF a(9), of N']]) (use push(4,5) in simp_all)
  have new_side: "side_rep N' s [lv'] [xs @ [x]]"
    using push(2) ordN lvN(2) tp by (auto simp: side_rep_Cons level_ok_def)
  have "book_rep ?b (L(s := as @ [lv'] @ bs)) (H(s := hs @ [xs @ [x]] @ ks)) \<and>
     abs_book N' (H(s := hs @ [xs @ [x]] @ ks)) = set_side s (map (ord_at (nodes b)) (concat hs) @
       map (ord_at N') (concat [xs @ [x]]) @ map (ord_at (nodes b)) (concat ks)) (abs_book (nodes b) H)"
    using spl a(3,6,8) push(2,4,6) cok new_side pr tp level_repD(1) [OF push(2)] cm(1) unfolding slots by auto
  moreover have "place s ord (side_of s (abs_book (nodes b) H)) = map (ord_at (nodes b)) (concat hs) @
       map (ord_at N') (concat [xs @ [x]]) @ map (ord_at (nodes b)) (concat ks)"
    using rest_place [of "nodes b" s as lmid bs hs mid ks ord] D(1) [of s] H cm pr lvN(2) ordN by (simp cong: map_cong)
  moreover have "\<not> level_empty lv'"
    using level_empty_iff [OF level_repD(5) [OF push(2)]] push(4) small by simp
  ultimately show thesis
    by (intro that [OF a(1) push(1) a(2) tp]) (use a(7) push(4) in auto)
qed

section \<open>Finding, removing and shrinking a resting order\<close>

lemma side_rep_locate:
  assumes "side_rep N s lvs xss" "x \<in> set (concat xss)"
  obtains hs ps qs ks as lv bs where "xss = hs @ (ps @ x # qs) # ks" "lvs = as @ lv # bs" "length as = length hs"
    "l_price lv = o_price (ord_at N x)"
proof -
  obtain xs where xs: "xs \<in> set xss" "x \<in> set xs" using assms(2) by auto
  then obtain hs ks where h: "xss = hs @ xs # ks" by (meson split_list)
  obtain ps qs where p: "xs = ps @ x # qs" using xs(2) by (meson split_list)
  define as where "as = take (length hs) lvs"
  obtain lv bs where l: "drop (length hs) lvs = lv # bs"
    using side_rep_length [OF assms(1)] h by (cases "drop (length hs) lvs") auto
  have eq: "lvs = as @ lv # bs" "length as = length hs"
    using l side_rep_length [OF assms(1)] h by (auto simp: as_def) (metis append_take_drop_id)
  then have "level_ok N lv xs" using assms(1) h by (simp add: side_rep_append side_rep_Cons)
  then have "l_price lv = o_price (ord_at N x)" using p by (auto simp: level_ok_def)
  with that h p eq show thesis by blast
qed

lemma live_id_unique:
  assumes "book_rep b L H" "x \<in> live_slots H" "y \<in> live_slots H"
    "o_id (ord_at (nodes b) x) = o_id (ord_at (nodes b) y)"
  shows "x = y"
  using core_ok_ids(1) [OF book_repD(4) [OF assms(1)]] assms(2-4) by (auto dest: inj_onD)

lemma id_lookup_live:
  assumes rep: "book_rep b L H" and ok: "abook_ok (abs_book (nodes b) H)"
    and "id_lookup (b_id_index b) i = Some x"
  defines "s \<equiv> o_side (ord_at (nodes b) x)"
  shows "x \<in> live_slots H" "o_id (ord_at (nodes b) x) = i" "x \<in> set (concat (H s))"
    "unat x < length (nodes b)" "resting_ok s (ord_at (nodes b) x)"
proof -
  show live: "x \<in> live_slots H" "o_id (ord_at (nodes b) x) = i"
    using assms(3) core_okD(6) [OF book_repD(4) [OF rep]] by auto
  show "unat x < length (nodes b)" using core_okD(4) [OF book_repD(4) [OF rep] live(1)] .
  obtain s' where s': "x \<in> set (concat (H s'))" using live(1) by (auto simp: live_slots_def)
  then have "resting_ok s' (ord_at (nodes b) x)"
    using abook_okD(1) [OF ok, of s'] by (force simp: list_all_iff)
  then show "resting_ok s (ord_at (nodes b) x)" "x \<in> set (concat (H s))"
    using s' by (auto simp: resting_ok_def s_def)
qed

lemma ids_abs_book:
  assumes "book_rep b L H"
  shows "i \<in> ids (abs_book (nodes b) H) \<longleftrightarrow> id_lookup (b_id_index b) i \<noteq> None"
proof -
  have "ids (abs_book (nodes b) H) = (\<lambda>x. o_id (ord_at (nodes b) x)) ` live_slots H"
    by (simp add: ids_def resting_def abs_book_def live_slots_def image_Un image_image del: set_concat)
  then show ?thesis using core_okD(6) [OF book_repD(4) [OF assms]] by (auto simp: image_iff)
qed

text \<open>Removing the order in slot \<open>x\<close> from the queues is removing its id from the abstract book.\<close>

lemma remove_id_abs:
  assumes rep: "book_rep b L H" and H: "H s = hs @ (ps @ x # qs) # ks"
  shows "remove_id (o_id (ord_at (nodes b) x)) (abs_book (nodes b) H) =
    set_side s (map (ord_at (nodes b)) (concat hs) @ map (ord_at (nodes b)) (ps @ qs) @ map (ord_at (nodes b)) (concat ks))
      (abs_book (nodes b) H)"
proof -
  let ?i = "o_id (ord_at (nodes b) x)"
  have x: "x \<in> live_slots H" using H by (auto simp: live_slots_side [of H s])
  have keep: "filter (\<lambda>y. o_id y \<noteq> ?i) (map (ord_at (nodes b)) ys) = map (ord_at (nodes b)) ys"
    if "set ys \<subseteq> live_slots H" "x \<notin> set ys" for ys
    using that live_id_unique [OF rep _ x] by (auto simp: filter_id_conv)
  have "distinct (concat hs @ (ps @ x # qs) @ concat ks)" "x \<notin> set (concat (H (opposite s)))"
    using book_repD(2,3) [OF rep, of s] H by auto
  then have out: "x \<notin> set (concat hs)" "x \<notin> set ps" "x \<notin> set qs" "x \<notin> set (concat ks)" "x \<notin> set (concat (H (opposite s)))"
    by auto
  have sub: "set (concat hs) \<subseteq> live_slots H" "set ps \<subseteq> live_slots H" "set qs \<subseteq> live_slots H" "set (concat ks) \<subseteq> live_slots H"
      "set (concat (H (opposite s))) \<subseteq> live_slots H"
    unfolding live_slots_side [of H s] H by auto
  note k = keep [OF sub(1) out(1)] keep [OF sub(2) out(2)] keep [OF sub(3) out(3)] keep [OF sub(4) out(4)] keep [OF sub(5) out(5)]
  have "side_of s (remove_id ?i (abs_book (nodes b) H)) = map (ord_at (nodes b)) (concat hs) @
      map (ord_at (nodes b)) (ps @ qs) @ map (ord_at (nodes b)) (concat ks)"
    unfolding side_of_remove side_of_abs H by (simp del: filter_map add: k [unfolded map_concat] map_concat)
  moreover have "side_of (opposite s) (remove_id ?i (abs_book (nodes b) H)) = side_of (opposite s) (abs_book (nodes b) H)"
    unfolding side_of_remove side_of_abs by (rule k)
  ultimately show ?thesis by (intro abook_eq_sides [of s]) auto
qed

lemma drop_maker_parts:
  assumes "drop_maker lv b x i = Some (lv', b')"
  obtains p1 r m p2 where "level_unlink lv (b_pool b) x = Some (lv', p1)" "id_erase (b_id_index b) i = Some (r, m)"
    "release p1 x = Some p2" "b' = b\<lparr>b_pool := p2, b_id_index := m\<rparr>"
  using assms by (auto simp: drop_maker_def split: bind_splits)

lemma leave_level:
  assumes rep: "book_rep b L H" and ok: "abook_ok (abs_book (nodes b) H)"
    and H: "H s = hs @ (ps @ x # qs) # ks" "L s = as @ lv # bs" "length as = length hs"
  defines "lv0 \<equiv> lv\<lparr>l_total_quantity := l_total_quantity lv - rem_at (nodes b) x\<rparr>"
  obtains lv' p1 p2 m H' where "in_i64 (l_total_quantity lv - rem_at (nodes b) x)"
    "level_unlink lv0 (b_pool b) x = Some (lv', p1)" "release p1 x = Some p2"
    "id_erase (b_id_index b) (o_id (ord_at (nodes b) x)) = Some (True, m)" "l_price lv' = l_price lv"
    "ord_at (p_nodes p1) x = ord_at (nodes b) x" "length (p_nodes p2) = length (nodes b)"
    "level_empty lv' \<longrightarrow> lv' = empty_level\<lparr>l_price := l_price lv\<rparr>" "unat x < length (p_nodes p1)"
    "book_rep (b\<lparr>b_pool := p2, b_id_index := m\<rparr>) (L(s := as @ (if level_empty lv' then bs else lv' # bs))) H'"
    "abs_book (p_nodes p2) H' = remove_id (o_id (ord_at (nodes b) x)) (abs_book (nodes b) H)"
proof -
  note D = book_repD [OF rep] and lev = book_rep_level [OF rep ok H]
  have x: "x \<in> live_slots H" using H by (auto simp: live_slots_side [of H s])
  have fits: "in_i64 (l_total_quantity lv - rem_at (nodes b) x)"
    using lev(3) lev(5,7) [of x] by (intro in_i64_diff) auto
  have links: "level_links (nodes b) lv0 (ps @ x # qs)" and tot: "l_total_quantity lv0 = (\<Sum>y\<leftarrow>ps @ qs. rem_at (nodes b) y)"
    using lev(1) by (auto simp: level_ok_def level_rep_def level_links_def lv0_def)
  obtain lv' b' where out: "drop_maker lv0 b x (o_id (ord_at (nodes b) x)) = Some (lv', b')"
      "level_rep (nodes b') lv' (ps @ qs)" "l_price lv' = l_price lv0" "core_ok b' (live_slots H - {x})"
      "frame (set (ps @ qs)) (nodes b) (nodes b')" "\<And>y. ord_at (nodes b') y = ord_at (nodes b) y"
    using drop_maker_correct [OF D(4) x links tot] by metis
  obtain p1 r m p2 where parts: "level_unlink lv0 (b_pool b) x = Some (lv', p1)"
      "id_erase (b_id_index b) (o_id (ord_at (nodes b) x)) = Some (r, m)" "release p1 x = Some p2"
      "b' = b\<lparr>b_pool := p2, b_id_index := m\<rparr>"
    using drop_maker_parts [OF out(1)] .
  have r: "r" using core_ok_leave [OF D(4) x] parts(2) by auto
  have pn: "p_nodes p1 = p_nodes p2" using parts(3) by (auto simp: release_def split: bind_splits)
  have emp: "level_empty lv' \<longleftrightarrow> ps @ qs = []"
    using level_empty_iff [OF level_repD(5) [OF out(2)]] core_okD(2) [OF out(4)] by blast
  define mid' where "mid' = (if ps @ qs = [] then [] else [ps @ qs])"
  define lmid' where "lmid' = (if ps @ qs = [] then [] else [lv'])"
  have cm: "concat mid' = ps @ qs" by (simp add: mid'_def)
  have neighbours: "\<forall>a \<in> set as. better s (l_price a) (l_price lv)" "\<forall>c \<in> set bs. better s (l_price lv) (l_price c)"
    using D(1) [of s] H by (auto simp: side_rep_append side_rep_Cons)
  have "side_rep (nodes b') s lmid' mid'"
    using out(2,3,6) lev(1) by (auto simp: mid'_def lmid'_def side_rep_Cons level_ok_def lv0_def)
  moreover have "set (concat mid') \<inter> (live_slots H - set (concat [ps @ x # qs])) = {}" by (auto simp: cm)
  moreover have "live_slots H - set (concat [ps @ x # qs]) \<union> set (concat mid') = live_slots H - {x}"
    using lev(2,6) by (auto simp: cm)
  moreover have "distinct (concat mid')" using lev(6) by (simp add: cm)
  moreover have "\<forall>a \<in> set as. \<forall>l \<in> set lmid'. better s (l_price a) (l_price l)"
    "\<forall>l \<in> set lmid'. \<forall>c \<in> set bs. better s (l_price l) (l_price c)"
    using neighbours out(3) by (auto simp: lmid'_def lv0_def)
  ultimately have fr: "book_rep b' (L(s := as @ lmid' @ bs)) (H(s := hs @ mid' @ ks))"
    "abs_book (nodes b') (H(s := hs @ mid' @ ks)) = set_side s (map (ord_at (nodes b)) (concat hs) @
      map (ord_at (nodes b')) (concat mid') @ map (ord_at (nodes b)) (concat ks)) (abs_book (nodes b) H)"
    using book_rep_splice [OF rep, of s hs "[ps @ x # qs]" ks as "[lv]" bs b' mid' lmid'] H out(4,5)
    by (auto simp: frame_def cm)
  have "as @ (if level_empty lv' then bs else lv' # bs) = as @ lmid' @ bs"
    using emp by (auto simp: lmid'_def)
  then show thesis
    using fits parts r pn out(3,6) fr remove_id_abs [OF rep H(1)]
      out(5) level_rep_nil [of "nodes b'" lv'] out(2) emp core_okD(4) [OF D(4) x]
    by (intro that [of lv' p1 p2 m "H(s := hs @ mid' @ ks)"]) (auto simp: cm lv0_def frame_def)
qed

lemma shrink_level:
  assumes rep: "book_rep b L H" and ok: "abook_ok (abs_book (nodes b) H)"
    and H: "H s = hs @ (ps @ x # qs) # ks" "L s = as @ lv # bs" "length as = length hs"
    and q: "0 < q" "q \<le> rem_at (nodes b) x"
  obtains lv' p' where "level_reduce_quantity lv (b_pool b) x (rem_at (nodes b) x - q) = Some (lv', p')"
    "in_i64 (rem_at (nodes b) x - q)" "l_price lv' = l_price lv" "\<not> level_empty lv'"
    "length (p_nodes p') = length (nodes b)"
    "book_rep (b\<lparr>b_pool := p'\<rparr>) (L(s := as @ lv' # bs)) H"
    "abs_book (p_nodes p') H = resize_book (o_id (ord_at (nodes b) x)) q (abs_book (nodes b) H)"
proof -
  note D = book_repD [OF rep] and lev = book_rep_level [OF rep ok H]
  let ?xs = "ps @ x # qs" and ?d = "rem_at (nodes b) x - q"
  let ?N = "set_rem (nodes b) x q" and ?lv = "lv\<lparr>l_total_quantity := l_total_quantity lv - ?d\<rparr>"
  let ?b = "b\<lparr>b_pool := (b_pool b)\<lparr>p_nodes := ?N\<rparr>\<rparr>"
  have x: "x \<in> live_slots H" "unat x < length (nodes b)"
    using H core_okD(4) [OF D(4)] by (auto simp: live_slots_side [of H s])
  have fits: "in_i64 ?d" "in_i64 (rem_at (nodes b) x - ?d)" "in_i64 (l_total_quantity lv - ?d)"
    using lev(3) lev(5,7) [of x] q by (auto intro!: in_i64_diff simp: in_i64_def i64_max_def)
  have rep0: "level_rep (nodes b) lv ?xs" using lev(1) by (simp add: level_ok_def)
  have d: "rem_at (nodes b) x - ?d = q" by simp
  note red = level_reduce_quantity_correct [OF level_repD(5) [OF rep0] _ fits(2,3), unfolded d]
  have same: "ord_at ?N y = (if y = x then (ord_at (nodes b) x)\<lparr>o_remaining_quantity := q\<rparr> else ord_at (nodes b) y)" for y
    by (simp add: node_at_set_rem x)
  have ok1: "core_ok ?b (live_slots H)" by (rule core_ok_nodes [OF D(4)]) (simp_all add: node_at_set_rem x)
  have neighbours: "\<forall>a \<in> set as. better s (l_price a) (l_price lv)" "\<forall>c \<in> set bs. better s (l_price lv) (l_price c)"
    using D(1) [of s] H by (auto simp: side_rep_append side_rep_Cons)
  have lv': "side_rep ?N s [?lv] [?xs]"
    using red(3) rep0 lev(1) by (auto simp: side_rep_Cons level_ok_def same)
  have keepH: "H(s := hs @ [?xs] @ ks) = H" using H by auto
  have slots: "live_slots H - set (concat [?xs]) \<union> set (concat [?xs]) = live_slots H" using lev(2) by auto
  have fr: "book_rep ?b (L(s := as @ ?lv # bs)) H"
    using book_rep_splice(1) [OF rep, of s hs "[?xs]" ks as "[lv]" bs ?b "[?xs]" "[?lv]"] H lv' lev(6) ok1 neighbours
    unfolding keepH slots by (auto simp: node_at_set_rem x)
  have res: "map (ord_at ?N) ys = map (resize (o_id (ord_at (nodes b) x)) q) (map (ord_at (nodes b)) ys)"
    if "set ys \<subseteq> live_slots H" for ys
    using that live_id_unique [OF rep _ x(1)] by (auto simp: same resize_def)
  have "abs_book ?N H = resize_book (o_id (ord_at (nodes b) x)) q (abs_book (nodes b) H)"
    by (rule abs_book_eqI [where s = Buy]; unfold side_of_resize side_of_abs; rule res [symmetric])
      (auto simp: live_slots_def)
  moreover have "\<not> level_empty ?lv"
    using level_empty_iff [OF red(2)] core_okD(2) [OF D(4)] by simp
  ultimately show thesis using fr red(1) fits
    by (intro that [of ?lv "(b_pool b)\<lparr>p_nodes := ?N\<rparr>"]) auto
qed

end
