(* ===== verification/Book_Contract.thy ===== *)
theory Book_Contract
  imports Book_Levels
begin

text \<open>
  The two interfaces of an order book.

  \<open>level_book\<close> is the inner one: what a book's level container must do when it matches, rests, cancels and
  shrinks, in terms of the priority-ordered level lists it stands for.  Inside it, \<open>add_order\<close>,
  \<open>cancel_order\<close> and \<open>amend_order\<close> are shown to refine the abstract book.  \<open>order_book\<close> is the outer one: what a
  client of a book may rely on; its lemmas are about whole sessions of operations.
\<close>

section \<open>Loops and views shared by the books\<close>

text \<open>The accumulation loops of \<open>has_liquidity_for\<close>; \<open>stop\<close> is the loop's price test.\<close>

fun accumulate :: "(PriceLevel \<Rightarrow> bool) \<Rightarrow> Quantity \<Rightarrow> Quantity \<Rightarrow> PriceLevel list \<Rightarrow> bool option" where
  "accumulate stop needed accumulated [] = Some False"
| "accumulate stop needed accumulated (level # levels) =
     (if stop level then Some False
      else do {
        acc \<leftarrow> chk64 (accumulated + l_total_quantity level);
        if acc \<ge> needed then Some True else accumulate stop needed acc levels })"

definition level_view :: "PriceLevel \<Rightarrow> PriceLevelView" where
  "level_view lv = \<lparr>v_price = l_price lv, v_total_quantity = l_total_quantity lv, v_order_count = l_order_count lv\<rparr>"

section \<open>The book a level container stands for\<close>

definition queues_of :: "'a BookCore_scheme \<Rightarrow> sides \<Rightarrow> queues" where
  "queues_of b L = (\<lambda>s. map (level_idxs (nodes b)) (L s))"

definition view :: "'a BookCore_scheme \<Rightarrow> sides \<Rightarrow> ABook" where
  "view b L = abs_book (nodes b) (queues_of b L)"

definition rep_ok :: "'a BookCore_scheme \<Rightarrow> sides \<Rightarrow> bool" where
  "rep_ok b L \<longleftrightarrow> book_rep b L (queues_of b L)"

lemma book_rep_queues:
  assumes "book_rep b L H"
  shows "queues_of b L = H"
  using level_idxs_of [OF book_repD(1) [OF assms] core_okD(2) [OF book_repD(4) [OF assms]]]
  by (simp add: queues_of_def fun_eq_iff)

lemma rep_okI:
  assumes "book_rep b L H"
  shows "rep_ok b L" "view b L = abs_book (nodes b) H"
  using assms book_rep_queues [OF assms] by (simp_all add: rep_ok_def view_def)

lemma rep_ok_cong:
  assumes "b_pool b' = b_pool b" "b_id_index b' = b_id_index b"
  shows "rep_ok b' L = rep_ok b L" "view b' L = view b L" "book_rep b' L H = book_rep b L H"
  using assms by (simp_all add: rep_ok_def view_def queues_of_def book_rep_def core_ok_def)

lemma ids_view: "rep_ok b L \<Longrightarrow> i \<in> ids (view b L) \<longleftrightarrow> id_lookup (b_id_index b) i \<noteq> None"
  unfolding rep_ok_def view_def by (rule ids_abs_book)

lemma view_empty:
  assumes "pool_ok (b_pool b)" "nodes b = []" "id_inv (b_id_index b)" "id_lookup (b_id_index b) = Map.empty"
  shows "rep_ok b (\<lambda>s. [])" "view b (\<lambda>s. []) = empty_abook"
  using assms by (auto simp: rep_ok_def view_def queues_of_def abs_book_def empty_abook_def book_rep_def
      side_rep_def live_slots_def core_ok_def pool_ok_def)

text \<open>What \<open>has_liquidity_for\<close> adds up, level by level, is the reachable volume.\<close>

lemma reachable_volume_append:
  "\<forall>y \<in> set ys. price_ok t (o_price y) \<Longrightarrow> reachable_volume t (ys @ zs) = volume ys + reachable_volume t zs"
  by (induction ys) (auto simp: volume_def)

lemma accumulate_reachable:
  assumes "list_all2 (level_ok N) lvs xss" "\<forall>x \<in> set (concat xss). 0 < rem_at N x"
    and "0 \<le> acc" "acc + volume (map (ord_at N) (concat xss)) \<le> i64_max" "acc < needed"
    and stop: "\<And>lv. stop lv \<longleftrightarrow> \<not> price_ok t (l_price lv)"
  shows "accumulate stop needed acc lvs = Some (needed \<le> acc + reachable_volume t (map (ord_at N) (concat xss)))"
  using assms(1-5)
proof (induction arbitrary: acc rule: list_all2_induct)
  case Nil
  then show ?case by simp
next
  case (Cons lv lvs xs xss)
  let ?rest = "map (ord_at N) (concat xss)"
  have lv: "xs \<noteq> []" "\<forall>x \<in> set xs. o_price (ord_at N x) = l_price lv" "l_total_quantity lv = volume (map (ord_at N) xs)"
    using Cons.hyps(1) by (auto simp: level_ok_def level_rep_def volume_def comp_def)
  have pos: "0 \<le> volume (map (ord_at N) xs)" "0 \<le> volume ?rest"
    using Cons.prems(1) unfolding volume_def by (intro sum_list_nonneg; force)+
  have pos3: "0 \<le> reachable_volume t ?rest" by (intro reachable_volume_nonneg) (use Cons.prems(1) in auto)
  have vol: "volume (map (ord_at N) (concat (xs # xss))) = volume (map (ord_at N) xs) + volume ?rest"
    by (simp add: volume_def)
  show ?case
  proof (cases "price_ok t (l_price lv)")
    case False
    then have "reachable_volume t (map (ord_at N) (concat (xs # xss))) = 0"
      using lv(1,2) by (cases xs) auto
    then show ?thesis using False stop Cons.prems(4) by simp
  next
    case True
    then have reach: "reachable_volume t (map (ord_at N) (concat (xs # xss))) = l_total_quantity lv + reachable_volume t ?rest"
      using reachable_volume_append [of "map (ord_at N) xs" t ?rest] lv by simp
    have "in_i64 (acc + l_total_quantity lv)"
      using Cons.prems(2,3) pos vol lv(3) by (simp add: in_i64_def i64_max_def)
    then have step: "accumulate stop needed acc (lv # lvs) = (if needed \<le> acc + l_total_quantity lv then Some True
        else accumulate stop needed (acc + l_total_quantity lv) lvs)"
      using True stop by (simp add: ub_simps)
    show ?thesis
    proof (cases "needed \<le> acc + l_total_quantity lv")
      case True
      then show ?thesis unfolding step reach using pos3 by simp
    next
      case False
      have "accumulate stop needed (acc + l_total_quantity lv) lvs =
        Some (needed \<le> acc + l_total_quantity lv + reachable_volume t ?rest)"
        by (rule Cons.IH) (use Cons.prems pos vol lv(3) False in auto)
      then show ?thesis unfolding step reach using False by (simp add: add.assoc)
    qed
  qed
qed

lemma levels_liquidity:
  assumes rep: "rep_ok b L" and ok: "abook_ok (view b L)" and "0 < o_quantity ord"
  shows "accumulate (\<lambda>lv. \<not> price_ok ord (l_price lv)) (o_quantity ord) 0 (L (opposite (o_side ord))) =
    Some (o_quantity ord \<le> reachable_volume ord (side_of (opposite (o_side ord)) (view b L)))"
proof -
  let ?s = "opposite (o_side ord)" and ?H = "queues_of b L"
  have "list_all2 (level_ok (nodes b)) (L ?s) (?H ?s)"
    using book_repD(1) [OF rep [unfolded rep_ok_def], of ?s] by (simp add: side_rep_def)
  moreover have "\<forall>x \<in> set (concat (?H ?s)). 0 < rem_at (nodes b) x"
    using resting_ok_rq [OF abook_okD(1) [OF ok, of ?s]] by (auto simp: view_def)
  ultimately show ?thesis
    using accumulate_reachable [of "nodes b" "L ?s" "?H ?s" 0 "o_quantity ord" "\<lambda>lv. \<not> price_ok ord (l_price lv)" ord]
      abook_okD(3) [OF ok, of ?s] assms(3) by (simp add: view_def)
qed

text \<open>The levels of a side are its orders grouped by price.\<close>

lemma while_none: "\<forall>y \<in> set ys. \<not> P y \<Longrightarrow> takeWhile P ys = []" "\<forall>y \<in> set ys. \<not> P y \<Longrightarrow> dropWhile P ys = ys"
  by (cases ys; simp)+

lemma side_rep_depth:
  assumes "side_rep N s lvs xss"
  shows "map level_view lvs = depth_of (map (ord_at N) (concat xss))"
  using assms
proof (induction lvs arbitrary: xss)
  case Nil
  then show ?case by simp
next
  case (Cons lv lvs)
  obtain ys xss' where ys: "xss = ys # xss'" using Cons.prems by (cases xss) simp_all
  then have lv0: "level_ok N lv ys" and rest: "side_rep N s lvs xss'" and far: "\<forall>l \<in> set lvs. better s (l_price lv) (l_price l)"
    using Cons.prems by (simp_all add: side_rep_Cons)
  then obtain x xs where "ys = x # xs" by (cases ys) (simp_all add: level_ok_def)
  then have xss: "xss = (x # xs) # xss'" and lv: "level_ok N lv (x # xs)" using ys lv0 by simp_all
  let ?p = "\<lambda>y. o_price y = l_price lv" and ?xs = "map (ord_at N) xs" and ?ys = "map (ord_at N) (concat xss')"
  have same: "\<forall>y \<in> set ?xs. ?p y" "o_price (ord_at N x) = l_price lv" using lv by (auto simp: level_ok_def)
  have "\<forall>y \<in> set ?ys. \<not> ?p y" using level_prices [OF rest] far better_irrefl(1) by fastforce
  then have cut: "takeWhile ?p (?xs @ ?ys) = ?xs" "dropWhile ?p (?xs @ ?ys) = ?ys"
    using same(1) while_none [of ?ys ?p] by (simp_all only: takeWhile_append2 dropWhile_append2 append_Nil2)
  have view: "level_view lv = \<lparr>v_price = l_price lv, v_total_quantity = volume (map (ord_at N) (x # xs)),
      v_order_count = of_nat (length (x # xs))\<rparr>"
    using lv by (simp add: level_view_def level_ok_def level_rep_def level_links_def volume_def comp_def)
  have "depth_of (map (ord_at N) (concat xss)) = level_view lv # depth_of ?ys"
    using same(2) unfolding view by (simp add: xss cut Let_def)
  then show ?case using Cons.IH [OF rest] by simp
qed

lemma levels_depth: "rep_ok b L \<Longrightarrow> map level_view (L s) = depth_of (side_of s (view b L))"
  using side_rep_depth [OF book_repD(1), of b L "queues_of b L" s] by (simp add: rep_ok_def view_def)

lemma order_count_view:
  assumes "rep_ok b L" "abook_ok (view b L)"
  shows "order_count b = length (resting (view b L))"
proof -
  have "dom (id_lookup (b_id_index b)) = set (map o_id (resting (view b L)))"
    using ids_view [OF assms(1)] by (auto simp: ids_def)
  moreover have "id_inv (b_id_index b)" using core_okD(3) [OF book_repD(4)] assms(1) by (simp add: rep_ok_def)
  ultimately show ?thesis
    using distinct_card [OF abook_ok_global(1) [OF assms(2)]] by (simp add: order_count_def id_size_card)
qed

lemma level_count_view: "rep_ok b L \<Longrightarrow> length (L s) = length (depth_of (side_of s (view b L)))"
  using levels_depth [of b L s] by (metis length_map)

section \<open>What a level container promises\<close>

text \<open>
  The algorithm of \<open>add_order\<close> and \<open>amend_order\<close>, the same text in the three books up to the price-range
  checks of the array book, over the operations of the container.
\<close>

definition add_with :: "(Price \<Rightarrow> bool) \<Rightarrow> (Order \<Rightarrow> 'b \<Rightarrow> bool) \<Rightarrow> (Side \<Rightarrow> OrderType \<Rightarrow> Price \<Rightarrow> Quantity \<Rightarrow> 'b \<Rightarrow> bool option)
    \<Rightarrow> (Order \<Rightarrow> 'b \<Rightarrow> World \<Rightarrow> (bool \<times> Order \<times> 'b \<times> World) option) \<Rightarrow> (Order \<Rightarrow> 'b \<Rightarrow> 'b option) \<Rightarrow> IdIndexMap
    \<Rightarrow> Order \<Rightarrow> 'b \<Rightarrow> World \<Rightarrow> (ExecutionReport \<times> 'b \<times> World) option" where
  "add_with rng crs liq mtch rst index ord b w =
     (if o_quantity ord \<le> 0 then Some (report (o_id ord) Rejected 0 0 InvalidQuantity, b, w)
      else if o_type ord = Limit \<and> o_price ord \<le> 0 then Some (report (o_id ord) Rejected 0 0 InvalidPrice, b, w)
      else if o_type ord = Limit \<and> \<not> rng (o_price ord) then Some (report (o_id ord) Rejected 0 0 PriceOutOfRange, b, w)
      else do {
        duplicate \<leftarrow> (if o_id ord \<noteq> kInvalidOrderId then id_contains index (o_id ord) else Some False);
        if duplicate then Some (report (o_id ord) Rejected 0 0 DuplicateOrderId, b, w)
        else do {
          liquid \<leftarrow> (if o_time_in_force ord = FOK
            then liq (o_side ord) (o_type ord) (o_price ord) (o_quantity ord) b else Some True);
          if \<not> liquid then Some (report (o_id ord) Cancelled 0 0 NoReason, b, w)
          else do {
            let order = ord\<lparr>o_remaining_quantity := o_quantity ord\<rparr>;
            (stp_killed, order, b, w) \<leftarrow>
              (if o_type order = Market \<or> o_time_in_force order = FOK \<or> crs order b
               then mtch order b w else Some (False, order, b, w));
            filled \<leftarrow> chk64 (o_quantity ord - o_remaining_quantity order);
            if o_remaining_quantity order = 0 then Some (report (o_id order) Filled filled 0 NoReason, b, w)
            else if \<not> stp_killed \<and> rests_in_book order then do {
              b \<leftarrow> rst order b;
              Some (report (o_id order) (if filled > 0 then PartiallyFilled else New) filled
                (o_remaining_quantity order) NoReason, b, w) }
            else Some (report (o_id order) Cancelled filled 0 NoReason, b, w) } } })"

definition amend_with :: "(Price \<Rightarrow> bool) \<Rightarrow> (Order \<Rightarrow> u32 \<Rightarrow> Quantity \<Rightarrow> 'a BookCore_scheme \<Rightarrow> 'a BookCore_scheme option)
    \<Rightarrow> (OrderId \<Rightarrow> 'a BookCore_scheme \<Rightarrow> (bool \<times> 'a BookCore_scheme) option)
    \<Rightarrow> (Order \<Rightarrow> 'a BookCore_scheme \<Rightarrow> World \<Rightarrow> (ExecutionReport \<times> 'a BookCore_scheme \<times> World) option)
    \<Rightarrow> OrderId \<Rightarrow> Quantity \<Rightarrow> Price option \<Rightarrow> 'a BookCore_scheme \<Rightarrow> World
    \<Rightarrow> (ExecutionReport \<times> 'a BookCore_scheme \<times> World) option" where
  "amend_with rng shrink cancel add i new_quantity new_price b w = do {
     idx_ptr \<leftarrow> id_find (b_id_index b) i;
     (case idx_ptr of
        None \<Rightarrow> Some (report i Rejected 0 0 UnknownOrder, b, w)
      | Some idx \<Rightarrow>
          if new_quantity \<le> 0 then Some (report i Rejected 0 0 InvalidQuantity, b, w)
          else if price_refused rng new_price then Some (report i Rejected 0 0 PriceOutOfRange, b, w)
          else do {
            nd \<leftarrow> pool_get (b_pool b) idx;
            let snapshot = n_order nd;
            if (case new_price of None \<Rightarrow> True | Some p \<Rightarrow> p = o_price snapshot) \<and> new_quantity \<le> o_remaining_quantity snapshot
            then do {
              b \<leftarrow> shrink snapshot idx new_quantity b;
              Some (report i New 0 new_quantity NoReason, b, w) }
            else do {
              (_, b) \<leftarrow> cancel i b;
              let (ts, w) = now_ns w;
              add (snapshot\<lparr>o_price := (case new_price of None \<Rightarrow> o_price snapshot | Some p \<Rightarrow> p),
                o_quantity := new_quantity, o_remaining_quantity := new_quantity, o_timestamp := ts\<rparr>) b w } }) }"

text \<open>
  \<open>moved C V R b A n b'\<close>: the book \<open>b'\<close> is well-formed, stands for \<open>A\<close>, has the parameters of \<open>b\<close> and
  uses at most \<open>n\<close> more slots.
\<close>

definition moved :: "('a BookCore_scheme \<Rightarrow> bool) \<Rightarrow> ('a BookCore_scheme \<Rightarrow> sides) \<Rightarrow> ('a BookCore_scheme \<Rightarrow> Price \<Rightarrow> bool)
    \<Rightarrow> 'a BookCore_scheme \<Rightarrow> ABook \<Rightarrow> nat \<Rightarrow> 'a BookCore_scheme \<Rightarrow> bool" where
  "moved C V R b A n b' \<longleftrightarrow> C b' \<and> rep_ok b' (V b') \<and> view b' (V b') = A \<and> R b' = R b
     \<and> b_symbol b' = b_symbol b \<and> b_trade_callback b' = b_trade_callback b \<and> b_stp_policy b' = b_stp_policy b
     \<and> length (nodes b') \<le> n + length (nodes b)"

lemma moved_trans:
  "moved C V R b A n b1 \<Longrightarrow> moved C V R b1 A' n' b' \<Longrightarrow> n + n' \<le> k \<Longrightarrow> moved C V R b A' k b'"
  by (auto simp: moved_def)

lemma moved_refl: "C b \<Longrightarrow> rep_ok b (V b) \<Longrightarrow> view b (V b) = A \<Longrightarrow> moved C V R b A n b"
  by (simp add: moved_def)

lemma movedI:
  assumes "C b'" "book_rep b' (V b') H'" "abs_book (nodes b') H' = A" "R b' = R b"
    "b_symbol b' = b_symbol b" "b_trade_callback b' = b_trade_callback b" "b_stp_policy b' = b_stp_policy b"
    "length (nodes b') \<le> n + length (nodes b)"
  shows "moved C V R b A n b'"
  using assms rep_okI [OF assms(2)] by (simp add: moved_def)

text \<open>
  The three changes a container goes through when an order rests, leaves or shrinks: what the pool and the
  id index do, and what the level list of the order's side must become for the book to move as specified.
\<close>

definition core_becomes :: "'a BookCore_scheme \<Rightarrow> OrderPool \<Rightarrow> IdIndexMap \<Rightarrow> 'a BookCore_scheme \<Rightarrow> bool" where
  "core_becomes b p m b' \<longleftrightarrow> b_pool b' = p \<and> b_id_index b' = m \<and> b_symbol b' = b_symbol b
     \<and> b_trade_callback b' = b_trade_callback b \<and> b_stp_policy b' = b_stp_policy b"

lemma moved_core:
  assumes "book_rep (b\<lparr>b_pool := p, b_id_index := m\<rparr>) L H" "abs_book (p_nodes p) H = A"
    and "length (p_nodes p) \<le> n + length (nodes b)"
    and "C b'" "V b' = L" "core_becomes b p m b'" "R b' = R b"
  shows "moved C V R b A n b'"
proof (rule movedI [where H' = H])
  show "book_rep b' (V b') H"
    using assms(1,5,6) rep_ok_cong(3) [of b' "b\<lparr>b_pool := p, b_id_index := m\<rparr>"] by (simp add: core_becomes_def)
qed (use assms in \<open>simp_all add: core_becomes_def\<close>)

definition leads_to :: "('a BookCore_scheme \<Rightarrow> sides) \<Rightarrow> 'a BookCore_scheme \<Rightarrow> sides \<Rightarrow> OrderPool \<Rightarrow> IdIndexMap \<Rightarrow> ABook \<Rightarrow> nat \<Rightarrow> bool" where
  "leads_to V b L p m A n \<longleftrightarrow> (\<forall>C R b'. C b' \<longrightarrow> V b' = L \<longrightarrow> core_becomes b p m b' \<longrightarrow> R b' = R b \<longrightarrow> moved C V R b A n b')"

lemma leads_toI:
  assumes "book_rep (b\<lparr>b_pool := p, b_id_index := m\<rparr>) L H" "abs_book (p_nodes p) H = A"
    and "length (p_nodes p) \<le> n + length (nodes b)"
  shows "leads_to V b L p m A n"
  using moved_core [OF assms] unfolding leads_to_def by blast

lemma leads_toD:
  assumes "leads_to V b L p m A n" "C b'" "V b' = L" "core_becomes b p m b'" "R b' = R b"
  shows "moved C V R b A n b'"
  using assms unfolding leads_to_def by blast

definition joins :: "PriceLevel list \<Rightarrow> Price \<Rightarrow> PriceLevel \<Rightarrow> bool" where
  "joins lmid pr lv \<longleftrightarrow> l_price lv = pr \<and> (lmid = [] \<and> lv = empty_level\<lparr>l_price := pr\<rparr> \<or> lmid = [lv])"

lemma rest_step:
  fixes V :: "'a BookCore_scheme \<Rightarrow> sides"
  assumes rep: "rep_ok b (V b)" and ok: "abook_ok (view b (V b))" and room: "length (nodes b) < unat kNullIndex"
    and new: "o_id ord \<noteq> kInvalidOrderId" "o_id ord \<notin> ids (view b (V b))"
    and q: "0 < rq ord" "volume (side_of (o_side ord) (view b (V b))) + rq ord \<le> i64_max"
  obtains as lmid bs lv x p lv' p' m where "V b (o_side ord) = as @ lmid @ bs" "joins lmid (o_price ord) lv"
    "\<forall>a \<in> set as. better (o_side ord) (l_price a) (o_price ord)" "\<forall>c \<in> set bs. better (o_side ord) (o_price ord) (l_price c)"
    "acquire (b_pool b) ord = Some (x, p)" "level_push_back lv p x = Some (lv', p')"
    "id_insert (b_id_index b) (o_id ord) x = Some (True, m)" "l_price lv' = o_price ord" "\<not> level_empty lv'"
    "leads_to V b ((V b)(o_side ord := as @ lv' # bs)) p' m
      (set_side (o_side ord) (place (o_side ord) ord (side_of (o_side ord) (view b (V b)))) (view b (V b))) 1"
proof -
  let ?s = "o_side ord" and ?H = "queues_of b (V b)"
  note rep' = rep [unfolded rep_ok_def] and ok' = ok [unfolded view_def]
  obtain as lmid bs hs mid ks lv xs where sp: "V b ?s = as @ lmid @ bs" "?H ?s = hs @ mid @ ks" "length as = length hs"
    "target lmid mid (o_price ord) lv xs" "\<forall>a \<in> set as. better ?s (l_price a) (o_price ord)"
    "\<forall>c \<in> set bs. better ?s (o_price ord) (l_price c)"
    using split_side [OF book_repD(1) [OF rep', of ?s], of "o_price ord"] by blast
  have fits: "l_total_quantity lv + rq ord \<le> i64_max"
    using target_total [OF rep' ok' sp(2,1,3,4)] q by (simp add: view_def)
  have roomy: "pool_room (b_pool b)" using room by (simp add: pool_room_def)
  have unused: "id_lookup (b_id_index b) (o_id ord) = None" using new(2) ids_view [OF rep] by blast
  obtain x p lv' p' m H' where r: "acquire (b_pool b) ord = Some (x, p)" "level_push_back lv p x = Some (lv', p')"
    "id_insert (b_id_index b) (o_id ord) x = Some (True, m)" "l_price lv' = o_price ord" "\<not> level_empty lv'"
    "length (p_nodes p') \<le> Suc (length (nodes b))"
    "book_rep (b\<lparr>b_pool := p', b_id_index := m\<rparr>) ((V b)(?s := as @ lv' # bs)) H'"
    "abs_book (p_nodes p') H' = set_side ?s (place ?s ord (side_of ?s (abs_book (nodes b) ?H))) (abs_book (nodes b) ?H)"
    by (rule rest_level [OF rep' ok' roomy sp(2,1,3-6) new(1) unused q(1) fits])
  have "joins lmid (o_price ord) lv" using sp(4) by (auto simp: joins_def target_def)
  then show thesis
    by (rule that [OF sp(1) _ sp(5,6) r(1-5)]) (rule leads_toI [OF r(7)], use r(6,8) in \<open>simp_all add: view_def\<close>)
qed

lemma live_level:
  fixes V :: "'a BookCore_scheme \<Rightarrow> sides"
  assumes rep: "rep_ok b (V b)" and ok: "abook_ok (view b (V b))" and x: "id_lookup (b_id_index b) i = Some x"
  defines "s \<equiv> o_side (ord_at (nodes b) x)"
  obtains hs ps qs ks as lv bs where "queues_of b (V b) s = hs @ (ps @ x # qs) # ks" "V b s = as @ lv # bs"
    "length as = length hs" "l_price lv = o_price (ord_at (nodes b) x)"
    "\<forall>a \<in> set as. better s (l_price a) (l_price lv)" "\<forall>c \<in> set bs. better s (l_price lv) (l_price c)"
    "pool_get (b_pool b) x = Some (node_at (nodes b) x)"
proof -
  note rep' = rep [unfolded rep_ok_def] and ok' = ok [unfolded view_def]
  note live = id_lookup_live [OF rep' ok' x, folded s_def] and S = book_repD(1) [OF rep', of s]
  obtain hs ps qs ks as lv bs where l: "queues_of b (V b) s = hs @ (ps @ x # qs) # ks" "V b s = as @ lv # bs"
      "length as = length hs" "l_price lv = o_price (ord_at (nodes b) x)"
    by (rule side_rep_locate [OF S live(3)])
  show thesis
    by (rule that [OF l side_rep_neighbours(1,2) [OF S [unfolded l(2)]]]) (use live(4) in \<open>simp add: pool_get_def ub_simps\<close>)
qed

lemma cancel_step:
  fixes V :: "'a BookCore_scheme \<Rightarrow> sides"
  assumes rep: "rep_ok b (V b)" and ok: "abook_ok (view b (V b))" and x: "id_lookup (b_id_index b) i = Some x"
  defines "s \<equiv> o_side (ord_at (nodes b) x)"
  obtains as lv bs lv' p1 p2 m where "V b s = as @ lv # bs" "l_price lv = o_price (ord_at (nodes b) x)"
    "\<forall>a \<in> set as. better s (l_price a) (l_price lv)" "\<forall>c \<in> set bs. better s (l_price lv) (l_price c)"
    "pool_get (b_pool b) x = Some (node_at (nodes b) x)"
    "in_i64 (l_total_quantity lv - rem_at (nodes b) x)"
    "level_unlink (lv\<lparr>l_total_quantity := l_total_quantity lv - rem_at (nodes b) x\<rparr>) (b_pool b) x = Some (lv', p1)"
    "release p1 x = Some p2" "id_erase (b_id_index b) i = Some (True, m)" "l_price lv' = l_price lv"
    "level_empty lv' \<longrightarrow> lv' = empty_level\<lparr>l_price := l_price lv\<rparr>"
    "leads_to V b ((V b)(s := as @ (if level_empty lv' then bs else lv' # bs))) p2 m (remove_id i (view b (V b))) 0"
proof -
  note rep' = rep [unfolded rep_ok_def] and ok' = ok [unfolded view_def]
  have i: "o_id (ord_at (nodes b) x) = i" by (rule id_lookup_live(2) [OF rep' ok' x])
  obtain hs ps qs ks as lv bs where l: "queues_of b (V b) s = hs @ (ps @ x # qs) # ks" "V b s = as @ lv # bs"
    "length as = length hs" "l_price lv = o_price (ord_at (nodes b) x)"
    "\<forall>a \<in> set as. better s (l_price a) (l_price lv)" "\<forall>c \<in> set bs. better s (l_price lv) (l_price c)"
    "pool_get (b_pool b) x = Some (node_at (nodes b) x)"
    unfolding s_def by (rule live_level [of b V, OF rep ok x])
  obtain lv' p1 p2 m H' where v: "in_i64 (l_total_quantity lv - rem_at (nodes b) x)"
    "level_unlink (lv\<lparr>l_total_quantity := l_total_quantity lv - rem_at (nodes b) x\<rparr>) (b_pool b) x = Some (lv', p1)"
    "release p1 x = Some p2" "id_erase (b_id_index b) (o_id (ord_at (nodes b) x)) = Some (True, m)" "l_price lv' = l_price lv"
    "ord_at (p_nodes p1) x = ord_at (nodes b) x" "length (p_nodes p2) = length (nodes b)"
    "level_empty lv' \<longrightarrow> lv' = empty_level\<lparr>l_price := l_price lv\<rparr>" "unat x < length (p_nodes p1)"
    "book_rep (b\<lparr>b_pool := p2, b_id_index := m\<rparr>) ((V b)(s := as @ (if level_empty lv' then bs else lv' # bs))) H'"
    "abs_book (p_nodes p2) H' = remove_id (o_id (ord_at (nodes b) x)) (abs_book (nodes b) (queues_of b (V b)))"
    by (rule leave_level [OF rep' ok' l(1-3)])
  show thesis
    by (rule that [OF l(2,4-7) v(1-3) v(4) [unfolded i] v(5,8)])
      (rule leads_toI [OF v(10)], use v(7,11) i in \<open>simp_all add: view_def\<close>)
qed

lemma shrink_step:
  fixes V :: "'a BookCore_scheme \<Rightarrow> sides"
  assumes rep: "rep_ok b (V b)" and ok: "abook_ok (view b (V b))" and x: "id_lookup (b_id_index b) i = Some x"
    and q: "0 < q" "q \<le> rem_at (nodes b) x"
  defines "s \<equiv> o_side (ord_at (nodes b) x)"
  obtains as lv bs lv' p' where "V b s = as @ lv # bs" "l_price lv = o_price (ord_at (nodes b) x)"
    "\<forall>a \<in> set as. better s (l_price a) (l_price lv)" "\<forall>c \<in> set bs. better s (l_price lv) (l_price c)"
    "in_i64 (rem_at (nodes b) x - q)"
    "level_reduce_quantity lv (b_pool b) x (rem_at (nodes b) x - q) = Some (lv', p')" "l_price lv' = l_price lv" "\<not> level_empty lv'"
    "leads_to V b ((V b)(s := as @ lv' # bs)) p' (b_id_index b) (resize_book i q (view b (V b))) 0"
proof -
  note rep' = rep [unfolded rep_ok_def] and ok' = ok [unfolded view_def]
  let ?H = "queues_of b (V b)"
  have i: "o_id (ord_at (nodes b) x) = i" by (rule id_lookup_live(2) [OF rep' ok' x])
  obtain hs ps qs ks as lv bs where l: "?H s = hs @ (ps @ x # qs) # ks" "V b s = as @ lv # bs"
    "length as = length hs" "l_price lv = o_price (ord_at (nodes b) x)"
    "\<forall>a \<in> set as. better s (l_price a) (l_price lv)" "\<forall>c \<in> set bs. better s (l_price lv) (l_price c)"
    "pool_get (b_pool b) x = Some (node_at (nodes b) x)"
    unfolding s_def by (rule live_level [of b V, OF rep ok x])
  obtain lv' p' where v: "level_reduce_quantity lv (b_pool b) x (rem_at (nodes b) x - q) = Some (lv', p')"
      "in_i64 (rem_at (nodes b) x - q)" "l_price lv' = l_price lv" "\<not> level_empty lv'" "length (p_nodes p') = length (nodes b)"
      "book_rep (b\<lparr>b_pool := p'\<rparr>) ((V b)(s := as @ lv' # bs)) ?H"
      "abs_book (p_nodes p') ?H = resize_book (o_id (ord_at (nodes b) x)) q (abs_book (nodes b) ?H)"
    by (rule shrink_level [OF rep' ok' l(1-3) q])
  have keep: "book_rep (b\<lparr>b_pool := p', b_id_index := b_id_index b\<rparr>) ((V b)(s := as @ lv' # bs)) ?H" using v(6) by simp
  show thesis
    by (rule that [OF l(2,4-6) v(2,1,3,4)]) (rule leads_toI [OF keep], use v(5,7) i in \<open>simp_all add: view_def\<close>)
qed

text \<open>Cancelling an unknown id changes nothing.\<close>

lemma cancel_unknown:
  assumes "C b" "rep_ok b (V b)" "id_lookup (b_id_index b) i = None"
  shows "fst (spec_cancel i (view b (V b))) = False" "moved C V R b (snd (spec_cancel i (view b (V b)))) 0 b"
  using assms ids_view [OF assms(2), of i] by (auto simp: spec_cancel_def moved_def)

lemma cancel_known:
  assumes "rep_ok b L" "id_lookup (b_id_index b) i = Some x"
  shows "spec_cancel i (view b L) = (True, remove_id i (view b L))"
  using assms ids_view [OF assms(1), of i] by (simp add: spec_cancel_def)

lemma id_find_view:
  assumes "rep_ok b L"
  shows "id_find (b_id_index b) i = Some (id_lookup (b_id_index b) i)"
  by (rule id_find_lookup [OF core_okD(3) [OF book_repD(4) [OF assms [unfolded rep_ok_def]]]])

text \<open>The price a taker of a side accepts, as the loops test it.\<close>

lemma price_ok_Limit: "price_ok t p \<longleftrightarrow> \<not> (o_type t = Limit \<and> \<not> (if o_side t = Buy then o_price t \<ge> p else o_price t \<le> p))"
  by (auto simp: price_ok_def)

text \<open>The best order of a side sits at the best level of the side.\<close>

lemma view_head:
  assumes "rep_ok b L"
  shows "side_of s (view b L) = [] \<longleftrightarrow> L s = []"
    and "L s \<noteq> [] \<Longrightarrow> o_price (hd (side_of s (view b L))) = l_price (hd (L s))"
proof -
  let ?H = "queues_of b L s"
  have "side_rep (nodes b) s (L s) ?H" using book_repD(1) [of b L] assms by (simp add: rep_ok_def)
  moreover have "side_of s (view b L) = map (ord_at (nodes b)) (concat ?H)" by (simp add: view_def)
  moreover have "L s = lv # lvs \<Longrightarrow> \<exists>xs xss. ?H = xs # xss" for lv lvs by (simp add: queues_of_def)
  ultimately show "side_of s (view b L) = [] \<longleftrightarrow> L s = []"
    "L s \<noteq> [] \<Longrightarrow> o_price (hd (side_of s (view b L))) = l_price (hd (L s))"
    by (cases "L s"; fastforce simp: side_rep_Cons level_ok_def hd_map)+
qed

lemma set_side_twice: "set_side s ys (set_side s xs A) = set_side s ys A"
  by (cases s) simp_all

lemma set_side_same [simp]: "set_side s (side_of s A) A = A"
  by (cases s) simp_all

text \<open>
  The matching loop over levels: as long as the taker wants more, the best level of the other side is
  drained and written back, or dropped when it is empty.
\<close>

locale level_matcher =
  fixes cinv :: "'a BookCore_scheme \<Rightarrow> bool" and levels :: "'a BookCore_scheme \<Rightarrow> sides"
    and rng :: "'a BookCore_scheme \<Rightarrow> Price \<Rightarrow> bool"
    and put_front :: "Side \<Rightarrow> 'a BookCore_scheme \<Rightarrow> PriceLevel \<Rightarrow> 'a BookCore_scheme \<Rightarrow> 'a BookCore_scheme option"
    and match_book :: "Order \<Rightarrow> 'a BookCore_scheme \<Rightarrow> World \<Rightarrow> (bool \<times> Order \<times> 'a BookCore_scheme \<times> World) option"
  assumes put_front_law: "cinv b \<Longrightarrow> levels b s = lv # lvs \<Longrightarrow> core_step b b1 \<Longrightarrow> l_price lv' = l_price lv \<Longrightarrow>
      (level_empty lv' \<Longrightarrow> lv' = empty_level\<lparr>l_price := l_price lv\<rparr>) \<Longrightarrow>
      \<exists>b2. put_front s b lv' b1 = Some b2 \<and> cinv b2 \<and> levels b2 = (levels b)(s := if level_empty lv' then lvs else lv' # lvs)
        \<and> rng b2 = rng b \<and> b_pool b2 = b_pool b1 \<and> b_id_index b2 = b_id_index b1 \<and> b_symbol b2 = b_symbol b1
        \<and> b_trade_callback b2 = b_trade_callback b1 \<and> b_stp_policy b2 = b_stp_policy b1"
    and match_unfold: "cinv b \<Longrightarrow> match_book t b w =
      (if 0 < rq t then
        (case levels b (opposite (o_side t)) of
           [] \<Rightarrow> Some (False, t, b, w)
         | lv # lvs \<Rightarrow>
             if \<not> price_ok t (l_price lv) then Some (False, t, b, w)
             else do {
               (k, t1, lv', b1, w1) \<leftarrow> drain_level (l_price lv) t lv b w;
               b2 \<leftarrow> put_front (opposite (o_side t)) b lv' b1;
               if k then Some (True, t1, b2, w1) else match_book t1 b2 w1 })
       else Some (False, t, b, w))"
begin

lemma match_idle:
  assumes "cinv b" "rep_ok b (levels b)"
    and "\<not> 0 < rq t \<or> levels b (opposite (o_side t)) = [] \<or> \<not> price_ok t (l_price (hd (levels b (opposite (o_side t)))))"
  shows "match_book t b w = Some (False, t, b, w)"
    and "spec_match stp t (side_of (opposite (o_side t)) (view b (levels b))) =
      (False, t, side_of (opposite (o_side t)) (view b (levels b)), [])"
proof -
  show "match_book t b w = Some (False, t, b, w)"
    using assms(3) by (subst match_unfold [OF assms(1)]) (auto split: list.splits)
  show "spec_match stp t (side_of (opposite (o_side t)) (view b (levels b))) =
      (False, t, side_of (opposite (o_side t)) (view b (levels b)), [])"
    using assms(3) view_head [OF assms(2), of "opposite (o_side t)"] by (intro spec_match_idle) auto
qed

text \<open>One round of the loop.\<close>

lemma match_round:
  assumes b: "cinv b" "rep_ok b (levels b)" "abook_ok (view b (levels b))"
    and t: "0 < rq t" "rq t \<le> i64_max" "price_ok t (l_price lv)"
  defines "s \<equiv> opposite (o_side t)"
  assumes lv: "levels b s = lv # lvs"
  obtains xs xss k t1 ms f1 b2 where
    "side_of s (view b (levels b)) = map (ord_at (nodes b)) xs @ map (ord_at (nodes b)) (concat xss)"
    "spec_match (b_stp_policy b) t (map (ord_at (nodes b)) xs) = (k, t1, ms, f1)"
    "moved cinv levels rng b (set_side s (ms @ map (ord_at (nodes b)) (concat xss)) (view b (levels b))) 0 b2"
    "match_book t b w = (if k then Some (True, t1, b2, emit_fills (b_trade_callback b) (b_symbol b) t f1 w)
      else match_book t1 b2 (emit_fills (b_trade_callback b) (b_symbol b) t f1 w))"
    "\<not> k \<Longrightarrow> ms \<noteq> [] \<Longrightarrow> rq t1 = 0" "ms = [] \<Longrightarrow> length (levels b2 s) < length (levels b s)"
proof -
  let ?H = "queues_of b (levels b)"
  have rep: "book_rep b (levels b) ?H" and ok: "abook_ok (abs_book (nodes b) ?H)"
    using b by (auto simp: rep_ok_def view_def)
  obtain xs xss where H: "?H s = xs # xss" using lv by (simp add: queues_of_def)
  obtain k t1 ms f1 where walk: "spec_match (b_stp_policy b) t (map (ord_at (nodes b)) xs) = (k, t1, ms, f1)"
    by (metis prod_cases4)
  obtain lv' b1 H' where d:
    "drain_level (l_price lv) t lv b w = Some (k, t1, lv', b1, emit_fills (b_trade_callback b) (b_symbol b) t f1 w)"
    "core_step b b1" "level_empty lv' \<longleftrightarrow> ms = []" "l_price lv' = l_price lv" "length (nodes b1) = length (nodes b)"
    "level_empty lv' \<Longrightarrow> lv' = empty_level\<lparr>l_price := l_price lv\<rparr>"
    "book_rep b1 ((levels b)(s := if level_empty lv' then lvs else lv' # lvs)) H'"
    "abs_book (nodes b1) H' = set_side s (ms @ map (ord_at (nodes b)) (concat xss)) (abs_book (nodes b) ?H)"
    using drain_front [OF rep ok H lv t(3) _ t(2) walk, of w] t(1) by (metis less_imp_le)
  obtain b2 where b2: "put_front s b lv' b1 = Some b2" "cinv b2"
      "levels b2 = (levels b)(s := if level_empty lv' then lvs else lv' # lvs)" "rng b2 = rng b"
      "b_pool b2 = b_pool b1" "b_id_index b2 = b_id_index b1" "b_symbol b2 = b_symbol b1"
      "b_trade_callback b2 = b_trade_callback b1" "b_stp_policy b2 = b_stp_policy b1"
    using put_front_law [OF b(1) lv d(2,4,6)] by blast
  have "book_rep b2 (levels b2) H'" using d(7) b2(3) rep_ok_cong(3) [OF b2(5,6)] by simp
  then have mv: "moved cinv levels rng b (set_side s (ms @ map (ord_at (nodes b)) (concat xss)) (view b (levels b))) 0 b2"
    using b2 d(5,8) core_step_fields [OF d(2)] by (intro movedI) (simp_all add: view_def)
  have "rq t1 = 0" if "\<not> k" "ms \<noteq> []"
  proof -
    have "o_price (hd ms) \<in> o_price ` set (map (ord_at (nodes b)) xs)"
      using leftover_images(2) [OF spec_match_leftover [OF walk]] hd_in_set [OF that(2)] by blast
    then have "price_ok t (o_price (hd ms))"
      using book_repD(1) [OF rep, of s] H lv t(3) by (auto simp: side_rep_Cons level_ok_def)
    moreover have "0 \<le> rq t1"
      using spec_match_bounds [OF walk] t(1) book_rep_level(5) [OF rep ok, of s "[]" xs xss "[]" lv lvs] H lv by auto
    ultimately show ?thesis using spec_match_exhausted [OF walk] that by force
  qed
  moreover have "match_book t b w = (if k then Some (True, t1, b2, emit_fills (b_trade_callback b) (b_symbol b) t f1 w)
      else match_book t1 b2 (emit_fills (b_trade_callback b) (b_symbol b) t f1 w))"
    using t lv d(1) b2(1) by (subst match_unfold [OF b(1)]) (simp add: s_def)
  ultimately show thesis
    by (intro that [of xs xss k t1 ms f1 b2]) (use H walk mv d(3) b2(3) lv in \<open>auto simp: view_def\<close>)
qed

lemma match_refines:
  assumes "cinv b" "rep_ok b (levels b)" "abook_ok (view b (levels b))" "0 \<le> rq t" "rq t \<le> i64_max"
    and "spec_match (b_stp_policy b) t (side_of (opposite (o_side t)) (view b (levels b))) = (k, t', ms, fs)"
  shows "\<exists>b'. match_book t b w = Some (k, t', b', emit_fills (b_trade_callback b) (b_symbol b) t fs w)
    \<and> moved cinv levels rng b (set_side (opposite (o_side t)) ms (view b (levels b))) 0 b'"
  using assms
proof (induction "length (levels b (opposite (o_side t)))" arbitrary: b t k t' ms fs w rule: less_induct)
  case less
  let ?s = "opposite (o_side t)" and ?e = "emit_fills (b_trade_callback b) (b_symbol b) t"
  note I = less.prems(1-3)
  show ?case
  proof (cases "\<not> 0 < rq t \<or> levels b ?s = [] \<or> \<not> price_ok t (l_price (hd (levels b ?s)))")
    case True
    note idle = match_idle [OF I(1,2) True]
    then show ?thesis using less.prems(6) moved_refl [of cinv b levels, OF I(1,2) refl] by auto
  next
    case False
    then obtain lv lvs where lv: "levels b ?s = lv # lvs" by (cases "levels b ?s") auto
    then have t: "0 < rq t" "price_ok t (l_price lv)" using False by auto
    obtain xs xss k1 t1 ms1 f1 b2 where r:
      "side_of ?s (view b (levels b)) = map (ord_at (nodes b)) xs @ map (ord_at (nodes b)) (concat xss)"
      "spec_match (b_stp_policy b) t (map (ord_at (nodes b)) xs) = (k1, t1, ms1, f1)"
      "moved cinv levels rng b (set_side ?s (ms1 @ map (ord_at (nodes b)) (concat xss)) (view b (levels b))) 0 b2"
      "match_book t b w = (if k1 then Some (True, t1, b2, ?e f1 w) else match_book t1 b2 (?e f1 w))"
      "\<not> k1 \<Longrightarrow> ms1 \<noteq> [] \<Longrightarrow> rq t1 = 0" "ms1 = [] \<Longrightarrow> length (levels b2 ?s) < length (levels b ?s)"
      using match_round [OF I t(1) less.prems(5) t(2) lv, of w] by blast
    note app = spec_match_append [OF r(2), of "map (ord_at (nodes b)) (concat xss)"]
    have t1: "t1 = t\<lparr>o_remaining_quantity := rq t1\<rparr>" by (rule spec_match_taker [OF r(2)])
    then have side: "o_side t1 = o_side t" by (metis Order.select_convs(8) Order.surjective Order.update_convs(4))
    have m2: "cinv b2" "rep_ok b2 (levels b2)"
      "view b2 (levels b2) = set_side ?s (ms1 @ map (ord_at (nodes b)) (concat xss)) (view b (levels b))"
      "b_stp_policy b2 = b_stp_policy b" "b_trade_callback b2 = b_trade_callback b" "b_symbol b2 = b_symbol b"
      using r(3) by (auto simp: moved_def)
    show ?thesis
    proof (cases "k1 \<or> ms1 \<noteq> []")
      case True
      then have eq: "k = k1" "t' = t1" "ms = ms1 @ map (ord_at (nodes b)) (concat xss)" "fs = f1"
        using less.prems(6) r(1) app by auto
      have "match_book t b w = Some (k1, t1, b2, ?e f1 w)"
        using r(4,5) True match_idle(1) [OF m2(1,2), of t1] by auto
      then show ?thesis using eq r(3) by auto
    next
      case False
      then have none: "\<not> k1" "ms1 = []" by auto
      have walk2: "spec_match (b_stp_policy b2) t1 (side_of (opposite (o_side t1)) (view b2 (levels b2))) = (k, t', ms, drop (length f1) fs)"
        and fs: "fs = f1 @ drop (length f1) fs"
        using less.prems(6) r(1) app none side m2(3,4) by (auto simp: Let_def split: prod.splits)
      have ok2: "abook_ok (view b2 (levels b2))"
        unfolding m2(3) using none(2) r(1) by (intro leftover_ok [OF I(3)]) (auto simp: leftover_def intro: exI [of _ "length xs"])
      have "\<forall>m \<in> set (map (ord_at (nodes b)) xs). 0 < rq m"
        using resting_ok_rq [OF abook_okD(1) [OF I(3), of ?s]] unfolding r(1) by simp
      then have bnd: "0 \<le> rq t1" "rq t1 \<le> i64_max"
        using spec_match_bounds [OF r(2) less.prems(4)] less.prems(5) by auto
      obtain b' where "match_book t1 b2 (?e f1 w) = Some (k, t', b', emit_fills (b_trade_callback b2) (b_symbol b2) t1 (drop (length f1) fs) (?e f1 w))"
        "moved cinv levels rng b2 (set_side (opposite (o_side t1)) ms (view b2 (levels b2))) 0 b'"
        using less.hyps [OF _ m2(1,2) ok2 bnd walk2, of "?e f1 w"] r(6) none(2) side by auto
      moreover have "emit_fills cb sy t1 gs v = emit_fills cb sy t gs v" for cb sy gs v
        using emit_fills_rem t1 by metis
      moreover have "emit_fills (b_trade_callback b) (b_symbol b) t (drop (length f1) fs) (?e f1 w) = ?e fs w"
        by (subst (2) fs) (simp add: emit_fills_append)
      ultimately show ?thesis
        using r(4) none(1) m2(3,5,6) side moved_trans [OF r(3)] by (auto simp: set_side_twice)
    qed
  qed
qed

end

locale level_book =
  fixes cinv :: "'a BookCore_scheme \<Rightarrow> bool" and levels :: "'a BookCore_scheme \<Rightarrow> sides"
    and rng :: "'a BookCore_scheme \<Rightarrow> Price \<Rightarrow> bool"
    and crosses :: "Order \<Rightarrow> 'a BookCore_scheme \<Rightarrow> bool"
    and liquidity :: "Side \<Rightarrow> OrderType \<Rightarrow> Price \<Rightarrow> Quantity \<Rightarrow> 'a BookCore_scheme \<Rightarrow> bool option"
    and match_book :: "Order \<Rightarrow> 'a BookCore_scheme \<Rightarrow> World \<Rightarrow> (bool \<times> Order \<times> 'a BookCore_scheme \<times> World) option"
    and rest :: "Order \<Rightarrow> 'a BookCore_scheme \<Rightarrow> 'a BookCore_scheme option"
    and shrink :: "Order \<Rightarrow> u32 \<Rightarrow> Quantity \<Rightarrow> 'a BookCore_scheme \<Rightarrow> 'a BookCore_scheme option"
    and cancel :: "OrderId \<Rightarrow> 'a BookCore_scheme \<Rightarrow> (bool \<times> 'a BookCore_scheme) option"
    and add :: "Order \<Rightarrow> 'a BookCore_scheme \<Rightarrow> World \<Rightarrow> (ExecutionReport \<times> 'a BookCore_scheme \<times> World) option"
    and amend :: "OrderId \<Rightarrow> Quantity \<Rightarrow> Price option \<Rightarrow> 'a BookCore_scheme \<Rightarrow> World
      \<Rightarrow> (ExecutionReport \<times> 'a BookCore_scheme \<times> World) option"
  assumes crosses_law: "cinv b \<Longrightarrow> rep_ok b (levels b) \<Longrightarrow> o_type ord = Limit \<Longrightarrow>
      crosses ord b \<longleftrightarrow> levels b (opposite (o_side ord)) \<noteq> [] \<and> price_ok ord (l_price (hd (levels b (opposite (o_side ord)))))"
    and liquidity_law: "cinv b \<Longrightarrow> rep_ok b (levels b) \<Longrightarrow> abook_ok (view b (levels b)) \<Longrightarrow> 0 < o_quantity ord \<Longrightarrow>
      liquidity (o_side ord) (o_type ord) (o_price ord) (o_quantity ord) b =
        Some (o_quantity ord \<le> reachable_volume ord (side_of (opposite (o_side ord)) (view b (levels b))))"
    and match_law: "cinv b \<Longrightarrow> rep_ok b (levels b) \<Longrightarrow> abook_ok (view b (levels b)) \<Longrightarrow> 0 \<le> rq t \<Longrightarrow> rq t \<le> i64_max \<Longrightarrow>
      spec_match (b_stp_policy b) t (side_of (opposite (o_side t)) (view b (levels b))) = (k, t', ms, fs) \<Longrightarrow>
      \<exists>b'. match_book t b w = Some (k, t', b', emit_fills (b_trade_callback b) (b_symbol b) t fs w)
        \<and> moved cinv levels rng b (set_side (opposite (o_side t)) ms (view b (levels b))) 0 b'"
    and rest_law: "cinv b \<Longrightarrow> rep_ok b (levels b) \<Longrightarrow> abook_ok (view b (levels b)) \<Longrightarrow>
      length (nodes b) < unat kNullIndex \<Longrightarrow> o_id ord \<noteq> kInvalidOrderId \<Longrightarrow> o_id ord \<notin> ids (view b (levels b)) \<Longrightarrow>
      rng b (o_price ord) \<Longrightarrow> 0 < rq ord \<Longrightarrow> volume (side_of (o_side ord) (view b (levels b))) + rq ord \<le> i64_max \<Longrightarrow>
      \<exists>b'. rest ord b = Some b' \<and> moved cinv levels rng b
        (set_side (o_side ord) (place (o_side ord) ord (side_of (o_side ord) (view b (levels b)))) (view b (levels b))) 1 b'"
    and shrink_law: "cinv b \<Longrightarrow> rep_ok b (levels b) \<Longrightarrow> abook_ok (view b (levels b)) \<Longrightarrow>
      id_lookup (b_id_index b) i = Some x \<Longrightarrow> 0 < q \<Longrightarrow> q \<le> rem_at (nodes b) x \<Longrightarrow>
      \<exists>b'. shrink (ord_at (nodes b) x) x q b = Some b' \<and> moved cinv levels rng b (resize_book i q (view b (levels b))) 0 b'"
    and cancel_law: "cinv b \<Longrightarrow> rep_ok b (levels b) \<Longrightarrow> abook_ok (view b (levels b)) \<Longrightarrow>
      \<exists>b'. cancel i b = Some (fst (spec_cancel i (view b (levels b))), b')
        \<and> moved cinv levels rng b (snd (spec_cancel i (view b (levels b)))) 0 b'"
    and add_eq: "add ord b w = add_with (rng b) crosses liquidity match_book rest (b_id_index b) ord b w"
    and amend_eq: "amend i q np b w = amend_with (rng b) shrink cancel add i q np b w"
begin

abbreviation mv where "mv \<equiv> moved cinv levels rng"

abbreviation vw :: "'a BookCore_scheme \<Rightarrow> ABook" where "vw b \<equiv> view b (levels b)"

definition linv :: "'a BookCore_scheme \<Rightarrow> bool" where
  "linv b \<longleftrightarrow> cinv b \<and> rep_ok b (levels b) \<and> abook_ok (vw b)"

text \<open>Not matching an order that does not cross is the same as matching it.\<close>

lemma match_or_skip:
  assumes inv: "linv b" and q: "0 < o_quantity ord" "o_quantity ord \<le> i64_max"
  defines "t0 \<equiv> ord\<lparr>o_remaining_quantity := o_quantity ord\<rparr>"
  assumes walk: "spec_match (b_stp_policy b) t0 (side_of (opposite (o_side ord)) (vw b)) = (k, t, ms, fs)"
  shows "\<exists>b'. (if o_type t0 = Market \<or> o_time_in_force t0 = FOK \<or> crosses t0 b then match_book t0 b w else Some (False, t0, b, w))
      = Some (k, t, b', emit_fills (b_trade_callback b) (b_symbol b) t0 fs w)
    \<and> mv b (set_side (opposite (o_side ord)) ms (vw b)) 0 b'"
proof (cases "o_type t0 = Market \<or> o_time_in_force t0 = FOK \<or> crosses t0 b")
  case True
  then show ?thesis
    using match_law [of b t0 k t ms fs w] inv q walk by (simp add: linv_def t0_def)
next
  case False
  let ?s = "opposite (o_side ord)"
  have lim: "o_type t0 = Limit" "o_side t0 = o_side ord" using False by (cases "o_type t0"; simp add: t0_def)+
  have "levels b ?s = [] \<or> \<not> price_ok t0 (l_price (hd (levels b ?s)))"
    using crosses_law [of b t0] inv False lim by (simp add: linv_def)
  then have "side_of ?s (vw b) = [] \<or> \<not> price_ok t0 (o_price (hd (side_of ?s (vw b))))"
    using view_head [of b "levels b" ?s] inv by (auto simp: linv_def)
  then have "spec_match (b_stp_policy b) t0 (side_of ?s (vw b)) = (False, t0, side_of ?s (vw b), [])"
    by (intro spec_match_idle) blast
  then have "k = False" "t = t0" "ms = side_of ?s (vw b)" "fs = []" using walk by simp_all
  then show ?thesis using False moved_refl [of cinv b levels "vw b"] inv by (simp add: linv_def)
qed

lemma rest_taker:
  assumes b1: "mv b (set_side (opposite (o_side ord)) ms (vw b)) 0 b1"
    and inv: "linv b" and adm: "admissible ord (vw b)" and room: "length (nodes b) < unat kNullIndex"
    and new: "o_id ord \<notin> ids (vw b)" and rng: "rng b (o_price ord)"
    and t: "t = ord\<lparr>o_remaining_quantity := r\<rparr>" "0 < r" "r \<le> o_quantity ord"
    and left: "leftover (side_of (opposite (o_side ord)) (vw b)) ms"
  shows "\<exists>b'. rest t b1 = Some b' \<and> mv b (set_side (o_side ord) (place (o_side ord) t (side_of (o_side ord) (vw b)))
      (set_side (opposite (o_side ord)) ms (vw b))) 1 b'"
proof -
  let ?A = "set_side (opposite (o_side ord)) ms (vw b)"
  have A: "abook_ok ?A" using leftover_ok [OF _ left] inv by (simp add: linv_def)
  have m: "cinv b1" "rep_ok b1 (levels b1)" "vw b1 = ?A" "rng b1 = rng b" "length (nodes b1) \<le> length (nodes b)"
    using b1 by (auto simp: moved_def)
  have "o_id ` set ms \<subseteq> ids (vw b)"
    using leftover_images(1) [OF left] unfolding ids_def resting_set [of _ "o_side ord"] by blast
  then have "o_id ord \<notin> ids ?A"
    using new unfolding ids_def resting_set [of _ "o_side ord"] by auto
  then have "\<exists>b'. rest t b1 = Some b' \<and> mv b1 (set_side (o_side t) (place (o_side t) t (side_of (o_side t) (vw b1))) (vw b1)) 1 b'"
    using A m room adm rng t by (intro rest_law) (simp_all add: admissible_def)
  then show ?thesis using moved_trans [OF b1] m(3) t(1) by auto
qed

theorem add_refines:
  assumes inv: "linv b" and adm: "admissible ord (vw b)" and room: "length (nodes b) < unat kNullIndex"
    and spec: "spec_add (rng b) (b_stp_policy b) (b_trade_callback b) (b_symbol b) ord (vw b) w = (r, A', w')"
  shows "\<exists>b'. add ord b w = Some (r, b', w') \<and> mv b A' 1 b'"
proof -
  have I: "cinv b" "rep_ok b (levels b)" "abook_ok (vw b)" and stay: "mv b (vw b) 1 b"
    using inv moved_refl [of cinv b levels "vw b"] by (auto simp: linv_def)
  have dup: "id_contains (b_id_index b) (o_id ord) = Some (o_id ord \<in> ids (vw b))"
    using id_contains_lookup [OF core_okD(3) [OF book_repD(4) [OF I(2) [unfolded rep_ok_def]]]] ids_view [OF I(2)] by simp
  show ?thesis
  proof (cases "o_quantity ord \<le> 0 \<or> o_type ord = Limit \<and> (o_price ord \<le> 0 \<or> \<not> rng b (o_price ord)) \<or> o_id ord \<in> ids (vw b)")
    case True
    then show ?thesis
      using spec stay dup adm unfolding add_eq add_with_def spec_add_def
      by (auto simp: admissible_def split: if_splits)
  next
    case valid: False
    define liquid where "liquid \<longleftrightarrow> (o_time_in_force ord = FOK \<longrightarrow>
      o_quantity ord \<le> reachable_volume ord (side_of (opposite (o_side ord)) (vw b)))"
    have liq: "(if o_time_in_force ord = FOK then liquidity (o_side ord) (o_type ord) (o_price ord) (o_quantity ord) b
        else Some True) = Some liquid"
      using liquidity_law [OF I, of ord] valid by (auto simp: liquid_def)
    let ?t0 = "ord\<lparr>o_remaining_quantity := o_quantity ord\<rparr>"
    obtain k t ms fs where walk: "spec_match (b_stp_policy b) ?t0 (side_of (opposite (o_side ord)) (vw b)) = (k, t, ms, fs)"
      by (metis prod_cases4)
    obtain b1 where b1: "(if o_type ?t0 = Market \<or> o_time_in_force ?t0 = FOK \<or> crosses ?t0 b then match_book ?t0 b w
        else Some (False, ?t0, b, w)) = Some (k, t, b1, emit_fills (b_trade_callback b) (b_symbol b) ?t0 fs w)"
      "mv b (set_side (opposite (o_side ord)) ms (vw b)) 0 b1"
      using match_or_skip [OF inv _ _ walk, of w] valid adm by (auto simp: admissible_def in_i64_def)
    have pos: "\<forall>m \<in> set (side_of (opposite (o_side ord)) (vw b)). 0 < rq m"
      by (rule resting_ok_rq [OF abook_okD(1) [OF I(3)]])
    have t: "t = ord\<lparr>o_remaining_quantity := rq t\<rparr>" "0 \<le> rq t" "rq t \<le> o_quantity ord"
      using spec_match_taker [OF walk] spec_match_bounds [OF walk _ pos] valid by auto
    have fits: "in_i64 (o_quantity ord - rq t)"
      using t adm by (auto simp: admissible_def in_i64_def)
    have flds: "o_id t = o_id ord" "rests_in_book t = rests_in_book ord" 
      using arg_cong [OF t(1), of o_id] arg_cong [OF t(1), of rests_in_book] by (simp_all add: rests_in_book_def)
    have b1': "mv b (set_side (opposite (o_side ord)) ms (vw b)) 1 b1" using b1(2) by (auto simp: moved_def)
    have rest: "\<exists>b'. rest t b1 = Some b' \<and> mv b (set_side (o_side ord) (place (o_side ord) t (side_of (o_side ord) (vw b)))
        (set_side (opposite (o_side ord)) ms (vw b))) 1 b'" if "rests_in_book ord" "rq t \<noteq> 0"
      using rest_taker [OF b1(2) inv adm room _ _ t(1) _ t(3) spec_match_leftover [OF walk]] valid that t(2)
      by (auto simp: rests_in_book_def)
    have run: "add ord b w = (if \<not> liquid then Some (report (o_id ord) Cancelled 0 0 NoReason, b, w)
       else if rq t = 0 then Some (report (o_id ord) Filled (o_quantity ord - rq t) 0 NoReason, b1, emit_fills (b_trade_callback b) (b_symbol b) ?t0 fs w)
       else if \<not> k \<and> rests_in_book ord then do {
         b' \<leftarrow> rest t b1;
         Some (report (o_id ord) (if o_quantity ord - rq t > 0 then PartiallyFilled else New) (o_quantity ord - rq t) (rq t) NoReason,
           b', emit_fills (b_trade_callback b) (b_symbol b) ?t0 fs w) }
       else Some (report (o_id ord) Cancelled (o_quantity ord - rq t) 0 NoReason, b1, emit_fills (b_trade_callback b) (b_symbol b) ?t0 fs w))"
    proof -
      have c: "\<not> o_quantity ord \<le> 0" "\<not> (o_type ord = Limit \<and> o_price ord \<le> 0)"
        "\<not> (o_type ord = Limit \<and> \<not> rng b (o_price ord))" "o_id ord \<notin> ids (vw b)" "o_id ord \<noteq> kInvalidOrderId"
        using valid adm by (auto simp: admissible_def)
      show ?thesis
        by (simp only: add_eq add_with_def Let_def b1(1) liq dup c if_False if_True not_False_eq_True)
          (simp add: fits flds ub_simps)
    qed
    show ?thesis
      using spec valid walk run rest b1' stay unfolding spec_add_def spec_execute_def liquid_def
      by (auto simp: Let_def split: if_splits)
  qed
qed

lemma moved_inv: "mv b A n b' \<Longrightarrow> abook_ok A \<Longrightarrow> linv b' \<and> vw b' = A"
  by (auto simp: moved_def linv_def)

text \<open>The order an id names in the abstract book is the one in the slot the index gives.\<close>

lemma find_view:
  assumes inv: "linv b"
  shows "find (\<lambda>x. o_id x = i) (resting (vw b)) = map_option (ord_at (nodes b)) (id_lookup (b_id_index b) i)"
proof (cases "id_lookup (b_id_index b) i")
  case None
  then have "i \<notin> ids (vw b)" using ids_view [of b "levels b" i] inv by (simp add: linv_def)
  then show ?thesis using None by (auto simp: ids_def find_None_iff)
next
  case (Some x)
  have R: "book_rep b (levels b) (queues_of b (levels b))" "abook_ok (abs_book (nodes b) (queues_of b (levels b)))"
    using inv by (auto simp: linv_def rep_ok_def view_def)
  note live = id_lookup_live [OF R Some]
  have in_book: "ord_at (nodes b) x \<in> set (resting (vw b))"
    using live(3) unfolding resting_set [of _ "o_side (ord_at (nodes b) x)"] view_def by simp
  then obtain y where y: "find (\<lambda>x. o_id x = i) (resting (vw b)) = Some y"
    using live(2) by (cases "find (\<lambda>x. o_id x = i) (resting (vw b))") (auto simp: find_None_iff)
  have "y = ord_at (nodes b) x"
    using same_id_same_order [OF abook_ok_global(1)] find_id_Some [OF y] in_book live(2) inv by (metis linv_def)
  then show ?thesis using y Some by simp
qed

text \<open>An amendment that loses priority: the order is taken out and added again.\<close>

lemma amend_replace:
  assumes inv: "linv b" and adm: "amend_admissible i q np (vw b)" and room: "length (nodes b) < unat kNullIndex"
    and spec: "spec_amend (rng b) (b_stp_policy b) (b_trade_callback b) (b_symbol b) i q np (vw b) w = (r, A', w')"
    and x: "id_lookup (b_id_index b) i = Some x" and q: "0 < q" "\<not> (\<exists>p. np = Some p \<and> \<not> rng b p)"
    and worse: "\<not> ((case np of None \<Rightarrow> True | Some p \<Rightarrow> p = o_price (ord_at (nodes b) x)) \<and> q \<le> rem_at (nodes b) x)"
    and fnd: "id_find (b_id_index b) i = Some (Some x)" and get: "pool_get (b_pool b) x = Some (node_at (nodes b) x)"
  shows "\<exists>b'. amend i q np b w = Some (r, b', w') \<and> mv b A' 1 b'"
proof -
  let ?o = "ord_at (nodes b) x"
  have I: "cinv b" "rep_ok b (levels b)" "abook_ok (vw b)" using inv by (auto simp: linv_def)
  have snap: "find (\<lambda>x. o_id x = i) (resting (vw b)) = Some ?o" using find_view [OF inv, of i] x by simp
  obtain ts w1 where now: "now_ns w = (ts, w1)" by force
  let ?r = "?o\<lparr>o_price := (case np of None \<Rightarrow> o_price ?o | Some p \<Rightarrow> p), o_quantity := q,
     o_remaining_quantity := q, o_timestamp := ts\<rparr>"
  have "i \<in> ids (vw b)" using ids_view [OF I(2)] x by simp
  then obtain b1 where b1: "cancel i b = Some (True, b1)" "mv b (remove_id i (vw b)) 0 b1"
    using cancel_law [OF I, of i] by (auto simp: spec_cancel_def)
  have inv1: "linv b1" "vw b1 = remove_id i (vw b)" using moved_inv [OF b1(2) remove_id_ok [OF I(3)]] by auto
  have m1: "rng b1 = rng b" "b_stp_policy b1 = b_stp_policy b" "b_trade_callback b1 = b_trade_callback b"
    "b_symbol b1 = b_symbol b" "length (nodes b1) < unat kNullIndex"
    using b1(2) room by (auto simp: moved_def)
  have "spec_add (rng b1) (b_stp_policy b1) (b_trade_callback b1) (b_symbol b1) ?r (vw b1) w1 = (r, A', w')"
    using spec snap q worse now m1 inv1(2) by (simp add: spec_amend_def Let_def)
  moreover have "admissible ?r (vw b1)" using amend_replacement_admissible [OF I(3) adm snap] inv1(2) by simp
  ultimately obtain b' where "add ?r b1 w1 = Some (r, b', w')" "mv b1 A' 1 b'"
    using add_refines [OF inv1(1) _ m1(5)] by blast
  moreover have "amend i q np b w = add ?r b1 w1"
    using fnd get q worse b1(1) now unfolding amend_eq amend_with_def by (cases np) (auto simp: Let_def)
  ultimately show ?thesis using moved_trans [OF b1(2)] by auto
qed

theorem amend_refines:
  assumes inv: "linv b" and adm: "amend_admissible i q np (vw b)" and room: "length (nodes b) < unat kNullIndex"
    and spec: "spec_amend (rng b) (b_stp_policy b) (b_trade_callback b) (b_symbol b) i q np (vw b) w = (r, A', w')"
  shows "\<exists>b'. amend i q np b w = Some (r, b', w') \<and> mv b A' 1 b'"
proof -
  have I: "cinv b" "rep_ok b (levels b)" "abook_ok (vw b)" and stay: "mv b (vw b) 1 b"
    using inv moved_refl [of cinv b levels "vw b"] by (auto simp: linv_def)
  have fnd: "id_find (b_id_index b) i = Some (id_lookup (b_id_index b) i)"
    by (rule id_find_lookup [OF core_okD(3) [OF book_repD(4) [OF I(2) [unfolded rep_ok_def]]]])
  show ?thesis
  proof (cases "id_lookup (b_id_index b) i")
    case None
    then show ?thesis
      using spec stay fnd find_view [OF inv, of i] unfolding amend_eq amend_with_def spec_amend_def by auto
  next
    case (Some x)
    let ?o = "ord_at (nodes b) x"
    note live = id_lookup_live [OF I(2,3) [unfolded rep_ok_def view_def] Some]
    have get: "pool_get (b_pool b) x = Some (node_at (nodes b) x)" using live(4) by (simp add: pool_get_def ub_simps)
    have snap: "find (\<lambda>x. o_id x = i) (resting (vw b)) = Some ?o" using find_view [OF inv, of i] Some by simp
    consider (bad) "q \<le> 0 \<or> (\<exists>p. np = Some p \<and> \<not> rng b p)"
      | (down) "0 < q" "\<not> (\<exists>p. np = Some p \<and> \<not> rng b p)" "(case np of None \<Rightarrow> True | Some p \<Rightarrow> p = o_price ?o) \<and> q \<le> rq ?o"
      | (replace) "0 < q" "\<not> (\<exists>p. np = Some p \<and> \<not> rng b p)" "\<not> ((case np of None \<Rightarrow> True | Some p \<Rightarrow> p = o_price ?o) \<and> q \<le> rq ?o)"
      by (meson not_le)
    then show ?thesis
    proof cases
      case bad
      then show ?thesis
        using spec stay fnd snap Some unfolding amend_eq amend_with_def spec_amend_def by (auto split: if_splits)
    next
      case down
      obtain b' where b': "shrink ?o x q b = Some b'" "mv b (resize_book i q (vw b)) 0 b'"
        using shrink_law [OF I Some down(1)] down(3) by auto
      have "amend i q np b w = Some (report i New 0 q NoReason, b', w)"
        using fnd Some get down b'(1) unfolding amend_eq amend_with_def by (simp add: Let_def)
      moreover have "(r, A', w') = (report i New 0 q NoReason, resize_book i q (vw b), w)"
        using spec snap down unfolding spec_amend_def resize_book_def by simp
      ultimately show ?thesis using b'(2) by (auto simp: moved_def)
    next
      case replace
      then show ?thesis using amend_replace [OF inv adm room spec Some] fnd get Some by auto
    qed
  qed
qed

theorem cancel_refines:
  assumes "linv b"
  shows "\<exists>b'. cancel i b = Some (fst (spec_cancel i (vw b)), b') \<and> mv b (snd (spec_cancel i (vw b))) 0 b'"
  using cancel_law assms by (simp add: linv_def)

end

section \<open>What a client of a book relies on\<close>

text \<open>A session: the calls a client makes, and what comes back.\<close>

datatype book_op = Add Order | Cancel OrderId | Amend OrderId Quantity "Price option"

datatype book_res = Report ExecutionReport | Done bool

fun spec_op :: "(Price \<Rightarrow> bool) \<Rightarrow> SelfTradePrevention \<Rightarrow> bool \<Rightarrow> SymbolId \<Rightarrow> book_op \<Rightarrow> ABook \<Rightarrow> World
    \<Rightarrow> book_res \<times> ABook \<times> World" where
  "spec_op rng stp cb symb (Add ord) A w = (let (r, A', w') = spec_add rng stp cb symb ord A w in (Report r, A', w'))"
| "spec_op rng stp cb symb (Cancel i) A w = (let (r, A') = spec_cancel i A in (Done r, A', w))"
| "spec_op rng stp cb symb (Amend i q np) A w = (let (r, A', w') = spec_amend rng stp cb symb i q np A w in (Report r, A', w'))"

fun spec_run :: "(Price \<Rightarrow> bool) \<Rightarrow> SelfTradePrevention \<Rightarrow> bool \<Rightarrow> SymbolId \<Rightarrow> book_op list \<Rightarrow> ABook \<Rightarrow> World
    \<Rightarrow> book_res list \<times> ABook \<times> World" where
  "spec_run rng stp cb symb [] A w = ([], A, w)"
| "spec_run rng stp cb symb (x # xs) A w =
     (let (r, A1, w1) = spec_op rng stp cb symb x A w; (rs, A', w') = spec_run rng stp cb symb xs A1 w1 in (r # rs, A', w'))"

fun op_allowed :: "book_op \<Rightarrow> ABook \<Rightarrow> bool" where
  "op_allowed (Add ord) A = admissible ord A"
| "op_allowed (Cancel i) A = True"
| "op_allowed (Amend i q np) A = amend_admissible i q np A"

fun run_allowed :: "(Price \<Rightarrow> bool) \<Rightarrow> SelfTradePrevention \<Rightarrow> bool \<Rightarrow> SymbolId \<Rightarrow> book_op list \<Rightarrow> ABook \<Rightarrow> World \<Rightarrow> bool" where
  "run_allowed rng stp cb symb [] A w = True"
| "run_allowed rng stp cb symb (x # xs) A w = (op_allowed x A \<and>
     (let (r, A1, w1) = spec_op rng stp cb symb x A w in run_allowed rng stp cb symb xs A1 w1))"

lemma spec_op_ok: "abook_ok A \<Longrightarrow> op_allowed x A \<Longrightarrow> abook_ok (fst (snd (spec_op rng stp cb symb x A w)))"
  by (cases x) (simp_all add: spec_add_ok spec_amend_ok spec_cancel_ok split_def Let_def)

fun run_op :: "(Order \<Rightarrow> 'b \<Rightarrow> World \<Rightarrow> (ExecutionReport \<times> 'b \<times> World) option) \<Rightarrow> (OrderId \<Rightarrow> 'b \<Rightarrow> (bool \<times> 'b) option)
    \<Rightarrow> (OrderId \<Rightarrow> Quantity \<Rightarrow> Price option \<Rightarrow> 'b \<Rightarrow> World \<Rightarrow> (ExecutionReport \<times> 'b \<times> World) option)
    \<Rightarrow> book_op \<Rightarrow> 'b \<Rightarrow> World \<Rightarrow> (book_res \<times> 'b \<times> World) option" where
  "run_op add cancel amend (Add ord) b w = do { (r, b, w) \<leftarrow> add ord b w; Some (Report r, b, w) }"
| "run_op add cancel amend (Cancel i) b w = do { (r, b) \<leftarrow> cancel i b; Some (Done r, b, w) }"
| "run_op add cancel amend (Amend i q np) b w = do { (r, b, w) \<leftarrow> amend i q np b w; Some (Report r, b, w) }"

fun run_ops :: "(Order \<Rightarrow> 'b \<Rightarrow> World \<Rightarrow> (ExecutionReport \<times> 'b \<times> World) option) \<Rightarrow> (OrderId \<Rightarrow> 'b \<Rightarrow> (bool \<times> 'b) option)
    \<Rightarrow> (OrderId \<Rightarrow> Quantity \<Rightarrow> Price option \<Rightarrow> 'b \<Rightarrow> World \<Rightarrow> (ExecutionReport \<times> 'b \<times> World) option)
    \<Rightarrow> book_op list \<Rightarrow> 'b \<Rightarrow> World \<Rightarrow> (book_res list \<times> 'b \<times> World) option" where
  "run_ops add cancel amend [] b w = Some ([], b, w)"
| "run_ops add cancel amend (x # xs) b w = do {
     (r, b, w) \<leftarrow> run_op add cancel amend x b w;
     (rs, b, w) \<leftarrow> run_ops add cancel amend xs b w;
     Some (r # rs, b, w) }"

locale order_book =
  fixes inv :: "'b \<Rightarrow> bool" and abs :: "'b \<Rightarrow> ABook" and rng :: "'b \<Rightarrow> Price \<Rightarrow> bool"
    and stp :: "'b \<Rightarrow> SelfTradePrevention" and cb :: "'b \<Rightarrow> bool" and symb :: "'b \<Rightarrow> SymbolId" and slots :: "'b \<Rightarrow> nat"
    and add :: "Order \<Rightarrow> 'b \<Rightarrow> World \<Rightarrow> (ExecutionReport \<times> 'b \<times> World) option"
    and cancel :: "OrderId \<Rightarrow> 'b \<Rightarrow> (bool \<times> 'b) option"
    and amend :: "OrderId \<Rightarrow> Quantity \<Rightarrow> Price option \<Rightarrow> 'b \<Rightarrow> World \<Rightarrow> (ExecutionReport \<times> 'b \<times> World) option"
  assumes abs_ok: "inv b \<Longrightarrow> abook_ok (abs b)"
    and op_law: "inv b \<Longrightarrow> op_allowed x (abs b) \<Longrightarrow> slots b < unat kNullIndex \<Longrightarrow>
      spec_op (rng b) (stp b) (cb b) (symb b) x (abs b) w = (r, A', w') \<Longrightarrow>
      \<exists>b'. run_op add cancel amend x b w = Some (r, b', w') \<and> inv b' \<and> abs b' = A' \<and> rng b' = rng b \<and> stp b' = stp b
        \<and> cb b' = cb b \<and> symb b' = symb b \<and> slots b' \<le> Suc (slots b)"
begin

theorem session_refines:
  assumes "inv b" "run_allowed (rng b) (stp b) (cb b) (symb b) xs (abs b) w" "slots b + length xs \<le> unat kNullIndex"
    and "spec_run (rng b) (stp b) (cb b) (symb b) xs (abs b) w = (rs, A', w')"
  shows "\<exists>b'. run_ops add cancel amend xs b w = Some (rs, b', w') \<and> inv b' \<and> abs b' = A' \<and> rng b' = rng b \<and> stp b' = stp b
    \<and> cb b' = cb b \<and> symb b' = symb b \<and> slots b' \<le> slots b + length xs"
  using assms
proof (induction xs arbitrary: b w rs)
  case Nil
  then show ?case by auto
next
  case (Cons x xs)
  obtain r A1 w1 where op: "spec_op (rng b) (stp b) (cb b) (symb b) x (abs b) w = (r, A1, w1)" by (metis prod_cases3)
  obtain rs' where tl: "spec_run (rng b) (stp b) (cb b) (symb b) xs A1 w1 = (rs', A', w')" "rs = r # rs'"
    using Cons.prems(4) op by (auto split: prod.splits)
  obtain b1 where b1: "run_op add cancel amend x b w = Some (r, b1, w1)" "inv b1" "abs b1 = A1" "rng b1 = rng b" "stp b1 = stp b"
      "cb b1 = cb b" "symb b1 = symb b" "slots b1 \<le> Suc (slots b)"
    using op_law [OF Cons.prems(1) _ _ op] Cons.prems(2,3) by auto
  have "\<exists>b'. run_ops add cancel amend xs b1 w1 = Some (rs', b', w') \<and> inv b' \<and> abs b' = A' \<and> rng b' = rng b1 \<and> stp b' = stp b1
    \<and> cb b' = cb b1 \<and> symb b' = symb b1 \<and> slots b' \<le> slots b1 + length xs"
    by (rule Cons.IH) (use b1 tl Cons.prems(2,3) op in auto)
  then show ?case using b1 tl(2) by auto
qed

corollary session_total:
  assumes "inv b" "run_allowed (rng b) (stp b) (cb b) (symb b) xs (abs b) w" "slots b + length xs \<le> unat kNullIndex"
  obtains rs b' w' where "run_ops add cancel amend xs b w = Some (rs, b', w')" "inv b'" "uncrossed (abs b')"
proof -
  obtain rs A' w' where "spec_run (rng b) (stp b) (cb b) (symb b) xs (abs b) w = (rs, A', w')" by (metis prod_cases3)
  then show thesis using session_refines [OF assms] that abs_ok abook_ok_global(2) by blast
qed

end

sublocale level_book \<subseteq> ob: order_book linv vw rng b_stp_policy b_trade_callback b_symbol "\<lambda>b. length (nodes b)" add cancel amend
proof
  show "abook_ok (vw b)" if "linv b" for b using that by (simp add: linv_def)
next
  fix b x w r A' w'
  assume inv: "linv b" and al: "op_allowed x (vw b)" and room: "length (nodes b) < unat kNullIndex"
    and op: "spec_op (rng b) (b_stp_policy b) (b_trade_callback b) (b_symbol b) x (vw b) w = (r, A', w')"
  have ok: "abook_ok A'" using spec_op_ok [OF _ al] inv op by (metis fst_conv snd_conv linv_def)
  have "\<exists>b'. run_op add cancel amend x b w = Some (r, b', w') \<and> mv b A' 1 b'"
  proof (cases x)
    case (Add ord)
    obtain r0 where r0: "spec_add (rng b) (b_stp_policy b) (b_trade_callback b) (b_symbol b) ord (vw b) w = (r0, A', w')" "r = Report r0"
      using op Add by (auto split: prod.splits)
    show ?thesis using add_refines [OF inv _ room r0(1)] al Add r0(2) by auto
  next
    case (Cancel i)
    then show ?thesis using cancel_refines [OF inv, of i] op by (auto simp: moved_def split: prod.splits)
  next
    case (Amend i q np)
    obtain r0 where r0: "spec_amend (rng b) (b_stp_policy b) (b_trade_callback b) (b_symbol b) i q np (vw b) w = (r0, A', w')" "r = Report r0"
      using op Amend by (auto split: prod.splits)
    show ?thesis using amend_refines [OF inv _ room r0(1)] al Amend r0(2) by auto
  qed
  then obtain b' where b': "run_op add cancel amend x b w = Some (r, b', w')" "mv b A' 1 b'" by blast
  have "linv b'" "vw b' = A'" using moved_inv [OF b'(2) ok] by auto
  then show "\<exists>b'. run_op add cancel amend x b w = Some (r, b', w') \<and> linv b' \<and> vw b' = A' \<and> rng b' = rng b \<and>
      b_stp_policy b' = b_stp_policy b \<and> b_trade_callback b' = b_trade_callback b \<and> b_symbol b' = b_symbol b \<and>
      length (nodes b') \<le> Suc (length (nodes b))"
    using b' by (auto simp: moved_def)
qed

end
