(* ===== verification/Book_Guarantees.thy ===== *)
theory Book_Guarantees
  imports Book_Contract
begin

text \<open>
  What a caller of a book may rely on, derived once from the abstract book and inherited by every book that
  meets the contract \<open>order_book\<close>: how reports, trades and the resting orders relate to each other after
  \<open>add_order\<close>, \<open>cancel_order\<close> and \<open>amend_order\<close>.
\<close>

section \<open>Adding an order\<close>

definition fills_ok :: "SelfTradePrevention \<Rightarrow> Order \<Rightarrow> Order list \<Rightarrow> fill list \<Rightarrow> bool" where
  "fills_ok stp ord makers fs \<longleftrightarrow>
     map fst fs = take (length fs) (filter (\<lambda>m. \<not> self_trade stp ord m) makers)
     \<and> (\<forall>f \<in> set (butlast fs). snd f = rq (fst f))
     \<and> (\<forall>f \<in> set fs. 0 < snd f \<and> snd f \<le> rq (fst f) \<and> price_ok ord (o_price (fst f)) \<and> \<not> self_trade stp ord (fst f))"

lemma fills_ok_Nil [simp]: "fills_ok stp ord makers []"
  by (simp add: fills_ok_def)

lemma spec_match_fills_ok:
  assumes "spec_match stp t ms = (k, t', ms', fs)" "0 \<le> rq t" "\<forall>m \<in> set ms. 0 < rq m"
  shows "fills_ok stp t ms fs"
  using spec_match_priority [OF assms(1)] spec_match_fills [OF assms(1)] spec_match_bounds [OF assms]
  by (auto simp: fills_ok_def)

lemma fills_ok_rem [simp]: "fills_ok stp (t\<lparr>o_remaining_quantity := q\<rparr>) ms fs = fills_ok stp t ms fs"
  by (simp add: fills_ok_def)

lemma trades_of_rem [simp]: "trades_of symb (t\<lparr>o_remaining_quantity := q\<rparr>) fs w = trades_of symb t fs w"
  by (simp add: trades_of_def mk_trade_def)

definition refusal :: "(Price \<Rightarrow> bool) \<Rightarrow> Order \<Rightarrow> ABook \<Rightarrow> RejectReason" where
  "refusal rng ord A =
     (if o_quantity ord \<le> 0 then InvalidQuantity
      else if o_type ord = Limit \<and> o_price ord \<le> 0 then InvalidPrice
      else if o_type ord = Limit \<and> \<not> rng (o_price ord) then PriceOutOfRange
      else if o_id ord \<in> ids A then DuplicateOrderId else NoReason)"

lemma refusal_none:
  "refusal rng ord A = NoReason \<longleftrightarrow> 0 < o_quantity ord \<and> o_id ord \<notin> ids A \<and> (o_type ord = Limit \<longrightarrow> 0 < o_price ord \<and> rng (o_price ord))"
  by (auto simp: refusal_def not_le)

lemma spec_add_refusal:
  "spec_add rng stp cb symb ord A w =
     (if refusal rng ord A \<noteq> NoReason then (report (o_id ord) Rejected 0 0 (refusal rng ord A), A, w)
      else if o_time_in_force ord = FOK \<and> reachable_volume ord (side_of (opposite (o_side ord)) A) < o_quantity ord
      then (report (o_id ord) Cancelled 0 0 NoReason, A, w)
      else spec_execute stp cb symb ord A w)"
  unfolding spec_add_def refusal_def by simp

lemma spec_add_cases [consumes 1, case_names refused unfillable executed]:
  assumes "spec_add rng stp cb symb ord A w = (r, A', w')"
  obtains "refusal rng ord A \<noteq> NoReason" "r = report (o_id ord) Rejected 0 0 (refusal rng ord A)" "A' = A" "w' = w"
  | "r = report (o_id ord) Cancelled 0 0 NoReason" "A' = A" "w' = w" "o_time_in_force ord = FOK" "refusal rng ord A = NoReason"
  | "spec_execute stp cb symb ord A w = (r, A', w')" "refusal rng ord A = NoReason"
      "o_time_in_force ord = FOK \<longrightarrow> o_quantity ord \<le> reachable_volume ord (side_of (opposite (o_side ord)) A)"
proof (cases "refusal rng ord A = NoReason")
  case True
  show thesis
  proof (cases "o_time_in_force ord = FOK \<and> reachable_volume ord (side_of (opposite (o_side ord)) A) < o_quantity ord")
    case True
    with \<open>refusal rng ord A = NoReason\<close> assms show thesis by (intro that(2)) (simp_all add: spec_add_refusal)
  next
    case False
    with \<open>refusal rng ord A = NoReason\<close> assms show thesis by (intro that(3)) (auto simp: spec_add_refusal)
  qed
next
  case False
  with assms show thesis by (intro that(1)) (auto simp: spec_add_refusal)
qed

text \<open>The trades of one order, in the order they are reported.\<close>

lemma spec_add_trades:
  assumes add: "spec_add rng stp cb symb ord A w = (r, A', w')" and ok: "abook_ok A"
  shows "\<exists>fs. fills_ok stp ord (side_of (opposite (o_side ord)) A) fs \<and> (\<Sum>f\<leftarrow>fs. snd f) = r_filled_quantity r
    \<and> events w' = events w @ (if cb then trades_of symb ord fs w else [])"
  using add
proof (cases rule: spec_add_cases)
  case executed
  let ?t = "ord\<lparr>o_remaining_quantity := o_quantity ord\<rparr>" and ?opp = "side_of (opposite (o_side ord)) A"
  obtain k t opp fs where m: "spec_match stp ?t ?opp = (k, t, opp, fs)" "r_filled_quantity r = o_quantity ord - rq t"
      "w' = emit_fills cb symb ?t fs w"
    using executed(1) by (cases rule: spec_execute_cases [of stp ord A cb symb w]) auto
  have "fills_ok stp ord ?opp fs"
    using spec_match_fills_ok [OF m(1)] executed(2) [unfolded refusal_none] resting_ok_rq [OF abook_okD(1) [OF ok]] by simp
  moreover have "(\<Sum>f\<leftarrow>fs. snd f) = r_filled_quantity r" using spec_match_conserves [OF m(1)] m(2) by simp
  ultimately show ?thesis using m(3) by (auto simp: emit_fills_world)
qed (auto intro!: exI [of _ "[]"] simp: trades_of_def)

definition report_ok :: "Order \<Rightarrow> ExecutionReport \<Rightarrow> ABook \<Rightarrow> ABook \<Rightarrow> bool" where
  "report_ok ord r A A' \<longleftrightarrow> r_order_id r = o_id ord \<and>
     (case r_status r of
        Rejected \<Rightarrow> r_reject_reason r \<noteq> NoReason \<and> r_filled_quantity r = 0 \<and> r_remaining_quantity r = 0 \<and> A' = A
      | Cancelled \<Rightarrow> 0 \<le> r_filled_quantity r \<and> r_filled_quantity r < o_quantity ord \<and> r_remaining_quantity r = 0 \<and> o_id ord \<notin> ids A'
      | Filled \<Rightarrow> r_filled_quantity r = o_quantity ord \<and> r_remaining_quantity r = 0 \<and> o_id ord \<notin> ids A'
      | _ \<Rightarrow> rests_in_book ord \<and> (r_status r = New \<longleftrightarrow> r_filled_quantity r = 0) \<and> 0 \<le> r_filled_quantity r
          \<and> 0 < r_remaining_quantity r \<and> r_filled_quantity r + r_remaining_quantity r = o_quantity ord
          \<and> find (\<lambda>x. o_id x = o_id ord) (resting A') = Some (ord\<lparr>o_remaining_quantity := r_remaining_quantity r\<rparr>))"

lemma place_find:
  assumes "o_id x \<notin> o_id ` set ys"
  shows "find (\<lambda>y. o_id y = o_id x) (place s x ys) = Some x"
  using assms by (induction ys) auto

lemma find_append: "find P (xs @ ys) = (case find P xs of None \<Rightarrow> find P ys | Some x \<Rightarrow> Some x)"
  by (induction xs) auto

lemma find_resting:
  "distinct (map o_id (resting A)) \<Longrightarrow> find (\<lambda>y. o_id y = i) (side_of s A) = Some x \<Longrightarrow> find (\<lambda>y. o_id y = i) (resting A) = Some x"
  using find_id_Some [of i "side_of s A" x]
  by (cases s) (auto simp: resting_def find_append find_None_iff split: option.splits dest: find_id_Some)

lemma ids_set_side:
  assumes "leftover (side_of s A) ms"
  shows "ids (set_side s ms A) \<subseteq> ids A"
  using leftover_images(1) [OF assms] by (cases s) (auto simp: ids_def resting_def)

lemma spec_add_report:
  assumes add: "spec_add rng stp cb symb ord A w = (r, A', w')" and ok: "abook_ok A" and adm: "admissible ord A"
  shows "report_ok ord r A A'"
  using add
proof (cases rule: spec_add_cases)
  case executed
  let ?t = "ord\<lparr>o_remaining_quantity := o_quantity ord\<rparr>" and ?s = "opposite (o_side ord)"
  note q = executed(2) [unfolded refusal_none]
  have ok': "abook_ok A'" using spec_add_ok [OF ok adm, of rng stp cb symb w] add by simp
  have bound: "0 \<le> rq t \<and> rq t \<le> o_quantity ord" and new: "o_id ord \<notin> ids (set_side ?s opp A)" and t: "t = ord\<lparr>o_remaining_quantity := rq t\<rparr>"
    if m: "spec_match stp ?t (side_of ?s A) = (k, t, opp, fs)" for k t opp fs
    using spec_match_bounds [OF m] q resting_ok_rq [OF abook_okD(1) [OF ok]] ids_set_side [OF spec_match_leftover [OF m]]
      spec_match_taker [OF m] by auto
  show ?thesis
  proof (cases rule: spec_execute_cases [of stp ord A cb symb w])
    case (filled k t opp fs)
    then show ?thesis using executed(1) new by (auto simp: report_ok_def)
  next
    case (killed k t opp fs)
    then show ?thesis using executed(1) new [OF killed(1)] bound [OF killed(1)] by (auto simp: report_ok_def)
  next
    case (rested t opp fs)
    have "o_id t = o_id ord" using t [OF rested(1)] by (metis Order.select_convs(1) Order.surjective Order.update_convs(4))
    moreover have "side_of (o_side ord) A' = place (o_side ord) t (side_of (o_side ord) A)" using rested(4) executed(1) by auto
    moreover have "o_id ord \<notin> o_id ` set (side_of (o_side ord) A)" using q resting_set [of A "o_side ord"] by (auto simp: ids_def)
    ultimately have "find (\<lambda>x. o_id x = o_id ord) (resting A') = Some t"
      using find_resting [OF abook_ok_global(1) [OF ok']] place_find by metis
    then show ?thesis using rested executed(1) bound [OF rested(1)] t [OF rested(1)] by (auto simp: report_ok_def)
  qed
qed (auto simp: report_ok_def refusal_none)

text \<open>Quantity accounting, when self-trade prevention finds nothing to prevent.\<close>

definition strangers :: "SelfTradePrevention \<Rightarrow> Order \<Rightarrow> ABook \<Rightarrow> bool" where
  "strangers stp ord A \<longleftrightarrow> (\<forall>m \<in> set (side_of (opposite (o_side ord)) A). \<not> self_trade stp ord m)"

lemma volume_Cons [simp]: "volume [] = 0" "volume (x # xs) = rq x + volume xs"
  by (simp_all add: volume_def)

lemma spec_match_left_volume:
  assumes "spec_match stp t ms = (k, t', ms', fs)" "\<forall>m \<in> set ms. \<not> self_trade stp t m"
  shows "volume ms = volume ms' + (\<Sum>f\<leftarrow>fs. snd f)"
  using assms by (induction rule: spec_match_induct) auto

lemma spec_add_conserves:
  assumes add: "spec_add rng stp cb symb ord A w = (r, A', w')" and out: "strangers stp ord A"
  shows "volume (side_of (opposite (o_side ord)) A) = volume (side_of (opposite (o_side ord)) A') + r_filled_quantity r
    \<and> volume (side_of (o_side ord) A') = volume (side_of (o_side ord) A) + r_remaining_quantity r"
  using add
proof (cases rule: spec_add_cases)
  case executed
  have left: "volume (side_of (opposite (o_side ord)) A) = volume opp + (o_quantity ord - rq t)"
    if m: "spec_match stp (ord\<lparr>o_remaining_quantity := o_quantity ord\<rparr>) (side_of (opposite (o_side ord)) A) = (k, t, opp, fs)" for k t opp fs
    using spec_match_left_volume [OF m] spec_match_conserves [OF m] out by (simp add: strangers_def)
  show ?thesis
    using executed(1) by (cases rule: spec_execute_cases [of stp ord A cb symb w]) (auto dest: left simp: volume_place)
qed auto

lemma spec_add_fok:
  assumes add: "spec_add rng stp cb symb ord A w = (r, A', w')" and ok: "abook_ok A" and fok: "o_time_in_force ord = FOK"
    and out: "strangers stp ord A"
  shows "(r_status r = Filled \<and> r_filled_quantity r = o_quantity ord) \<or> (r_filled_quantity r = 0 \<and> A' = A \<and> w' = w)"
  using add
proof (cases rule: spec_add_cases)
  case executed
  let ?t = "ord\<lparr>o_remaining_quantity := o_quantity ord\<rparr>" and ?opp = "side_of (opposite (o_side ord)) A"
  obtain k t opp fs where m: "spec_match stp ?t ?opp = (k, t, opp, fs)" by (metis prod_cases4)
  have "(\<Sum>f\<leftarrow>fs. snd f) = o_quantity ord"
    using spec_match_volume [OF m] executed(2,3) fok out resting_ok_rq [OF abook_okD(1) [OF ok]]
    by (auto simp: refusal_none strangers_def)
  then have "rq t = 0" using spec_match_conserves [OF m] by simp
  then show ?thesis
    using executed(1) m by (cases rule: spec_execute_cases [of stp ord A cb symb w]) auto
qed auto

section \<open>Cancelling and amending\<close>

lemma spec_cancel_twice:
  "fst (spec_cancel i (snd (spec_cancel i A))) = False" "snd (spec_cancel i (snd (spec_cancel i A))) = snd (spec_cancel i A)"
  by (auto simp: spec_cancel_def ids_remove)

lemma remove_id_keeps:
  "x \<in> set (side_of s (remove_id i A)) \<longleftrightarrow> x \<in> set (side_of s A) \<and> o_id x \<noteq> i"
  by (auto simp: side_of_remove)

lemma find_id_unknown: "i \<notin> ids A \<longleftrightarrow> find (\<lambda>x. o_id x = i) (resting A) = None"
  by (auto simp: find_None_iff ids_def)

definition amend_refusal :: "(Price \<Rightarrow> bool) \<Rightarrow> OrderId \<Rightarrow> Quantity \<Rightarrow> Price option \<Rightarrow> ABook \<Rightarrow> RejectReason" where
  "amend_refusal rng i q np A = (if i \<notin> ids A then UnknownOrder else if q \<le> 0 then InvalidQuantity
     else if price_refused rng np then PriceOutOfRange else NoReason)"

lemma spec_amend_refused:
  assumes "amend_refusal rng i q np A \<noteq> NoReason"
  shows "spec_amend rng stp cb symb i q np A w = (report i Rejected 0 0 (amend_refusal rng i q np A), A, w)"
proof (cases "find (\<lambda>x. o_id x = i) (resting A)")
  case (Some x)
  then have "i \<in> ids A" using find_id_unknown [of i A] by simp
  with Some assms show ?thesis by (simp add: amend_refusal_def spec_amend_def split: if_splits)
next
  case None
  then show ?thesis using find_id_unknown [of i A] by (simp add: amend_refusal_def spec_amend_def)
qed

lemma spec_amend_down:
  assumes "find (\<lambda>x. o_id x = i) (resting A) = Some x" "0 < q" "q \<le> rq x" "np = None \<or> np = Some (o_price x)" "rng (o_price x)"
  shows "spec_amend rng stp cb symb i q np A w = (report i New 0 q NoReason, resize_book i q A, w)"
  using assms by (auto simp: spec_amend_def resize_book_def)

lemma spec_amend_bad_price:
  assumes "find (\<lambda>x. o_id x = i) (resting A) = Some x" "0 < q" "p \<le> 0" "rng p" "abook_ok A"
  shows "spec_amend rng stp cb symb i q (Some p) A w = (report i Rejected 0 0 InvalidPrice, remove_id i A, snd (now_ns w))"
proof -
  have "resting_ok (o_side x) x" using resting_side_ok [OF assms(5)] find_id_Some [OF assms(1)] by blast
  then show ?thesis
    using assms find_id_Some(2) [OF assms(1)]
    by (auto simp: spec_amend_def spec_add_def resting_ok_def rests_in_book_def now_ns_def)
qed

section \<open>What every book inherits\<close>

text \<open>The types of what is reported: 64-bit quantities, and trades with positive 64-bit prices and quantities.\<close>

definition typed_trade :: "SymbolId \<Rightarrow> Trade \<Rightarrow> bool" where
  "typed_trade symb t \<longleftrightarrow> t_symbol t = symb \<and> 0 < t_price t \<and> in_i64 (t_price t) \<and> 0 < t_quantity t \<and> in_i64 (t_quantity t)"

lemma report_types:
  assumes "report_ok ord r A A'" "in_i64 (o_quantity ord)"
  shows "in_i64 (r_filled_quantity r) \<and> in_i64 (r_remaining_quantity r)"
  using assms by (auto simp: report_ok_def in_i64_def i64_max_def split: OrderStatus.splits)

lemma trades_of_member:
  assumes "t \<in> set (trades_of symb ord fs w)"
  obtains i m q where "t = mk_trade symb ord m (o_price m) q (clock w i)" "(m, q) \<in> set fs"
  using assms by (auto simp: trades_of_def enumerate_eq_zip dest!: set_zip_rightD)

lemma fills_ok_maker:
  assumes "fills_ok stp ord makers fs" "(m, q) \<in> set fs"
  shows "m \<in> set makers"
proof -
  have "m \<in> set (map fst fs)" using assms(2) by force
  then have "m \<in> set (filter (\<lambda>m. \<not> self_trade stp ord m) makers)" using assms(1) unfolding fills_ok_def by (metis in_set_takeD)
  then show ?thesis by simp
qed

lemma fills_typed:
  assumes "fills_ok stp ord makers fs" "list_all (resting_ok s) makers" "volume makers \<le> i64_max" "t \<in> set (trades_of symb ord fs w)"
  shows "typed_trade symb t"
proof -
  obtain i m q where t: "t = mk_trade symb ord m (o_price m) q (clock w i)" "(m, q) \<in> set fs" by (rule trades_of_member [OF assms(4)])
  have m: "m \<in> set makers" by (rule fills_ok_maker [OF assms(1) t(2)])
  then have ok: "resting_ok s m" "0 < rq m" using assms(2) by (auto simp: list_all_iff resting_ok_def)
  have "rq m \<le> volume makers"
    unfolding volume_def by (rule member_le_sum_list_int) (use m assms(2) in \<open>auto simp: list_all_iff resting_ok_def\<close>)
  moreover have "0 < q" "q \<le> rq m" using assms(1) t(2) by (auto simp: fills_ok_def)
  ultimately show ?thesis using assms(3) ok t(1) by (simp add: typed_trade_def mk_trade_def in_i64_def resting_ok_def i64_max_def)
qed

context order_book
begin

lemma add_spec:
  assumes "inv b" "admissible ord (abs b)" "slots b < unat kNullIndex"
  obtains r b' w' where "add ord b w = Some (r, b', w')" "inv b'"
    "spec_add (rng b) (stp b) (cb b) (symb b) ord (abs b) w = (r, abs b', w')"
proof -
  obtain r A' w' where "spec_add (rng b) (stp b) (cb b) (symb b) ord (abs b) w = (r, A', w')" by (metis prod_cases3)
  then show thesis using op_law [of b "Add ord" w "Report r" A' w'] assms that by (auto split: bind_splits)
qed

lemma cancel_spec:
  assumes "inv b" "slots b < unat kNullIndex"
  obtains b' where "cancel i b = Some (i \<in> ids (abs b), b')" "inv b'" "abs b' = snd (spec_cancel i (abs b))"
    "slots b' \<le> Suc (slots b)"
proof -
  have "spec_op (rng b) (stp b) (cb b) (symb b) (Cancel i) (abs b) w = (Done (i \<in> ids (abs b)), snd (spec_cancel i (abs b)), w)" for w
    by (simp add: spec_cancel_def)
  from op_law [OF assms(1) _ assms(2) this [of undefined]] that show thesis by (auto split: bind_splits)
qed

lemma amend_spec:
  assumes "inv b" "amend_admissible i q np (abs b)" "slots b < unat kNullIndex"
  obtains r b' w' where "amend i q np b w = Some (r, b', w')" "inv b'"
    "spec_amend (rng b) (stp b) (cb b) (symb b) i q np (abs b) w = (r, abs b', w')"
proof -
  obtain r A' w' where "spec_amend (rng b) (stp b) (cb b) (symb b) i q np (abs b) w = (r, A', w')" by (metis prod_cases3)
  then show thesis using op_law [of b "Amend i q np" w "Report r" A' w'] assms that by (auto split: bind_splits)
qed

theorem add_trades:
  assumes "inv b" "admissible ord (abs b)" "slots b < unat kNullIndex"
  shows "\<exists>r b' w' fs. add ord b w = Some (r, b', w') \<and> fills_ok (stp b) ord (side_of (opposite (o_side ord)) (abs b)) fs
    \<and> (\<Sum>f\<leftarrow>fs. snd f) = r_filled_quantity r \<and> events w' = events w @ (if cb b then trades_of (symb b) ord fs w else [])"
  using add_spec [OF assms] spec_add_trades [OF _ abs_ok [OF assms(1)]] by metis

theorem add_reports:
  assumes "inv b" "admissible ord (abs b)" "slots b < unat kNullIndex"
  shows "\<exists>r b' w'. add ord b w = Some (r, b', w') \<and> inv b' \<and> report_ok ord r (abs b) (abs b')"
  using add_spec [OF assms] spec_add_report [OF _ abs_ok [OF assms(1)] assms(2)] by metis

theorem add_types:
  assumes "inv b" "admissible ord (abs b)" "slots b < unat kNullIndex"
  shows "\<exists>r b' w' new. add ord b w = Some (r, b', w') \<and> inv b' \<and> in_i64 (r_filled_quantity r) \<and> in_i64 (r_remaining_quantity r)
    \<and> events w' = events w @ new \<and> (\<forall>t \<in> set new. typed_trade (symb b) t)"
proof -
  obtain r b' w' where run: "add ord b w = Some (r, b', w')" "inv b'"
    "spec_add (rng b) (stp b) (cb b) (symb b) ord (abs b) w = (r, abs b', w')"
    by (rule add_spec [OF assms])
  note ok = abs_ok [OF assms(1)]
  obtain fs where fs: "fills_ok (stp b) ord (side_of (opposite (o_side ord)) (abs b)) fs"
    "events w' = events w @ (if cb b then trades_of (symb b) ord fs w else [])"
    using spec_add_trades [OF run(3) ok] by blast
  have "in_i64 (r_filled_quantity r) \<and> in_i64 (r_remaining_quantity r)"
    using report_types [OF spec_add_report [OF run(3) ok assms(2)]] assms(2) by (simp add: admissible_def)
  then show ?thesis using run(1,2) fs(2) fills_typed [OF fs(1) abook_okD(1,3) [OF ok]] by (intro exI conjI) auto
qed

theorem add_conserves:
  assumes "inv b" "admissible ord (abs b)" "slots b < unat kNullIndex" "strangers (stp b) ord (abs b)"
  shows "\<exists>r b' w'. add ord b w = Some (r, b', w')
    \<and> volume (side_of (opposite (o_side ord)) (abs b)) = volume (side_of (opposite (o_side ord)) (abs b')) + r_filled_quantity r
    \<and> volume (side_of (o_side ord) (abs b')) = volume (side_of (o_side ord) (abs b)) + r_remaining_quantity r"
  using add_spec [OF assms(1-3)] spec_add_conserves [OF _ assms(4)] by metis

theorem add_fok:
  assumes "inv b" "admissible ord (abs b)" "slots b < unat kNullIndex" "strangers (stp b) ord (abs b)" "o_time_in_force ord = FOK"
  shows "\<exists>r b' w'. add ord b w = Some (r, b', w') \<and>
    (r_status r = Filled \<and> r_filled_quantity r = o_quantity ord \<or> r_filled_quantity r = 0 \<and> abs b' = abs b \<and> w' = w)"
  using add_spec [OF assms(1-3)] spec_add_fok [OF _ abs_ok [OF assms(1)] assms(5) assms(4)] by metis

theorem cancel_exact:
  assumes "inv b" "Suc (slots b) < unat kNullIndex"
  shows "\<exists>b' b''. cancel i b = Some (i \<in> ids (abs b), b') \<and> inv b' \<and> cancel i b' = Some (False, b'') \<and> abs b'' = abs b' \<and>
    (\<forall>s. side_of s (abs b') = filter (\<lambda>x. o_id x \<noteq> i) (side_of s (abs b)))"
proof -
  obtain b' where b': "cancel i b = Some (i \<in> ids (abs b), b')" "inv b'" "abs b' = snd (spec_cancel i (abs b))" "slots b' \<le> Suc (slots b)"
    using cancel_spec [OF assms(1)] assms(2) by (metis Suc_lessD)
  have gone: "i \<notin> ids (abs b')" using b'(3) by (auto simp: spec_cancel_def ids_remove)
  obtain b'' where b'': "cancel i b' = Some (i \<in> ids (abs b'), b'')" "abs b'' = snd (spec_cancel i (abs b'))"
    using cancel_spec [OF b'(2)] b'(4) assms(2) by (metis order_le_less_trans)
  have "side_of s (abs b') = filter (\<lambda>x. o_id x \<noteq> i) (side_of s (abs b))" for s
    using b'(3) resting_set [of "abs b" s] by (auto simp: spec_cancel_def side_of_remove ids_def intro!: filter_True [symmetric])
  then show ?thesis using b' b'' gone by (auto simp: spec_cancel_def)
qed

theorem amend_down:
  assumes "inv b" "amend_admissible i q np (abs b)" "slots b < unat kNullIndex"
    and "find (\<lambda>x. o_id x = i) (resting (abs b)) = Some x" "0 < q" "q \<le> rq x" "np = None \<or> np = Some (o_price x)" "rng b (o_price x)"
  shows "\<exists>b'. amend i q np b w = Some (report i New 0 q NoReason, b', w) \<and> inv b'
    \<and> (\<forall>s. side_of s (abs b') = map (resize i q) (side_of s (abs b)))"
proof (rule amend_spec [OF assms(1-3), of w])
  fix r b' w' assume "amend i q np b w = Some (r, b', w')" "inv b'"
    and "spec_amend (rng b) (stp b) (cb b) (symb b) i q np (abs b) w = (r, abs b', w')"
  then show ?thesis using spec_amend_down [where rng = "rng b", OF assms(4-8)] side_of_resize [of _ i q "abs b"] by auto
qed

theorem amend_refused:
  assumes "inv b" "amend_admissible i q np (abs b)" "slots b < unat kNullIndex" "amend_refusal (rng b) i q np (abs b) \<noteq> NoReason"
  shows "\<exists>b'. amend i q np b w = Some (report i Rejected 0 0 (amend_refusal (rng b) i q np (abs b)), b', w) \<and> inv b' \<and> abs b' = abs b"
proof (rule amend_spec [OF assms(1-3), of w])
  fix r b' w' assume "amend i q np b w = Some (r, b', w')" "inv b'"
    and "spec_amend (rng b) (stp b) (cb b) (symb b) i q np (abs b) w = (r, abs b', w')"
  then show ?thesis using spec_amend_refused [OF assms(4)] by auto
qed

theorem amend_bad_price:
  assumes "inv b" "amend_admissible i q (Some p) (abs b)" "slots b < unat kNullIndex" "i \<in> ids (abs b)" "0 < q" "p \<le> 0" "rng b p"
  shows "\<exists>b' w'. amend i q (Some p) b w = Some (report i Rejected 0 0 InvalidPrice, b', w') \<and> abs b' = remove_id i (abs b)"
proof -
  obtain x where x: "find (\<lambda>x. o_id x = i) (resting (abs b)) = Some x" using assms(4) find_id_unknown [of i "abs b"] by auto
  show ?thesis using amend_spec [OF assms(1-3), of w] spec_amend_bad_price [where rng = "rng b" and stp = "stp b" and cb = "cb b" and symb = "symb b" and w = w,
    OF x assms(5-7) abs_ok [OF assms(1)]] by (metis prod.inject)
qed

theorem add_refused:
  assumes "inv b" "admissible ord (abs b)" "slots b < unat kNullIndex" "refusal (rng b) ord (abs b) \<noteq> NoReason"
  shows "\<exists>b'. add ord b w = Some (report (o_id ord) Rejected 0 0 (refusal (rng b) ord (abs b)), b', w) \<and> abs b' = abs b"
proof (rule add_spec [OF assms(1-3), of w])
  fix r b' w' assume "add ord b w = Some (r, b', w')" "spec_add (rng b) (stp b) (cb b) (symb b) ord (abs b) w = (r, abs b', w')"
  then show ?thesis using assms(4) by (auto simp: spec_add_refusal)
qed

end

section \<open>Price bands\<close>

text \<open>
  A book with a price band and one without cannot be told apart by a session that stays inside the band.
\<close>

fun op_priced :: "(Price \<Rightarrow> bool) \<Rightarrow> book_op \<Rightarrow> bool" where
  "op_priced band (Add ord) = (o_type ord = Limit \<longrightarrow> band (o_price ord))"
| "op_priced band (Cancel i) = True"
| "op_priced band (Amend i q np) = (case np of None \<Rightarrow> True | Some p \<Rightarrow> band p)"

definition priced :: "(Price \<Rightarrow> bool) \<Rightarrow> ABook \<Rightarrow> bool" where
  "priced band A \<longleftrightarrow> (\<forall>s. \<forall>x \<in> set (side_of s A). band (o_price x))"

lemma priced_set_side: "priced band A \<Longrightarrow> \<forall>x \<in> set xs. band (o_price x) \<Longrightarrow> priced band (set_side s xs A)"
  by (simp add: priced_def)

lemma priced_leftover: "priced band A \<Longrightarrow> leftover (side_of s A) ms \<Longrightarrow> priced band (set_side s ms A)"
  using leftover_images(2) [of "side_of s A" ms] by (fastforce simp: priced_def)

lemma spec_add_priced:
  assumes "priced band A" "o_type ord = Limit \<longrightarrow> band (o_price ord)"
  shows "spec_add band stp cb symb ord A w = spec_add (\<lambda>p. True) stp cb symb ord A w"
    "priced band (fst (snd (spec_add (\<lambda>p. True) stp cb symb ord A w)))"
proof -
  show "spec_add band stp cb symb ord A w = spec_add (\<lambda>p. True) stp cb symb ord A w"
    using assms(2) by (simp add: spec_add_refusal refusal_def cong: conj_cong if_cong)
  have "priced band (fst (snd (spec_execute stp cb symb ord A w)))"
  proof (cases rule: spec_execute_cases [of stp ord A cb symb w])
    case (rested t opp fs)
    have "o_price t = o_price ord" using spec_match_taker [OF rested(1)]
      by (metis Order.select_convs(2) Order.surjective Order.update_convs(4))
    moreover have "band (o_price ord)" using rested(3) assms(2) by (simp add: rests_in_book_def)
    ultimately have "\<forall>x \<in> set (place (o_side ord) t (side_of (o_side ord) A)). band (o_price x)"
      using assms(1) by (auto simp: priced_def)
    then show ?thesis using rested(4) priced_leftover [OF assms(1) spec_match_leftover [OF rested(1)]] by (simp add: priced_set_side)
  qed (use priced_leftover [OF assms(1) spec_match_leftover] in auto)
  then show "priced band (fst (snd (spec_add (\<lambda>p. True) stp cb symb ord A w)))" using assms(1) by (simp add: spec_add_def)
qed

lemma priced_remove: "priced band A \<Longrightarrow> priced band (remove_id i A)"
  by (auto simp: priced_def side_of_remove)

lemma priced_resting: "priced band A \<longleftrightarrow> (\<forall>x \<in> set (resting A). band (o_price x))"
proof -
  have "(\<forall>s. Q s) \<longleftrightarrow> Q Buy \<and> Q Sell" for Q by (metis Side.exhaust)
  then show ?thesis by (simp add: priced_def resting_def ball_Un)
qed

lemma priced_resize: "priced band A \<Longrightarrow> priced band (resize_book i q A)"
  by (simp add: priced_def side_of_resize)

lemma spec_op_priced:
  assumes "priced band A" "op_priced band x"
  shows "spec_op band stp cb symb x A w = spec_op (\<lambda>p. True) stp cb symb x A w"
    "priced band (fst (snd (spec_op (\<lambda>p. True) stp cb symb x A w)))"
proof -
  have snap: "band (o_price y)" if "find (\<lambda>y. o_id y = i) (resting A) = Some y" for i y
    using find_id_Some(1) [OF that] assms(1) by (simp add: priced_resting)
  note add = spec_add_priced [OF priced_remove [OF assms(1)]]
  have "spec_amend band stp cb symb i q np A w = spec_amend (\<lambda>p. True) stp cb symb i q np A w \<and>
      priced band (fst (snd (spec_amend (\<lambda>p. True) stp cb symb i q np A w)))" if "x = Amend i q np" for i q np
    using assms that
    by (auto simp: spec_amend_def snap add now_ns_def resize_book_def [symmetric] priced_resize split: option.splits)
  moreover have "priced band (snd (spec_cancel i A))" for i using assms(1) priced_remove by (auto simp: spec_cancel_def)
  ultimately show "spec_op band stp cb symb x A w = spec_op (\<lambda>p. True) stp cb symb x A w"
    "priced band (fst (snd (spec_op (\<lambda>p. True) stp cb symb x A w)))"
    using assms spec_add_priced [OF assms(1)] by (cases x; auto simp: Let_def case_prod_beta)+
qed

lemma spec_run_priced:
  assumes "priced band A" "list_all (op_priced band) xs"
  shows "spec_run band stp cb symb xs A w = spec_run (\<lambda>p. True) stp cb symb xs A w
    \<and> run_allowed band stp cb symb xs A w = run_allowed (\<lambda>p. True) stp cb symb xs A w"
  using assms
proof (induction xs arbitrary: A w)
  case (Cons x xs)
  then show ?case
    using spec_op_priced [OF Cons.prems(1), of x stp cb symb w] Cons.IH by (simp add: case_prod_beta Let_def)
qed simp

end
