(* ===== verification/Risk_Manager.thy ===== *)
theory Risk_Manager
  imports Core_Types
begin

text \<open>
  \<open>include/lightninglob/risk_manager.hpp\<close> and \<open>src/risk_manager.cpp\<close>: order-size, position and rate
  checks per (symbol, participant), and position keeping from fills.

  The \<open>std::unordered_map\<close> is a map from packed keys; \<open>operator[]\<close> creates the default entry.  The signed
  arithmetic is checked, the rate counter and the time difference wrap at their width.  The lemmas show that
  packing keys is injective, that a check passes exactly when the three limits hold, that at most
  \<open>max_orders_per_second\<close> orders pass in one window, and that positions are the signed sums of the fills.
\<close>

section \<open>Model\<close>

definition u32_max :: u32 where
  "u32_max = - 1"

record SymbolRiskLimits =
  max_position :: Quantity
  max_order_size :: Quantity
  max_orders_per_second :: u32

text \<open>\<open>SymbolRiskLimits{}\<close>\<close>

definition no_limits :: SymbolRiskLimits where
  "no_limits = \<lparr>max_position = i64_max, max_order_size = i64_max, max_orders_per_second = u32_max\<rparr>"

definition kRateLimitWindowNs :: Timestamp where
  "kRateLimitWindowNs = 1000000000"

record SymbolParticipantState =
  limits :: SymbolRiskLimits
  net_position :: Quantity
  window_start :: Timestamp
  orders_in_window :: u32

definition fresh_state :: SymbolParticipantState where
  "fresh_state = \<lparr>limits = no_limits, net_position = 0, window_start = 0, orders_in_window = 0\<rparr>"

type_synonym RiskManager = "u64 \<rightharpoonup> SymbolParticipantState"

definition pack_key :: "SymbolId \<Rightarrow> ParticipantId \<Rightarrow> u64" where
  "pack_key symb participant = push_bit 32 (ucast symb) OR ucast participant"

text \<open>\<open>state_[key]\<close>: the entry, default-constructed when there is none.\<close>

definition state_at :: "RiskManager \<Rightarrow> u64 \<Rightarrow> SymbolParticipantState" where
  "state_at rm key = (case rm key of None \<Rightarrow> fresh_state | Some st \<Rightarrow> st)"

definition set_limits :: "SymbolId \<Rightarrow> ParticipantId \<Rightarrow> SymbolRiskLimits \<Rightarrow> RiskManager \<Rightarrow> RiskManager" where
  "set_limits symb participant lim rm =
     (let key = pack_key symb participant in rm(key \<mapsto> (state_at rm key)\<lparr>limits := lim\<rparr>))"

definition limits_for :: "SymbolId \<Rightarrow> ParticipantId \<Rightarrow> RiskManager \<Rightarrow> SymbolRiskLimits" where
  "limits_for symb participant rm =
     (case rm (pack_key symb participant) of None \<Rightarrow> no_limits | Some st \<Rightarrow> limits st)"

definition check_new_order :: "SymbolId \<Rightarrow> ParticipantId \<Rightarrow> Side \<Rightarrow> Quantity \<Rightarrow> Timestamp \<Rightarrow> RiskManager
    \<Rightarrow> (RejectReason \<times> RiskManager) option" where
  "check_new_order symb participant side quantity now rm =
     (case rm (pack_key symb participant) of
        None \<Rightarrow> Some (NoReason, rm)
      | Some state \<Rightarrow>
          if quantity > max_order_size (limits state) then Some (RiskMaxOrderSize, rm)
          else do {
            change \<leftarrow> (if side = Buy then Some quantity else chk64 (- quantity));
            prospective \<leftarrow> chk64 (net_position state + change);
            low \<leftarrow> (if prospective > max_position (limits state) then Some 0 else chk64 (- max_position (limits state)));
            if prospective > max_position (limits state) \<or> prospective < low then Some (RiskMaxPosition, rm)
            else do {
              let state = (if now - window_start state \<ge> kRateLimitWindowNs
                           then state\<lparr>window_start := now, orders_in_window := 0\<rparr> else state);
              if orders_in_window state \<ge> max_orders_per_second (limits state)
              then Some (RiskRateLimited, rm(pack_key symb participant \<mapsto> state))
              else Some (NoReason, rm(pack_key symb participant \<mapsto>
                state\<lparr>orders_in_window := orders_in_window state + 1\<rparr>)) } })"

definition on_fill :: "SymbolId \<Rightarrow> ParticipantId \<Rightarrow> Side \<Rightarrow> Quantity \<Rightarrow> RiskManager \<Rightarrow> RiskManager option" where
  "on_fill symb participant side filled_quantity rm = do {
     let key = pack_key symb participant;
     let state = state_at rm key;
     change \<leftarrow> (if side = Buy then Some filled_quantity else chk64 (- filled_quantity));
     position \<leftarrow> chk64 (net_position state + change);
     Some (rm(key \<mapsto> state\<lparr>net_position := position\<rparr>)) }"

definition position :: "SymbolId \<Rightarrow> ParticipantId \<Rightarrow> RiskManager \<Rightarrow> Quantity" where
  "position symb participant rm =
     (case rm (pack_key symb participant) of None \<Rightarrow> 0 | Some st \<Rightarrow> net_position st)"

section \<open>Keys\<close>

lemma pack_key_inj [simp]: "pack_key s p = pack_key s' p' \<longleftrightarrow> s = s' \<and> p = p'"
proof
  assume eq: "pack_key s p = pack_key s' p'"
  have lo: "bit (pack_key a b) k \<longleftrightarrow> bit b k" if "k < 32" for a b k
    using that by (simp add: pack_key_def bit_simps)
  have hi: "bit (pack_key a b) (k + 32) \<longleftrightarrow> bit a k" if "k < 32" for a b k
    using that bit_imp_le_length [of b "k + 32"] by (auto simp: pack_key_def bit_simps)
  have "bit p k = bit p' k" "bit s k = bit s' k" if "k < 32" for k
    using eq lo [OF that, of s p] lo [OF that, of s' p'] hi [OF that, of s p] hi [OF that, of s' p'] by simp_all
  then have "p = p'" "s = s'" by (intro bit_word_eqI; simp)+
  then show "s = s' \<and> p = p'" by blast
qed simp

section \<open>Positions\<close>

definition signed_qty :: "Side \<Rightarrow> Quantity \<Rightarrow> Quantity" where
  "signed_qty side q = (if side = Buy then q else - q)"

lemma position_state: "position s p rm = net_position (state_at rm (pack_key s p))"
  by (auto simp: position_def state_at_def fresh_state_def split: option.splits)

lemma limits_state: "limits_for s p rm = limits (state_at rm (pack_key s p))"
  by (auto simp: limits_for_def state_at_def fresh_state_def split: option.splits)

lemma state_at_upd [simp]: "state_at (rm(k \<mapsto> st)) k' = (if k' = k then st else state_at rm k')"
  by (simp add: state_at_def)

lemma set_limits_effect:
  "limits_for s' p' (set_limits s p lim rm) = (if s' = s \<and> p' = p then lim else limits_for s' p' rm)"
  "position s' p' (set_limits s p lim rm) = position s' p' rm"
  by (auto simp: limits_state position_state set_limits_def Let_def)

lemma on_fill_effect:
  assumes "on_fill s p side q rm = Some rm'"
  shows "position s' p' rm' = position s' p' rm + (if s' = s \<and> p' = p then signed_qty side q else 0)"
    "limits_for s' p' rm' = limits_for s' p' rm"
  using assms by (auto simp: on_fill_def signed_qty_def position_state limits_state Let_def bind_eq_Some_conv split: if_splits)

lemma on_fill_total:
  assumes "in_i64 (signed_qty side q)" "in_i64 (position s p rm + signed_qty side q)"
  shows "\<exists>rm'. on_fill s p side q rm = Some rm'"
  using assms by (auto simp: on_fill_def signed_qty_def position_state Let_def ub_simps)

text \<open>The sum of all positions in a symbol.\<close>

definition total_position :: "SymbolId \<Rightarrow> RiskManager \<Rightarrow> int" where
  "total_position s rm = (\<Sum>p \<in> UNIV. position s p rm)"

lemma on_fill_total_position:
  assumes "on_fill s p side q rm = Some rm'"
  shows "total_position s' rm' = total_position s' rm + (if s' = s then signed_qty side q else 0)"
  by (simp add: total_position_def on_fill_effect(1) [OF assms] sum.distrib)

section \<open>The three checks\<close>

text \<open>Whether the next order of a state fits the rate limit at a time.\<close>

definition rate_ok :: "Timestamp \<Rightarrow> SymbolParticipantState \<Rightarrow> bool" where
  "rate_ok now st \<longleftrightarrow> (if now - window_start st \<ge> kRateLimitWindowNs then 0 < max_orders_per_second (limits st)
     else orders_in_window st < max_orders_per_second (limits st))"

lemma check_new_order_cases:
  assumes "rm (pack_key s p) = Some st"
    and "in_i64 (signed_qty side q)" "in_i64 (net_position st + signed_qty side q)" "in_i64 (- max_position (limits st))"
    and "st' = (if now - window_start st \<ge> kRateLimitWindowNs then st\<lparr>window_start := now, orders_in_window := 0\<rparr> else st)"
  shows "check_new_order s p side q now rm = Some
    (if q > max_order_size (limits st) then (RiskMaxOrderSize, rm)
     else if \<bar>net_position st + signed_qty side q\<bar> > max_position (limits st) then (RiskMaxPosition, rm)
     else if orders_in_window st' \<ge> max_orders_per_second (limits st') then (RiskRateLimited, rm(pack_key s p \<mapsto> st'))
     else (NoReason, rm(pack_key s p \<mapsto> st'\<lparr>orders_in_window := orders_in_window st' + 1\<rparr>)))"
proof -
  have change: "(if side = Buy then Some q else chk64 (- q)) = Some (signed_qty side q)"
    using assms(2) by (cases side) (simp_all add: signed_qty_def ub_simps)
  have out: "x > m \<or> x < (if x > m then 0 else - m) \<longleftrightarrow> \<bar>x\<bar> > m" for x m :: int by auto
  have low: "(if x > max_position (limits st) then Some 0 else chk64 (- max_position (limits st)))
      = Some (if x > max_position (limits st) then 0 else - max_position (limits st))" for x
    using assms(4) by (simp add: ub_simps)
  show ?thesis
    unfolding check_new_order_def assms(1) option.case change low Option.bind.bind_lunit chk64_Some [OF assms(3)] out Let_def assms(5)
    by simp
qed

lemma check_passes:
  assumes st: "rm (pack_key s p) = Some st"
    and fits: "in_i64 (signed_qty side q)" "in_i64 (net_position st + signed_qty side q)" "in_i64 (- max_position (limits st))"
  shows "\<exists>r rm'. check_new_order s p side q now rm = Some (r, rm') \<and>
    (r = NoReason \<longleftrightarrow> q \<le> max_order_size (limits st) \<and> \<bar>net_position st + signed_qty side q\<bar> \<le> max_position (limits st) \<and> rate_ok now st)"
  using check_new_order_cases [of rm s p st side q _ now, OF assms]
  by (cases "now - window_start st < kRateLimitWindowNs") (simp_all add: rate_ok_def not_less [symmetric])

lemma check_keeps:
  assumes "check_new_order s p side q now rm = Some (r, rm')"
  shows "position s' p' rm' = position s' p' rm" "limits_for s' p' rm' = limits_for s' p' rm"
    "s' \<noteq> s \<or> p' \<noteq> p \<Longrightarrow> rm' (pack_key s' p') = rm (pack_key s' p')"
  using assms
  by (auto simp: check_new_order_def position_state limits_state state_at_def Let_def bind_eq_Some_conv split: option.splits if_splits)

text \<open>Checks of one participant in one symbol, in order of arrival.\<close>

fun run_checks :: "SymbolId \<Rightarrow> ParticipantId \<Rightarrow> (Side \<times> Quantity \<times> Timestamp) list \<Rightarrow> RiskManager
    \<Rightarrow> (RejectReason list \<times> RiskManager) option" where
  "run_checks s p [] rm = Some ([], rm)"
| "run_checks s p ((side, q, now) # xs) rm = do {
     (r, rm) \<leftarrow> check_new_order s p side q now rm;
     (rs, rm) \<leftarrow> run_checks s p xs rm;
     Some (r # rs, rm) }"

lemma check_in_window:
  assumes "check_new_order s p side q now rm = Some (r, rm')" "rm (pack_key s p) = Some st"
    and "now - window_start st < kRateLimitWindowNs" "orders_in_window st \<le> max_orders_per_second (limits st)"
  obtains st' where "rm' (pack_key s p) = Some st'" "window_start st' = window_start st" "limits st' = limits st"
    "orders_in_window st' \<le> max_orders_per_second (limits st')"
    "unat (orders_in_window st') = unat (orders_in_window st) + (if r = NoReason then 1 else 0)"
proof (cases "r = NoReason")
  case True
  then have ok: "orders_in_window st < max_orders_per_second (limits st)"
    and upd: "rm' = rm(pack_key s p \<mapsto> st\<lparr>orders_in_window := orders_in_window st + 1\<rparr>)"
    using assms by (auto simp: check_new_order_def Let_def bind_eq_Some_conv not_le [symmetric] split: if_splits)
  have "unat (orders_in_window st) + 1 < 2 ^ 32"
    using ok unsigned_less [where 'a = nat and w = "max_orders_per_second (limits st)"] unfolding word_less_nat_alt by simp
  then have "unat (orders_in_window st + 1) = unat (orders_in_window st) + 1"
    by (simp add: unat_word_ariths)
  moreover from this have "orders_in_window st + 1 \<le> max_orders_per_second (limits st)"
    using ok by (simp add: word_le_nat_alt word_less_nat_alt)
  ultimately show thesis by (intro that [of "st\<lparr>orders_in_window := orders_in_window st + 1\<rparr>"]) (use True upd in simp_all)
next
  case False
  then have "rm' (pack_key s p) = Some st"
    using assms by (auto simp: check_new_order_def Let_def bind_eq_Some_conv not_le [symmetric] split: if_splits)
  then show thesis by (intro that [of st]) (use False assms(4) in simp_all)
qed

lemma window_budget:
  assumes "run_checks s p xs rm = Some (rs, rm')" "rm (pack_key s p) = Some st"
    and "\<forall>(side, q, now) \<in> set xs. now - window_start st < kRateLimitWindowNs"
    and "orders_in_window st \<le> max_orders_per_second (limits st)"
  shows "unat (orders_in_window st) + length (filter (\<lambda>r. r = NoReason) rs) \<le> unat (max_orders_per_second (limits st))"
  using assms
proof (induction xs arbitrary: rm st rs)
  case Nil
  then show ?case by (simp add: word_le_nat_alt)
next
  case (Cons x xs)
  obtain side q now where x: "x = (side, q, now)" by (cases x)
  obtain r rm1 rs' where run: "check_new_order s p side q now rm = Some (r, rm1)" "run_checks s p xs rm1 = Some (rs', rm')" "rs = r # rs'"
    using Cons.prems(1) x by (auto simp: bind_eq_Some_conv)
  obtain st' where st': "rm1 (pack_key s p) = Some st'" "window_start st' = window_start st" "limits st' = limits st"
    "orders_in_window st' \<le> max_orders_per_second (limits st')"
    "unat (orders_in_window st') = unat (orders_in_window st) + (if r = NoReason then 1 else 0)"
    by (rule check_in_window [OF run(1) Cons.prems(2)]) (use Cons.prems(3,4) x in auto)
  have "unat (orders_in_window st') + length (filter (\<lambda>r. r = NoReason) rs') \<le> unat (max_orders_per_second (limits st'))"
    using Cons.prems(3) st' by (intro Cons.IH [OF run(2) st'(1)]) auto
  then show ?case using st'(3,5) run(3) by (auto split: if_splits)
qed

text \<open>
  A check that finds its window expired either leaves the state alone, refused by size or position, or opens a
  window at its own time in which it is the first order.
\<close>

lemma check_opens_window:
  assumes "check_new_order s p side q now rm = Some (r, rm')" "rm (pack_key s p) = Some st" "now - window_start st \<ge> kRateLimitWindowNs"
  shows "r \<noteq> NoReason \<and> rm' = rm \<or> (\<exists>st'. rm' (pack_key s p) = Some st' \<and> window_start st' = now \<and> limits st' = limits st
    \<and> orders_in_window st' \<le> max_orders_per_second (limits st') \<and> unat (orders_in_window st') = (if r = NoReason then 1 else 0))"
proof -
  let ?st = "st\<lparr>window_start := now, orders_in_window := 0\<rparr>"
  consider "r \<noteq> NoReason" "rm' = rm" | "r \<noteq> NoReason" "rm' (pack_key s p) = Some ?st"
    | "r = NoReason" "rm' (pack_key s p) = Some (?st\<lparr>orders_in_window := 1\<rparr>)" "max_orders_per_second (limits st) \<noteq> 0"
    using assms by (auto simp: check_new_order_def Let_def bind_eq_Some_conv split: if_splits)
  then show ?thesis
  proof cases
    case 3
    then have "(1 :: 32 word) \<le> max_orders_per_second (limits st)"
      by (simp add: word_le_nat_alt Suc_le_eq unat_gt_0)
    with 3 show ?thesis by simp
  qed simp_all
qed

abbreviation check_time :: "Side \<times> Quantity \<times> Timestamp \<Rightarrow> Timestamp" where
  "check_time x \<equiv> snd (snd x)"

abbreviation passed :: "RejectReason list \<Rightarrow> nat" where
  "passed rs \<equiv> length (filter (\<lambda>r. r = NoReason) rs)"

text \<open>Times of a clock that does not run backwards, all within one window's length of \<open>t\<close>.\<close>

definition in_one_second :: "Timestamp \<Rightarrow> (Side \<times> Quantity \<times> Timestamp) list \<Rightarrow> bool" where
  "in_one_second t xs \<longleftrightarrow> sorted (map check_time xs) \<and> (\<forall>x \<in> set xs. t \<le> check_time x \<and> check_time x - t < kRateLimitWindowNs)"

lemma u64_diff_mono: "(a :: 64 word) \<le> b \<Longrightarrow> b \<le> c \<Longrightarrow> c - b \<le> c - a \<and> b - a \<le> c - a"
  using order_trans [of a b c] by (auto simp: word_le_nat_alt unat_sub)

lemma in_one_second_Cons:
  assumes "in_one_second t (x # xs)"
  shows "in_one_second t xs" "\<And>y. y \<in> set xs \<Longrightarrow> check_time x \<le> check_time y \<and> check_time y - check_time x < kRateLimitWindowNs"
proof -
  show "in_one_second t xs" using assms by (simp add: in_one_second_def)
  fix y assume "y \<in> set xs"
  with assms have "t \<le> check_time x" "check_time x \<le> check_time y" "check_time y - t < kRateLimitWindowNs"
    by (auto simp: in_one_second_def)
  then show "check_time x \<le> check_time y \<and> check_time y - check_time x < kRateLimitWindowNs"
    using u64_diff_mono [of t "check_time x" "check_time y"] by auto
qed

lemma opened_budget:
  assumes "run_checks s p xs rm = Some (rs, rm')" "rm (pack_key s p) = Some st" "in_one_second t xs"
    and "\<forall>x \<in> set xs. check_time x - window_start st \<ge> kRateLimitWindowNs"
  shows "passed rs \<le> unat (max_orders_per_second (limits st))"
  using assms
proof (induction xs arbitrary: rm rs)
  case (Cons x xs)
  obtain side q now where x: "x = (side, q, now)" by (cases x)
  obtain r rm1 rs' where run: "check_new_order s p side q now rm = Some (r, rm1)" "run_checks s p xs rm1 = Some (rs', rm')" "rs = r # rs'"
    using Cons.prems(1) x by (auto simp: bind_eq_Some_conv)
  note rest = in_one_second_Cons [OF Cons.prems(3)]
  have "now - window_start st \<ge> kRateLimitWindowNs" using Cons.prems(4) x by simp
  from check_opens_window [OF run(1) Cons.prems(2) this] show ?case
  proof (elim disjE exE conjE)
    assume "r \<noteq> NoReason" "rm1 = rm"
    then show ?thesis using Cons.IH [of rm rs'] Cons.prems(2,4) run(2,3) rest(1) by simp
  next
    fix st' assume st': "rm1 (pack_key s p) = Some st'" "window_start st' = now" "limits st' = limits st"
      "orders_in_window st' \<le> max_orders_per_second (limits st')" "unat (orders_in_window st') = (if r = NoReason then 1 else 0)"
    have "unat (orders_in_window st') + passed rs' \<le> unat (max_orders_per_second (limits st'))"
      by (rule window_budget [OF run(2) st'(1) _ st'(4)]) (use rest(2) st'(2) x in auto)
    then show ?thesis using st'(3,5) run(3) by (auto split: if_splits)
  qed
qed simp

lemma second_budget:
  assumes "run_checks s p xs rm = Some (rs, rm')" "rm (pack_key s p) = Some st" "in_one_second t xs"
    and "\<forall>x \<in> set xs. window_start st \<le> check_time x" "orders_in_window st \<le> max_orders_per_second (limits st)"
  shows "unat (orders_in_window st) + passed rs \<le> 2 * unat (max_orders_per_second (limits st))"
  using assms
proof (induction xs arbitrary: rm st rs)
  case Nil
  then show ?case by (simp add: word_le_nat_alt)
next
  case (Cons x xs)
  obtain side q now where x: "x = (side, q, now)" by (cases x)
  obtain r rm1 rs' where run: "check_new_order s p side q now rm = Some (r, rm1)" "run_checks s p xs rm1 = Some (rs', rm')" "rs = r # rs'"
    using Cons.prems(1) x by (auto simp: bind_eq_Some_conv)
  note rest = in_one_second_Cons [OF Cons.prems(3)]
  show ?case
  proof (cases "now - window_start st < kRateLimitWindowNs")
    case True
    obtain st' where st': "rm1 (pack_key s p) = Some st'" "window_start st' = window_start st" "limits st' = limits st"
      "orders_in_window st' \<le> max_orders_per_second (limits st')"
      "unat (orders_in_window st') = unat (orders_in_window st) + (if r = NoReason then 1 else 0)"
      using check_in_window [OF run(1) Cons.prems(2) True Cons.prems(5)] by blast
    have "unat (orders_in_window st') + passed rs' \<le> 2 * unat (max_orders_per_second (limits st'))"
      by (rule Cons.IH [OF run(2) st'(1) rest(1)]) (use Cons.prems(4) st' in auto)
    then show ?thesis using st'(3,5) run(3) by (auto split: if_splits)
  next
    case False
    have "\<forall>y \<in> set (x # xs). check_time y - window_start st \<ge> kRateLimitWindowNs"
    proof
      fix y assume "y \<in> set (x # xs)"
      with rest(2) [of y] have "check_time x \<le> check_time y" by auto
      then have "now - window_start st \<le> check_time y - window_start st"
        using Cons.prems(4) x u64_diff_mono [of "window_start st" now "check_time y"] by simp
      with False show "check_time y - window_start st \<ge> kRateLimitWindowNs" by simp
    qed
    then have "passed rs \<le> unat (max_orders_per_second (limits st))" using opened_budget [OF Cons.prems(1,2,3)] by blast
    then show ?thesis using Cons.prems(5) by (simp add: word_le_nat_alt)
  qed
qed

section \<open>The gate's promises\<close>

definition sample_state :: SymbolParticipantState where
  "sample_state = \<lparr>limits = \<lparr>max_position = 100, max_order_size = 50, max_orders_per_second = 2\<rparr>, net_position = 70,
     window_start = 1000, orders_in_window = 0\<rparr>"

text \<open>
  C28.  A configured participant's order passes the gate exactly when it respects the size limit, keeps the
  resulting position within the limit in both directions, and the window's budget is not used up; and the check
  returns without overflow whenever the sums fit 64 bits.
\<close>

theorem risk_check_decides:
  assumes "rm (pack_key s p) = Some st" "in_i64 (signed_qty side q)" "in_i64 (net_position st + signed_qty side q)"
    and "in_i64 (- max_position (limits st))"
  shows "\<exists>r rm'. check_new_order s p side q now rm = Some (r, rm') \<and>
    (r = NoReason \<longleftrightarrow> q \<le> max_order_size (limits st) \<and> \<bar>net_position st + signed_qty side q\<bar> \<le> max_position (limits st) \<and> rate_ok now st)"
  using check_passes [where rm = rm, OF assms] .

theorem risk_check_decides_witness:
  "\<exists>r rm'. check_new_order 1 7 Buy 40 1500 [pack_key 1 7 \<mapsto> sample_state] = Some (r, rm') \<and> r \<noteq> NoReason"
  using risk_check_decides [of "[pack_key 1 7 \<mapsto> sample_state]" 1 7 sample_state Buy 40 1500]
  by (auto simp: sample_state_def signed_qty_def in_i64_def i64_max_def)

text \<open>
  C29.  The rate limit of a configured participant, for any number of checks in order of arrival.  In the window
  that is open, the orders counted so far and those that pass stay within the limit.  When the window has expired
  by the first check, at most the limit passes among all checks within one second of it: the first of them to
  reach the rate check opens a new window at its own time.  And in any second, wherever it falls across the end of
  a window, at most twice the limit passes.
\<close>

theorem risk_window_budget:
  assumes "run_checks s p xs rm = Some (rs, rm')" "rm (pack_key s p) = Some st"
  shows "((\<forall>x \<in> set xs. check_time x - window_start st < kRateLimitWindowNs) \<and> orders_in_window st \<le> max_orders_per_second (limits st)
        \<longrightarrow> unat (orders_in_window st) + passed rs \<le> unat (max_orders_per_second (limits st)))
    \<and> (in_one_second t xs \<and> (\<forall>x \<in> set xs. check_time x - window_start st \<ge> kRateLimitWindowNs)
        \<longrightarrow> passed rs \<le> unat (max_orders_per_second (limits st)))
    \<and> (in_one_second t xs \<and> (\<forall>x \<in> set xs. window_start st \<le> check_time x) \<and> orders_in_window st \<le> max_orders_per_second (limits st)
        \<longrightarrow> unat (orders_in_window st) + passed rs \<le> 2 * unat (max_orders_per_second (limits st)))"
  using window_budget [OF assms] opened_budget [OF assms] second_budget [OF assms] by (auto simp: case_prod_beta)

text \<open>Two more than the limit of 2 in the open window, and after its end a new window opened at 2000000000.\<close>

abbreviation sample_window :: "(Side \<times> Quantity \<times> Timestamp) list" where
  "sample_window \<equiv> [(Buy, 1, 1100), (Sell, 1, 1200), (Buy, 1, 1300), (Sell, 1, 1400)]"

abbreviation expired_window :: "(Side \<times> Quantity \<times> Timestamp) list" where
  "expired_window \<equiv> [(Buy, 60, 2000000000), (Buy, 1, 2000000001), (Sell, 1, 2000000002), (Buy, 1, 2000000003), (Sell, 1, 2999999999)]"

lemmas risk_eval = check_new_order_def sample_state_def kRateLimitWindowNs_def chk64_def in_i64_def i64_max_def Let_def not_le word_less_nat_alt word_le_nat_alt

lemma sample_checks:
  "run_checks 1 7 sample_window [pack_key 1 7 \<mapsto> sample_state] =
     Some ([NoReason, NoReason, RiskRateLimited, RiskRateLimited], [pack_key 1 7 \<mapsto> sample_state\<lparr>orders_in_window := 2\<rparr>])"
  by (simp add: risk_eval)

lemma expired_checks:
  "run_checks 1 7 expired_window [pack_key 1 7 \<mapsto> sample_state] =
     Some ([RiskMaxOrderSize, NoReason, NoReason, RiskRateLimited, RiskRateLimited],
       [pack_key 1 7 \<mapsto> sample_state\<lparr>window_start := 2000000001, orders_in_window := 2\<rparr>])"
  by (simp add: risk_eval)

theorem risk_window_budget_witness:
  "(\<exists>rs rm'. run_checks 1 7 sample_window [pack_key 1 7 \<mapsto> sample_state] = Some (rs, rm') \<and> length rs = 4 \<and> passed rs = 2
      \<and> passed rs \<le> unat (max_orders_per_second (limits sample_state)))
   \<and> (\<exists>rs rm'. run_checks 1 7 expired_window [pack_key 1 7 \<mapsto> sample_state] = Some (rs, rm') \<and> length rs = 5 \<and> passed rs = 2
      \<and> passed rs \<le> unat (max_orders_per_second (limits sample_state)))"
proof -
  have "orders_in_window sample_state = 0" "unat (max_orders_per_second (limits sample_state)) = 2" "window_start sample_state = 1000"
    by (simp_all add: sample_state_def)
  moreover have "in_one_second 2000000000 expired_window"
    by (simp add: in_one_second_def kRateLimitWindowNs_def word_le_nat_alt word_less_nat_alt)
  ultimately have "passed [NoReason, NoReason, RiskRateLimited, RiskRateLimited] \<le> unat (max_orders_per_second (limits sample_state))"
      "passed [RiskMaxOrderSize, NoReason, NoReason, RiskRateLimited, RiskRateLimited] \<le> unat (max_orders_per_second (limits sample_state))"
    using risk_window_budget [OF sample_checks, of sample_state 0] risk_window_budget [OF expired_checks, of sample_state 2000000000]
    by (simp_all add: kRateLimitWindowNs_def word_le_nat_alt word_less_nat_alt)
  then show ?thesis unfolding sample_checks expired_checks by simp
qed

end
