(* ===== verification/Matching_Engine.thy ===== *)
theory Matching_Engine
  imports Book_Guarantees Risk_Manager
begin

text \<open>
  \<open>include/lightninglob/matching_engine.hpp\<close>: the books of all symbols behind one risk manager.

  The template parameter \<open>BookT\<close> is a record of its operations (\<open>BookClass\<close>), the argument of every
  operation that calls a book.  A book hands each trade to \<open>on_trade\<close> while it matches; neither the book
  nor the matching depends on what \<open>on_trade\<close> does, so the model collects the trades of one call and settles
  them, in order, when the call returns.  The user's callback is an observer: \<open>events\<close> of the \<open>World\<close>
  are the trades it has seen.
\<close>

section \<open>Model\<close>

record ('e, 'b) BookClass =
  bk_new :: "SymbolId \<Rightarrow> Price \<Rightarrow> Price \<Rightarrow> nat \<Rightarrow> SelfTradePrevention \<Rightarrow> 'e + 'b"
  bk_add :: "Order \<Rightarrow> 'b \<Rightarrow> World \<Rightarrow> (ExecutionReport \<times> 'b \<times> World) option"
  bk_cancel :: "OrderId \<Rightarrow> 'b \<Rightarrow> (bool \<times> 'b) option"
  bk_amend :: "OrderId \<Rightarrow> Quantity \<Rightarrow> Price option \<Rightarrow> 'b \<Rightarrow> World \<Rightarrow> (ExecutionReport \<times> 'b \<times> World) option"
  bk_reset :: "'b \<Rightarrow> 'b option"
  bk_set_callback :: "bool \<Rightarrow> 'b \<Rightarrow> 'b"

record 'b MatchingEngine =
  e_books :: "SymbolId \<rightharpoonup> 'b"
  e_risk_manager :: RiskManager
  e_next_order_id :: OrderId
  e_user_callback :: bool

definition engine_new :: "RiskManager \<Rightarrow> 'b MatchingEngine" where
  "engine_new rm = \<lparr>e_books = Map.empty, e_risk_manager = rm, e_next_order_id = 1, e_user_callback = False\<rparr>"

text \<open>An exception of the book's constructor leaves the engine as it was.\<close>

definition add_symbol :: "('e, 'b) BookClass \<Rightarrow> SymbolId \<Rightarrow> Price \<Rightarrow> Price \<Rightarrow> nat \<Rightarrow> SelfTradePrevention
    \<Rightarrow> 'b MatchingEngine \<Rightarrow> 'e + 'b MatchingEngine" where
  "add_symbol C symb min_price max_price order_capacity_hint stp_policy e =
     (case e_books e symb of
        Some _ \<Rightarrow> Inr e
      | None \<Rightarrow> (case bk_new C symb min_price max_price order_capacity_hint stp_policy of
            Inl err \<Rightarrow> Inl err
          | Inr b \<Rightarrow> Inr (e\<lparr>e_books := (e_books e)(symb \<mapsto> bk_set_callback C True b)\<rparr>)))"

definition has_symbol :: "SymbolId \<Rightarrow> 'b MatchingEngine \<Rightarrow> bool" where
  "has_symbol symb e \<longleftrightarrow> e_books e symb \<noteq> None"

definition reset_symbol :: "('e, 'b) BookClass \<Rightarrow> SymbolId \<Rightarrow> 'b MatchingEngine \<Rightarrow> 'b MatchingEngine option" where
  "reset_symbol C symb e =
     (case e_books e symb of
        None \<Rightarrow> Some e
      | Some b \<Rightarrow> do { b \<leftarrow> bk_reset C b; Some (e\<lparr>e_books := (e_books e)(symb \<mapsto> b)\<rparr>) })"

definition on_trade :: "Trade \<Rightarrow> 'b MatchingEngine \<times> World \<Rightarrow> ('b MatchingEngine \<times> World) option" where
  "on_trade trade ew = (case ew of (e, w) \<Rightarrow> do {
     rm \<leftarrow> on_fill (t_symbol trade) (t_taker_participant_id trade) (t_taker_side trade) (t_quantity trade) (e_risk_manager e);
     let maker_side = (if t_taker_side trade = Buy then Sell else Buy);
     rm \<leftarrow> on_fill (t_symbol trade) (t_maker_participant_id trade) maker_side (t_quantity trade) rm;
     Some (e\<lparr>e_risk_manager := rm\<rparr>, if e_user_callback e then deliver trade w else w) })"

text \<open>A call into the book of a symbol, with the trades it reports settled by \<open>on_trade\<close>.\<close>

definition book_call :: "SymbolId \<Rightarrow> ('b \<Rightarrow> World \<Rightarrow> ('r \<times> 'b \<times> World) option) \<Rightarrow> 'b \<Rightarrow> 'b MatchingEngine \<Rightarrow> World
    \<Rightarrow> ('r \<times> 'b MatchingEngine \<times> World) option" where
  "book_call symb call b e w = do {
     (r, b, w') \<leftarrow> call b (w\<lparr>events := []\<rparr>);
     (e, w) \<leftarrow> foldM on_trade (events w') (e\<lparr>e_books := (e_books e)(symb \<mapsto> b)\<rparr>, w'\<lparr>events := events w\<rparr>);
     Some (r, e, w) }"

definition make_order :: "OrderId \<Rightarrow> Timestamp \<Rightarrow> OrderRequest \<Rightarrow> Order" where
  "make_order i receipt_time request = \<lparr>o_id = i, o_price = req_price request, o_quantity = req_quantity request,
     o_remaining_quantity = req_quantity request, o_timestamp = receipt_time, o_symbol = req_symbol request,
     o_participant_id = req_participant_id request, o_side = req_side request, o_type = req_type request,
     o_time_in_force = req_time_in_force request\<rparr>"

definition submit_order :: "('e, 'b) BookClass \<Rightarrow> OrderRequest \<Rightarrow> 'b MatchingEngine \<Rightarrow> World
    \<Rightarrow> (ExecutionReport \<times> 'b MatchingEngine \<times> World) option" where
  "submit_order C request e w =
     (case e_books e (req_symbol request) of
        None \<Rightarrow> Some (report (req_client_order_id request) Rejected 0 0 UnknownSymbol, e, w)
      | Some b \<Rightarrow> do {
          let (i, e) = (if req_client_order_id request \<noteq> kInvalidOrderId then (req_client_order_id request, e)
                        else (e_next_order_id e, e\<lparr>e_next_order_id := e_next_order_id e + 1\<rparr>));
          let (receipt_time, w) = now_ns w;
          (risk_reason, rm) \<leftarrow> check_new_order (req_symbol request) (req_participant_id request) (req_side request)
            (req_quantity request) receipt_time (e_risk_manager e);
          let e = e\<lparr>e_risk_manager := rm\<rparr>;
          if risk_reason \<noteq> NoReason then Some (report i Rejected 0 0 risk_reason, e, w)
          else book_call (req_symbol request) (bk_add C (make_order i receipt_time request)) b e w })"

definition cancel_order :: "('e, 'b) BookClass \<Rightarrow> SymbolId \<Rightarrow> OrderId \<Rightarrow> 'b MatchingEngine \<Rightarrow> (bool \<times> 'b MatchingEngine) option" where
  "cancel_order C symb i e =
     (case e_books e symb of
        None \<Rightarrow> Some (False, e)
      | Some b \<Rightarrow> do { (r, b) \<leftarrow> bk_cancel C i b; Some (r, e\<lparr>e_books := (e_books e)(symb \<mapsto> b)\<rparr>) })"

definition amend_order :: "('e, 'b) BookClass \<Rightarrow> SymbolId \<Rightarrow> OrderId \<Rightarrow> Quantity \<Rightarrow> Price option \<Rightarrow> 'b MatchingEngine \<Rightarrow> World
    \<Rightarrow> (ExecutionReport \<times> 'b MatchingEngine \<times> World) option" where
  "amend_order C symb i new_quantity new_price e w =
     (case e_books e symb of
        None \<Rightarrow> Some (report i Rejected 0 0 UnknownSymbol, e, w)
      | Some b \<Rightarrow> book_call symb (bk_amend C i new_quantity new_price) b e w)"

definition book :: "SymbolId \<Rightarrow> 'b MatchingEngine \<Rightarrow> 'b option" where
  "book symb e = e_books e symb"

definition engine_set_trade_callback :: "bool \<Rightarrow> 'b MatchingEngine \<Rightarrow> 'b MatchingEngine" where
  "engine_set_trade_callback cb e = e\<lparr>e_user_callback := cb\<rparr>"

definition set_risk_limits :: "SymbolId \<Rightarrow> ParticipantId \<Rightarrow> SymbolRiskLimits \<Rightarrow> 'b MatchingEngine \<Rightarrow> 'b MatchingEngine" where
  "set_risk_limits symb participant lim e = e\<lparr>e_risk_manager := set_limits symb participant lim (e_risk_manager e)\<rparr>"

section \<open>Sessions with an engine\<close>

datatype engine_op = Submit OrderRequest | CancelIn SymbolId OrderId | AmendIn SymbolId OrderId Quantity "Price option"
  | ResetSymbol SymbolId | SetLimits SymbolId ParticipantId SymbolRiskLimits

fun engine_step :: "('e, 'b) BookClass \<Rightarrow> engine_op \<Rightarrow> 'b MatchingEngine \<Rightarrow> World
    \<Rightarrow> (book_res \<times> 'b MatchingEngine \<times> World) option" where
  "engine_step C (Submit request) e w = do { (r, e, w) \<leftarrow> submit_order C request e w; Some (Report r, e, w) }"
| "engine_step C (CancelIn symb i) e w = do { (r, e) \<leftarrow> cancel_order C symb i e; Some (Done r, e, w) }"
| "engine_step C (AmendIn symb i q np) e w = do { (r, e, w) \<leftarrow> amend_order C symb i q np e w; Some (Report r, e, w) }"
| "engine_step C (ResetSymbol symb) e w = do { e \<leftarrow> reset_symbol C symb e; Some (Done True, e, w) }"
| "engine_step C (SetLimits symb p lim) e w = Some (Done True, set_risk_limits symb p lim e, w)"

fun engine_run :: "('e, 'b) BookClass \<Rightarrow> engine_op list \<Rightarrow> 'b MatchingEngine \<Rightarrow> World
    \<Rightarrow> (book_res list \<times> 'b MatchingEngine \<times> World) option" where
  "engine_run C [] e w = Some ([], e, w)"
| "engine_run C (x # xs) e w = do {
     (r, e, w) \<leftarrow> engine_step C x e w;
     (rs, e, w) \<leftarrow> engine_run C xs e w;
     Some (r # rs, e, w) }"

section \<open>Settlement\<close>

text \<open>What a list of trades adds to the position of a participant in a symbol.\<close>

definition trade_change :: "SymbolId \<Rightarrow> ParticipantId \<Rightarrow> Trade \<Rightarrow> int" where
  "trade_change s p t = (if t_symbol t = s
     then (if t_taker_participant_id t = p then signed_qty (t_taker_side t) (t_quantity t) else 0)
        - (if t_maker_participant_id t = p then signed_qty (t_taker_side t) (t_quantity t) else 0) else 0)"

definition net_change :: "SymbolId \<Rightarrow> ParticipantId \<Rightarrow> Trade list \<Rightarrow> int" where
  "net_change s p ts = (\<Sum>t\<leftarrow>ts. trade_change s p t)"

lemma signed_qty_opposite: "signed_qty (if s = Buy then Sell else Buy) q = - signed_qty s q"
  by (simp add: signed_qty_def)

lemma on_trade_effect:
  assumes "on_trade t (e, w) = Some (e', w')"
  shows "position s p (e_risk_manager e') = position s p (e_risk_manager e) + trade_change s p t"
    "total_position s (e_risk_manager e') = total_position s (e_risk_manager e)"
    "limits_for s p (e_risk_manager e') = limits_for s p (e_risk_manager e)"
    "e_books e' = e_books e" "e_next_order_id e' = e_next_order_id e" "e_user_callback e' = e_user_callback e"
    "w' = (if e_user_callback e then deliver t w else w)"
proof -
  let ?m = "if t_taker_side t = Buy then Sell else Buy"
  obtain rm1 rm2 where f: "on_fill (t_symbol t) (t_taker_participant_id t) (t_taker_side t) (t_quantity t) (e_risk_manager e) = Some rm1"
    "on_fill (t_symbol t) (t_maker_participant_id t) ?m (t_quantity t) rm1 = Some rm2" "e' = e\<lparr>e_risk_manager := rm2\<rparr>"
    and w: "w' = (if e_user_callback e then deliver t w else w)"
    using assms by (auto simp: on_trade_def Let_def bind_eq_Some_conv)
  note eff = on_fill_effect [OF f(1)] on_fill_effect [OF f(2)] and tot = on_fill_total_position [OF f(1)] on_fill_total_position [OF f(2)]
  show "position s p (e_risk_manager e') = position s p (e_risk_manager e) + trade_change s p t"
    using eff(1,3) f(3) by (simp add: trade_change_def signed_qty_opposite)
  show "total_position s (e_risk_manager e') = total_position s (e_risk_manager e)"
    using tot f(3) by (simp add: signed_qty_opposite)
  show "limits_for s p (e_risk_manager e') = limits_for s p (e_risk_manager e)" using eff(2,4) f(3) by simp
  show "e_books e' = e_books e" "e_next_order_id e' = e_next_order_id e" "e_user_callback e' = e_user_callback e"
    "w' = (if e_user_callback e then deliver t w else w)" using f(3) w by simp_all
qed

lemma settle_trades:
  assumes "foldM on_trade ts (e, w) = Some (e', w')"
  shows "position s p (e_risk_manager e') = position s p (e_risk_manager e) + net_change s p ts
    \<and> total_position s (e_risk_manager e') = total_position s (e_risk_manager e)
    \<and> limits_for s p (e_risk_manager e') = limits_for s p (e_risk_manager e)
    \<and> e_books e' = e_books e \<and> e_next_order_id e' = e_next_order_id e \<and> e_user_callback e' = e_user_callback e
    \<and> w' = (if e_user_callback e then w\<lparr>events := events w @ ts\<rparr> else w)"
  using assms
proof (induction ts arbitrary: e w)
  case Nil
  then show ?case by (simp add: net_change_def)
next
  case (Cons t ts)
  obtain e1 w1 where step: "on_trade t (e, w) = Some (e1, w1)" "foldM on_trade ts (e1, w1) = Some (e', w')"
    using Cons.prems by (auto simp: bind_eq_Some_conv)
  show ?case using Cons.IH [OF step(2)] on_trade_effect [OF step(1)] by (simp add: net_change_def deliver_def)
qed

lemma book_call_effect:
  assumes "book_call symb call b e w = Some (r, e', w')"
  obtains b' w1 where "call b (w\<lparr>events := []\<rparr>) = Some (r, b', w1)" "e_books e' = (e_books e)(symb \<mapsto> b')"
    "\<forall>s p. position s p (e_risk_manager e') = position s p (e_risk_manager e) + net_change s p (events w1)"
    "\<forall>s. total_position s (e_risk_manager e') = total_position s (e_risk_manager e)"
    "\<forall>s p. limits_for s p (e_risk_manager e') = limits_for s p (e_risk_manager e)"
    "e_user_callback e' = e_user_callback e"
    "w' = w1\<lparr>events := (if e_user_callback e then events w @ events w1 else events w)\<rparr>"
proof -
  obtain b' w1 where c: "call b (w\<lparr>events := []\<rparr>) = Some (r, b', w1)"
    "foldM on_trade (events w1) (e\<lparr>e_books := (e_books e)(symb \<mapsto> b')\<rparr>, w1\<lparr>events := events w\<rparr>) = Some (e', w')"
    using assms by (auto simp: book_call_def bind_eq_Some_conv)
  show thesis by (rule that [OF c(1)]) (use settle_trades [OF c(2)] in auto)
qed

text \<open>A request the risk manager refuses, or for an unknown symbol, never reaches a book.\<close>

lemma submit_order_cases:
  assumes "submit_order C req e w = Some (r, e', w')"
  obtains (unknown) "e_books e (req_symbol req) = None" "r = report (req_client_order_id req) Rejected 0 0 UnknownSymbol" "e' = e" "w' = w"
  | (known) b rm reason i ts e1 w1 where "e_books e (req_symbol req) = Some b" "(ts, w1) = now_ns w"
      "i = (if req_client_order_id req \<noteq> 0 then req_client_order_id req else e_next_order_id e)"
      "check_new_order (req_symbol req) (req_participant_id req) (req_side req) (req_quantity req) ts (e_risk_manager e) = Some (reason, rm)"
      "e1 = e\<lparr>e_next_order_id := (if req_client_order_id req \<noteq> 0 then e_next_order_id e else e_next_order_id e + 1), e_risk_manager := rm\<rparr>"
      "(if reason \<noteq> NoReason then Some (report i Rejected 0 0 reason, e1, w1)
        else book_call (req_symbol req) (bk_add C (make_order i ts req)) b e1 w1) = Some (r, e', w')"
proof (cases "e_books e (req_symbol req)")
  case None
  then show thesis using unknown assms by (simp add: submit_order_def)
next
  case (Some b)
  obtain ts w1 where now: "(ts, w1) = now_ns w" by (metis surj_pair)
  let ?i = "if req_client_order_id req \<noteq> 0 then req_client_order_id req else e_next_order_id e"
  let ?n = "if req_client_order_id req \<noteq> 0 then e_next_order_id e else e_next_order_id e + 1"
  have eq: "submit_order C req e w = do {
      (reason, rm) \<leftarrow> check_new_order (req_symbol req) (req_participant_id req) (req_side req) (req_quantity req) ts (e_risk_manager e);
      if reason \<noteq> NoReason then Some (report ?i Rejected 0 0 reason, e\<lparr>e_next_order_id := ?n, e_risk_manager := rm\<rparr>, w1)
      else book_call (req_symbol req) (bk_add C (make_order ?i ts req)) b (e\<lparr>e_next_order_id := ?n, e_risk_manager := rm\<rparr>) w1 }"
    using Some now [symmetric] by (auto simp: submit_order_def Let_def intro!: Option.bind_cong split: prod.splits)
  obtain reason rm where chk: "check_new_order (req_symbol req) (req_participant_id req) (req_side req) (req_quantity req) ts
      (e_risk_manager e) = Some (reason, rm)"
    using assms unfolding eq bind_eq_Some_conv by force
  show thesis using assms unfolding eq chk by (intro known [OF Some now refl chk refl]) simp
qed

text \<open>No operation of the engine changes the sum of the positions in a symbol.\<close>

lemma check_total_position: "check_new_order s p side q now rm = Some (r, rm') \<Longrightarrow> total_position s' rm' = total_position s' rm"
  by (simp add: total_position_def check_keeps(1))

lemma engine_step_total:
  assumes "engine_step C x e w = Some (r, e', w')"
  shows "total_position s (e_risk_manager e') = total_position s (e_risk_manager e)"
proof (cases x)
  case (Submit req)
  then obtain r0 where "submit_order C req e w = Some (r0, e', w')" using assms by (auto simp: bind_eq_Some_conv)
  then show ?thesis
  proof (cases rule: submit_order_cases)
    case (known b rm reason i ts e1 w1)
    then have "total_position s (e_risk_manager e1) = total_position s (e_risk_manager e)" using check_total_position by simp
    then show ?thesis using known(6) by (auto split: if_splits elim: book_call_effect)
  qed simp
next
  case (AmendIn symb i q np)
  then show ?thesis using assms
    by (auto simp: amend_order_def bind_eq_Some_conv split: option.splits elim!: book_call_effect)
next
  case (SetLimits symb p lim)
  then show ?thesis using assms by (auto simp: set_risk_limits_def total_position_def set_limits_effect)
qed (use assms in \<open>auto simp: cancel_order_def reset_symbol_def bind_eq_Some_conv split: option.splits\<close>)

lemma engine_run_total:
  "engine_run C xs e w = Some (rs, e', w') \<Longrightarrow> total_position s (e_risk_manager e') = total_position s (e_risk_manager e)"
proof (induction xs arbitrary: e w rs)
  case (Cons x xs)
  then show ?case by (auto simp: bind_eq_Some_conv dest!: engine_step_total [where s = s])
qed simp

section \<open>The engine over an abstract book\<close>

record SpecBook =
  sb_book :: ABook
  sb_accepts :: "Price \<Rightarrow> bool"
  sb_stp :: SelfTradePrevention
  sb_callback :: bool
  sb_symbol :: SymbolId

text \<open>\<open>accepts\<close> is the constructor's part that differs between the books: the range check and its errors.\<close>

definition spec_class :: "(Price \<Rightarrow> Price \<Rightarrow> 'e + (Price \<Rightarrow> bool)) \<Rightarrow> ('e, SpecBook) BookClass" where
  "spec_class accepts = \<lparr>
     bk_new = (\<lambda>symb mn mx hint stp. case accepts mn mx of Inl err \<Rightarrow> Inl err
       | Inr rng \<Rightarrow> Inr \<lparr>sb_book = empty_abook, sb_accepts = rng, sb_stp = stp, sb_callback = False, sb_symbol = symb\<rparr>),
     bk_add = (\<lambda>ord B w. case spec_add (sb_accepts B) (sb_stp B) (sb_callback B) (sb_symbol B) ord (sb_book B) w of
       (r, A, w) \<Rightarrow> Some (r, B\<lparr>sb_book := A\<rparr>, w)),
     bk_cancel = (\<lambda>i B. case spec_cancel i (sb_book B) of (r, A) \<Rightarrow> Some (r, B\<lparr>sb_book := A\<rparr>)),
     bk_amend = (\<lambda>i q np B w. case spec_amend (sb_accepts B) (sb_stp B) (sb_callback B) (sb_symbol B) i q np (sb_book B) w of
       (r, A, w) \<Rightarrow> Some (r, B\<lparr>sb_book := A\<rparr>, w)),
     bk_reset = (\<lambda>B. Some (B\<lparr>sb_book := empty_abook\<rparr>)),
     bk_set_callback = (\<lambda>cb B. B\<lparr>sb_callback := cb\<rparr>)\<rparr>"

text \<open>The inputs for which the books promise anything: well-typed orders with ids, and no side above \<open>int64_t\<close>.\<close>

definition submit_allowed :: "OrderRequest \<Rightarrow> SpecBook MatchingEngine \<Rightarrow> World \<Rightarrow> bool" where
  "submit_allowed req S w = (case e_books S (req_symbol req) of None \<Rightarrow> True
     | Some B \<Rightarrow> admissible (make_order (if req_client_order_id req \<noteq> kInvalidOrderId then req_client_order_id req else e_next_order_id S)
         (fst (now_ns w)) req) (sb_book B))"

fun step_allowed :: "engine_op \<Rightarrow> SpecBook MatchingEngine \<Rightarrow> World \<Rightarrow> bool" where
  "step_allowed (Submit req) S w = submit_allowed req S w"
| "step_allowed (AmendIn symb i q np) S w =
     (case e_books S symb of None \<Rightarrow> True | Some B \<Rightarrow> amend_admissible i q np (sb_book B))"
| "step_allowed _ S w = True"

fun session_allowed :: "('e, SpecBook) BookClass \<Rightarrow> engine_op list \<Rightarrow> SpecBook MatchingEngine \<Rightarrow> World \<Rightarrow> bool" where
  "session_allowed C [] S w = True"
| "session_allowed C (x # xs) S w = (step_allowed x S w \<and>
     (case engine_step C x S w of None \<Rightarrow> False | Some (r, S, w) \<Rightarrow> session_allowed C xs S w))"

section \<open>Position limits\<close>

text \<open>The trades of one added order: its participant is the taker, and the quantities add up to what it got.\<close>

definition taken_by :: "Order \<Rightarrow> SymbolId \<Rightarrow> Trade list \<Rightarrow> bool" where
  "taken_by ord symb ts \<longleftrightarrow> (\<forall>t \<in> set ts. t_symbol t = symb \<and> t_taker_participant_id t = o_participant_id ord
     \<and> t_taker_side t = o_side ord \<and> 0 < t_quantity t) \<and> (\<Sum>t\<leftarrow>ts. t_quantity t) \<le> max 0 (o_quantity ord)"

lemma trades_of_taken:
  assumes "\<forall>f \<in> set fs. 0 < snd f"
  shows "\<forall>t \<in> set (trades_of symb t0 fs w). t_symbol t = symb \<and> t_taker_participant_id t = o_participant_id t0
      \<and> t_taker_side t = o_side t0 \<and> 0 < t_quantity t"
    "(\<Sum>t\<leftarrow>trades_of symb t0 fs w. t_quantity t) = (\<Sum>f\<leftarrow>fs. snd f)"
proof -
  show "\<forall>t \<in> set (trades_of symb t0 fs w). t_symbol t = symb \<and> t_taker_participant_id t = o_participant_id t0
      \<and> t_taker_side t = o_side t0 \<and> 0 < t_quantity t"
  proof
    fix t assume "t \<in> set (trades_of symb t0 fs w)"
    then obtain i m q where "t = mk_trade symb t0 m (o_price m) q (clock w i)" "(m, q) \<in> set fs" by (rule trades_of_member)
    then show "t_symbol t = symb \<and> t_taker_participant_id t = o_participant_id t0 \<and> t_taker_side t = o_side t0 \<and> 0 < t_quantity t"
      using assms by (auto simp: mk_trade_def)
  qed
  have "map t_quantity (trades_of symb t0 fs w) = map snd fs"
    by (rule nth_equalityI) (auto simp: trades_of_def mk_trade_def nth_enumerate_eq split_def)
  then show "(\<Sum>t\<leftarrow>trades_of symb t0 fs w. t_quantity t) = (\<Sum>f\<leftarrow>fs. snd f)" by simp
qed

lemma spec_add_taken:
  assumes "spec_add rng stp cb symb ord A w = (r, A', w')" "abook_ok A" "events w = []"
  shows "taken_by ord symb (events w')"
proof (cases "w' = w")
  case True
  then show ?thesis using assms(3) by (simp add: taken_by_def)
next
  case False
  let ?t0 = "ord\<lparr>o_remaining_quantity := o_quantity ord\<rparr>"
  obtain k t ms fs where walk: "spec_match stp ?t0 (side_of (opposite (o_side ord)) A) = (k, t, ms, fs)" by (metis prod_cases4)
  have pos: "\<forall>m \<in> set (side_of (opposite (o_side ord)) A). 0 < rq m"
    by (rule resting_ok_rq [OF abook_okD(1) [OF assms(2)]])
  have q: "0 < o_quantity ord" and w': "w' = emit_fills cb symb ?t0 fs w"
    using assms(1) False walk by (auto simp: spec_add_def spec_execute_def Let_def split: if_splits)
  have ev: "events w' = (if cb then trades_of symb ?t0 fs w else [])" using assms(3) w' by (simp add: emit_fills_world)
  have fills: "\<forall>f \<in> set fs. 0 < snd f" using spec_match_bounds [OF walk _ pos] q by simp
  have "(\<Sum>f\<leftarrow>fs. snd f) \<le> o_quantity ord" using spec_match_conserves [OF walk] spec_match_bounds [OF walk _ pos] q by simp
  then show ?thesis using trades_of_taken [OF fills, of symb ?t0 w] ev q by (simp add: taken_by_def)
qed

lemma net_change_taker:
  assumes "\<forall>t \<in> set ts. t_symbol t = s \<and> t_taker_participant_id t = p \<and> t_taker_side t = sd \<and> 0 < t_quantity t"
  shows "\<exists>k. 0 \<le> k \<and> k \<le> (\<Sum>t\<leftarrow>ts. t_quantity t) \<and> net_change s p ts = signed_qty sd k"
  using assms
proof (induction ts)
  case Nil
  then show ?case by (simp add: net_change_def signed_qty_def)
next
  case (Cons t ts)
  obtain k where "0 \<le> k" "k \<le> (\<Sum>t\<leftarrow>ts. t_quantity t)" "net_change s p ts = signed_qty sd k" using Cons by auto
  then show ?case using Cons.prems
    by (intro exI [of _ "if t_maker_participant_id t = p then k else k + t_quantity t"])
      (auto simp: net_change_def trade_change_def signed_qty_def)
qed

lemma taken_change:
  assumes "taken_by ord s ts"
  obtains k where "0 \<le> k" "k \<le> max 0 (o_quantity ord)" "net_change s (o_participant_id ord) ts = signed_qty (o_side ord) k"
  using net_change_taker [of ts s "o_participant_id ord" "o_side ord"] assms by (fastforce simp: taken_by_def)

lemma between_within: "\<bar>pos\<bar> \<le> m \<Longrightarrow> \<bar>pos + signed_qty sd q\<bar> \<le> m \<Longrightarrow> 0 \<le> k \<Longrightarrow> k \<le> max 0 q \<Longrightarrow> \<bar>pos + signed_qty sd k\<bar> \<le> m"
  by (auto simp: signed_qty_def split: if_splits)

lemma check_position:
  assumes "check_new_order s p side q now rm = Some (NoReason, rm')" "rm (pack_key s p) = Some st"
  shows "\<bar>position s p rm + signed_qty side q\<bar> \<le> max_position (limits_for s p rm)"
  using assms
  by (auto simp: check_new_order_def position_def limits_for_def signed_qty_def Let_def bind_eq_Some_conv split: if_splits)

text \<open>
  The position of the submitting participant after its order moved by what the order took, at most its quantity and
  in the order's direction, and with it a participant inside its limit stays inside.
\<close>

definition position_moved :: "OrderRequest \<Rightarrow> RiskManager \<Rightarrow> RiskManager \<Rightarrow> bool" where
  "position_moved req rm rm' \<longleftrightarrow> (\<exists>k. 0 \<le> k \<and> k \<le> max 0 (req_quantity req) \<and>
     position (req_symbol req) (req_participant_id req) rm' = position (req_symbol req) (req_participant_id req) rm + signed_qty (req_side req) k)
   \<and> limits_for (req_symbol req) (req_participant_id req) rm' = limits_for (req_symbol req) (req_participant_id req) rm"

definition within_limit :: "SymbolId \<Rightarrow> ParticipantId \<Rightarrow> RiskManager \<Rightarrow> bool" where
  "within_limit s p rm \<longleftrightarrow> \<bar>position s p rm\<bar> \<le> max_position (limits_for s p rm)"

lemma position_unmoved:
  assumes "position (req_symbol req) (req_participant_id req) rm' = position (req_symbol req) (req_participant_id req) rm"
    "limits_for (req_symbol req) (req_participant_id req) rm' = limits_for (req_symbol req) (req_participant_id req) rm"
  shows "position_moved req rm rm'"
  using assms by (auto simp: position_moved_def signed_qty_def intro!: exI [of _ 0])

lemma submit_within_limit:
  assumes run: "submit_order C req e w = Some (r, e', w')"
    and st: "e_risk_manager e (pack_key (req_symbol req) (req_participant_id req)) = Some st"
    and lim: "within_limit (req_symbol req) (req_participant_id req) (e_risk_manager e)"
    and tk: "\<And>b i ts r b' w1 w2. e_books e (req_symbol req) = Some b \<Longrightarrow> events w1 = [] \<Longrightarrow>
      bk_add C (make_order i ts req) b w1 = Some (r, b', w2) \<Longrightarrow> taken_by (make_order i ts req) (req_symbol req) (events w2)"
  shows "position_moved req (e_risk_manager e) (e_risk_manager e') \<and> within_limit (req_symbol req) (req_participant_id req) (e_risk_manager e')"
  using run
proof (cases rule: submit_order_cases)
  case unknown
  then show ?thesis using lim position_unmoved by simp
next
  case (known b rm reason i ts e1 w1)
  let ?s = "req_symbol req" and ?p = "req_participant_id req"
  note keep = check_keeps(1,2) [OF known(4)]
  show ?thesis
  proof (cases "reason = NoReason")
    case False
    then show ?thesis using known(5,6) lim keep by (auto simp: position_unmoved within_limit_def)
  next
    case True
    let ?o = "make_order i ts req"
    have ord: "o_side ?o = req_side req" "o_quantity ?o = req_quantity req" "o_participant_id ?o = ?p" by (simp_all add: make_order_def)
    have call: "book_call ?s (bk_add C ?o) b e1 w1 = Some (r, e', w')" using known(6) True by simp
    obtain b' w2 where w2: "bk_add C ?o b (w1\<lparr>events := []\<rparr>) = Some (r, b', w2)" "e_books e' = (e_books e1)(?s \<mapsto> b')"
      "\<forall>s p. position s p (e_risk_manager e') = position s p (e_risk_manager e1) + net_change s p (events w2)"
      "\<forall>s. total_position s (e_risk_manager e') = total_position s (e_risk_manager e1)"
      "\<forall>s p. limits_for s p (e_risk_manager e') = limits_for s p (e_risk_manager e1)"
      by (rule book_call_effect [OF call]) blast
    have "taken_by ?o ?s (events w2)" by (rule tk [OF known(1) _ w2(1)]) simp
    then obtain k where k: "0 \<le> k" "k \<le> max 0 (req_quantity req)" "net_change ?s ?p (events w2) = signed_qty (req_side req) k"
      unfolding ord [symmetric] by (rule taken_change)
    have pos: "position ?s ?p (e_risk_manager e') = position ?s ?p (e_risk_manager e) + signed_qty (req_side req) k"
      "limits_for ?s ?p (e_risk_manager e') = limits_for ?s ?p (e_risk_manager e)"
      using w2(3,5) k(3) keep known(5) by simp_all
    then show ?thesis
      using between_within [OF lim [unfolded within_limit_def] check_position [OF known(4) [unfolded True] st] k(1,2)] k(1,2)
      by (auto simp: position_moved_def within_limit_def)
  qed
qed

section \<open>What the engine relies on\<close>

text \<open>Settlement reads and writes the risk state only.\<close>

lemma settle_cong:
  assumes "foldM on_trade ts (S, w) = Some (S', w')" "e_risk_manager e = e_risk_manager S" "e_user_callback e = e_user_callback S"
  shows "foldM on_trade ts (e, w) = Some (e\<lparr>e_risk_manager := e_risk_manager S'\<rparr>, w') \<and> S' = S\<lparr>e_risk_manager := e_risk_manager S'\<rparr>"
  using assms
proof (induction ts arbitrary: S e w)
  case Nil
  then show ?case by simp
next
  case (Cons t ts)
  obtain S1 w1 where S1: "on_trade t (S, w) = Some (S1, w1)" "foldM on_trade ts (S1, w1) = Some (S', w')"
    using Cons.prems(1) by (auto simp: bind_eq_Some_conv)
  have e1: "on_trade t (e, w) = Some (e\<lparr>e_risk_manager := e_risk_manager S1\<rparr>, w1)" "S1 = S\<lparr>e_risk_manager := e_risk_manager S1\<rparr>"
    using S1(1) Cons.prems(2,3) by (auto simp: on_trade_def Let_def bind_eq_Some_conv)
  have "e_user_callback S1 = e_user_callback S" using e1(2) by (metis MatchingEngine.select_convs(4) MatchingEngine.surjective MatchingEngine.update_convs(2))
  then show ?case
    using Cons.IH [OF S1(2), of "e\<lparr>e_risk_manager := e_risk_manager S1\<rparr>"] e1 Cons.prems(3) by (metis (no_types, lifting) foldM.simps(2)
        Option.bind.bind_lunit MatchingEngine.select_convs(2,4) MatchingEngine.surjective MatchingEngine.update_convs(2))
qed

locale engine_book = order_book inv abs rng stp cb symb slots "bk_add C" "bk_cancel C" "bk_amend C"
  for inv :: "'b \<Rightarrow> bool" and abs :: "'b \<Rightarrow> ABook" and rng :: "'b \<Rightarrow> Price \<Rightarrow> bool" and stp :: "'b \<Rightarrow> SelfTradePrevention"
    and cb :: "'b \<Rightarrow> bool" and symb :: "'b \<Rightarrow> SymbolId" and slots :: "'b \<Rightarrow> nat" and C :: "('e, 'b) BookClass" +
  fixes accepts :: "Price \<Rightarrow> Price \<Rightarrow> 'e + (Price \<Rightarrow> bool)"
  assumes new_refused: "accepts mn mx = Inl err \<Longrightarrow> bk_new C s mn mx h p = Inl err"
    and new_law: "accepts mn mx = Inr R \<Longrightarrow> mx \<le> i64_max \<Longrightarrow> \<exists>b. bk_new C s mn mx h p = Inr b \<and> inv b \<and> abs b = empty_abook
      \<and> rng b = R \<and> stp b = p \<and> cb b = False \<and> symb b = s \<and> slots b = 0"
    and reset_law: "inv b \<Longrightarrow> \<exists>b'. bk_reset C b = Some b' \<and> inv b' \<and> abs b' = empty_abook \<and> rng b' = rng b \<and> stp b' = stp b
      \<and> cb b' = cb b \<and> symb b' = symb b \<and> slots b' \<le> slots b"
    and callback_law: "inv b \<Longrightarrow> inv (bk_set_callback C v b) \<and> abs (bk_set_callback C v b) = abs b \<and> rng (bk_set_callback C v b) = rng b
      \<and> stp (bk_set_callback C v b) = stp b \<and> cb (bk_set_callback C v b) = v \<and> symb (bk_set_callback C v b) = symb b
      \<and> slots (bk_set_callback C v b) = slots b"
begin

definition sb :: "'b \<Rightarrow> SpecBook" where
  "sb b = \<lparr>sb_book = abs b, sb_accepts = rng b, sb_stp = stp b, sb_callback = cb b, sb_symbol = symb b\<rparr>"

text \<open>Every book of the engine is well-formed and the abstract engine holds what it stands for.\<close>

definition sim :: "nat \<Rightarrow> 'b MatchingEngine \<Rightarrow> SpecBook MatchingEngine \<Rightarrow> bool" where
  "sim n e S \<longleftrightarrow> e_books S = map_option sb \<circ> e_books e \<and> (\<forall>s b. e_books e s = Some b \<longrightarrow> inv b \<and> slots b \<le> n)
     \<and> e_risk_manager e = e_risk_manager S \<and> e_next_order_id e = e_next_order_id S \<and> e_user_callback e = e_user_callback S"

abbreviation A where "A \<equiv> spec_class accepts"

lemma sim_book:
  assumes "sim n e S" "e_books S s = Some B"
  obtains b where "e_books e s = Some b" "inv b" "slots b \<le> n" "B = sb b"
  using assms by (auto simp: sim_def)

lemma sim_none: "sim n e S \<Longrightarrow> e_books S s = None \<longleftrightarrow> e_books e s = None"
  by (auto simp: sim_def)

lemma sim_upd:
  assumes "sim n e S" "inv b" "slots b \<le> n'" "n \<le> n'"
  shows "sim n' (e\<lparr>e_books := (e_books e)(s \<mapsto> b)\<rparr>) (S\<lparr>e_books := (e_books S)(s \<mapsto> sb b)\<rparr>)"
  using assms by (auto simp: sim_def fun_eq_iff intro: order_trans)

lemma sim_mono: "sim n e S \<Longrightarrow> n \<le> n' \<Longrightarrow> sim n' e S"
  by (auto simp: sim_def intro: order_trans)

lemma add_sim:
  assumes "inv b" "admissible ord (abs b)" "slots b < unat kNullIndex" "bk_add A ord (sb b) w = Some (r, B', w')"
  shows "\<exists>b'. bk_add C ord b w = Some (r, b', w') \<and> inv b' \<and> sb b' = B' \<and> slots b' \<le> Suc (slots b)"
proof -
  obtain A' where sp: "spec_add (rng b) (stp b) (cb b) (symb b) ord (abs b) w = (r, A', w')" "B' = (sb b)\<lparr>sb_book := A'\<rparr>"
    using assms(4) by (auto simp: spec_class_def sb_def split: prod.splits)
  have "\<exists>b'. run_op (bk_add C) (bk_cancel C) (bk_amend C) (Add ord) b w = Some (Report r, b', w') \<and> inv b' \<and> abs b' = A' \<and> rng b' = rng b
      \<and> stp b' = stp b \<and> cb b' = cb b \<and> symb b' = symb b \<and> slots b' \<le> Suc (slots b)"
    by (rule op_law [OF assms(1) _ assms(3)]) (use assms(2) sp(1) in simp_all)
  then show ?thesis using sp(2) by (auto simp: sb_def bind_eq_Some_conv)
qed

lemma amend_sim:
  assumes "inv b" "amend_admissible i q np (abs b)" "slots b < unat kNullIndex" "bk_amend A i q np (sb b) w = Some (r, B', w')"
  shows "\<exists>b'. bk_amend C i q np b w = Some (r, b', w') \<and> inv b' \<and> sb b' = B' \<and> slots b' \<le> Suc (slots b)"
proof -
  obtain A' where sp: "spec_amend (rng b) (stp b) (cb b) (symb b) i q np (abs b) w = (r, A', w')" "B' = (sb b)\<lparr>sb_book := A'\<rparr>"
    using assms(4) by (auto simp: spec_class_def sb_def split: prod.splits)
  have "\<exists>b'. run_op (bk_add C) (bk_cancel C) (bk_amend C) (Amend i q np) b w = Some (Report r, b', w') \<and> inv b' \<and> abs b' = A' \<and> rng b' = rng b
      \<and> stp b' = stp b \<and> cb b' = cb b \<and> symb b' = symb b \<and> slots b' \<le> Suc (slots b)"
    by (rule op_law [OF assms(1) _ assms(3)]) (use assms(2) sp(1) in simp_all)
  then show ?thesis using sp(2) by (auto simp: sb_def bind_eq_Some_conv)
qed

lemma cancel_sim:
  assumes "inv b" "slots b < unat kNullIndex" "bk_cancel A i (sb b) = Some (r, B')"
  shows "\<exists>b'. bk_cancel C i b = Some (r, b') \<and> inv b' \<and> sb b' = B' \<and> slots b' \<le> Suc (slots b)"
proof -
  fix w
  obtain A' where sp: "spec_cancel i (abs b) = (r, A')" "B' = (sb b)\<lparr>sb_book := A'\<rparr>"
    using assms(3) by (auto simp: spec_class_def sb_def split: prod.splits)
  have "\<exists>b'. run_op (bk_add C) (bk_cancel C) (bk_amend C) (Cancel i) b w = Some (Done r, b', w) \<and> inv b' \<and> abs b' = A' \<and> rng b' = rng b
      \<and> stp b' = stp b \<and> cb b' = cb b \<and> symb b' = symb b \<and> slots b' \<le> Suc (slots b)"
    by (rule op_law [OF assms(1) _ assms(2)]) (use sp(1) in simp_all)
  then show ?thesis using sp(2) by (auto simp: sb_def bind_eq_Some_conv)
qed

lemma book_call_sim:
  assumes sim: "sim n e S" and run: "book_call s specall (sb b) S w = Some (r, S', w')"
    and sim_call: "\<And>w B' w'. specall (sb b) w = Some (r, B', w') \<Longrightarrow> \<exists>b'. call b w = Some (r, b', w') \<and> inv b' \<and> sb b' = B' \<and> slots b' \<le> Suc n"
  shows "\<exists>e'. book_call s call b e w = Some (r, e', w') \<and> sim (Suc n) e' S'"
proof -
  obtain B' w1 where S1: "specall (sb b) (w\<lparr>events := []\<rparr>) = Some (r, B', w1)"
    "foldM on_trade (events w1) (S\<lparr>e_books := (e_books S)(s \<mapsto> B')\<rparr>, w1\<lparr>events := events w\<rparr>) = Some (S', w')"
    using run by (auto simp: book_call_def bind_eq_Some_conv)
  obtain b' where b': "call b (w\<lparr>events := []\<rparr>) = Some (r, b', w1)" "inv b'" "sb b' = B'" "slots b' \<le> Suc n"
    using sim_call [OF S1(1)] by blast
  let ?e = "e\<lparr>e_books := (e_books e)(s \<mapsto> b')\<rparr>" and ?S = "S\<lparr>e_books := (e_books S)(s \<mapsto> B')\<rparr>"
  have up: "sim (Suc n) ?e ?S" using sim_upd [OF sim b'(2,4)] b'(3) by simp
  then have "foldM on_trade (events w1) (?e, w1\<lparr>events := events w\<rparr>) = Some (?e\<lparr>e_risk_manager := e_risk_manager S'\<rparr>, w')
      \<and> S' = ?S\<lparr>e_risk_manager := e_risk_manager S'\<rparr>"
    by (intro settle_cong [OF S1(2)]) (simp_all add: sim_def)
  moreover from this up have "sim (Suc n) (?e\<lparr>e_risk_manager := e_risk_manager S'\<rparr>) S'" unfolding sim_def by (metis (no_types, lifting)
      MatchingEngine.select_convs MatchingEngine.surjective MatchingEngine.update_convs(2))
  ultimately show ?thesis using b'(1) by (auto simp: book_call_def)
qed

lemma submit_sim:
  assumes sim: "sim n e S" and al: "submit_allowed req S w" and room: "n < unat kNullIndex"
    and run: "submit_order A req S w = Some (r, S', w')"
  shows "\<exists>e'. submit_order C req e w = Some (r, e', w') \<and> sim (Suc n) e' S'"
  using run
proof (cases rule: submit_order_cases)
  case unknown
  then show ?thesis using sim_none [OF sim, of "req_symbol req"] sim_mono [OF sim, of "Suc n"] by (simp add: submit_order_def)
next
  case (known B rm reason i ts S1 w1)
  obtain b where b: "e_books e (req_symbol req) = Some b" "inv b" "slots b \<le> n" "B = sb b" by (rule sim_book [OF sim known(1)])
  let ?i = "if req_client_order_id req \<noteq> 0 then req_client_order_id req else e_next_order_id e"
  let ?n = "if req_client_order_id req \<noteq> 0 then e_next_order_id e else e_next_order_id e + 1"
  let ?e = "e\<lparr>e_next_order_id := ?n, e_risk_manager := rm\<rparr>"
  have i: "i = ?i" using known(3) sim by (simp add: sim_def)
  have s1: "sim n ?e S1" using sim known(5) by (simp add: sim_def)
  have "check_new_order (req_symbol req) (req_participant_id req) (req_side req) (req_quantity req) ts (e_risk_manager e) = Some (reason, rm)"
    using known(4) sim by (simp add: sim_def)
  then have run: "submit_order C req e w = (if reason \<noteq> NoReason then Some (report i Rejected 0 0 reason, ?e, w1)
      else book_call (req_symbol req) (bk_add C (make_order i ts req)) b ?e w1)"
    using b(1) known(2) [symmetric] i by (auto simp: submit_order_def Let_def)
  show ?thesis
  proof (cases "reason = NoReason")
    case False
    then show ?thesis using run known(6) sim_mono [OF s1, of "Suc n"] by auto
  next
    case True
    have adm: "admissible (make_order i ts req) (abs b)"
      using al known(1,3) b(4) fst_conv [of ts w1] unfolding known(2) by (simp add: submit_allowed_def sb_def)
    have "book_call (req_symbol req) (bk_add A (make_order i ts req)) (sb b) S1 w1 = Some (r, S', w')" using True known(6) b(4) by simp
    then have "\<exists>e'. book_call (req_symbol req) (bk_add C (make_order i ts req)) b ?e w1 = Some (r, e', w') \<and> sim (Suc n) e' S'"
    proof (rule book_call_sim [OF s1])
      fix v B' v' assume "bk_add A (make_order i ts req) (sb b) v = Some (r, B', v')"
      from add_sim [OF b(2) adm _ this] b(3) room
      show "\<exists>b'. bk_add C (make_order i ts req) b v = Some (r, b', v') \<and> inv b' \<and> sb b' = B' \<and> slots b' \<le> Suc n" by force
    qed
    then show ?thesis using run True by simp
  qed
qed

lemma cancel_order_sim:
  assumes sim: "sim n e S" and room: "n < unat kNullIndex" and run: "cancel_order A s i S = Some (d, S')"
  shows "\<exists>e'. cancel_order C s i e = Some (d, e') \<and> sim (Suc n) e' S'"
proof (cases "e_books S s")
  case None
  then have "e_books e s = None" using sim_none [OF sim] by simp
  then show ?thesis using None run sim_mono [OF sim, of "Suc n"] by (auto simp: cancel_order_def)
next
  case (Some B)
  obtain b where b: "e_books e s = Some b" "inv b" "slots b \<le> n" "B = sb b" by (rule sim_book [OF sim Some])
  obtain B' where B': "bk_cancel A i (sb b) = Some (d, B')" "S' = S\<lparr>e_books := (e_books S)(s \<mapsto> B')\<rparr>"
    using run Some b(4) by (auto simp: cancel_order_def bind_eq_Some_conv)
  obtain b' where "bk_cancel C i b = Some (d, b')" "inv b'" "sb b' = B'" "slots b' \<le> Suc n"
    using cancel_sim [OF b(2) _ B'(1)] b(3) room by fastforce
  then show ?thesis using B' b(1) sim_upd [OF sim, of b' "Suc n" s] by (auto simp: cancel_order_def)
qed

lemma amend_order_sim:
  assumes sim: "sim n e S" and al: "step_allowed (AmendIn s i q np) S w" and room: "n < unat kNullIndex"
    and run: "amend_order A s i q np S w = Some (d, S', w')"
  shows "\<exists>e'. amend_order C s i q np e w = Some (d, e', w') \<and> sim (Suc n) e' S'"
proof (cases "e_books S s")
  case None
  then have "e_books e s = None" using sim_none [OF sim] by simp
  then show ?thesis using None run sim_mono [OF sim, of "Suc n"] by (auto simp: amend_order_def)
next
  case (Some B)
  obtain b where b: "e_books e s = Some b" "inv b" "slots b \<le> n" "B = sb b" by (rule sim_book [OF sim Some])
  have adm: "amend_admissible i q np (abs b)" using al Some b(4) by (simp add: sb_def)
  have d: "book_call s (bk_amend A i q np) (sb b) S w = Some (d, S', w')" using run Some b(4) by (simp add: amend_order_def)
  have "\<exists>e'. book_call s (bk_amend C i q np) b e w = Some (d, e', w') \<and> sim (Suc n) e' S'"
  proof (rule book_call_sim [OF sim d])
    fix v B' v' assume "bk_amend A i q np (sb b) v = Some (d, B', v')"
    from amend_sim [OF b(2) adm _ this] b(3) room
    show "\<exists>b'. bk_amend C i q np b v = Some (d, b', v') \<and> inv b' \<and> sb b' = B' \<and> slots b' \<le> Suc n" by force
  qed
  then show ?thesis using b(1) by (simp add: amend_order_def)
qed

lemma reset_symbol_sim:
  assumes sim: "sim n e S" and run: "reset_symbol A s S = Some S'"
  shows "\<exists>e'. reset_symbol C s e = Some e' \<and> sim (Suc n) e' S'"
proof (cases "e_books S s")
  case None
  then have "e_books e s = None" using sim_none [OF sim] by simp
  then show ?thesis using None run sim_mono [OF sim, of "Suc n"] by (auto simp: reset_symbol_def)
next
  case (Some B)
  obtain b where b: "e_books e s = Some b" "inv b" "slots b \<le> n" "B = sb b" by (rule sim_book [OF sim Some])
  obtain b' where b': "bk_reset C b = Some b'" "inv b'" "sb b' = (sb b)\<lparr>sb_book := empty_abook\<rparr>" "slots b' \<le> Suc n"
    using reset_law [OF b(2)] b(3) by (auto simp: sb_def)
  have "S' = S\<lparr>e_books := (e_books S)(s \<mapsto> sb b')\<rparr>" using run Some b(4) b'(3) by (auto simp: reset_symbol_def spec_class_def)
  then show ?thesis using b(1) b'(1) sim_upd [OF sim b'(2,4), of s] by (auto simp: reset_symbol_def)
qed

lemma step_sim:
  assumes sim: "sim n e S" and al: "step_allowed x S w" and room: "n < unat kNullIndex"
    and run: "engine_step A x S w = Some (r, S', w')"
  shows "\<exists>e'. engine_step C x e w = Some (r, e', w') \<and> sim (Suc n) e' S'"
proof (cases x)
  case (Submit req)
  then show ?thesis using submit_sim [OF sim _ room] al run by (fastforce simp: bind_eq_Some_conv)
next
  case (CancelIn s i)
  then show ?thesis using cancel_order_sim [OF sim room] run by (fastforce simp: bind_eq_Some_conv)
next
  case (AmendIn s i q np)
  then show ?thesis using amend_order_sim [OF sim _ room] al run by (fastforce simp: bind_eq_Some_conv)
next
  case (ResetSymbol s)
  then show ?thesis using reset_symbol_sim [OF sim] run by (fastforce simp: bind_eq_Some_conv)
next
  case (SetLimits s p lim)
  then show ?thesis using run sim by (auto simp: set_risk_limits_def sim_def intro: order_trans le_SucI)
qed

theorem run_sim:
  assumes "sim n e S" "session_allowed A xs S w" "n + length xs \<le> unat kNullIndex" "engine_run A xs S w = Some (rs, S', w')"
  shows "\<exists>e'. engine_run C xs e w = Some (rs, e', w') \<and> sim (n + length xs) e' S'"
  using assms
proof (induction xs arbitrary: n e S w rs)
  case Nil
  then show ?case by simp
next
  case (Cons x xs)
  obtain r S1 w1 rs' where S1: "engine_step A x S w = Some (r, S1, w1)" "engine_run A xs S1 w1 = Some (rs', S', w')" "rs = r # rs'"
    using Cons.prems(4) by (auto simp: bind_eq_Some_conv)
  obtain e1 where e1: "engine_step C x e w = Some (r, e1, w1)" "sim (Suc n) e1 S1"
    using step_sim [OF Cons.prems(1) _ _ S1(1)] Cons.prems(2,3) by auto
  have "\<exists>e'. engine_run C xs e1 w1 = Some (rs', e', w') \<and> sim (Suc n + length xs) e' S'"
    by (rule Cons.IH [OF e1(2) _ _ S1(2)]) (use Cons.prems(2,3) S1(1) in auto)
  then show ?case using e1(1) S1(3) by auto
qed

text \<open>The position limit holds for the engine's own books.\<close>

lemma submit_limit:
  assumes sim: "sim n e S" and al: "submit_allowed req S w" and room: "n < unat kNullIndex"
    and run: "submit_order A req S w = Some (r, S', w')"
    and sym: "\<And>b. e_books e (req_symbol req) = Some b \<Longrightarrow> symb b = req_symbol req"
    and st: "e_risk_manager e (pack_key (req_symbol req) (req_participant_id req)) = Some st"
    and lim: "within_limit (req_symbol req) (req_participant_id req) (e_risk_manager e)"
  shows "\<exists>e'. submit_order C req e w = Some (r, e', w') \<and> position_moved req (e_risk_manager e) (e_risk_manager e')
    \<and> within_limit (req_symbol req) (req_participant_id req) (e_risk_manager e')"
proof -
  obtain e' where e': "submit_order C req e w = Some (r, e', w')" "sim (Suc n) e' S'" using submit_sim [OF sim al room run] by blast
  have eq: "e_risk_manager S = e_risk_manager e" "e_risk_manager S' = e_risk_manager e'" using sim e'(2) by (simp_all add: sim_def)
  have "position_moved req (e_risk_manager S) (e_risk_manager S') \<and> within_limit (req_symbol req) (req_participant_id req) (e_risk_manager S')"
  proof (rule submit_within_limit [OF run])
    fix B i ts r B' and w1 w2 :: World
    assume B: "e_books S (req_symbol req) = Some B" "events w1 = []" "bk_add A (make_order i ts req) B w1 = Some (r, B', w2)"
    obtain b where b: "e_books e (req_symbol req) = Some b" "inv b" "slots b \<le> n" "B = sb b" by (rule sim_book [OF sim B(1)])
    obtain A' where "spec_add (rng b) (stp b) (cb b) (symb b) (make_order i ts req) (abs b) w1 = (r, A', w2)"
      using B(3) b(4) by (auto simp: spec_class_def sb_def split: prod.splits)
    from spec_add_taken [OF this abs_ok [OF b(2)] B(2)] show "taken_by (make_order i ts req) (req_symbol req) (events w2)"
      using sym [OF b(1)] by simp
  qed (use eq st lim in simp_all)
  then show ?thesis using e'(1) eq by auto
qed

lemma new_sim: "sim 0 (engine_new rm) (engine_new rm)"
  by (simp add: sim_def engine_new_def fun_eq_iff)

lemma add_symbol_sim:
  assumes "sim n e S" "mx \<le> i64_max"
  shows "case add_symbol A s mn mx h p S of Inl err \<Rightarrow> add_symbol C s mn mx h p e = Inl err
    | Inr S' \<Rightarrow> \<exists>e'. add_symbol C s mn mx h p e = Inr e' \<and> sim n e' S'"
proof (cases "e_books S s")
  case None
  then have e: "e_books e s = None" using sim_none [OF assms(1)] by simp
  show ?thesis
  proof (cases "accepts mn mx")
    case (Inl err)
    then show ?thesis using None e new_refused [OF Inl] by (simp add: add_symbol_def spec_class_def)
  next
    case (Inr R)
    obtain b where b: "bk_new C s mn mx h p = Inr b" "inv b" "abs b = empty_abook" "rng b = R" "stp b = p" "cb b = False" "symb b = s" "slots b = 0"
      using new_law [OF Inr assms(2)] by blast
    let ?b = "bk_set_callback C True b"
    have "sim n (e\<lparr>e_books := (e_books e)(s \<mapsto> ?b)\<rparr>) (S\<lparr>e_books := (e_books S)(s \<mapsto> sb ?b)\<rparr>)"
      using callback_law [OF b(2), of True] b(8) by (intro sim_upd [OF assms(1)]) simp_all
    moreover have "sb ?b = \<lparr>sb_book = empty_abook, sb_accepts = R, sb_stp = p, sb_callback = True, sb_symbol = s\<rparr>"
      using callback_law [OF b(2), of True] b by (simp add: sb_def)
    ultimately show ?thesis using None Inr e b(1) by (simp add: add_symbol_def spec_class_def)
  qed
next
  case (Some B)
  obtain b where "e_books e s = Some b" by (rule sim_book [OF assms(1) Some])
  then show ?thesis using Some assms(1) by (simp add: add_symbol_def)
qed

end

end
