(* ===== verification/Order_Book_Vector.thy ===== *)
theory Order_Book_Vector
  imports Book_Guarantees
begin

text \<open>
  \<open>OrderBookVector\<close> (\<open>include/lightninglob/order_book_vector.hpp\<close>, \<open>src/order_book_vector.cpp\<close>): each side
  is a contiguous vector of price levels in priority order, searched with \<open>std::ranges::lower_bound\<close>.
\<close>

section \<open>Model\<close>

record OrderBookVector = BookCore +
  vb_bids :: "PriceLevel list"
  vb_asks :: "PriceLevel list"

definition vec_new :: "SymbolId \<Rightarrow> nat \<Rightarrow> SelfTradePrevention \<Rightarrow> OrderBookVector" where
  "vec_new symb order_capacity_hint stp_policy =
     \<lparr>b_symbol = symb, b_pool = pool_new order_capacity_hint, b_id_index = id_new order_capacity_hint,
      b_trade_callback = False, b_stp_policy = stp_policy, vb_bids = [], vb_asks = []\<rparr>"

text \<open>
  \<open>std::ranges::lower_bound\<close>: the first position of \<open>[first, first + len)\<close> whose element does not satisfy
  the ordering predicate, by halving.
\<close>

function lower_bound :: "('e \<Rightarrow> bool) \<Rightarrow> 'e list \<Rightarrow> nat \<Rightarrow> nat \<Rightarrow> nat" where
  "lower_bound prec xs first len =
     (if len = 0 then first
      else let half = len div 2; mid = first + half
           in if prec (xs ! mid) then lower_bound prec xs (mid + 1) (len - half - 1)
              else lower_bound prec xs first half)"
  by pat_completeness auto
termination
  by (relation "measure (\<lambda>(prec, xs, first, len). len)") auto

declare lower_bound.simps [simp del]

definition find_bid_position :: "OrderBookVector \<Rightarrow> Price \<Rightarrow> nat" where
  "find_bid_position b price = lower_bound (\<lambda>lv. l_price lv > price) (vb_bids b) 0 (length (vb_bids b))"

definition find_ask_position :: "OrderBookVector \<Rightarrow> Price \<Rightarrow> nat" where
  "find_ask_position b price = lower_bound (\<lambda>lv. l_price lv < price) (vb_asks b) 0 (length (vb_asks b))"

definition vec_best_bid :: "OrderBookVector \<Rightarrow> Price option" where
  "vec_best_bid b = (if vb_bids b = [] then None else Some (l_price (hd (vb_bids b))))"

definition vec_best_ask :: "OrderBookVector \<Rightarrow> Price option" where
  "vec_best_ask b = (if vb_asks b = [] then None else Some (l_price (hd (vb_asks b))))"

definition vec_spread :: "OrderBookVector \<Rightarrow> Price option option" where
  "vec_spread b = (case (vec_best_bid b, vec_best_ask b) of
     (Some bb, Some ba) \<Rightarrow> do { d \<leftarrow> chk64 (ba - bb); Some (Some d) }
   | _ \<Rightarrow> Some None)"

definition vec_crosses :: "Order \<Rightarrow> OrderBookVector \<Rightarrow> bool" where
  "vec_crosses ord b =
     (if o_side ord = Buy then (case vec_best_ask b of None \<Rightarrow> False | Some ask \<Rightarrow> o_price ord \<ge> ask)
      else (case vec_best_bid b of None \<Rightarrow> False | Some bid \<Rightarrow> o_price ord \<le> bid))"

definition vec_has_liquidity_for :: "Side \<Rightarrow> OrderType \<Rightarrow> Price \<Rightarrow> Quantity \<Rightarrow> OrderBookVector \<Rightarrow> bool option" where
  "vec_has_liquidity_for taker_side type limit_price needed b =
     (if taker_side = Buy
      then accumulate (\<lambda>level. type = Limit \<and> l_price level > limit_price) needed 0 (vb_asks b)
      else accumulate (\<lambda>level. type = Limit \<and> l_price level < limit_price) needed 0 (vb_bids b))"

partial_function (option) vec_match_against_book :: "Order \<Rightarrow> OrderBookVector \<Rightarrow> World
    \<Rightarrow> (bool \<times> Order \<times> OrderBookVector \<times> World) option" where
  "vec_match_against_book taker b w =
     (if o_remaining_quantity taker > 0 then do {
        let buy = (o_side taker = Buy);
        (case (if buy then vb_asks b else vb_bids b) of
           [] \<Rightarrow> Some (False, taker, b, w)
         | level # rest \<Rightarrow>
             if o_type taker = Limit \<and> \<not> (if buy then o_price taker \<ge> l_price level else o_price taker \<le> l_price level)
             then Some (False, taker, b, w)
             else do {
               (stp_killed, taker, level, b, w) \<leftarrow> drain_level (l_price level) taker level b w;
               let levels = (if level_empty level then rest else level # rest);
               let b = (if buy then b\<lparr>vb_asks := levels\<rparr> else b\<lparr>vb_bids := levels\<rparr>);
               if stp_killed then Some (True, taker, b, w) else vec_match_against_book taker b w }) }
      else Some (False, taker, b, w))"

text \<open>
  \<open>bids_.insert(it, PriceLevel{})\<close> with the price set, unless the level at \<open>it\<close> already has the price.
\<close>

definition ensure_level :: "PriceLevel list \<Rightarrow> nat \<Rightarrow> Price \<Rightarrow> PriceLevel list" where
  "ensure_level levels it price =
     (if it = length levels \<or> l_price (levels ! it) \<noteq> price
      then take it levels @ empty_level\<lparr>l_price := price\<rparr> # drop it levels
      else levels)"

definition vec_rest_order :: "Order \<Rightarrow> OrderBookVector \<Rightarrow> OrderBookVector option" where
  "vec_rest_order ord b = do {
     (idx, p) \<leftarrow> acquire (b_pool b) ord;
     b \<leftarrow> (if o_side ord = Buy then do {
         let it = find_bid_position b (o_price ord);
         let bids = ensure_level (vb_bids b) it (o_price ord);
         lv \<leftarrow> vget bids it;
         (lv, p) \<leftarrow> level_push_back lv p idx;
         Some (b\<lparr>b_pool := p, vb_bids := bids[it := lv]\<rparr>) }
       else do {
         let it = find_ask_position b (o_price ord);
         let asks = ensure_level (vb_asks b) it (o_price ord);
         lv \<leftarrow> vget asks it;
         (lv, p) \<leftarrow> level_push_back lv p idx;
         Some (b\<lparr>b_pool := p, vb_asks := asks[it := lv]\<rparr>) });
     (_, m) \<leftarrow> id_insert (b_id_index b) (o_id ord) idx;
     Some (b\<lparr>b_id_index := m\<rparr>) }"

definition vec_add_order :: "Order \<Rightarrow> OrderBookVector \<Rightarrow> World
    \<Rightarrow> (ExecutionReport \<times> OrderBookVector \<times> World) option" where
  "vec_add_order ord b w =
     (if o_quantity ord \<le> 0 then Some (report (o_id ord) Rejected 0 0 InvalidQuantity, b, w)
      else if o_type ord = Limit \<and> o_price ord \<le> 0 then Some (report (o_id ord) Rejected 0 0 InvalidPrice, b, w)
      else do {
        duplicate \<leftarrow> (if o_id ord \<noteq> kInvalidOrderId then id_contains (b_id_index b) (o_id ord) else Some False);
        if duplicate then Some (report (o_id ord) Rejected 0 0 DuplicateOrderId, b, w)
        else do {
          liquid \<leftarrow> (if o_time_in_force ord = FOK
            then vec_has_liquidity_for (o_side ord) (o_type ord) (o_price ord) (o_quantity ord) b else Some True);
          if \<not> liquid then Some (report (o_id ord) Cancelled 0 0 NoReason, b, w)
          else do {
            let order = ord\<lparr>o_remaining_quantity := o_quantity ord\<rparr>;
            let original_quantity = o_quantity ord;
            (stp_killed, order, b, w) \<leftarrow>
              (if o_type order = Market \<or> o_time_in_force order = FOK \<or> vec_crosses order b
               then vec_match_against_book order b w else Some (False, order, b, w));
            filled \<leftarrow> chk64 (original_quantity - o_remaining_quantity order);
            if o_remaining_quantity order = 0 then Some (report (o_id order) Filled filled 0 NoReason, b, w)
            else if \<not> stp_killed \<and> rests_in_book order then do {
              let remaining = o_remaining_quantity order;
              b \<leftarrow> vec_rest_order order b;
              let status = (if filled > 0 then PartiallyFilled else New);
              Some (report (o_id order) status filled remaining NoReason, b, w) }
            else Some (report (o_id order) Cancelled filled 0 NoReason, b, w) } } })"

text \<open>\<open>bids_.erase(it)\<close> when the level is empty, otherwise the level is written back.\<close>

definition put_or_erase :: "PriceLevel list \<Rightarrow> nat \<Rightarrow> PriceLevel \<Rightarrow> PriceLevel list" where
  "put_or_erase levels it lv = (if level_empty lv then take it levels @ drop (Suc it) levels else levels[it := lv])"

definition vec_cancel_order :: "OrderId \<Rightarrow> OrderBookVector \<Rightarrow> (bool \<times> OrderBookVector) option" where
  "vec_cancel_order i b = do {
     idx_ptr \<leftarrow> id_find (b_id_index b) i;
     (case idx_ptr of
        None \<Rightarrow> Some (False, b)
      | Some idx \<Rightarrow> do {
          nd \<leftarrow> pool_get (b_pool b) idx;
          let order = n_order nd;
          let it = (if o_side order = Buy then find_bid_position b (o_price order) else find_ask_position b (o_price order));
          let levels = (if o_side order = Buy then vb_bids b else vb_asks b);
          if it = length levels \<or> l_price (levels ! it) \<noteq> o_price order then Some (False, b)
          else do {
            lv \<leftarrow> vget levels it;
            q \<leftarrow> chk64 (l_total_quantity lv - o_remaining_quantity order);
            (lv, p) \<leftarrow> level_unlink (lv\<lparr>l_total_quantity := q\<rparr>) (b_pool b) idx;
            let levels = put_or_erase levels it lv;
            let b = (if o_side order = Buy then b\<lparr>vb_bids := levels\<rparr> else b\<lparr>vb_asks := levels\<rparr>);
            p \<leftarrow> release p idx;
            (_, m) \<leftarrow> id_erase (b_id_index b) i;
            Some (True, b\<lparr>b_pool := p, b_id_index := m\<rparr>) } }) }"

definition vec_amend_order :: "OrderId \<Rightarrow> Quantity \<Rightarrow> Price option \<Rightarrow> OrderBookVector \<Rightarrow> World
    \<Rightarrow> (ExecutionReport \<times> OrderBookVector \<times> World) option" where
  "vec_amend_order i new_quantity new_price b w = do {
     idx_ptr \<leftarrow> id_find (b_id_index b) i;
     (case idx_ptr of
        None \<Rightarrow> Some (report i Rejected 0 0 UnknownOrder, b, w)
      | Some idx \<Rightarrow>
          if new_quantity \<le> 0 then Some (report i Rejected 0 0 InvalidQuantity, b, w)
          else do {
            nd \<leftarrow> pool_get (b_pool b) idx;
            let snapshot = n_order nd;
            let price_changed = (case new_price of None \<Rightarrow> False | Some p \<Rightarrow> p \<noteq> o_price snapshot);
            let quantity_increased = new_quantity > o_remaining_quantity snapshot;
            if \<not> price_changed \<and> \<not> quantity_increased then do {
              let it = (if o_side snapshot = Buy then find_bid_position b (o_price snapshot)
                        else find_ask_position b (o_price snapshot));
              let levels = (if o_side snapshot = Buy then vb_bids b else vb_asks b);
              lv \<leftarrow> vget levels it;
              delta \<leftarrow> chk64 (o_remaining_quantity snapshot - new_quantity);
              (lv, p) \<leftarrow> level_reduce_quantity lv (b_pool b) idx delta;
              let levels = levels[it := lv];
              let b = (if o_side snapshot = Buy then b\<lparr>b_pool := p, vb_bids := levels\<rparr>
                       else b\<lparr>b_pool := p, vb_asks := levels\<rparr>);
              Some (report i New 0 new_quantity NoReason, b, w) }
            else do {
              (_, b) \<leftarrow> vec_cancel_order i b;
              let (ts, w) = now_ns w;
              let replacement = snapshot\<lparr>o_price := (case new_price of None \<Rightarrow> o_price snapshot | Some p \<Rightarrow> p),
                o_quantity := new_quantity, o_remaining_quantity := new_quantity, o_timestamp := ts\<rparr>;
              vec_add_order replacement b w } }) }"

definition vec_bid_depth :: "nat \<Rightarrow> OrderBookVector \<Rightarrow> PriceLevelView list" where
  "vec_bid_depth n b = (let count = min n (length (vb_bids b)) in map (\<lambda>i. level_view (vb_bids b ! i)) [0..<count])"

definition vec_ask_depth :: "nat \<Rightarrow> OrderBookVector \<Rightarrow> PriceLevelView list" where
  "vec_ask_depth n b = (let count = min n (length (vb_asks b)) in map (\<lambda>i. level_view (vb_asks b ! i)) [0..<count])"

definition vec_reset :: "OrderBookVector \<Rightarrow> OrderBookVector" where
  "vec_reset b = b\<lparr>vb_bids := [], vb_asks := [], b_pool := pool_reset (b_pool b), b_id_index := id_clear (b_id_index b)\<rparr>"

definition vec_bid_level_count :: "OrderBookVector \<Rightarrow> nat" where
  "vec_bid_level_count b = length (vb_bids b)"

definition vec_ask_level_count :: "OrderBookVector \<Rightarrow> nat" where
  "vec_ask_level_count b = length (vb_asks b)"

section \<open>The container\<close>

definition vec_levels :: "OrderBookVector \<Rightarrow> sides" where
  "vec_levels b = (\<lambda>s. if s = Buy then vb_bids b else vb_asks b)"

definition vec_set_levels :: "Side \<Rightarrow> PriceLevel list \<Rightarrow> OrderBookVector \<Rightarrow> OrderBookVector" where
  "vec_set_levels s lvs b = (if s = Buy then b\<lparr>vb_bids := lvs\<rparr> else b\<lparr>vb_asks := lvs\<rparr>)"

definition vec_find :: "Side \<Rightarrow> OrderBookVector \<Rightarrow> Price \<Rightarrow> nat" where
  "vec_find s b pr = (if s = Buy then find_bid_position b pr else find_ask_position b pr)"

lemma vec_levels_set [simp]: "vec_levels (vec_set_levels s lvs b) = (vec_levels b)(s := lvs)"
proof (rule ext)
  show "vec_levels (vec_set_levels s lvs b) u = ((vec_levels b)(s := lvs)) u" for u
    by (cases u; cases s) (simp_all add: vec_levels_def vec_set_levels_def)
qed

lemma vec_levels_core [simp]:
  "vec_levels (b\<lparr>b_pool := p\<rparr>) = vec_levels b" "vec_levels (b\<lparr>b_id_index := m\<rparr>) = vec_levels b"
  by (simp_all add: vec_levels_def fun_eq_iff)

lemma vec_set_levels_core [simp]:
  "b_pool (vec_set_levels s lvs b) = b_pool b" "b_id_index (vec_set_levels s lvs b) = b_id_index b"
  "b_symbol (vec_set_levels s lvs b) = b_symbol b" "b_trade_callback (vec_set_levels s lvs b) = b_trade_callback b"
  "b_stp_policy (vec_set_levels s lvs b) = b_stp_policy b"
  by (simp_all add: vec_set_levels_def)

lemma vec_levels_step: "core_step b b1 \<Longrightarrow> vec_levels b1 = vec_levels b"
  unfolding core_step_def by (metis vec_levels_core)

text \<open>The binary search finds the boundary of a partitioned vector.\<close>

lemma lower_bound_boundary:
  assumes "\<And>i. i < length xs \<Longrightarrow> prec (xs ! i) \<longleftrightarrow> i < n" "first \<le> n" "n \<le> first + len" "first + len \<le> length xs"
  shows "lower_bound prec xs first len = n"
  using assms
proof (induction prec xs first len rule: lower_bound.induct)
  case (1 prec xs first len)
  show ?case
  proof (cases "len = 0")
    case True
    then show ?thesis using "1.prems" by (simp add: lower_bound.simps)
  next
    case False
    let ?mid = "first + len div 2"
    have mid: "?mid < length xs" using "1.prems"(4) False by linarith
    show ?thesis
    proof (cases "prec (xs ! ?mid)")
      case True
      then have "?mid < n" using "1.prems"(1) [OF mid] by simp
      then have "lower_bound prec xs (?mid + 1) (len - len div 2 - 1) = n"
        using "1.prems" False True by (intro "1.IH"(1)) auto
      then show ?thesis using True False by (subst lower_bound.simps) (simp add: Let_def)
    next
      case lo: False
      then have "n \<le> ?mid" using "1.prems"(1) [OF mid] by simp
      then have "lower_bound prec xs first (len div 2) = n"
        using "1.prems" False lo by (intro "1.IH"(2)) auto
      then show ?thesis using lo False by (subst lower_bound.simps) (simp add: Let_def)
    qed
  qed
qed

lemma lower_bound_split:
  assumes "\<forall>a \<in> set as. prec a" "\<forall>c \<in> set bs. \<not> prec c"
  shows "lower_bound prec (as @ bs) 0 (length (as @ bs)) = length as"
  by (rule lower_bound_boundary) (use assms in \<open>auto simp: nth_append\<close>)

lemma vec_find_split:
  assumes "vec_levels b s = as @ bs" "\<forall>a \<in> set as. better s (l_price a) pr" "\<forall>c \<in> set bs. \<not> better s (l_price c) pr"
  shows "vec_find s b pr = length as"
  using assms lower_bound_split [of as "\<lambda>lv. better s (l_price lv) pr" bs]
  by (cases s) (simp_all add: vec_find_def find_bid_position_def find_ask_position_def vec_levels_def)

text \<open>The matching loop.\<close>

definition vec_put_front :: "Side \<Rightarrow> OrderBookVector \<Rightarrow> PriceLevel \<Rightarrow> OrderBookVector \<Rightarrow> OrderBookVector option" where
  "vec_put_front s b0 lv b = Some (vec_set_levels s
     (if level_empty lv then tl (vec_levels b0 s) else lv # tl (vec_levels b0 s)) b)"

interpretation vm: level_matcher "\<lambda>b. True" vec_levels "\<lambda>b p. True" vec_put_front vec_match_against_book
proof
  show "vec_match_against_book t b w =
      (if 0 < rq t then
        (case vec_levels b (opposite (o_side t)) of
           [] \<Rightarrow> Some (False, t, b, w)
         | lv # lvs \<Rightarrow>
             if \<not> price_ok t (l_price lv) then Some (False, t, b, w)
             else do {
               (k, t1, lv', b1, w1) \<leftarrow> drain_level (l_price lv) t lv b w;
               b2 \<leftarrow> vec_put_front (opposite (o_side t)) b lv' b1;
               if k then Some (True, t1, b2, w1) else vec_match_against_book t1 b2 w1 })
       else Some (False, t, b, w))" for t b w
    by (subst vec_match_against_book.simps, cases "o_side t")
      (auto simp: vec_levels_def vec_put_front_def vec_set_levels_def price_ok_Limit Let_def split: list.splits cong: if_cong)
qed (use vec_levels_step in \<open>auto simp: vec_put_front_def\<close>)

lemma vec_crosses_levels:
  assumes "o_type ord = Limit"
  shows "vec_crosses ord b \<longleftrightarrow> vec_levels b (opposite (o_side ord)) \<noteq> []
    \<and> price_ok ord (l_price (hd (vec_levels b (opposite (o_side ord)))))"
  using assms by (cases "o_side ord") (auto simp: vec_crosses_def vec_best_ask_def vec_best_bid_def vec_levels_def price_ok_def)

lemma vec_liquidity:
  assumes "rep_ok b (vec_levels b)" "abook_ok (view b (vec_levels b))" "0 < o_quantity ord"
  shows "vec_has_liquidity_for (o_side ord) (o_type ord) (o_price ord) (o_quantity ord) b =
    Some (o_quantity ord \<le> reachable_volume ord (side_of (opposite (o_side ord)) (view b (vec_levels b))))"
  using levels_liquidity [OF assms]
  by (cases "o_side ord") (simp_all add: vec_has_liquidity_for_def vec_levels_def price_ok_def not_le)

text \<open>Resting, shrinking and cancelling.\<close>

lemma ensure_level_joins:
  assumes "joins lmid pr lv" "\<forall>c \<in> set bs. better s pr (l_price c)"
  shows "ensure_level (as @ lmid @ bs) (length as) pr = as @ lv # bs"
proof (cases "lmid = []")
  case True
  then have "bs = [] \<or> l_price (hd bs) \<noteq> pr" using assms(2) by (cases bs) auto
  then show ?thesis using assms(1) True by (cases bs) (auto simp: joins_def ensure_level_def)
qed (use assms(1) in \<open>auto simp: joins_def ensure_level_def\<close>)

lemma vec_rest_order_side:
  "vec_rest_order ord b = do {
     (idx, p) \<leftarrow> acquire (b_pool b) ord;
     let it = vec_find (o_side ord) b (o_price ord);
     let lvs = ensure_level (vec_levels b (o_side ord)) it (o_price ord);
     lv \<leftarrow> vget lvs it;
     (lv, p) \<leftarrow> level_push_back lv p idx;
     (_, m) \<leftarrow> id_insert (b_id_index b) (o_id ord) idx;
     Some ((vec_set_levels (o_side ord) (lvs[it := lv]) b)\<lparr>b_pool := p, b_id_index := m\<rparr>) }"
  by (cases "o_side ord")
    (auto simp: vec_rest_order_def vec_find_def vec_levels_def vec_set_levels_def Let_def intro!: Option.bind_cong split: prod.splits)

lemma vec_rest:
  assumes rep: "rep_ok b (vec_levels b)" and ok: "abook_ok (view b (vec_levels b))" and room: "length (nodes b) < unat kNullIndex"
    and new: "o_id ord \<noteq> kInvalidOrderId" "o_id ord \<notin> ids (view b (vec_levels b))"
    and q: "0 < rq ord" "volume (side_of (o_side ord) (view b (vec_levels b))) + rq ord \<le> i64_max"
  shows "\<exists>b'. vec_rest_order ord b = Some b' \<and> moved (\<lambda>b. True) vec_levels (\<lambda>b p. True) b
    (set_side (o_side ord) (place (o_side ord) ord (side_of (o_side ord) (view b (vec_levels b)))) (view b (vec_levels b))) 1 b'"
proof -
  let ?s = "o_side ord"
  obtain as lmid bs lv x p lv' p' m where r: "vec_levels b ?s = as @ lmid @ bs" "joins lmid (o_price ord) lv"
    "\<forall>a \<in> set as. better ?s (l_price a) (o_price ord)" "\<forall>c \<in> set bs. better ?s (o_price ord) (l_price c)"
    "acquire (b_pool b) ord = Some (x, p)" "level_push_back lv p x = Some (lv', p')"
    "id_insert (b_id_index b) (o_id ord) x = Some (True, m)" "l_price lv' = o_price ord" "\<not> level_empty lv'"
    "leads_to vec_levels b ((vec_levels b)(?s := as @ lv' # bs)) p' m
      (set_side ?s (place ?s ord (side_of ?s (view b (vec_levels b)))) (view b (vec_levels b))) 1"
    by (rule rest_step [of b vec_levels ord, OF rep ok room new q])
  have "\<forall>c \<in> set (lmid @ bs). \<not> better ?s (l_price c) (o_price ord)"
    using r(2,4) better_irrefl(2) by (auto simp: joins_def)
  then have it: "vec_find ?s b (o_price ord) = length as" by (rule vec_find_split [OF r(1,3)])
  let ?b = "(vec_set_levels ?s (as @ lv' # bs) b)\<lparr>b_pool := p', b_id_index := m\<rparr>"
  have "vec_rest_order ord b = Some ?b"
    using r(5-7) it ensure_level_joins [OF r(2,4), of as] r(1) by (simp add: vec_rest_order_side Let_def ub_simps)
  moreover have "moved (\<lambda>b. True) vec_levels (\<lambda>b p. True) b
    (set_side ?s (place ?s ord (side_of ?s (view b (vec_levels b)))) (view b (vec_levels b))) 1 ?b"
    by (rule leads_toD [OF r(10)]) (simp_all add: core_becomes_def)
  ultimately show ?thesis by blast
qed

lemma vec_find_level:
  assumes "vec_levels b s = as @ lv # bs" "\<forall>a \<in> set as. better s (l_price a) (l_price lv)" "\<forall>c \<in> set bs. better s (l_price lv) (l_price c)"
  shows "vec_find s b (l_price lv) = length as"
  by (rule vec_find_split [OF assms(1,2)]) (use assms(3) better_irrefl(2) in auto)

lemma vec_cancel_order_side:
  assumes "id_find (b_id_index b) i = Some (Some x)" "pool_get (b_pool b) x = Some nd"
    and "vec_levels b (o_side (n_order nd)) = as @ lv # bs" "vec_find (o_side (n_order nd)) b (o_price (n_order nd)) = length as"
    and "l_price lv = o_price (n_order nd)"
  shows "vec_cancel_order i b = do {
     q \<leftarrow> chk64 (l_total_quantity lv - o_remaining_quantity (n_order nd));
     (lv, p) \<leftarrow> level_unlink (lv\<lparr>l_total_quantity := q\<rparr>) (b_pool b) x;
     p \<leftarrow> release p x;
     (_, m) \<leftarrow> id_erase (b_id_index b) i;
     Some (True, (vec_set_levels (o_side (n_order nd)) (as @ (if level_empty lv then bs else lv # bs)) b)\<lparr>b_pool := p, b_id_index := m\<rparr>) }"
  using assms
  by (cases "o_side (n_order nd)")
    (auto simp: vec_cancel_order_def vec_levels_def vec_find_def vec_set_levels_def Let_def ub_simps put_or_erase_def
      intro!: Option.bind_cong split: prod.splits)

lemma vec_cancel:
  assumes rep: "rep_ok b (vec_levels b)" and ok: "abook_ok (view b (vec_levels b))"
  shows "\<exists>b'. vec_cancel_order i b = Some (fst (spec_cancel i (view b (vec_levels b))), b') \<and>
    moved (\<lambda>b. True) vec_levels (\<lambda>b p. True) b (snd (spec_cancel i (view b (vec_levels b)))) 0 b'"
proof (cases "id_lookup (b_id_index b) i")
  case None
  then have "vec_cancel_order i b = Some (False, b)" using id_find_view [OF rep] by (simp add: vec_cancel_order_def)
  then show ?thesis using cancel_unknown [of "\<lambda>b. True" b vec_levels, OF TrueI rep None] by auto
next
  case (Some x)
  let ?s = "o_side (ord_at (nodes b) x)"
  obtain as lv bs lv' p1 p2 m where v: "vec_levels b ?s = as @ lv # bs" "l_price lv = o_price (ord_at (nodes b) x)"
    "\<forall>a \<in> set as. better ?s (l_price a) (l_price lv)" "\<forall>c \<in> set bs. better ?s (l_price lv) (l_price c)"
    "pool_get (b_pool b) x = Some (node_at (nodes b) x)"
    "in_i64 (l_total_quantity lv - rem_at (nodes b) x)"
    "level_unlink (lv\<lparr>l_total_quantity := l_total_quantity lv - rem_at (nodes b) x\<rparr>) (b_pool b) x = Some (lv', p1)"
    "release p1 x = Some p2" "id_erase (b_id_index b) i = Some (True, m)" "l_price lv' = l_price lv"
    "level_empty lv' \<longrightarrow> lv' = empty_level\<lparr>l_price := l_price lv\<rparr>"
    "leads_to vec_levels b ((vec_levels b)(?s := as @ (if level_empty lv' then bs else lv' # bs))) p2 m
      (remove_id i (view b (vec_levels b))) 0"
    by (rule cancel_step [of b vec_levels, OF rep ok Some])
  let ?b = "(vec_set_levels ?s (as @ (if level_empty lv' then bs else lv' # bs)) b)\<lparr>b_pool := p2, b_id_index := m\<rparr>"
  have "vec_cancel_order i b = Some (True, ?b)"
    using vec_cancel_order_side [OF _ v(5,1) vec_find_level [OF v(1,3,4), unfolded v(2)] v(2), of i]
      id_find_view [OF rep] Some v(6-9) by (simp add: ub_simps)
  moreover have "moved (\<lambda>b. True) vec_levels (\<lambda>b p. True) b (remove_id i (view b (vec_levels b))) 0 ?b"
    by (rule leads_toD [OF v(12)]) (simp_all add: core_becomes_def)
  ultimately show ?thesis using cancel_known [OF rep Some] by auto
qed

text \<open>The in-place branch of \<open>amend_order\<close>.\<close>

definition vec_shrink :: "Order \<Rightarrow> u32 \<Rightarrow> Quantity \<Rightarrow> OrderBookVector \<Rightarrow> OrderBookVector option" where
  "vec_shrink snapshot idx new_quantity b = do {
     let it = vec_find (o_side snapshot) b (o_price snapshot);
     lv \<leftarrow> vget (vec_levels b (o_side snapshot)) it;
     delta \<leftarrow> chk64 (o_remaining_quantity snapshot - new_quantity);
     (lv, p) \<leftarrow> level_reduce_quantity lv (b_pool b) idx delta;
     Some ((vec_set_levels (o_side snapshot) ((vec_levels b (o_side snapshot))[it := lv]) b)\<lparr>b_pool := p\<rparr>) }"

lemma vec_shrinks:
  assumes rep: "rep_ok b (vec_levels b)" and ok: "abook_ok (view b (vec_levels b))"
    and x: "id_lookup (b_id_index b) i = Some x" and q: "0 < q" "q \<le> rem_at (nodes b) x"
  shows "\<exists>b'. vec_shrink (ord_at (nodes b) x) x q b = Some b' \<and>
    moved (\<lambda>b. True) vec_levels (\<lambda>b p. True) b (resize_book i q (view b (vec_levels b))) 0 b'"
proof -
  let ?s = "o_side (ord_at (nodes b) x)"
  obtain as lv bs lv' p' where v: "vec_levels b ?s = as @ lv # bs" "l_price lv = o_price (ord_at (nodes b) x)"
    "\<forall>a \<in> set as. better ?s (l_price a) (l_price lv)" "\<forall>c \<in> set bs. better ?s (l_price lv) (l_price c)"
    "in_i64 (rem_at (nodes b) x - q)"
    "level_reduce_quantity lv (b_pool b) x (rem_at (nodes b) x - q) = Some (lv', p')" "l_price lv' = l_price lv" "\<not> level_empty lv'"
    "leads_to vec_levels b ((vec_levels b)(?s := as @ lv' # bs)) p' (b_id_index b) (resize_book i q (view b (vec_levels b))) 0"
    by (rule shrink_step [of b vec_levels, OF rep ok x q])
  let ?b = "(vec_set_levels ?s (as @ lv' # bs) b)\<lparr>b_pool := p'\<rparr>"
  have "vec_shrink (ord_at (nodes b) x) x q b = Some ?b"
    using v(1,5,6) vec_find_level [OF v(1,3,4), unfolded v(2)] by (simp add: vec_shrink_def Let_def ub_simps)
  moreover have "moved (\<lambda>b. True) vec_levels (\<lambda>b p. True) b (resize_book i q (view b (vec_levels b))) 0 ?b"
    by (rule leads_toD [OF v(9)]) (simp_all add: core_becomes_def)
  ultimately show ?thesis by blast
qed

text \<open>The vector book is a level book, hence an order book.\<close>

lemma vec_add_eq:
  "vec_add_order ord b w = add_with (\<lambda>p. True) vec_crosses vec_has_liquidity_for vec_match_against_book vec_rest_order
     (b_id_index b) ord b w"
  by (simp only: vec_add_order_def add_with_def Let_def simp_thms if_False)

lemma vec_amend_eq:
  "vec_amend_order i q np b w = amend_with (\<lambda>p. True) vec_shrink vec_cancel_order vec_add_order i q np b w"
proof -
  have "(case np of None \<Rightarrow> True | Some p \<Rightarrow> p = pr) \<longleftrightarrow> \<not> (case np of None \<Rightarrow> False | Some p \<Rightarrow> p \<noteq> pr)" for pr
    by (cases np) auto
  then show ?thesis
    by (auto simp: vec_amend_order_def amend_with_def vec_shrink_def vec_find_def vec_levels_def vec_set_levels_def Let_def not_less
        intro!: Option.bind_cong split: option.splits prod.splits)
qed

interpretation vb: level_book "\<lambda>b. True" vec_levels "\<lambda>b p. True" vec_crosses vec_has_liquidity_for vec_match_against_book
  vec_rest_order vec_shrink vec_cancel_order vec_add_order vec_amend_order
  by unfold_locales
    (assumption | rule TrueI vec_crosses_levels vec_liquidity vm.match_refines vec_rest vec_shrinks vec_cancel vec_add_eq vec_amend_eq)+

section \<open>The contract of the vector book\<close>

definition vec_abs :: "OrderBookVector \<Rightarrow> ABook" where
  "vec_abs b = view b (vec_levels b)"

definition vec_inv :: "OrderBookVector \<Rightarrow> bool" where
  "vec_inv b \<longleftrightarrow> rep_ok b (vec_levels b) \<and> abook_ok (vec_abs b)"

lemma vec_inv_linv: "vb.linv = vec_inv"
  by (simp add: fun_eq_iff vb.linv_def vec_inv_def vec_abs_def)

lemma vec_empty:
  assumes "vb_bids b = []" "vb_asks b = []" "pool_ok (b_pool b)" "nodes b = []" "id_inv (b_id_index b)"
    "id_lookup (b_id_index b) = Map.empty"
  shows "vec_inv b" "vec_abs b = empty_abook"
proof -
  have "vec_levels b = (\<lambda>s. [])" using assms(1,2) by (simp add: vec_levels_def fun_eq_iff)
  then show "vec_abs b = empty_abook" "vec_inv b"
    using view_empty [OF assms(3-6)] empty_abook_ok by (simp_all add: vec_inv_def vec_abs_def)
qed

lemma vec_new_ok: "vec_inv (vec_new symb hint stp)" "vec_abs (vec_new symb hint stp) = empty_abook"
  using vec_empty [of "vec_new symb hint stp"] by (simp_all add: vec_new_def id_new_inv id_new_lookup pool_new_ok)

lemma vec_reset_ok: "vec_inv b \<Longrightarrow> vec_inv (vec_reset b)" "vec_inv b \<Longrightarrow> vec_abs (vec_reset b) = empty_abook"
proof -
  assume "vec_inv b"
  then have "core_ok b (live_slots (queues_of b (vec_levels b)))"
    using book_repD(4) by (auto simp: vec_inv_def rep_ok_def)
  then have "pool_ok (b_pool b)" "id_inv (b_id_index b)" by (rule core_okD)+
  then show "vec_inv (vec_reset b)" "vec_abs (vec_reset b) = empty_abook"
    using vec_empty [of "vec_reset b"] by (simp_all add: vec_reset_def pool_reset_ok id_clear_inv id_clear_lookup)
qed

text \<open>What the queries report, in terms of the abstract book.\<close>

lemma vec_best:
  assumes "vec_inv b"
  shows "vec_best_bid b = best_price (a_bids (vec_abs b))" "vec_best_ask b = best_price (a_asks (vec_abs b))"
  using view_head [of b "vec_levels b" Buy] view_head [of b "vec_levels b" Sell] assms
  by (auto simp: vec_inv_def vec_abs_def best_price_def vec_best_bid_def vec_best_ask_def vec_levels_def)

lemma vec_depth_ok:
  assumes "vec_inv b"
  shows "vec_bid_depth n b = take n (depth_of (a_bids (vec_abs b)))" "vec_ask_depth n b = take n (depth_of (a_asks (vec_abs b)))"
proof -
  have eq: "map (\<lambda>i. level_view (xs ! i)) [0..<min n (length xs)] = take n (map level_view xs)" for xs
    by (rule nth_equalityI) auto
  have "rep_ok b (vec_levels b)" using assms by (simp add: vec_inv_def)
  note d = levels_depth [OF this, of Buy] levels_depth [OF this, of Sell]
  show "vec_bid_depth n b = take n (depth_of (a_bids (vec_abs b)))" "vec_ask_depth n b = take n (depth_of (a_asks (vec_abs b)))"
    using d by (simp_all add: vec_bid_depth_def vec_ask_depth_def Let_def eq vec_levels_def vec_abs_def)
qed

end
