(* ===== verification/Order_Book_Map.thy ===== *)
theory Order_Book_Map
  imports Book_Guarantees
begin

text \<open>
  \<open>OrderBookMap\<close> (\<open>include/lightninglob/order_book_map.hpp\<close>, \<open>src/order_book_map.cpp\<close>): each side is a
  \<open>std::map\<close> from price to level, descending for bids and ascending for asks.

  A \<open>std::map\<close> is modelled by the list of its key-value pairs in iteration order, with the members the
  source uses: \<open>begin\<close>, \<open>empty\<close>, \<open>size\<close>, \<open>find\<close>, \<open>try_emplace\<close>, \<open>erase\<close> by key and assignment through an
  iterator.
\<close>

section \<open>Ordered maps\<close>

type_synonym 'v omap = "(Price \<times> 'v) list"

definition omap_find :: "Price \<Rightarrow> 'v omap \<Rightarrow> 'v option" where
  "omap_find k m = map_of m k"

text \<open>\<open>before\<close> is the comparator of the map.\<close>

fun omap_try_emplace :: "(Price \<Rightarrow> Price \<Rightarrow> bool) \<Rightarrow> Price \<Rightarrow> 'v \<Rightarrow> 'v omap \<Rightarrow> bool \<times> 'v omap" where
  "omap_try_emplace before k v [] = (True, [(k, v)])"
| "omap_try_emplace before k v ((k', v') # m) =
     (if before k' k then (let (inserted, m') = omap_try_emplace before k v m in (inserted, (k', v') # m'))
      else if before k k' then (True, (k, v) # (k', v') # m)
      else (False, (k', v') # m))"

definition omap_erase :: "Price \<Rightarrow> 'v omap \<Rightarrow> 'v omap" where
  "omap_erase k m = filter (\<lambda>kv. fst kv \<noteq> k) m"

definition omap_set :: "Price \<Rightarrow> 'v \<Rightarrow> 'v omap \<Rightarrow> 'v omap" where
  "omap_set k v m = map (\<lambda>kv. if fst kv = k then (k, v) else kv) m"

section \<open>Model\<close>

record OrderBookMap = BookCore +
  mb_bids :: "PriceLevel omap"
  mb_asks :: "PriceLevel omap"

definition map_new :: "SymbolId \<Rightarrow> nat \<Rightarrow> SelfTradePrevention \<Rightarrow> OrderBookMap" where
  "map_new symb order_capacity_hint stp_policy =
     \<lparr>b_symbol = symb, b_pool = pool_new order_capacity_hint, b_id_index = id_new order_capacity_hint,
      b_trade_callback = False, b_stp_policy = stp_policy, mb_bids = [], mb_asks = []\<rparr>"

definition map_best_bid :: "OrderBookMap \<Rightarrow> Price option" where
  "map_best_bid b = (if mb_bids b = [] then None else Some (fst (hd (mb_bids b))))"

definition map_best_ask :: "OrderBookMap \<Rightarrow> Price option" where
  "map_best_ask b = (if mb_asks b = [] then None else Some (fst (hd (mb_asks b))))"

definition map_spread :: "OrderBookMap \<Rightarrow> Price option option" where
  "map_spread b = (case (map_best_bid b, map_best_ask b) of
     (Some bb, Some ba) \<Rightarrow> do { d \<leftarrow> chk64 (ba - bb); Some (Some d) }
   | _ \<Rightarrow> Some None)"

definition map_crosses :: "Order \<Rightarrow> OrderBookMap \<Rightarrow> bool" where
  "map_crosses ord b =
     (if o_side ord = Buy then (case map_best_ask b of None \<Rightarrow> False | Some ask \<Rightarrow> o_price ord \<ge> ask)
      else (case map_best_bid b of None \<Rightarrow> False | Some bid \<Rightarrow> o_price ord \<le> bid))"

text \<open>The accumulation loops over the entries; \<open>stop\<close> is the loop's price test on the key.\<close>

fun map_accumulate :: "(Price \<Rightarrow> bool) \<Rightarrow> Quantity \<Rightarrow> Quantity \<Rightarrow> PriceLevel omap \<Rightarrow> bool option" where
  "map_accumulate stop needed accumulated [] = Some False"
| "map_accumulate stop needed accumulated ((price, level) # m) =
     (if stop price then Some False
      else do {
        acc \<leftarrow> chk64 (accumulated + l_total_quantity level);
        if acc \<ge> needed then Some True else map_accumulate stop needed acc m })"

definition map_has_liquidity_for :: "Side \<Rightarrow> OrderType \<Rightarrow> Price \<Rightarrow> Quantity \<Rightarrow> OrderBookMap \<Rightarrow> bool option" where
  "map_has_liquidity_for taker_side type limit_price needed b =
     (if taker_side = Buy
      then map_accumulate (\<lambda>price. type = Limit \<and> price > limit_price) needed 0 (mb_asks b)
      else map_accumulate (\<lambda>price. type = Limit \<and> price < limit_price) needed 0 (mb_bids b))"

text \<open>Write a level back through its reference, then erase its key when the level is empty.\<close>

definition map_put_level :: "bool \<Rightarrow> Price \<Rightarrow> PriceLevel \<Rightarrow> OrderBookMap \<Rightarrow> OrderBookMap" where
  "map_put_level ask_side level_price level b =
     (if ask_side
      then b\<lparr>mb_asks := (if level_empty level then omap_erase level_price (mb_asks b) else omap_set level_price level (mb_asks b))\<rparr>
      else b\<lparr>mb_bids := (if level_empty level then omap_erase level_price (mb_bids b) else omap_set level_price level (mb_bids b))\<rparr>)"

partial_function (option) map_match_against_book :: "Order \<Rightarrow> OrderBookMap \<Rightarrow> World
    \<Rightarrow> (bool \<times> Order \<times> OrderBookMap \<times> World) option" where
  "map_match_against_book taker b w =
     (if o_remaining_quantity taker > 0 then do {
        let buy = (o_side taker = Buy);
        (case (if buy then mb_asks b else mb_bids b) of
           [] \<Rightarrow> Some (False, taker, b, w)
         | (level_price, level) # _ \<Rightarrow>
             if o_type taker = Limit \<and> \<not> (if buy then o_price taker \<ge> level_price else o_price taker \<le> level_price)
             then Some (False, taker, b, w)
             else do {
               (stp_killed, taker, level, b, w) \<leftarrow> drain_level level_price taker level b w;
               let b = map_put_level buy level_price level b;
               if stp_killed then Some (True, taker, b, w) else map_match_against_book taker b w }) }
      else Some (False, taker, b, w))"

text \<open>\<open>try_emplace\<close> with the price set on a new level.\<close>

definition map_open_level :: "(Price \<Rightarrow> Price \<Rightarrow> bool) \<Rightarrow> Price \<Rightarrow> PriceLevel omap \<Rightarrow> PriceLevel omap" where
  "map_open_level before price m =
     (let (inserted, m') = omap_try_emplace before price empty_level m
      in if inserted then omap_set price (empty_level\<lparr>l_price := price\<rparr>) m' else m')"

definition map_rest_order :: "Order \<Rightarrow> OrderBookMap \<Rightarrow> OrderBookMap option" where
  "map_rest_order ord b = do {
     (idx, p) \<leftarrow> acquire (b_pool b) ord;
     b \<leftarrow> (if o_side ord = Buy then do {
         let bids = map_open_level (\<lambda>x y. y < x) (o_price ord) (mb_bids b);
         lv \<leftarrow> omap_find (o_price ord) bids;
         (lv, p) \<leftarrow> level_push_back lv p idx;
         Some (b\<lparr>b_pool := p, mb_bids := omap_set (o_price ord) lv bids\<rparr>) }
       else do {
         let asks = map_open_level (\<lambda>x y. x < y) (o_price ord) (mb_asks b);
         lv \<leftarrow> omap_find (o_price ord) asks;
         (lv, p) \<leftarrow> level_push_back lv p idx;
         Some (b\<lparr>b_pool := p, mb_asks := omap_set (o_price ord) lv asks\<rparr>) });
     (_, m) \<leftarrow> id_insert (b_id_index b) (o_id ord) idx;
     Some (b\<lparr>b_id_index := m\<rparr>) }"

definition map_add_order :: "Order \<Rightarrow> OrderBookMap \<Rightarrow> World
    \<Rightarrow> (ExecutionReport \<times> OrderBookMap \<times> World) option" where
  "map_add_order ord b w =
     (if o_quantity ord \<le> 0 then Some (report (o_id ord) Rejected 0 0 InvalidQuantity, b, w)
      else if o_type ord = Limit \<and> o_price ord \<le> 0 then Some (report (o_id ord) Rejected 0 0 InvalidPrice, b, w)
      else do {
        duplicate \<leftarrow> (if o_id ord \<noteq> kInvalidOrderId then id_contains (b_id_index b) (o_id ord) else Some False);
        if duplicate then Some (report (o_id ord) Rejected 0 0 DuplicateOrderId, b, w)
        else do {
          liquid \<leftarrow> (if o_time_in_force ord = FOK
            then map_has_liquidity_for (o_side ord) (o_type ord) (o_price ord) (o_quantity ord) b else Some True);
          if \<not> liquid then Some (report (o_id ord) Cancelled 0 0 NoReason, b, w)
          else do {
            let order = ord\<lparr>o_remaining_quantity := o_quantity ord\<rparr>;
            let original_quantity = o_quantity ord;
            (stp_killed, order, b, w) \<leftarrow>
              (if o_type order = Market \<or> o_time_in_force order = FOK \<or> map_crosses order b
               then map_match_against_book order b w else Some (False, order, b, w));
            filled \<leftarrow> chk64 (original_quantity - o_remaining_quantity order);
            if o_remaining_quantity order = 0 then Some (report (o_id order) Filled filled 0 NoReason, b, w)
            else if \<not> stp_killed \<and> rests_in_book order then do {
              let remaining = o_remaining_quantity order;
              b \<leftarrow> map_rest_order order b;
              let status = (if filled > 0 then PartiallyFilled else New);
              Some (report (o_id order) status filled remaining NoReason, b, w) }
            else Some (report (o_id order) Cancelled filled 0 NoReason, b, w) } } })"

definition map_cancel_order :: "OrderId \<Rightarrow> OrderBookMap \<Rightarrow> (bool \<times> OrderBookMap) option" where
  "map_cancel_order i b = do {
     idx_ptr \<leftarrow> id_find (b_id_index b) i;
     (case idx_ptr of
        None \<Rightarrow> Some (False, b)
      | Some idx \<Rightarrow> do {
          nd \<leftarrow> pool_get (b_pool b) idx;
          let order = n_order nd;
          (case omap_find (o_price order) (if o_side order = Buy then mb_bids b else mb_asks b) of
             None \<Rightarrow> Some (False, b)
           | Some level \<Rightarrow> do {
               q \<leftarrow> chk64 (l_total_quantity level - o_remaining_quantity order);
               (level, p) \<leftarrow> level_unlink (level\<lparr>l_total_quantity := q\<rparr>) (b_pool b) idx;
               let b = map_put_level (o_side order \<noteq> Buy) (o_price order) level b;
               p \<leftarrow> release p idx;
               (_, m) \<leftarrow> id_erase (b_id_index b) i;
               Some (True, b\<lparr>b_pool := p, b_id_index := m\<rparr>) }) }) }"

definition map_amend_order :: "OrderId \<Rightarrow> Quantity \<Rightarrow> Price option \<Rightarrow> OrderBookMap \<Rightarrow> World
    \<Rightarrow> (ExecutionReport \<times> OrderBookMap \<times> World) option" where
  "map_amend_order i new_quantity new_price b w = do {
     idx_ptr \<leftarrow> id_find (b_id_index b) i;
     (case idx_ptr of
        None \<Rightarrow> Some (report i Rejected 0 0 UnknownOrder, b, w)
      | Some idx \<Rightarrow>
          if new_quantity \<le> 0 then Some (report i Rejected 0 0 InvalidQuantity, b, w)
          else do {
            nd \<leftarrow> pool_get (b_pool b) idx;
            let snapshot = n_order nd;
            let price_changed = (case new_price of None \<Rightarrow> False | Some p \<Rightarrow> p \<noteq> o_price snapshot);
            let quantity_increased = new_quantity > o_remaining_quantity snapshot;
            if \<not> price_changed \<and> \<not> quantity_increased then do {
              level \<leftarrow> omap_find (o_price snapshot) (if o_side snapshot = Buy then mb_bids b else mb_asks b);
              delta \<leftarrow> chk64 (o_remaining_quantity snapshot - new_quantity);
              (level, p) \<leftarrow> level_reduce_quantity level (b_pool b) idx delta;
              let b = (if o_side snapshot = Buy
                then b\<lparr>b_pool := p, mb_bids := omap_set (o_price snapshot) level (mb_bids b)\<rparr>
                else b\<lparr>b_pool := p, mb_asks := omap_set (o_price snapshot) level (mb_asks b)\<rparr>);
              Some (report i New 0 new_quantity NoReason, b, w) }
            else do {
              (_, b) \<leftarrow> map_cancel_order i b;
              let (ts, w) = now_ns w;
              let replacement = snapshot\<lparr>o_price := (case new_price of None \<Rightarrow> o_price snapshot | Some p \<Rightarrow> p),
                o_quantity := new_quantity, o_remaining_quantity := new_quantity, o_timestamp := ts\<rparr>;
              map_add_order replacement b w } }) }"

definition entry_view :: "Price \<times> PriceLevel \<Rightarrow> PriceLevelView" where
  "entry_view kv = \<lparr>v_price = fst kv, v_total_quantity = l_total_quantity (snd kv), v_order_count = l_order_count (snd kv)\<rparr>"

definition map_bid_depth :: "nat \<Rightarrow> OrderBookMap \<Rightarrow> PriceLevelView list" where
  "map_bid_depth n b = map entry_view (take n (mb_bids b))"

definition map_ask_depth :: "nat \<Rightarrow> OrderBookMap \<Rightarrow> PriceLevelView list" where
  "map_ask_depth n b = map entry_view (take n (mb_asks b))"

definition map_reset :: "OrderBookMap \<Rightarrow> OrderBookMap" where
  "map_reset b = b\<lparr>mb_bids := [], mb_asks := [], b_pool := pool_reset (b_pool b), b_id_index := id_clear (b_id_index b)\<rparr>"

definition map_bid_level_count :: "OrderBookMap \<Rightarrow> nat" where
  "map_bid_level_count b = length (mb_bids b)"

definition map_ask_level_count :: "OrderBookMap \<Rightarrow> nat" where
  "map_ask_level_count b = length (mb_asks b)"

section \<open>The container\<close>

definition keyed :: "PriceLevel list \<Rightarrow> PriceLevel omap" where
  "keyed lvs = map (\<lambda>l. (l_price l, l)) lvs"

definition map_entries :: "OrderBookMap \<Rightarrow> Side \<Rightarrow> PriceLevel omap" where
  "map_entries b = (\<lambda>s. if s = Buy then mb_bids b else mb_asks b)"

definition map_set_entries :: "Side \<Rightarrow> PriceLevel omap \<Rightarrow> OrderBookMap \<Rightarrow> OrderBookMap" where
  "map_set_entries s m b = (if s = Buy then b\<lparr>mb_bids := m\<rparr> else b\<lparr>mb_asks := m\<rparr>)"

definition map_levels :: "OrderBookMap \<Rightarrow> sides" where
  "map_levels b = (\<lambda>s. map snd (map_entries b s))"

text \<open>Every key is the price of its level, and the keys are in strict priority order.\<close>

definition map_ok :: "OrderBookMap \<Rightarrow> bool" where
  "map_ok b \<longleftrightarrow> (\<forall>s. map_entries b s = keyed (map_levels b s)
     \<and> sorted_wrt (\<lambda>x y. better s (l_price x) (l_price y)) (map_levels b s))"

lemma keyed_simps [simp]: "keyed [] = []" "keyed (l # ls) = (l_price l, l) # keyed ls" "keyed (xs @ ys) = keyed xs @ keyed ys"
  "map snd (keyed lvs) = lvs" "keyed lvs = [] \<longleftrightarrow> lvs = []"
  by (auto simp: keyed_def comp_def)

lemma map_entries_set [simp]: "map_entries (map_set_entries s m b) = (map_entries b)(s := m)"
proof (rule ext)
  show "map_entries (map_set_entries s m b) u = ((map_entries b)(s := m)) u" for u
    by (cases u; cases s) (simp_all add: map_entries_def map_set_entries_def)
qed

lemma map_levels_set [simp]: "map_levels (map_set_entries s (keyed lvs) b) = (map_levels b)(s := lvs)"
  by (simp add: map_levels_def fun_eq_iff)

lemma map_entries_core [simp]:
  "map_entries (b\<lparr>b_pool := p\<rparr>) = map_entries b" "map_entries (b\<lparr>b_id_index := m\<rparr>) = map_entries b"
  by (simp_all add: map_entries_def fun_eq_iff)

lemma map_set_entries_core [simp]:
  "b_pool (map_set_entries s m b) = b_pool b" "b_id_index (map_set_entries s m b) = b_id_index b"
  "b_symbol (map_set_entries s m b) = b_symbol b" "b_trade_callback (map_set_entries s m b) = b_trade_callback b"
  "b_stp_policy (map_set_entries s m b) = b_stp_policy b"
  by (simp_all add: map_set_entries_def)

lemma map_ok_core [simp]: "map_ok (b\<lparr>b_pool := p\<rparr>) = map_ok b" "map_ok (b\<lparr>b_id_index := m\<rparr>) = map_ok b"
    "map_levels (b\<lparr>b_pool := p\<rparr>) = map_levels b" "map_levels (b\<lparr>b_id_index := m\<rparr>) = map_levels b"
  by (simp_all add: map_ok_def map_levels_def)

lemma map_step: 
  assumes "core_step b b1"
  shows "map_entries b1 = map_entries b" "map_levels b1 = map_levels b" "map_ok b1 = map_ok b"
  using assms unfolding core_step_def by (metis map_entries_core, metis map_ok_core(3,4), metis map_ok_core(1,2))

lemma map_okD: "map_ok b \<Longrightarrow> map_entries b s = keyed (map_levels b s)"
  by (simp add: map_ok_def)

lemma map_ok_sorted: "map_ok b \<Longrightarrow> map_levels b s = lvs \<Longrightarrow> sorted_wrt (\<lambda>x y. better s (l_price x) (l_price y)) lvs"
  by (auto simp: map_ok_def)

text \<open>Replacing the levels of one side keeps the map well-formed when they are in order.\<close>

lemma map_ok_set:
  assumes "map_ok b" "sorted_wrt (\<lambda>x y. better s (l_price x) (l_price y)) lvs"
  shows "map_ok (map_set_entries s (keyed lvs) b)"
  using assms by (simp add: map_ok_def)

lemma sorted_splice:
  assumes "sorted_wrt (\<lambda>x y. better s (l_price x) (l_price y)) (as @ lmid @ bs)"
    and "\<forall>a \<in> set as. better s (l_price a) pr" "\<forall>c \<in> set bs. better s pr (l_price c)" "\<forall>l \<in> set mid'. l_price l = pr" "length mid' \<le> 1"
  shows "sorted_wrt (\<lambda>x y. better s (l_price x) (l_price y)) (as @ mid' @ bs)"
  using assms by (cases mid') (auto simp: sorted_wrt_append)

lemma omap_ops:
  assumes "\<forall>a \<in> set as. l_price a \<noteq> pr" "\<forall>c \<in> set bs. l_price c \<noteq> pr" "l_price lv = pr"
  shows "omap_find pr (keyed (as @ lv # bs)) = Some lv"
    and "omap_erase pr (keyed (as @ lv # bs)) = keyed (as @ bs)"
    and "l_price lv' = pr \<Longrightarrow> omap_set pr lv' (keyed (as @ lv # bs)) = keyed (as @ lv' # bs)"
proof -
  have none: "map_of (keyed as) pr = None" "filter (\<lambda>kv. fst kv \<noteq> pr) (keyed as) = keyed as"
      "filter (\<lambda>kv. fst kv \<noteq> pr) (keyed bs) = keyed bs" "omap_set pr v (keyed as) = keyed as" "omap_set pr v (keyed bs) = keyed bs" for v
    using assms(1,2) by (auto simp: map_of_eq_None_iff keyed_def filter_id_conv omap_set_def)
  show "omap_find pr (keyed (as @ lv # bs)) = Some lv"
    using none(1) assms(3) by (simp add: omap_find_def map_add_def)
  show "omap_erase pr (keyed (as @ lv # bs)) = keyed (as @ bs)"
    using none(2,3) assms(3) by (simp add: omap_erase_def)
  show "l_price lv' = pr \<Longrightarrow> omap_set pr lv' (keyed (as @ lv # bs)) = keyed (as @ lv' # bs)"
    using none(4,5) assms(3) by (simp add: omap_set_def)
qed

lemma emplace_joins:
  assumes "\<forall>a \<in> set as. better s (l_price a) pr" "\<forall>c \<in> set bs. better s pr (l_price c)" "joins lmid pr lv"
  shows "map_open_level (better s) pr (keyed (as @ lmid @ bs)) = keyed (as @ lv # bs)"
proof -
  have skip: "omap_try_emplace (better s) pr v (keyed (as @ m)) =
      (fst (omap_try_emplace (better s) pr v (keyed m)), keyed as @ snd (omap_try_emplace (better s) pr v (keyed m)))" for v m
    using assms(1) by (induction as) (auto simp: split_def Let_def)
  have other: "\<forall>a \<in> set as. l_price a \<noteq> pr" "\<forall>c \<in> set bs. l_price c \<noteq> pr" using assms(1,2) better_irrefl(1) by metis+
  show ?thesis
  proof (cases "lmid = []")
    case True
    have "omap_try_emplace (better s) pr empty_level (keyed bs) = (True, (pr, empty_level) # keyed bs)"
      using assms(2) better_irrefl(2) by (cases bs) auto
    moreover have "omap_set pr (empty_level\<lparr>l_price := pr\<rparr>) (keyed as @ (pr, empty_level) # keyed bs) = keyed as @ (pr, empty_level\<lparr>l_price := pr\<rparr>) # keyed bs"
      using other by (auto simp: omap_set_def keyed_def)
    moreover have "lv = empty_level\<lparr>l_price := pr\<rparr>" "l_price lv = pr" using assms(3) True by (auto simp: joins_def)
    ultimately show ?thesis using True skip [of empty_level bs] by (simp add: map_open_level_def)
  next
    case False
    then have "lmid = [lv]" "l_price lv = pr" using assms(3) by (auto simp: joins_def)
    then show ?thesis using skip [of empty_level "lv # bs"] by (simp add: map_open_level_def)
  qed
qed

section \<open>The map book is a level book\<close>

definition map_put :: "Side \<Rightarrow> Price \<Rightarrow> PriceLevel \<Rightarrow> OrderBookMap \<Rightarrow> OrderBookMap" where
  "map_put s pr lv b = map_set_entries s
     (if level_empty lv then omap_erase pr (map_entries b s) else omap_set pr lv (map_entries b s)) b"

lemma map_put_level_side: "map_put_level (s \<noteq> Buy) pr lv b = map_put s pr lv b"
  by (cases s) (simp_all add: map_put_level_def map_put_def map_set_entries_def map_entries_def)

lemma map_put_at:
  assumes ok: "map_ok b" and lv: "map_levels b s = as @ lv # bs" "l_price lv' = l_price lv"
  shows "map_put s (l_price lv) lv' b = map_set_entries s (keyed (as @ (if level_empty lv' then bs else lv' # bs))) b"
    "map_ok (map_put s (l_price lv) lv' b)"
    "map_levels (map_put s (l_price lv) lv' b) = (map_levels b)(s := as @ (if level_empty lv' then bs else lv' # bs))"
proof -
  have srt: "sorted_wrt (\<lambda>x y. better s (l_price x) (l_price y)) (as @ [lv] @ bs)" using map_ok_sorted [OF ok lv(1)] by simp
  then have near: "\<forall>a \<in> set as. better s (l_price a) (l_price lv)" "\<forall>c \<in> set bs. better s (l_price lv) (l_price c)"
    by (auto simp: sorted_wrt_append)
  then have other: "\<forall>a \<in> set as. l_price a \<noteq> l_price lv" "\<forall>c \<in> set bs. l_price c \<noteq> l_price lv" using better_irrefl(1) by metis+
  show eq: "map_put s (l_price lv) lv' b = map_set_entries s (keyed (as @ (if level_empty lv' then bs else lv' # bs))) b"
    using omap_ops(2,3) [OF other refl] lv map_okD [OF ok, of s] by (simp add: map_put_def)
  have "sorted_wrt (\<lambda>x y. better s (l_price x) (l_price y)) (as @ (if level_empty lv' then [] else [lv']) @ bs)"
    by (rule sorted_splice [OF srt near]) (use lv(2) in auto)
  then show "map_ok (map_put s (l_price lv) lv' b)" unfolding eq by (intro map_ok_set [OF ok]) (auto split: if_splits)
  show "map_levels (map_put s (l_price lv) lv' b) = (map_levels b)(s := as @ (if level_empty lv' then bs else lv' # bs))"
    unfolding eq by (rule map_levels_set)
qed

lemma map_put_core [simp]:
  "b_pool (map_put s pr lv b) = b_pool b" "b_id_index (map_put s pr lv b) = b_id_index b"
  "b_symbol (map_put s pr lv b) = b_symbol b" "b_trade_callback (map_put s pr lv b) = b_trade_callback b"
  "b_stp_policy (map_put s pr lv b) = b_stp_policy b"
  by (simp_all add: map_put_def)

lemma map_match_side:
  assumes ok: "map_ok b"
  shows "map_match_against_book t b w =
      (if 0 < rq t then
        (case map_levels b (opposite (o_side t)) of
           [] \<Rightarrow> Some (False, t, b, w)
         | lv # lvs \<Rightarrow>
             if \<not> price_ok t (l_price lv) then Some (False, t, b, w)
             else do {
               (k, t1, lv', b1, w1) \<leftarrow> drain_level (l_price lv) t lv b w;
               b2 \<leftarrow> Some (map_put (opposite (o_side t)) (l_price (hd (map_levels b (opposite (o_side t))))) lv' b1);
               if k then Some (True, t1, b2, w1) else map_match_against_book t1 b2 w1 })
       else Some (False, t, b, w))"
  using map_okD [OF ok, of Buy] map_okD [OF ok, of Sell] map_put_level_side [of Buy] map_put_level_side [of Sell]
  by (subst map_match_against_book.simps, cases "o_side t"; cases "map_levels b (opposite (o_side t))")
    (auto simp: map_entries_def price_ok_Limit Let_def)

interpretation mm: level_matcher map_ok map_levels "\<lambda>b p. True"
  "\<lambda>s b0 lv b. Some (map_put s (l_price (hd (map_levels b0 s))) lv b)" map_match_against_book
proof
  fix b s lv lvs b1 and lv' :: PriceLevel
  assume a: "map_ok b" "map_levels b s = lv # lvs" "core_step b b1" "l_price lv' = l_price lv"
  then have "map_ok b1" "map_levels b1 s = [] @ lv # lvs" using map_step [OF a(3)] by auto
  note put = map_put_at [OF this a(4)]
  show "\<exists>b2. Some (map_put s (l_price (hd (map_levels b s))) lv' b1) = Some b2 \<and> map_ok b2
      \<and> map_levels b2 = (map_levels b)(s := if level_empty lv' then lvs else lv' # lvs)
      \<and> (\<lambda>p. True) = (\<lambda>p. True) \<and> b_pool b2 = b_pool b1 \<and> b_id_index b2 = b_id_index b1 \<and> b_symbol b2 = b_symbol b1
        \<and> b_trade_callback b2 = b_trade_callback b1 \<and> b_stp_policy b2 = b_stp_policy b1"
    using put(2,3) map_step(2) [OF a(3)] a(2) by simp
qed (rule map_match_side)

lemma map_crosses_levels:
  assumes "map_ok b" "o_type ord = Limit"
  shows "map_crosses ord b \<longleftrightarrow> map_levels b (opposite (o_side ord)) \<noteq> []
    \<and> price_ok ord (l_price (hd (map_levels b (opposite (o_side ord)))))"
  using assms(2) map_okD [OF assms(1), of "opposite (o_side ord)"]
  by (cases "o_side ord"; cases "map_levels b (opposite (o_side ord))")
    (auto simp: map_crosses_def map_best_ask_def map_best_bid_def map_entries_def price_ok_def)

lemma map_accumulate_keyed:
  "map_accumulate stop needed acc (keyed lvs) = accumulate (\<lambda>lv. stop (l_price lv)) needed acc lvs"
  by (induction lvs arbitrary: acc) (auto intro!: Option.bind_cong)

lemma map_liquidity:
  assumes "map_ok b" "rep_ok b (map_levels b)" "abook_ok (view b (map_levels b))" "0 < o_quantity ord"
  shows "map_has_liquidity_for (o_side ord) (o_type ord) (o_price ord) (o_quantity ord) b =
    Some (o_quantity ord \<le> reachable_volume ord (side_of (opposite (o_side ord)) (view b (map_levels b))))"
  using levels_liquidity [OF assms(2-4)] map_okD [OF assms(1), of "opposite (o_side ord)"]
  by (cases "o_side ord") (simp_all add: map_has_liquidity_for_def map_entries_def map_accumulate_keyed price_ok_def not_le)

lemma map_rest_order_side:
  "map_rest_order ord b = do {
     (idx, p) \<leftarrow> acquire (b_pool b) ord;
     let m = map_open_level (better (o_side ord)) (o_price ord) (map_entries b (o_side ord));
     lv \<leftarrow> omap_find (o_price ord) m;
     (lv, p) \<leftarrow> level_push_back lv p idx;
     (_, ix) \<leftarrow> id_insert (b_id_index b) (o_id ord) idx;
     Some ((map_set_entries (o_side ord) (omap_set (o_price ord) lv m) b)\<lparr>b_pool := p, b_id_index := ix\<rparr>) }"
proof -
  have cmp: "better Buy = (\<lambda>x y. y < x)" "better Sell = (\<lambda>x y. x < y)" by (simp_all add: fun_eq_iff)
  show ?thesis
    by (cases "o_side ord")
      (auto simp: map_rest_order_def map_entries_def map_set_entries_def Let_def cmp intro!: Option.bind_cong split: prod.splits)
qed

lemma map_rest:
  assumes cok: "map_ok b" and rep: "rep_ok b (map_levels b)" and ok: "abook_ok (view b (map_levels b))"
    and room: "length (nodes b) < unat kNullIndex"
    and new: "o_id ord \<noteq> kInvalidOrderId" "o_id ord \<notin> ids (view b (map_levels b))"
    and q: "0 < rq ord" "volume (side_of (o_side ord) (view b (map_levels b))) + rq ord \<le> i64_max"
  shows "\<exists>b'. map_rest_order ord b = Some b' \<and> moved map_ok map_levels (\<lambda>b p. True) b
    (set_side (o_side ord) (place (o_side ord) ord (side_of (o_side ord) (view b (map_levels b)))) (view b (map_levels b))) 1 b'"
proof -
  let ?s = "o_side ord"
  obtain as lmid bs lv x p lv' p' m where r: "map_levels b ?s = as @ lmid @ bs" "joins lmid (o_price ord) lv"
    "\<forall>a \<in> set as. better ?s (l_price a) (o_price ord)" "\<forall>c \<in> set bs. better ?s (o_price ord) (l_price c)"
    "acquire (b_pool b) ord = Some (x, p)" "level_push_back lv p x = Some (lv', p')"
    "id_insert (b_id_index b) (o_id ord) x = Some (True, m)" "l_price lv' = o_price ord" "\<not> level_empty lv'"
    "leads_to map_levels b ((map_levels b)(?s := as @ lv' # bs)) p' m
      (set_side ?s (place ?s ord (side_of ?s (view b (map_levels b)))) (view b (map_levels b))) 1"
    by (rule rest_step [of b map_levels ord, OF rep ok room new q])
  have other: "\<forall>a \<in> set as. l_price a \<noteq> o_price ord" "\<forall>c \<in> set bs. l_price c \<noteq> o_price ord" "l_price lv = o_price ord"
    using r(2-4) better_irrefl(1) by (metis, metis, simp add: joins_def)
  note ops = omap_ops(1,3) [OF other]
  have "map_open_level (better ?s) (o_price ord) (map_entries b ?s) = keyed (as @ lv # bs)"
    using emplace_joins [OF r(3,4,2)] map_okD [OF cok, of ?s] r(1) by simp
  then have run: "map_rest_order ord b = Some ((map_set_entries ?s (keyed (as @ lv' # bs)) b)\<lparr>b_pool := p', b_id_index := m\<rparr>)"
    using r(5-8) ops by (simp add: map_rest_order_side Let_def)
  have "sorted_wrt (\<lambda>x y. better ?s (l_price x) (l_price y)) (as @ [lv'] @ bs)"
    by (rule sorted_splice [OF map_ok_sorted [OF cok r(1)] r(3,4)]) (use r(8) in auto)
  then have "map_ok (map_set_entries ?s (keyed (as @ lv' # bs)) b)" by (intro map_ok_set [OF cok]) simp
  then have "moved map_ok map_levels (\<lambda>b p. True) b
      (set_side ?s (place ?s ord (side_of ?s (view b (map_levels b)))) (view b (map_levels b))) 1
      ((map_set_entries ?s (keyed (as @ lv' # bs)) b)\<lparr>b_pool := p', b_id_index := m\<rparr>)"
    by (intro leads_toD [OF r(10)]) (simp_all add: core_becomes_def del: keyed_simps(2,3))
  then show ?thesis using run by blast
qed

lemma map_cancel_order_side:
  assumes "id_find (b_id_index b) i = Some (Some x)" "pool_get (b_pool b) x = Some nd"
    and "omap_find (o_price (n_order nd)) (map_entries b (o_side (n_order nd))) = Some lv"
  shows "map_cancel_order i b = do {
     q \<leftarrow> chk64 (l_total_quantity lv - o_remaining_quantity (n_order nd));
     (lv, p) \<leftarrow> level_unlink (lv\<lparr>l_total_quantity := q\<rparr>) (b_pool b) x;
     p \<leftarrow> release p x;
     (_, m) \<leftarrow> id_erase (b_id_index b) i;
     Some (True, (map_put (o_side (n_order nd)) (o_price (n_order nd)) lv b)\<lparr>b_pool := p, b_id_index := m\<rparr>) }"
  using assms
  by (auto simp: map_cancel_order_def map_entries_def Let_def map_put_level_side intro!: Option.bind_cong split: prod.splits)

lemma map_level_found:
  assumes "map_ok b" "map_levels b s = as @ lv # bs"
    "\<forall>a \<in> set as. better s (l_price a) (l_price lv)" "\<forall>c \<in> set bs. better s (l_price lv) (l_price c)"
  shows "omap_find (l_price lv) (map_entries b s) = Some lv"
  using omap_ops(1) [of as "l_price lv" bs lv] assms(2-4) better_irrefl(1) unfolding map_okD [OF assms(1)] by metis

lemma map_cancel:
  assumes cok: "map_ok b" and rep: "rep_ok b (map_levels b)" and ok: "abook_ok (view b (map_levels b))"
  shows "\<exists>b'. map_cancel_order i b = Some (fst (spec_cancel i (view b (map_levels b))), b') \<and>
    moved map_ok map_levels (\<lambda>b p. True) b (snd (spec_cancel i (view b (map_levels b)))) 0 b'"
proof (cases "id_lookup (b_id_index b) i")
  case None
  then have "map_cancel_order i b = Some (False, b)" using id_find_view [OF rep] by (simp add: map_cancel_order_def)
  then show ?thesis using cancel_unknown [of map_ok b map_levels, OF cok rep None] by auto
next
  case (Some x)
  let ?s = "o_side (ord_at (nodes b) x)"
  obtain as lv bs lv' p1 p2 m where v: "map_levels b ?s = as @ lv # bs" "l_price lv = o_price (ord_at (nodes b) x)"
    "\<forall>a \<in> set as. better ?s (l_price a) (l_price lv)" "\<forall>c \<in> set bs. better ?s (l_price lv) (l_price c)"
    "pool_get (b_pool b) x = Some (node_at (nodes b) x)"
    "in_i64 (l_total_quantity lv - rem_at (nodes b) x)"
    "level_unlink (lv\<lparr>l_total_quantity := l_total_quantity lv - rem_at (nodes b) x\<rparr>) (b_pool b) x = Some (lv', p1)"
    "release p1 x = Some p2" "id_erase (b_id_index b) i = Some (True, m)" "l_price lv' = l_price lv"
    "level_empty lv' \<longrightarrow> lv' = empty_level\<lparr>l_price := l_price lv\<rparr>"
    "leads_to map_levels b ((map_levels b)(?s := as @ (if level_empty lv' then bs else lv' # bs))) p2 m
      (remove_id i (view b (map_levels b))) 0"
    by (rule cancel_step [of b map_levels, OF rep ok Some])
  let ?b = "(map_put ?s (l_price lv) lv' b)\<lparr>b_pool := p2, b_id_index := m\<rparr>"
  have "map_cancel_order i b = Some (True, ?b)"
    using map_cancel_order_side [OF _ v(5) map_level_found [OF cok v(1,3,4), unfolded v(2)], of i] id_find_view [OF rep] Some v(2,6-9)
    by (simp add: ub_simps)
  moreover have "moved map_ok map_levels (\<lambda>b p. True) b (remove_id i (view b (map_levels b))) 0 ?b"
    by (rule leads_toD [OF v(12)]) (use map_put_at(2,3) [OF cok v(1,10)] in \<open>simp_all add: core_becomes_def\<close>)
  ultimately show ?thesis using cancel_known [OF rep Some] by auto
qed

text \<open>The in-place branch of \<open>amend_order\<close>.\<close>

definition map_shrink :: "Order \<Rightarrow> u32 \<Rightarrow> Quantity \<Rightarrow> OrderBookMap \<Rightarrow> OrderBookMap option" where
  "map_shrink snapshot idx new_quantity b = do {
     level \<leftarrow> omap_find (o_price snapshot) (map_entries b (o_side snapshot));
     delta \<leftarrow> chk64 (o_remaining_quantity snapshot - new_quantity);
     (level, p) \<leftarrow> level_reduce_quantity level (b_pool b) idx delta;
     Some ((map_set_entries (o_side snapshot) (omap_set (o_price snapshot) level (map_entries b (o_side snapshot))) b)\<lparr>b_pool := p\<rparr>) }"

lemma map_shrinks:
  assumes cok: "map_ok b" and rep: "rep_ok b (map_levels b)" and ok: "abook_ok (view b (map_levels b))"
    and x: "id_lookup (b_id_index b) i = Some x" and q: "0 < q" "q \<le> rem_at (nodes b) x"
  shows "\<exists>b'. map_shrink (ord_at (nodes b) x) x q b = Some b' \<and>
    moved map_ok map_levels (\<lambda>b p. True) b (resize_book i q (view b (map_levels b))) 0 b'"
proof -
  let ?s = "o_side (ord_at (nodes b) x)"
  obtain as lv bs lv' p' where v: "map_levels b ?s = as @ lv # bs" "l_price lv = o_price (ord_at (nodes b) x)"
    "\<forall>a \<in> set as. better ?s (l_price a) (l_price lv)" "\<forall>c \<in> set bs. better ?s (l_price lv) (l_price c)"
    "in_i64 (rem_at (nodes b) x - q)"
    "level_reduce_quantity lv (b_pool b) x (rem_at (nodes b) x - q) = Some (lv', p')" "l_price lv' = l_price lv" "\<not> level_empty lv'"
    "leads_to map_levels b ((map_levels b)(?s := as @ lv' # bs)) p' (b_id_index b) (resize_book i q (view b (map_levels b))) 0"
    by (rule shrink_step [of b map_levels, OF rep ok x q])
  note put = map_put_at [OF cok v(1,7)]
  let ?b = "(map_put ?s (l_price lv) lv' b)\<lparr>b_pool := p'\<rparr>"
  have "map_shrink (ord_at (nodes b) x) x q b = Some ?b"
    using v(5,6,8) map_level_found [OF cok v(1,3,4)] by (simp add: map_shrink_def map_put_def ub_simps v(2))
  moreover have "moved map_ok map_levels (\<lambda>b p. True) b (resize_book i q (view b (map_levels b))) 0 ?b"
    by (rule leads_toD [OF v(9)]) (use put(2,3) v(8) in \<open>simp_all add: core_becomes_def\<close>)
  ultimately show ?thesis by blast
qed

lemma map_add_eq:
  "map_add_order ord b w = add_with (\<lambda>p. True) map_crosses map_has_liquidity_for map_match_against_book map_rest_order
     (b_id_index b) ord b w"
  by (simp only: map_add_order_def add_with_def Let_def simp_thms if_False)

lemma map_amend_eq:
  "map_amend_order i q np b w = amend_with (\<lambda>p. True) map_shrink map_cancel_order map_add_order i q np b w"
proof -
  have "(case np of None \<Rightarrow> True | Some p \<Rightarrow> p = pr) \<longleftrightarrow> \<not> (case np of None \<Rightarrow> False | Some p \<Rightarrow> p \<noteq> pr)" for pr
    by (cases np) auto
  then show ?thesis
    by (auto simp: map_amend_order_def amend_with_def map_shrink_def map_entries_def map_set_entries_def Let_def not_less
        intro!: Option.bind_cong split: option.splits prod.splits)
qed

interpretation mb: level_book map_ok map_levels "\<lambda>b p. True" map_crosses map_has_liquidity_for map_match_against_book
  map_rest_order map_shrink map_cancel_order map_add_order map_amend_order
  by unfold_locales
    (assumption | rule TrueI map_crosses_levels map_liquidity mm.match_refines map_rest map_shrinks map_cancel map_add_eq map_amend_eq)+

section \<open>The contract of the map book\<close>

definition map_abs :: "OrderBookMap \<Rightarrow> ABook" where
  "map_abs b = view b (map_levels b)"

definition map_inv :: "OrderBookMap \<Rightarrow> bool" where
  "map_inv b \<longleftrightarrow> map_ok b \<and> rep_ok b (map_levels b) \<and> abook_ok (map_abs b)"

lemma map_inv_linv: "mb.linv = map_inv"
  by (simp add: fun_eq_iff mb.linv_def map_inv_def map_abs_def)

lemma map_empty:
  assumes "mb_bids b = []" "mb_asks b = []" "pool_ok (b_pool b)" "nodes b = []" "id_inv (b_id_index b)"
    "id_lookup (b_id_index b) = Map.empty"
  shows "map_inv b" "map_abs b = empty_abook"
proof -
  have e: "map_levels b = (\<lambda>s. [])" "map_entries b = (\<lambda>s. [])" using assms(1,2) by (simp_all add: map_levels_def map_entries_def fun_eq_iff)
  then show "map_abs b = empty_abook" "map_inv b"
    using view_empty [OF assms(3-6)] empty_abook_ok by (simp_all add: map_inv_def map_abs_def map_ok_def)
qed

lemma map_new_ok: "map_inv (map_new symb hint stp)" "map_abs (map_new symb hint stp) = empty_abook"
  using map_empty [of "map_new symb hint stp"] by (simp_all add: map_new_def id_new_inv id_new_lookup pool_new_ok)

lemma map_reset_ok: "map_inv b \<Longrightarrow> map_inv (map_reset b)" "map_inv b \<Longrightarrow> map_abs (map_reset b) = empty_abook"
proof -
  assume "map_inv b"
  then have "core_ok b (live_slots (queues_of b (map_levels b)))"
    using book_repD(4) by (auto simp: map_inv_def rep_ok_def)
  then have "pool_ok (b_pool b)" "id_inv (b_id_index b)" by (rule core_okD)+
  then show "map_inv (map_reset b)" "map_abs (map_reset b) = empty_abook"
    using map_empty [of "map_reset b"] by (simp_all add: map_reset_def pool_reset_ok id_clear_inv id_clear_lookup)
qed

lemma map_best:
  assumes "map_inv b"
  shows "map_best_bid b = best_price (a_bids (map_abs b))" "map_best_ask b = best_price (a_asks (map_abs b))"
proof -
  have "map_entries b s = keyed (map_levels b s)" for s using assms map_okD by (simp add: map_inv_def)
  note e = this [of Buy] this [of Sell] and h = view_head [of b "map_levels b" Buy] view_head [of b "map_levels b" Sell]
  show "map_best_bid b = best_price (a_bids (map_abs b))" "map_best_ask b = best_price (a_asks (map_abs b))"
    using e h assms by (cases "map_levels b Buy"; cases "map_levels b Sell";
        simp add: map_inv_def map_abs_def best_price_def map_best_bid_def map_best_ask_def map_entries_def)+
qed

lemma map_depth_ok:
  assumes "map_inv b"
  shows "map_bid_depth n b = take n (depth_of (a_bids (map_abs b)))" "map_ask_depth n b = take n (depth_of (a_asks (map_abs b)))"
proof -
  have eq: "map entry_view (keyed lvs) = map level_view lvs" for lvs by (simp add: keyed_def entry_view_def level_view_def)
  have "rep_ok b (map_levels b)" "\<And>s. map_entries b s = keyed (map_levels b s)" using assms map_okD by (auto simp: map_inv_def)
  note d = levels_depth [OF this(1), of Buy] levels_depth [OF this(1), of Sell] and e = this(2) [of Buy] this(2) [of Sell]
  show "map_bid_depth n b = take n (depth_of (a_bids (map_abs b)))" "map_ask_depth n b = take n (depth_of (a_asks (map_abs b)))"
    using d e by (simp_all add: map_bid_depth_def map_ask_depth_def map_entries_def map_abs_def eq flip: take_map)
qed

end
