(* ===== verification/Bitset_Utils.thy ===== *)
theory Bitset_Utils
  imports LOB_Prelude
begin

text \<open>
  \<open>include/lightninglob/bitset_utils.hpp\<close>: the occupancy bitmap with word-at-a-time searches.

  A bitmap stands for the set of its set positions (\<open>bits\<close>); the operations are shown to be set
  operations, and the two searches to give the nearest member above or below.  The contract is the locale
  \<open>bit_store\<close>; its lemmas say that stepping with the searches enumerates the members in order.
\<close>

section \<open>Model\<close>

record Bitset =
  bs_num_bits :: nat
  bs_words :: "u64 list"

abbreviation kBitsPerWord :: nat where
  "kBitsPerWord \<equiv> 64"

definition bitset_new :: "nat \<Rightarrow> Bitset" where
  "bitset_new num_bits = \<lparr>bs_num_bits = num_bits,
     bs_words = replicate ((num_bits + kBitsPerWord - 1) div kBitsPerWord) 0\<rparr>"

definition bitset_set :: "Bitset \<Rightarrow> nat \<Rightarrow> Bitset option" where
  "bitset_set B index = do {
     oassert (index < bs_num_bits B);
     w \<leftarrow> vget (bs_words B) (index div kBitsPerWord);
     ws \<leftarrow> vset (bs_words B) (index div kBitsPerWord) (w OR push_bit (index mod kBitsPerWord) 1);
     Some (B\<lparr>bs_words := ws\<rparr>) }"

definition bitset_clear :: "Bitset \<Rightarrow> nat \<Rightarrow> Bitset option" where
  "bitset_clear B index = do {
     oassert (index < bs_num_bits B);
     w \<leftarrow> vget (bs_words B) (index div kBitsPerWord);
     ws \<leftarrow> vset (bs_words B) (index div kBitsPerWord) (w AND NOT (push_bit (index mod kBitsPerWord) 1));
     Some (B\<lparr>bs_words := ws\<rparr>) }"

definition bitset_test :: "Bitset \<Rightarrow> nat \<Rightarrow> bool option" where
  "bitset_test B index = do {
     oassert (index < bs_num_bits B);
     w \<leftarrow> vget (bs_words B) (index div kBitsPerWord);
     Some (w AND push_bit (index mod kBitsPerWord) 1 \<noteq> 0) }"

definition bitset_count :: "Bitset \<Rightarrow> nat" where
  "bitset_count B = (\<Sum>w\<leftarrow>bs_words B. popcount w)"

text \<open>The loop of \<open>find_next_set\<close>.\<close>

function scan_up :: "u64 list \<Rightarrow> nat \<Rightarrow> nat \<Rightarrow> u64 \<Rightarrow> nat option" where
  "scan_up ws num_bits word_idx word =
     (if word \<noteq> 0 then let pos = word_idx * kBitsPerWord + countr_zero word in if pos < num_bits then Some pos else None
      else if word_idx + 1 \<ge> length ws then None
      else scan_up ws num_bits (word_idx + 1) (ws ! (word_idx + 1)))"
  by pat_completeness auto
termination
  by (relation "measure (\<lambda>(ws, num_bits, word_idx, word). length ws - word_idx)") auto

definition find_next_set :: "Bitset \<Rightarrow> nat \<Rightarrow> nat option option" where
  "find_next_set B from =
     (if from \<ge> bs_num_bits B then Some None
      else do {
        let word_idx = from div kBitsPerWord;
        let bit_off = from mod kBitsPerWord;
        w \<leftarrow> vget (bs_words B) word_idx;
        Some (scan_up (bs_words B) (bs_num_bits B) word_idx (w AND push_bit bit_off (NOT 0))) })"

text \<open>The loop of \<open>find_prev_set\<close>.\<close>

fun scan_down :: "u64 list \<Rightarrow> nat \<Rightarrow> u64 \<Rightarrow> nat option" where
  "scan_down ws word_idx word =
     (if word \<noteq> 0 then Some (word_idx * kBitsPerWord + (kBitsPerWord - 1 - countl_zero word))
      else (case word_idx of 0 \<Rightarrow> None | Suc i \<Rightarrow> scan_down ws i (ws ! i)))"

definition find_prev_set :: "Bitset \<Rightarrow> nat \<Rightarrow> nat option option" where
  "find_prev_set B from =
     (if bs_words B = [] \<or> from \<ge> bs_num_bits B then Some None
      else do {
        let word_idx = from div kBitsPerWord;
        let bit_off = from mod kBitsPerWord;
        let mask = (if bit_off = kBitsPerWord - 1 then NOT 0 else push_bit (bit_off + 1) 1 - 1);
        w \<leftarrow> vget (bs_words B) word_idx;
        Some (scan_down (bs_words B) word_idx (w AND mask)) })"

declare scan_up.simps [simp del] scan_down.simps [simp del]

section \<open>Bits of a word\<close>

lemma word_nonzero_bit: "(w :: u64) \<noteq> 0 \<Longrightarrow> \<exists>i < 64. bit w i"
  using bit_word_eqI [of w 0] by auto

lemma countr_zero_least:
  assumes "w \<noteq> 0"
  shows "bit w (countr_zero w)" "countr_zero w < 64" "\<And>j. bit w j \<Longrightarrow> countr_zero w \<le> j"
proof -
  define i where "i = (LEAST i. bit w i)"
  obtain k where k: "k < 64" "bit w k" using word_nonzero_bit [OF assms] by blast
  have i: "bit w i" "\<And>j. bit w j \<Longrightarrow> i \<le> j" unfolding i_def using k(2) by (auto intro: LeastI Least_le)
  have "i < 64" using i(2) [OF k(2)] k(1) by simp
  then have "countr_zero w = i" unfolding countr_zero_def
    using i by (intro takeWhile_upt_length) (auto simp: not_le [symmetric])
  then show "bit w (countr_zero w)" "countr_zero w < 64" "\<And>j. bit w j \<Longrightarrow> countr_zero w \<le> j"
    using i \<open>i < 64\<close> by auto
qed

lemma countl_zero_greatest:
  assumes "w \<noteq> 0"
  shows "bit w (63 - countl_zero w)" "\<And>j. bit w j \<Longrightarrow> j \<le> 63 - countl_zero w" "countl_zero w < 64"
proof -
  define i where "i = Max {i. bit w i}"
  have fin: "finite {i. bit w i}" "{i. bit w i} \<noteq> {}" "\<And>j. bit w j \<Longrightarrow> j < 64"
    using word_nonzero_bit [OF assms] by (auto dest: bit_imp_le_length intro: finite_subset [of _ "{..<64}"])
  have i: "bit w i" "\<And>j. bit w j \<Longrightarrow> j \<le> i" using Max_in [OF fin(1,2)] Max_ge [OF fin(1)] by (auto simp: i_def)
  have small: "i < 64" using fin(3) i(1) by blast
  have "countl_zero w = 63 - i" unfolding countl_zero_def
  proof (rule takeWhile_upt_length)
    show "\<not> bit w (63 - j)" if "j < 63 - i" for j using i(2) [of "63 - j"] that by auto
  qed (use i(1) small in auto)
  then show "bit w (63 - countl_zero w)" "\<And>j. bit w j \<Longrightarrow> j \<le> 63 - countl_zero w" "countl_zero w < 64"
    using i small by auto
qed

lemma popcount_card: "popcount w = card {i. bit w i}"
proof -
  have "{i. bit w i} = set (filter (bit w) [0..<64])" using bit_imp_le_length [of w] by auto
  then show ?thesis unfolding popcount_def by (metis distinct_card distinct_filter distinct_upt)
qed

section \<open>Bitmaps as sets\<close>

definition word_bits :: "u64 list \<Rightarrow> nat set" where
  "word_bits ws = {i. i div 64 < length ws \<and> bit (ws ! (i div 64)) (i mod 64)}"

definition bits :: "Bitset \<Rightarrow> nat set" where
  "bits B = word_bits (bs_words B)"

definition bitset_ok :: "Bitset \<Rightarrow> bool" where
  "bitset_ok B \<longleftrightarrow> length (bs_words B) = (bs_num_bits B + 63) div 64 \<and> bits B \<subseteq> {..<bs_num_bits B}"

lemma bitset_word: "bitset_ok B \<Longrightarrow> i < bs_num_bits B \<Longrightarrow> i div 64 < length (bs_words B)"
  by (auto simp: bitset_ok_def)

lemma finite_bits: "bitset_ok B \<Longrightarrow> finite (bits B)"
  by (auto simp: bitset_ok_def intro: finite_subset)

lemma bits_update:
  assumes "i div 64 < length ws" "\<And>j. bit w j \<longleftrightarrow> (if j = i mod 64 then v else bit (ws ! (i div 64)) j)"
  shows "word_bits (ws[i div 64 := w]) = (if v then insert i (word_bits ws) else word_bits ws - {i})"
proof -
  have mem: "j \<in> word_bits (ws[i div 64 := w]) \<longleftrightarrow> (if j = i then v else j \<in> word_bits ws)" for j
  proof (cases "j div 64 = i div 64")
    case True
    have eq: "j = i \<longleftrightarrow> j mod 64 = i mod 64" using True by (metis mod_div_mult_eq)
    have "j \<in> word_bits (ws[i div 64 := w]) \<longleftrightarrow> bit w (j mod 64)" using True assms(1) by (simp add: word_bits_def)
    moreover have "j \<in> word_bits ws \<longleftrightarrow> bit (ws ! (i div 64)) (j mod 64)" using True assms(1) by (simp add: word_bits_def)
    ultimately show ?thesis unfolding eq assms(2) [of "j mod 64"] by simp
  next
    case False
    then have "j \<noteq> i" "i div 64 \<noteq> j div 64" by auto
    then show ?thesis by (simp add: word_bits_def)
  qed
  show ?thesis
  proof (rule set_eqI)
    show "j \<in> word_bits (ws[i div 64 := w]) \<longleftrightarrow> j \<in> (if v then insert i (word_bits ws) else word_bits ws - {i})" for j
      unfolding mem by (cases v) auto
  qed
qed

lemma bit_flip:
  fixes w :: u64
  assumes "k < 64"
  shows "bit (w OR push_bit k 1) j \<longleftrightarrow> (if j = k then True else bit w j)"
    and "bit (w AND NOT (push_bit k 1)) j \<longleftrightarrow> (if j = k then False else bit w j)"
    and "w AND push_bit k 1 \<noteq> 0 \<longleftrightarrow> bit w k"
proof -
  show "bit (w OR push_bit k 1) j \<longleftrightarrow> (if j = k then True else bit w j)"
    "bit (w AND NOT (push_bit k 1)) j \<longleftrightarrow> (if j = k then False else bit w j)"
    using assms bit_imp_le_length [of w j] by (auto simp: bit_simps)
  have "bit (w AND push_bit k 1) j \<longleftrightarrow> j = k \<and> bit w k" for j using assms by (auto simp: bit_simps)
  then show "w AND push_bit k 1 \<noteq> 0 \<longleftrightarrow> bit w k"
    by (metis bit_word_eqI bit_0_eq bot_apply bot_bool_def)
qed

lemma bitset_set_correct:
  assumes "bitset_ok B" "i < bs_num_bits B"
  shows "\<exists>B'. bitset_set B i = Some B' \<and> bitset_ok B' \<and> bits B' = insert i (bits B) \<and> bs_num_bits B' = bs_num_bits B"
proof -
  let ?w = "bs_words B ! (i div 64) OR push_bit (i mod 64) 1"
  have "bits (B\<lparr>bs_words := (bs_words B)[i div 64 := ?w]\<rparr>) = insert i (bits B)"
    using bits_update [OF bitset_word [OF assms], of ?w True] bit_flip(1) [of "i mod 64"] by (simp add: bits_def)
  then show ?thesis using assms bitset_word [OF assms]
    by (auto simp: bitset_set_def ub_simps bitset_ok_def)
qed

lemma bitset_clear_correct:
  assumes "bitset_ok B" "i < bs_num_bits B"
  shows "\<exists>B'. bitset_clear B i = Some B' \<and> bitset_ok B' \<and> bits B' = bits B - {i} \<and> bs_num_bits B' = bs_num_bits B"
proof -
  let ?w = "bs_words B ! (i div 64) AND NOT (push_bit (i mod 64) 1)"
  have "bits (B\<lparr>bs_words := (bs_words B)[i div 64 := ?w]\<rparr>) = bits B - {i}"
    using bits_update [OF bitset_word [OF assms], of ?w False] bit_flip(2) [of "i mod 64"] by (simp add: bits_def)
  then show ?thesis using assms bitset_word [OF assms]
    by (auto simp: bitset_clear_def ub_simps bitset_ok_def)
qed

lemma bitset_test_correct:
  assumes "bitset_ok B" "i < bs_num_bits B"
  shows "bitset_test B i = Some (i \<in> bits B)"
  using assms bitset_word [OF assms] bit_flip(3) [of "i mod 64"]
  by (simp add: bitset_test_def ub_simps bits_def word_bits_def)

section \<open>The searches\<close>

definition is_next :: "nat set \<Rightarrow> nat \<Rightarrow> nat option \<Rightarrow> bool" where
  "is_next S from r \<longleftrightarrow> (case r of None \<Rightarrow> \<forall>i \<in> S. i < from
     | Some p \<Rightarrow> p \<in> S \<and> from \<le> p \<and> (\<forall>i \<in> S. from \<le> i \<longrightarrow> p \<le> i))"

definition is_prev :: "nat set \<Rightarrow> nat \<Rightarrow> nat option \<Rightarrow> bool" where
  "is_prev S from r \<longleftrightarrow> (case r of None \<Rightarrow> \<forall>i \<in> S. from < i
     | Some p \<Rightarrow> p \<in> S \<and> p \<le> from \<and> (\<forall>i \<in> S. i \<le> from \<longrightarrow> i \<le> p))"

lemma block_cases: "(i :: nat) < k * 64 \<or> i div 64 = k \<or> (k + 1) * 64 \<le> i"
proof (cases "i div 64" k rule: linorder_cases)
  case less
  then show ?thesis by (simp add: div_less_iff_less_mult)
next
  case greater
  then have "k + 1 \<le> i div 64" by simp
  then show ?thesis by (simp add: less_eq_div_iff_mult_less_eq)
qed simp

lemma word_bits_block:
  assumes "i \<in> word_bits ws" "i div 64 = k"
  shows "k < length ws" "bit (ws ! k) (i mod 64)" "i = k * 64 + i mod 64"
  using assms by (auto simp: word_bits_def)

lemma block_in_word_bits: "k < length ws \<Longrightarrow> j < 64 \<Longrightarrow> bit (ws ! k) j \<Longrightarrow> k * 64 + j \<in> word_bits ws"
  by (simp add: word_bits_def)

lemma scan_up_hit:
  assumes "word_bits ws \<subseteq> {..<n}" "k < length ws" "\<And>j. bit word j \<longleftrightarrow> off \<le> j \<and> bit (ws ! k) j" and nz: "word \<noteq> 0"
  shows "is_next (word_bits ws) (k * 64 + off) (scan_up ws n k word)"
proof -
  note z = countr_zero_least [OF nz]
  let ?pos = "k * 64 + countr_zero word"
  have pos: "?pos \<in> word_bits ws" "off \<le> countr_zero word"
    using z(1,2) assms(2,3) block_in_word_bits by auto
  have "?pos \<le> i" if "i \<in> word_bits ws" "k * 64 + off \<le> i" for i
  proof (cases "i div 64 = k")
    case True
    note blk = word_bits_block [OF that(1) True]
    then have "off \<le> i mod 64" using that(2) by linarith
    then have "countr_zero word \<le> i mod 64" using z(3) assms(3) blk(2) by blast
    then show ?thesis using blk(3) by linarith
  next
    case other: False
    have "k \<le> i div 64" using that(2) by linarith
    then have "k + 1 \<le> i div 64" using other by linarith
    then have "(k + 1) * 64 \<le> i" by (simp add: less_eq_div_iff_mult_less_eq)
    then show ?thesis using z(2) by simp
  qed
  moreover have "scan_up ws n k word = Some ?pos"
    using nz pos(1) assms(1) by (subst scan_up.simps) (auto simp: Let_def)
  ultimately show ?thesis using pos by (simp add: is_next_def)
qed

lemma scan_up_correct:
  assumes "word_bits ws \<subseteq> {..<n}" "k < length ws" "off < 64"
    and "\<And>j. bit word j \<longleftrightarrow> off \<le> j \<and> bit (ws ! k) j"
  shows "is_next (word_bits ws) (k * 64 + off) (scan_up ws n k word)"
  using assms
proof (induction ws n k word arbitrary: off rule: scan_up.induct)
  case (1 ws n k word)
  show ?case
  proof (cases "word = 0")
    case False
    then show ?thesis by (rule scan_up_hit [OF "1.prems"(1,2,4)])
  next
    case True
    have gap: "i < k * 64 + off \<or> (k + 1) * 64 \<le> i" if "i \<in> word_bits ws" for i
    proof (cases "i div 64 = k")
      case blk: True
      note b = word_bits_block [OF that blk]
      have "\<not> off \<le> i mod 64" using "1.prems"(4) [of "i mod 64"] True b(2) by auto
      then show ?thesis using b(3) by linarith
    next
      case False
      then show ?thesis using block_cases [of i k] by linarith
    qed
    show ?thesis
    proof (cases "k + 1 \<ge> length ws")
      case last: True
      have "i < k * 64 + off" if "i \<in> word_bits ws" for i
        using gap [OF that] that last by (auto simp: word_bits_def)
      then show ?thesis using True last by (subst scan_up.simps) (simp add: is_next_def)
    next
      case False
      have "is_next (word_bits ws) ((k + 1) * 64 + 0) (scan_up ws n (k + 1) (ws ! (k + 1)))"
        using True False "1.prems"(1) by (intro "1.IH") auto
      moreover have "scan_up ws n k word = scan_up ws n (k + 1) (ws ! (k + 1))"
        using True False by (subst scan_up.simps) simp
      ultimately show ?thesis using gap "1.prems"(3) by (fastforce simp: is_next_def split: option.splits)
    qed
  qed
qed

lemma scan_down_hit:
  assumes "k < length ws" "\<And>j. bit word j \<longleftrightarrow> j \<le> off \<and> bit (ws ! k) j" "word \<noteq> 0" "off < 64"
  shows "is_prev (word_bits ws) (k * 64 + off) (scan_down ws k word)"
proof -
  note z = countl_zero_greatest [OF assms(3)]
  let ?h = "63 - countl_zero word"
  have pos: "k * 64 + ?h \<in> word_bits ws" "?h \<le> off"
    using z(1) assms(1,2) block_in_word_bits [of k ws ?h] by auto
  have "i \<le> k * 64 + ?h" if "i \<in> word_bits ws" "i \<le> k * 64 + off" for i
  proof (cases "i div 64 = k")
    case True
    note blk = word_bits_block [OF that(1) True]
    then have "i mod 64 \<le> off" using that(2) by linarith
    then have "i mod 64 \<le> ?h" using z(2) assms(2) blk(2) by blast
    then show ?thesis using blk(3) by linarith
  next
    case False
    then have "i div 64 < k" using that(2) assms(4) by linarith
    then have "i < k * 64" by linarith
    then show ?thesis by simp
  qed
  moreover have "scan_down ws k word = Some (k * 64 + ?h)" using assms(3) by (subst scan_down.simps) simp
  ultimately show ?thesis using pos by (simp add: is_prev_def)
qed

lemma scan_down_correct:
  assumes "k < length ws" "off < 64" "\<And>j. bit word j \<longleftrightarrow> j \<le> off \<and> bit (ws ! k) j"
  shows "is_prev (word_bits ws) (k * 64 + off) (scan_down ws k word)"
  using assms
proof (induction k arbitrary: off word)
  case base: 0
  show ?case
  proof (cases "word = 0")
    case True
    have "off < i" if "i \<in> word_bits ws" for i
    proof (rule ccontr)
      assume "\<not> off < i"
      then have "bit (ws ! 0) i" "i \<le> off" using that base(2) by (auto simp: word_bits_def)
      then show False using base(3) [of i] True by simp
    qed
    then show ?thesis using True by (subst scan_down.simps) (simp add: is_prev_def)
  qed (rule scan_down_hit [OF base(1,3) _ base(2)])
next
  case (Suc k)
  show ?case
  proof (cases "word = 0")
    case True
    have gap: "Suc k * 64 + off < i \<or> i \<le> k * 64 + 63" if "i \<in> word_bits ws" for i
    proof (cases "i div 64 = Suc k")
      case blk: True
      note b = word_bits_block [OF that blk]
      have "\<not> i mod 64 \<le> off" using Suc.prems(3) [of "i mod 64"] True b(2) by auto
      then show ?thesis using b(3) by linarith
    next
      case False
      then show ?thesis using block_cases [of i "Suc k"] Suc.prems(2) by auto
    qed
    have "bit (ws ! k) j \<longleftrightarrow> j \<le> 63 \<and> bit (ws ! k) j" for j using bit_imp_le_length [of "ws ! k" j] by auto
    then have "is_prev (word_bits ws) (k * 64 + 63) (scan_down ws k (ws ! k))"
      using Suc.prems(1) by (intro Suc.IH) auto
    moreover have "scan_down ws (Suc k) word = scan_down ws k (ws ! k)"
      using True by (subst scan_down.simps) simp
    ultimately show ?thesis using gap by (fastforce simp: is_prev_def split: option.splits)
  qed (rule scan_down_hit [OF Suc.prems(1,3) _ Suc.prems(2)])
qed

lemma find_next_set_correct:
  assumes "bitset_ok B"
  shows "\<exists>r. find_next_set B from = Some r \<and> is_next (bits B) from r"
proof (cases "from < bs_num_bits B")
  case True
  let ?w = "bs_words B ! (from div 64) AND push_bit (from mod 64) (NOT 0)"
  have "bit ?w j \<longleftrightarrow> from mod 64 \<le> j \<and> bit (bs_words B ! (from div 64)) j" for j
    using bit_imp_le_length [of "bs_words B ! (from div 64)" j] by (auto simp: bit_simps)
  then have "is_next (word_bits (bs_words B)) (from div 64 * 64 + from mod 64) (scan_up (bs_words B) (bs_num_bits B) (from div 64) ?w)"
    using assms bitset_word [OF assms True] by (intro scan_up_correct) (auto simp: bitset_ok_def bits_def)
  then show ?thesis
    using True bitset_word [OF assms True] by (simp add: find_next_set_def Let_def ub_simps bits_def)
next
  case False
  then have "is_next (bits B) from None" using assms by (auto simp: is_next_def bitset_ok_def)
  then show ?thesis using False by (simp add: find_next_set_def)
qed

lemma find_prev_set_correct:
  assumes "bitset_ok B" "from < bs_num_bits B"
  shows "\<exists>r. find_prev_set B from = Some r \<and> is_prev (bits B) from r"
proof -
  let ?off = "from mod 64"
  let ?mask = "if ?off = 63 then NOT 0 else push_bit (?off + 1) 1 - 1 :: u64"
  let ?w = "bs_words B ! (from div 64) AND ?mask"
  have "push_bit (?off + 1) 1 - 1 = (mask (?off + 1) :: u64)" by (simp add: mask_eq_exp_minus_1)
  moreover have "?off < 64" by simp
  ultimately have "bit ?w j \<longleftrightarrow> j \<le> ?off \<and> bit (bs_words B ! (from div 64)) j" for j
    using bit_imp_le_length [of "bs_words B ! (from div 64)" j] by (auto simp: bit_simps simp del: push_bit_of_1)
  then have "is_prev (word_bits (bs_words B)) (from div 64 * 64 + ?off) (scan_down (bs_words B) (from div 64) ?w)"
    using bitset_word [OF assms] by (intro scan_down_correct) auto
  then show ?thesis
    using assms bitset_word [OF assms] by (auto simp: find_prev_set_def Let_def ub_simps bits_def)
qed

lemma bitset_count_card: "bitset_count B = card (bits B)"
proof -
  have "card (word_bits ws) = (\<Sum>w\<leftarrow>ws. popcount w)" for ws
  proof (induction ws rule: rev_induct)
    case Nil
    then show ?case by (simp add: word_bits_def)
  next
    case (snoc w ws)
    have bnd: "\<And>j. bit w j \<Longrightarrow> j < 64" using bit_imp_le_length [of w] by simp
    have old: "i < length ws * 64" if "i \<in> word_bits ws" for i
    proof -
      have "i div 64 < length ws" using that by (simp add: word_bits_def)
      then show ?thesis by linarith
    qed
    have split: "word_bits (ws @ [w]) = word_bits ws \<union> (\<lambda>j. length ws * 64 + j) ` {j. bit w j}"
    proof (intro set_eqI iffI)
      fix i assume i: "i \<in> word_bits (ws @ [w])"
      then consider "i div 64 < length ws" | "i div 64 = length ws" by (force simp: word_bits_def)
      then show "i \<in> word_bits ws \<union> (\<lambda>j. length ws * 64 + j) ` {j. bit w j}"
      proof cases
        case 2
        then have "i = length ws * 64 + i mod 64" "bit w (i mod 64)" using i word_bits_block [OF i 2] by auto
        then show ?thesis by blast
      qed (use i in \<open>simp add: word_bits_def nth_append\<close>)
    next
      fix i assume "i \<in> word_bits ws \<union> (\<lambda>j. length ws * 64 + j) ` {j. bit w j}"
      then show "i \<in> word_bits (ws @ [w])" using bnd by (auto simp: word_bits_def nth_append)
    qed
    have fin: "finite (word_bits ws)" "finite {j. bit w j}"
      using old bnd by (auto intro: finite_subset [of _ "{..<length ws * 64}"] finite_subset [of _ "{..<64}"])
    have "word_bits ws \<inter> (\<lambda>j. length ws * 64 + j) ` {j. bit w j} = {}" using old by fastforce
    then show ?case
      using snoc fin by (simp add: split card_Un_disjoint card_image popcount_card)
  qed
  then show ?thesis by (simp add: bitset_count_def bits_def)
qed

lemma bitset_new_ok: "bitset_ok (bitset_new n)" "bits (bitset_new n) = {}"
  by (auto simp: bitset_ok_def bits_def bitset_new_def word_bits_def)

section \<open>The contract of an ordered bit store\<close>

definition first :: "'e list \<Rightarrow> 'e option" where
  "first xs = (case xs of [] \<Rightarrow> None | x # _ \<Rightarrow> Some x)"

lemma is_next_first:
  assumes "finite S" "is_next S from r"
  shows "r = first (filter (\<lambda>i. from \<le> i) (sorted_list_of_set S))"
proof (cases "filter (\<lambda>i. from \<le> i) (sorted_list_of_set S)")
  case Nil
  then have "\<forall>i \<in> S. i < from" using assms(1) by (auto simp: filter_empty_conv)
  then show ?thesis using Nil assms(2) by (cases r) (auto simp: is_next_def first_def)
next
  case (Cons y ys)
  have "sorted (y # ys)" using Cons sorted_filter [of id] sorted_sorted_list_of_set by (metis list.map_id sorted_wrt_filter)
  moreover have "set (y # ys) = {i \<in> S. from \<le> i}" using assms(1) unfolding Cons [symmetric] by auto
  ultimately have "y \<in> S" "from \<le> y" "\<And>i. i \<in> S \<Longrightarrow> from \<le> i \<Longrightarrow> y \<le> i" by auto
  then show ?thesis using Cons assms(2) by (cases r) (force simp: is_next_def first_def)+
qed

lemma is_prev_first:
  assumes "finite S" "is_prev S from r"
  shows "r = first (filter (\<lambda>i. i \<le> from) (rev (sorted_list_of_set S)))"
proof (cases "filter (\<lambda>i. i \<le> from) (rev (sorted_list_of_set S))")
  case Nil
  then have "\<forall>i \<in> S. from < i" using assms(1) by (auto simp: filter_empty_conv)
  then show ?thesis using Nil assms(2) by (cases r) (auto simp: is_prev_def first_def)
next
  case (Cons y ys)
  have "sorted_wrt (\<ge>) (rev (sorted_list_of_set S))" by (simp add: sorted_wrt_rev)
  then have "sorted_wrt (\<ge>) (y # ys)" using Cons sorted_wrt_filter by metis
  moreover have "set (y # ys) = {i \<in> S. i \<le> from}" using assms(1) unfolding Cons [symmetric] by auto
  ultimately have "y \<in> S" "y \<le> from" "\<And>i. i \<in> S \<Longrightarrow> i \<le> from \<Longrightarrow> i \<le> y" by auto
  then show ?thesis using Cons assms(2) by (cases r) (force simp: is_prev_def first_def)+
qed

locale bit_store =
  fixes ok :: "'s \<Rightarrow> bool" and members :: "'s \<Rightarrow> nat set" and size :: "'s \<Rightarrow> nat"
    and insert_bit :: "'s \<Rightarrow> nat \<Rightarrow> 's option" and clear_bit :: "'s \<Rightarrow> nat \<Rightarrow> 's option"
    and test :: "'s \<Rightarrow> nat \<Rightarrow> bool option" and count :: "'s \<Rightarrow> nat"
    and up :: "'s \<Rightarrow> nat \<Rightarrow> nat option option" and down :: "'s \<Rightarrow> nat \<Rightarrow> nat option option"
  assumes bounded: "ok B \<Longrightarrow> members B \<subseteq> {..<size B}"
    and insert_law: "ok B \<Longrightarrow> i < size B \<Longrightarrow> \<exists>B'. insert_bit B i = Some B' \<and> ok B' \<and> members B' = insert i (members B) \<and> size B' = size B"
    and clear_law: "ok B \<Longrightarrow> i < size B \<Longrightarrow> \<exists>B'. clear_bit B i = Some B' \<and> ok B' \<and> members B' = members B - {i} \<and> size B' = size B"
    and test_law: "ok B \<Longrightarrow> i < size B \<Longrightarrow> test B i = Some (i \<in> members B)"
    and count_law: "count B = card (members B)"
    and up_law: "ok B \<Longrightarrow> \<exists>r. up B i = Some r \<and> is_next (members B) i r"
    and down_law: "ok B \<Longrightarrow> i < size B \<Longrightarrow> \<exists>r. down B i = Some r \<and> is_prev (members B) i r"
begin

lemma finite_members: "ok B \<Longrightarrow> finite (members B)"
  using bounded finite_subset by blast

lemma up_first: "ok B \<Longrightarrow> up B i = Some (first (filter (\<lambda>j. i \<le> j) (sorted_list_of_set (members B))))"
  using up_law is_next_first finite_members by metis

lemma down_first:
  "ok B \<Longrightarrow> i < size B \<Longrightarrow> down B i = Some (first (filter (\<lambda>j. j \<le> i) (rev (sorted_list_of_set (members B)))))"
  using down_law is_prev_first finite_members by metis

end

interpretation bit: bit_store bitset_ok bits bs_num_bits bitset_set bitset_clear bitset_test bitset_count find_next_set find_prev_set
  by unfold_locales
    (auto simp: bitset_count_card bitset_test_correct bitset_set_correct bitset_clear_correct find_next_set_correct find_prev_set_correct,
     auto simp: bitset_ok_def)

lemma bitset_new_size [simp]: "bs_num_bits (bitset_new n) = n"
  by (simp add: bitset_new_def)

section \<open>The bitmap's promises\<close>

text \<open>
  C22.  The word-at-a-time scans find the nearest set bit: \<open>find_next_set\<close> the least one from a position upwards,
  \<open>find_prev_set\<close> the greatest one downwards, and neither reads outside the words.
\<close>

theorem bitset_scans:
  assumes "bitset_ok B" "from < bs_num_bits B"
  shows "\<exists>up down. find_next_set B from = Some up \<and> is_next (bits B) from up \<and> find_prev_set B from = Some down \<and> is_prev (bits B) from down"
  using find_next_set_correct [OF assms(1)] find_prev_set_correct [OF assms] by blast

text \<open>
  Setting a bit makes exactly that bit visible to \<open>test\<close>, clearing it undoes exactly that, and \<open>count\<close> is the
  number of set bits.
\<close>

theorem bitset_updates:
  assumes "bitset_ok B" "i < bs_num_bits B" "j < bs_num_bits B"
  shows "\<exists>B1 B2. bitset_set B i = Some B1 \<and> bitset_ok B1 \<and> bitset_test B1 j = Some (j = i \<or> j \<in> bits B)
    \<and> bitset_count B1 = card (insert i (bits B)) \<and> bitset_clear B1 i = Some B2 \<and> bitset_ok B2
    \<and> bitset_test B2 j = Some (j \<noteq> i \<and> j \<in> bits B)"
proof -
  obtain B1 where B1: "bitset_set B i = Some B1" "bitset_ok B1" "bits B1 = insert i (bits B)" "bs_num_bits B1 = bs_num_bits B"
    using bitset_set_correct [OF assms(1,2)] by blast
  obtain B2 where B2: "bitset_clear B1 i = Some B2" "bitset_ok B2" "bits B2 = bits B1 - {i}" "bs_num_bits B2 = bs_num_bits B1"
    using bitset_clear_correct [OF B1(2)] B1(4) assms(2) by metis
  show ?thesis using B1 B2 assms(3) bitset_test_correct [OF B1(2)] bitset_test_correct [OF B2(2)] by (auto simp: bitset_count_card)
qed

theorem bitset_scans_witness:
  "\<exists>B up down. bitset_set (bitset_new 200) 130 = Some B \<and> find_next_set B 5 = Some up \<and> up = Some 130 \<and> find_prev_set B 5 = Some down \<and> down = None"
proof -
  obtain B where B: "bitset_set (bitset_new 200) 130 = Some B" "bitset_ok B" "bits B = {130}" "bs_num_bits B = 200"
    using bitset_set_correct [OF bitset_new_ok(1), of 130 200] by (auto simp: bitset_new_ok)
  with bitset_scans [OF B(2), of 5] show ?thesis by (auto simp: is_next_def is_prev_def split: option.splits)
qed

theorem bitset_updates_witness:
  "\<exists>B1 B2. bitset_set (bitset_new 200) 130 = Some B1 \<and> bitset_test B1 130 = Some True \<and> bitset_count B1 = 1
    \<and> bitset_clear B1 130 = Some B2 \<and> bitset_test B2 130 = Some False"
  using bitset_updates [OF bitset_new_ok(1), of 130 200 130] by (auto simp: bitset_new_ok)

end
