(* ===== verification/Order_Book_Array.thy ===== *)
theory Order_Book_Array
  imports Book_Guarantees Bitset_Utils
begin

text \<open>
  \<open>OrderBookArray\<close> (\<open>include/lightninglob/order_book_array.hpp\<close>, \<open>src/order_book_array.cpp\<close>): one level per
  price of a fixed range, an occupancy bitmap per side, and the indices of the best occupied levels.
\<close>

section \<open>Model\<close>

record OrderBookArray = BookCore +
  ab_min_price :: Price
  ab_max_price :: Price
  ab_range :: nat
  ab_bid_levels :: "PriceLevel list"
  ab_ask_levels :: "PriceLevel list"
  ab_bid_bitmap :: Bitset
  ab_ask_bitmap :: Bitset
  ab_best_bid_idx :: "nat option"
  ab_best_ask_idx :: "nat option"

text \<open>The two \<open>std::invalid_argument\<close> exceptions of the constructor.\<close>

datatype range_error = MinAboveMax | MinNotPositive

definition validate_and_compute_range :: "Price \<Rightarrow> Price \<Rightarrow> range_error + nat" where
  "validate_and_compute_range min_price max_price =
     (if min_price > max_price then Inl MinAboveMax
      else if min_price \<le> 0 then Inl MinNotPositive
      else Inr (nat (max_price - min_price) + 1))"

definition arr_new :: "SymbolId \<Rightarrow> Price \<Rightarrow> Price \<Rightarrow> nat \<Rightarrow> SelfTradePrevention \<Rightarrow> range_error + OrderBookArray" where
  "arr_new symb min_price max_price order_capacity_hint stp_policy =
     (case validate_and_compute_range min_price max_price of
        Inl e \<Rightarrow> Inl e
      | Inr rg \<Rightarrow> Inr \<lparr>b_symbol = symb, b_pool = pool_new order_capacity_hint, b_id_index = id_new order_capacity_hint,
          b_trade_callback = False, b_stp_policy = stp_policy, ab_min_price = min_price, ab_max_price = max_price,
          ab_range = rg, ab_bid_levels = replicate rg empty_level, ab_ask_levels = replicate rg empty_level,
          ab_bid_bitmap = bitset_new rg, ab_ask_bitmap = bitset_new rg,
          ab_best_bid_idx = None, ab_best_ask_idx = None\<rparr>)"

definition in_range :: "OrderBookArray \<Rightarrow> Price \<Rightarrow> bool" where
  "in_range b price \<longleftrightarrow> price \<ge> ab_min_price b \<and> price \<le> ab_max_price b"

text \<open>\<open>static_cast<std::size_t>(price - min_price_)\<close>: a negative difference wraps around.\<close>

definition index_of :: "OrderBookArray \<Rightarrow> Price \<Rightarrow> nat" where
  "index_of b price = nat ((price - ab_min_price b) mod 2 ^ 64)"

definition price_of :: "OrderBookArray \<Rightarrow> nat \<Rightarrow> Price" where
  "price_of b index = ab_min_price b + int index"

definition arr_best_bid :: "OrderBookArray \<Rightarrow> Price option" where
  "arr_best_bid b = map_option (price_of b) (ab_best_bid_idx b)"

definition arr_best_ask :: "OrderBookArray \<Rightarrow> Price option" where
  "arr_best_ask b = map_option (price_of b) (ab_best_ask_idx b)"

definition arr_spread :: "OrderBookArray \<Rightarrow> Price option option" where
  "arr_spread b = (case (arr_best_bid b, arr_best_ask b) of
     (Some bb, Some ba) \<Rightarrow> do { d \<leftarrow> chk64 (ba - bb); Some (Some d) }
   | _ \<Rightarrow> Some None)"

definition arr_crosses :: "Order \<Rightarrow> OrderBookArray \<Rightarrow> bool" where
  "arr_crosses ord b =
     (if o_side ord = Buy then (case arr_best_ask b of None \<Rightarrow> False | Some ask \<Rightarrow> o_price ord \<ge> ask)
      else (case arr_best_bid b of None \<Rightarrow> False | Some bid \<Rightarrow> o_price ord \<le> bid))"

text \<open>The next worse occupied level of a side, as the loops compute it.\<close>

definition next_ask :: "Bitset \<Rightarrow> nat \<Rightarrow> nat option option" where
  "next_ask bitmap idx = find_next_set bitmap (idx + 1)"

definition next_bid :: "Bitset \<Rightarrow> nat \<Rightarrow> nat option option" where
  "next_bid bitmap idx = (if idx = 0 then Some None else find_prev_set bitmap (idx - 1))"

partial_function (option) arr_accumulate :: "(nat \<Rightarrow> nat option option) \<Rightarrow> PriceLevel list \<Rightarrow> (PriceLevel \<Rightarrow> bool)
    \<Rightarrow> Quantity \<Rightarrow> Quantity \<Rightarrow> nat option \<Rightarrow> bool option" where
  "arr_accumulate step levels stop needed accumulated idx =
     (case idx of
        None \<Rightarrow> Some False
      | Some i \<Rightarrow> do {
          level \<leftarrow> vget levels i;
          if stop level then Some False
          else do {
            acc \<leftarrow> chk64 (accumulated + l_total_quantity level);
            if acc \<ge> needed then Some True
            else do {
              idx \<leftarrow> step i;
              arr_accumulate step levels stop needed acc idx } } })"

definition arr_has_liquidity_for :: "Side \<Rightarrow> OrderType \<Rightarrow> Price \<Rightarrow> Quantity \<Rightarrow> OrderBookArray \<Rightarrow> bool option" where
  "arr_has_liquidity_for taker_side type limit_price needed b =
     (if taker_side = Buy
      then arr_accumulate (next_ask (ab_ask_bitmap b)) (ab_ask_levels b) (\<lambda>level. type = Limit \<and> l_price level > limit_price)
             needed 0 (ab_best_ask_idx b)
      else arr_accumulate (next_bid (ab_bid_bitmap b)) (ab_bid_levels b) (\<lambda>level. type = Limit \<and> l_price level < limit_price)
             needed 0 (ab_best_bid_idx b))"

text \<open>The level is written back; when it is empty its bit is cleared and the best index moves on.\<close>

definition arr_settle_ask :: "nat \<Rightarrow> PriceLevel \<Rightarrow> OrderBookArray \<Rightarrow> OrderBookArray option" where
  "arr_settle_ask idx level b = do {
     lvs \<leftarrow> vset (ab_ask_levels b) idx level;
     let b = b\<lparr>ab_ask_levels := lvs\<rparr>;
     if level_empty level then do {
       bm \<leftarrow> bitset_clear (ab_ask_bitmap b) idx;
       r \<leftarrow> next_ask bm idx;
       Some (b\<lparr>ab_ask_bitmap := bm, ab_best_ask_idx := r\<rparr>) }
     else Some b }"

definition arr_settle_bid :: "nat \<Rightarrow> PriceLevel \<Rightarrow> OrderBookArray \<Rightarrow> OrderBookArray option" where
  "arr_settle_bid idx level b = do {
     lvs \<leftarrow> vset (ab_bid_levels b) idx level;
     let b = b\<lparr>ab_bid_levels := lvs\<rparr>;
     if level_empty level then do {
       bm \<leftarrow> bitset_clear (ab_bid_bitmap b) idx;
       r \<leftarrow> next_bid bm idx;
       Some (b\<lparr>ab_bid_bitmap := bm, ab_best_bid_idx := r\<rparr>) }
     else Some b }"

partial_function (option) arr_match_against_book :: "Order \<Rightarrow> OrderBookArray \<Rightarrow> World
    \<Rightarrow> (bool \<times> Order \<times> OrderBookArray \<times> World) option" where
  "arr_match_against_book taker b w =
     (if o_side taker = Buy then
        (case ab_best_ask_idx b of
           Some idx \<Rightarrow>
             if o_remaining_quantity taker > 0 then do {
               level \<leftarrow> vget (ab_ask_levels b) idx;
               if o_type taker = Limit \<and> o_price taker < l_price level then Some (False, taker, b, w)
               else do {
                 (stp_killed, taker, level, b, w) \<leftarrow> drain_level (l_price level) taker level b w;
                 b \<leftarrow> arr_settle_ask idx level b;
                 if stp_killed then Some (True, taker, b, w) else arr_match_against_book taker b w } }
             else Some (False, taker, b, w)
         | None \<Rightarrow> Some (False, taker, b, w))
      else
        (case ab_best_bid_idx b of
           Some idx \<Rightarrow>
             if o_remaining_quantity taker > 0 then do {
               level \<leftarrow> vget (ab_bid_levels b) idx;
               if o_type taker = Limit \<and> o_price taker > l_price level then Some (False, taker, b, w)
               else do {
                 (stp_killed, taker, level, b, w) \<leftarrow> drain_level (l_price level) taker level b w;
                 b \<leftarrow> arr_settle_bid idx level b;
                 if stp_killed then Some (True, taker, b, w) else arr_match_against_book taker b w } }
             else Some (False, taker, b, w)
         | None \<Rightarrow> Some (False, taker, b, w)))"

text \<open>The occupancy bookkeeping of \<open>rest_order\<close> for a level that is not occupied yet.\<close>

definition arr_occupy_bid :: "nat \<Rightarrow> Price \<Rightarrow> OrderBookArray \<Rightarrow> OrderBookArray option" where
  "arr_occupy_bid idx price b = do {
     occupied \<leftarrow> bitset_test (ab_bid_bitmap b) idx;
     if occupied then Some b
     else do {
       lv \<leftarrow> vget (ab_bid_levels b) idx;
       lvs \<leftarrow> vset (ab_bid_levels b) idx (lv\<lparr>l_price := price\<rparr>);
       bm \<leftarrow> bitset_set (ab_bid_bitmap b) idx;
       let b = b\<lparr>ab_bid_levels := lvs, ab_bid_bitmap := bm\<rparr>;
       Some (if (case ab_best_bid_idx b of None \<Rightarrow> True | Some best \<Rightarrow> idx > best)
             then b\<lparr>ab_best_bid_idx := Some idx\<rparr> else b) } }"

definition arr_occupy_ask :: "nat \<Rightarrow> Price \<Rightarrow> OrderBookArray \<Rightarrow> OrderBookArray option" where
  "arr_occupy_ask idx price b = do {
     occupied \<leftarrow> bitset_test (ab_ask_bitmap b) idx;
     if occupied then Some b
     else do {
       lv \<leftarrow> vget (ab_ask_levels b) idx;
       lvs \<leftarrow> vset (ab_ask_levels b) idx (lv\<lparr>l_price := price\<rparr>);
       bm \<leftarrow> bitset_set (ab_ask_bitmap b) idx;
       let b = b\<lparr>ab_ask_levels := lvs, ab_ask_bitmap := bm\<rparr>;
       Some (if (case ab_best_ask_idx b of None \<Rightarrow> True | Some best \<Rightarrow> idx < best)
             then b\<lparr>ab_best_ask_idx := Some idx\<rparr> else b) } }"

definition arr_rest_order :: "Order \<Rightarrow> OrderBookArray \<Rightarrow> OrderBookArray option" where
  "arr_rest_order ord b = do {
     let idx = index_of b (o_price ord);
     (pool_idx, p) \<leftarrow> acquire (b_pool b) ord;
     b \<leftarrow> (if o_side ord = Buy then do {
         b \<leftarrow> arr_occupy_bid idx (o_price ord) b;
         lv \<leftarrow> vget (ab_bid_levels b) idx;
         (lv, p) \<leftarrow> level_push_back lv p pool_idx;
         lvs \<leftarrow> vset (ab_bid_levels b) idx lv;
         Some (b\<lparr>b_pool := p, ab_bid_levels := lvs\<rparr>) }
       else do {
         b \<leftarrow> arr_occupy_ask idx (o_price ord) b;
         lv \<leftarrow> vget (ab_ask_levels b) idx;
         (lv, p) \<leftarrow> level_push_back lv p pool_idx;
         lvs \<leftarrow> vset (ab_ask_levels b) idx lv;
         Some (b\<lparr>b_pool := p, ab_ask_levels := lvs\<rparr>) });
     (_, m) \<leftarrow> id_insert (b_id_index b) (o_id ord) pool_idx;
     Some (b\<lparr>b_id_index := m\<rparr>) }"

definition arr_add_order :: "Order \<Rightarrow> OrderBookArray \<Rightarrow> World
    \<Rightarrow> (ExecutionReport \<times> OrderBookArray \<times> World) option" where
  "arr_add_order ord b w =
     (if o_quantity ord \<le> 0 then Some (report (o_id ord) Rejected 0 0 InvalidQuantity, b, w)
      else if o_type ord = Limit \<and> o_price ord \<le> 0 then Some (report (o_id ord) Rejected 0 0 InvalidPrice, b, w)
      else if o_type ord = Limit \<and> \<not> in_range b (o_price ord) then Some (report (o_id ord) Rejected 0 0 PriceOutOfRange, b, w)
      else do {
        duplicate \<leftarrow> (if o_id ord \<noteq> kInvalidOrderId then id_contains (b_id_index b) (o_id ord) else Some False);
        if duplicate then Some (report (o_id ord) Rejected 0 0 DuplicateOrderId, b, w)
        else do {
          liquid \<leftarrow> (if o_time_in_force ord = FOK
            then arr_has_liquidity_for (o_side ord) (o_type ord) (o_price ord) (o_quantity ord) b else Some True);
          if \<not> liquid then Some (report (o_id ord) Cancelled 0 0 NoReason, b, w)
          else do {
            let order = ord\<lparr>o_remaining_quantity := o_quantity ord\<rparr>;
            let original_quantity = o_quantity ord;
            (stp_killed, order, b, w) \<leftarrow>
              (if o_type order = Market \<or> o_time_in_force order = FOK \<or> arr_crosses order b
               then arr_match_against_book order b w else Some (False, order, b, w));
            filled \<leftarrow> chk64 (original_quantity - o_remaining_quantity order);
            if o_remaining_quantity order = 0 then Some (report (o_id order) Filled filled 0 NoReason, b, w)
            else if \<not> stp_killed \<and> rests_in_book order then do {
              let remaining = o_remaining_quantity order;
              b \<leftarrow> arr_rest_order order b;
              let status = (if filled > 0 then PartiallyFilled else New);
              Some (report (o_id order) status filled remaining NoReason, b, w) }
            else Some (report (o_id order) Cancelled filled 0 NoReason, b, w) } } })"

text \<open>As \<open>arr_settle_ask\<close> and \<open>arr_settle_bid\<close>, but the best index moves only when it was this level.\<close>

definition arr_vacate_ask :: "nat \<Rightarrow> PriceLevel \<Rightarrow> OrderBookArray \<Rightarrow> OrderBookArray option" where
  "arr_vacate_ask idx level b = do {
     lvs \<leftarrow> vset (ab_ask_levels b) idx level;
     let b = b\<lparr>ab_ask_levels := lvs\<rparr>;
     if level_empty level then do {
       bm \<leftarrow> bitset_clear (ab_ask_bitmap b) idx;
       let b = b\<lparr>ab_ask_bitmap := bm\<rparr>;
       if ab_best_ask_idx b = Some idx then do {
         r \<leftarrow> next_ask bm idx;
         Some (b\<lparr>ab_best_ask_idx := r\<rparr>) }
       else Some b }
     else Some b }"

definition arr_vacate_bid :: "nat \<Rightarrow> PriceLevel \<Rightarrow> OrderBookArray \<Rightarrow> OrderBookArray option" where
  "arr_vacate_bid idx level b = do {
     lvs \<leftarrow> vset (ab_bid_levels b) idx level;
     let b = b\<lparr>ab_bid_levels := lvs\<rparr>;
     if level_empty level then do {
       bm \<leftarrow> bitset_clear (ab_bid_bitmap b) idx;
       let b = b\<lparr>ab_bid_bitmap := bm\<rparr>;
       if ab_best_bid_idx b = Some idx then do {
         r \<leftarrow> next_bid bm idx;
         Some (b\<lparr>ab_best_bid_idx := r\<rparr>) }
       else Some b }
     else Some b }"

definition arr_cancel_order :: "OrderId \<Rightarrow> OrderBookArray \<Rightarrow> (bool \<times> OrderBookArray) option" where
  "arr_cancel_order i b = do {
     idx_ptr \<leftarrow> id_find (b_id_index b) i;
     (case idx_ptr of
        None \<Rightarrow> Some (False, b)
      | Some pool_idx \<Rightarrow> do {
          nd \<leftarrow> pool_get (b_pool b) pool_idx;
          let order = n_order nd;
          let idx = index_of b (o_price order);
          level \<leftarrow> vget (if o_side order = Buy then ab_bid_levels b else ab_ask_levels b) idx;
          q \<leftarrow> chk64 (l_total_quantity level - o_remaining_quantity order);
          (level, p) \<leftarrow> level_unlink (level\<lparr>l_total_quantity := q\<rparr>) (b_pool b) pool_idx;
          b \<leftarrow> (if o_side order = Buy then arr_vacate_bid idx level b else arr_vacate_ask idx level b);
          p \<leftarrow> release p pool_idx;
          (_, m) \<leftarrow> id_erase (b_id_index b) i;
          Some (True, b\<lparr>b_pool := p, b_id_index := m\<rparr>) }) }"

definition arr_amend_order :: "OrderId \<Rightarrow> Quantity \<Rightarrow> Price option \<Rightarrow> OrderBookArray \<Rightarrow> World
    \<Rightarrow> (ExecutionReport \<times> OrderBookArray \<times> World) option" where
  "arr_amend_order i new_quantity new_price b w = do {
     idx_ptr \<leftarrow> id_find (b_id_index b) i;
     (case idx_ptr of
        None \<Rightarrow> Some (report i Rejected 0 0 UnknownOrder, b, w)
      | Some pool_idx \<Rightarrow>
          if new_quantity \<le> 0 then Some (report i Rejected 0 0 InvalidQuantity, b, w)
          else if (case new_price of None \<Rightarrow> False | Some p \<Rightarrow> \<not> in_range b p)
          then Some (report i Rejected 0 0 PriceOutOfRange, b, w)
          else do {
            nd \<leftarrow> pool_get (b_pool b) pool_idx;
            let snapshot = n_order nd;
            let price_changed = (case new_price of None \<Rightarrow> False | Some p \<Rightarrow> p \<noteq> o_price snapshot);
            let quantity_increased = new_quantity > o_remaining_quantity snapshot;
            if \<not> price_changed \<and> \<not> quantity_increased then do {
              let idx = index_of b (o_price snapshot);
              let levels = (if o_side snapshot = Buy then ab_bid_levels b else ab_ask_levels b);
              level \<leftarrow> vget levels idx;
              delta \<leftarrow> chk64 (o_remaining_quantity snapshot - new_quantity);
              (level, p) \<leftarrow> level_reduce_quantity level (b_pool b) pool_idx delta;
              levels \<leftarrow> vset levels idx level;
              let b = (if o_side snapshot = Buy then b\<lparr>b_pool := p, ab_bid_levels := levels\<rparr>
                       else b\<lparr>b_pool := p, ab_ask_levels := levels\<rparr>);
              Some (report i New 0 new_quantity NoReason, b, w) }
            else do {
              (_, b) \<leftarrow> arr_cancel_order i b;
              let (ts, w) = now_ns w;
              let replacement = snapshot\<lparr>o_price := (case new_price of None \<Rightarrow> o_price snapshot | Some p \<Rightarrow> p),
                o_quantity := new_quantity, o_remaining_quantity := new_quantity, o_timestamp := ts\<rparr>;
              arr_add_order replacement b w } }) }"

text \<open>The depth loops: at most \<open>n\<close> levels from \<open>idx\<close> on.\<close>

fun arr_depth :: "(nat \<Rightarrow> nat option option) \<Rightarrow> PriceLevel list \<Rightarrow> nat \<Rightarrow> nat option \<Rightarrow> PriceLevelView list option" where
  "arr_depth step levels 0 idx = Some []"
| "arr_depth step levels (Suc n) None = Some []"
| "arr_depth step levels (Suc n) (Some i) = do {
     level \<leftarrow> vget levels i;
     idx \<leftarrow> step i;
     out \<leftarrow> arr_depth step levels n idx;
     Some (level_view level # out) }"

definition arr_bid_depth :: "nat \<Rightarrow> OrderBookArray \<Rightarrow> PriceLevelView list option" where
  "arr_bid_depth n b = arr_depth (next_bid (ab_bid_bitmap b)) (ab_bid_levels b) n (ab_best_bid_idx b)"

definition arr_ask_depth :: "nat \<Rightarrow> OrderBookArray \<Rightarrow> PriceLevelView list option" where
  "arr_ask_depth n b = arr_depth (next_ask (ab_ask_bitmap b)) (ab_ask_levels b) n (ab_best_ask_idx b)"

text \<open>The loop of \<open>clear_side\<close>.\<close>

partial_function (option) clear_side :: "PriceLevel list \<Rightarrow> Bitset \<Rightarrow> nat option \<Rightarrow> (PriceLevel list \<times> Bitset) option" where
  "clear_side levels bitmap idx =
     (case idx of
        None \<Rightarrow> Some (levels, bitmap)
      | Some i \<Rightarrow> do {
          lv \<leftarrow> vget levels i;
          levels \<leftarrow> vset levels i (clear_orders lv);
          bitmap \<leftarrow> bitset_clear bitmap i;
          idx \<leftarrow> find_next_set bitmap (i + 1);
          clear_side levels bitmap idx })"

definition arr_reset :: "OrderBookArray \<Rightarrow> OrderBookArray option" where
  "arr_reset b = do {
     i \<leftarrow> find_next_set (ab_bid_bitmap b) 0;
     (bids, bid_bitmap) \<leftarrow> clear_side (ab_bid_levels b) (ab_bid_bitmap b) i;
     j \<leftarrow> find_next_set (ab_ask_bitmap b) 0;
     (asks, ask_bitmap) \<leftarrow> clear_side (ab_ask_levels b) (ab_ask_bitmap b) j;
     Some (b\<lparr>ab_bid_levels := bids, ab_bid_bitmap := bid_bitmap, ab_ask_levels := asks, ab_ask_bitmap := ask_bitmap,
       ab_best_bid_idx := None, ab_best_ask_idx := None, b_pool := pool_reset (b_pool b), b_id_index := id_clear (b_id_index b)\<rparr>) }"

definition arr_bid_level_count :: "OrderBookArray \<Rightarrow> nat" where
  "arr_bid_level_count b = bitset_count (ab_bid_bitmap b)"

definition arr_ask_level_count :: "OrderBookArray \<Rightarrow> nat" where
  "arr_ask_level_count b = bitset_count (ab_ask_bitmap b)"

section \<open>The container\<close>

definition arr_lv :: "OrderBookArray \<Rightarrow> Side \<Rightarrow> PriceLevel list" where
  "arr_lv b s = (if s = Buy then ab_bid_levels b else ab_ask_levels b)"

definition arr_bm :: "OrderBookArray \<Rightarrow> Side \<Rightarrow> Bitset" where
  "arr_bm b s = (if s = Buy then ab_bid_bitmap b else ab_ask_bitmap b)"

definition arr_best :: "OrderBookArray \<Rightarrow> Side \<Rightarrow> nat option" where
  "arr_best b s = (if s = Buy then ab_best_bid_idx b else ab_best_ask_idx b)"

definition arr_set :: "Side \<Rightarrow> PriceLevel list \<Rightarrow> Bitset \<Rightarrow> nat option \<Rightarrow> OrderBookArray \<Rightarrow> OrderBookArray" where
  "arr_set s lvs bm r b = (if s = Buy then b\<lparr>ab_bid_levels := lvs, ab_bid_bitmap := bm, ab_best_bid_idx := r\<rparr>
     else b\<lparr>ab_ask_levels := lvs, ab_ask_bitmap := bm, ab_best_ask_idx := r\<rparr>)"

text \<open>Occupied indices in priority order: descending for bids, ascending for asks.\<close>

fun before :: "Side \<Rightarrow> nat \<Rightarrow> nat \<Rightarrow> bool" where
  "before Buy i j = (j < i)"
| "before Sell i j = (i < j)"

definition idxs :: "Side \<Rightarrow> nat set \<Rightarrow> nat list" where
  "idxs s S = (if s = Buy then rev (sorted_list_of_set S) else sorted_list_of_set S)"

definition arr_levels :: "OrderBookArray \<Rightarrow> sides" where
  "arr_levels b = (\<lambda>s. map (\<lambda>i. arr_lv b s ! i) (idxs s (bits (arr_bm b s))))"

definition arr_side_ok :: "OrderBookArray \<Rightarrow> Side \<Rightarrow> bool" where
  "arr_side_ok b s \<longleftrightarrow> length (arr_lv b s) = ab_range b \<and> bitset_ok (arr_bm b s) \<and> bs_num_bits (arr_bm b s) = ab_range b
     \<and> (\<forall>i \<in> bits (arr_bm b s). l_price (arr_lv b s ! i) = price_of b i)
     \<and> (\<forall>i < ab_range b. i \<notin> bits (arr_bm b s) \<longrightarrow> arr_lv b s ! i = empty_level\<lparr>l_price := l_price (arr_lv b s ! i)\<rparr>)
     \<and> arr_best b s = first (idxs s (bits (arr_bm b s)))"

definition arr_ok :: "OrderBookArray \<Rightarrow> bool" where
  "arr_ok b \<longleftrightarrow> 0 < ab_min_price b \<and> ab_min_price b \<le> ab_max_price b \<and> ab_max_price b \<le> i64_max
     \<and> ab_range b = nat (ab_max_price b - ab_min_price b) + 1 \<and> (\<forall>s. arr_side_ok b s)"

lemma arr_set_simps [simp]:
  "arr_lv (arr_set s lvs bm r b) u = (if u = s then lvs else arr_lv b u)"
  "arr_bm (arr_set s lvs bm r b) u = (if u = s then bm else arr_bm b u)"
  "arr_best (arr_set s lvs bm r b) u = (if u = s then r else arr_best b u)"
  "ab_min_price (arr_set s lvs bm r b) = ab_min_price b" "ab_max_price (arr_set s lvs bm r b) = ab_max_price b"
  "ab_range (arr_set s lvs bm r b) = ab_range b"
  "b_pool (arr_set s lvs bm r b) = b_pool b" "b_id_index (arr_set s lvs bm r b) = b_id_index b"
  "b_symbol (arr_set s lvs bm r b) = b_symbol b" "b_trade_callback (arr_set s lvs bm r b) = b_trade_callback b"
  "b_stp_policy (arr_set s lvs bm r b) = b_stp_policy b"
  by (cases s; cases u; simp add: arr_set_def arr_lv_def arr_bm_def arr_best_def)+

lemma arr_core_simps [simp]:
  "arr_lv (b\<lparr>b_pool := p\<rparr>) = arr_lv b" "arr_lv (b\<lparr>b_id_index := m\<rparr>) = arr_lv b"
  "arr_bm (b\<lparr>b_pool := p\<rparr>) = arr_bm b" "arr_bm (b\<lparr>b_id_index := m\<rparr>) = arr_bm b"
  "arr_best (b\<lparr>b_pool := p\<rparr>) = arr_best b" "arr_best (b\<lparr>b_id_index := m\<rparr>) = arr_best b"
  by (simp_all add: arr_lv_def arr_bm_def arr_best_def fun_eq_iff)

lemma price_of_simps [simp]:
  "price_of (arr_set s lvs bm r b) = price_of b" "price_of (b\<lparr>b_pool := p\<rparr>) = price_of b" "price_of (b\<lparr>b_id_index := m\<rparr>) = price_of b"
  "in_range (arr_set s lvs bm r b) = in_range b" "in_range (b\<lparr>b_pool := p\<rparr>) = in_range b" "in_range (b\<lparr>b_id_index := m\<rparr>) = in_range b"
  "index_of (arr_set s lvs bm r b) = index_of b" "index_of (b\<lparr>b_pool := p\<rparr>) = index_of b" "index_of (b\<lparr>b_id_index := m\<rparr>) = index_of b"
  by (simp_all add: price_of_def in_range_def index_of_def fun_eq_iff)

lemma arr_ok_core [simp]: "arr_ok (b\<lparr>b_pool := p\<rparr>) = arr_ok b" "arr_ok (b\<lparr>b_id_index := m\<rparr>) = arr_ok b"
    "arr_levels (b\<lparr>b_pool := p\<rparr>) = arr_levels b" "arr_levels (b\<lparr>b_id_index := m\<rparr>) = arr_levels b"
  by (simp_all add: arr_ok_def arr_side_ok_def arr_levels_def)

lemma arr_step:
  assumes "core_step b b1"
  shows "arr_ok b1 = arr_ok b" "arr_levels b1 = arr_levels b" "in_range b1 = in_range b" "arr_lv b1 = arr_lv b" "arr_bm b1 = arr_bm b"
    "arr_best b1 = arr_best b"
  using assms unfolding core_step_def
  by (metis arr_ok_core(1,2), metis arr_ok_core(3,4), metis price_of_simps(5,6), metis arr_core_simps(1,2), metis arr_core_simps(3,4),
      metis arr_core_simps(5,6))

lemma arr_levels_set:
  "arr_levels (arr_set s lvs bm r b) = (arr_levels b)(s := map (\<lambda>i. lvs ! i) (idxs s (bits bm)))"
  by (simp add: arr_levels_def fun_eq_iff)

lemma arr_okD:
  assumes "arr_ok b"
  shows "length (arr_lv b s) = ab_range b" "bitset_ok (arr_bm b s)" "bs_num_bits (arr_bm b s) = ab_range b"
    "i \<in> bits (arr_bm b s) \<Longrightarrow> l_price (arr_lv b s ! i) = price_of b i" "i \<in> bits (arr_bm b s) \<Longrightarrow> i < ab_range b"
    "i < ab_range b \<Longrightarrow> i \<notin> bits (arr_bm b s) \<Longrightarrow> arr_lv b s ! i = empty_level\<lparr>l_price := l_price (arr_lv b s ! i)\<rparr>"
    "arr_best b s = first (idxs s (bits (arr_bm b s)))" "finite (bits (arr_bm b s))"
proof -
  have side: "arr_side_ok b s" using assms by (simp add: arr_ok_def)
  then show "length (arr_lv b s) = ab_range b" "bitset_ok (arr_bm b s)" "bs_num_bits (arr_bm b s) = ab_range b"
    "i \<in> bits (arr_bm b s) \<Longrightarrow> l_price (arr_lv b s ! i) = price_of b i"
    "i < ab_range b \<Longrightarrow> i \<notin> bits (arr_bm b s) \<Longrightarrow> arr_lv b s ! i = empty_level\<lparr>l_price := l_price (arr_lv b s ! i)\<rparr>"
    "arr_best b s = first (idxs s (bits (arr_bm b s)))" "finite (bits (arr_bm b s))"
    using finite_bits by (auto simp: arr_side_ok_def)
  show "i \<in> bits (arr_bm b s) \<Longrightarrow> i < ab_range b" using side by (auto simp: arr_side_ok_def bitset_ok_def)
qed

lemma arr_ok_set:
  assumes "arr_ok b" "arr_side_ok (arr_set s lvs bm r b) s"
  shows "arr_ok (arr_set s lvs bm r b)"
  using assms by (auto simp: arr_ok_def arr_side_ok_def)

text \<open>Indices and prices.\<close>

lemma index_in_range:
  assumes "arr_ok b" "in_range b pr"
  shows "index_of b pr < ab_range b" "price_of b (index_of b pr) = pr"
  using assms by (auto simp: arr_ok_def in_range_def index_of_def price_of_def i64_max_def)

lemma index_of_price:
  assumes "arr_ok b" "i < ab_range b"
  shows "index_of b (price_of b i) = i" "in_range b (price_of b i)"
  using assms by (auto simp: arr_ok_def in_range_def index_of_def price_of_def i64_max_def)

lemma better_before: "better s (price_of b i) (price_of b j) \<longleftrightarrow> before s i j"
  by (cases s) (simp_all add: price_of_def)

lemma set_idxs [simp]: "finite S \<Longrightarrow> set (idxs s S) = S"
  by (simp add: idxs_def)

lemma before_fun: "before Buy = (\<lambda>i j. j < i)" "before Sell = (<)"
  by (simp_all add: fun_eq_iff)

lemma idxs_sorted: "sorted_wrt (before s) (idxs s S)"
proof -
  have "sorted_wrt (<) (sorted_list_of_set S)" by (rule strict_sorted_list_of_set)
  then show ?thesis by (cases s) (simp_all add: idxs_def sorted_wrt_rev before_fun)
qed

lemma idxs_unique:
  assumes "sorted_wrt (before s) xs" "set xs = S"
  shows "idxs s S = xs"
proof (cases s)
  case Buy
  then have "sorted_wrt (<) (rev xs)" using assms(1) by (simp add: sorted_wrt_rev before_fun)
  then have "sorted_list_of_set S = rev xs" using assms(2) by (metis set_rev sorted_list_of_set.idem_if_sorted_distinct strict_sorted_iff)
  then show ?thesis using Buy by (simp add: idxs_def)
next
  case Sell
  then show ?thesis using assms by (simp add: idxs_def before_fun) (metis sorted_list_of_set.idem_if_sorted_distinct strict_sorted_iff)
qed

text \<open>The operations of both sides at once.\<close>

definition next_side :: "Side \<Rightarrow> Bitset \<Rightarrow> nat \<Rightarrow> nat option option" where
  "next_side s = (if s = Buy then next_bid else next_ask)"

lemma next_side_first:
  assumes "bitset_ok bm" "idx < bs_num_bits bm"
  shows "next_side s bm idx = Some (first (filter (before s idx) (idxs s (bits bm))))"
proof (cases s)
  case Buy
  show ?thesis
  proof (cases idx)
    case 0
    then show ?thesis using Buy by (simp add: next_side_def next_bid_def first_def before_fun)
  next
    case (Suc j)
    then show ?thesis using Buy assms bit.down_first [of bm j]
      by (simp add: next_side_def next_bid_def idxs_def before_fun less_Suc_eq_le)
  qed
next
  case Sell
  then show ?thesis using assms bit.up_first [of bm "idx + 1"]
    by (simp add: next_side_def next_ask_def idxs_def before_fun Suc_le_eq)
qed

definition arr_settle :: "Side \<Rightarrow> nat \<Rightarrow> PriceLevel \<Rightarrow> OrderBookArray \<Rightarrow> OrderBookArray option" where
  "arr_settle s idx level b = do {
     lvs \<leftarrow> vset (arr_lv b s) idx level;
     if level_empty level then do {
       bm \<leftarrow> bitset_clear (arr_bm b s) idx;
       r \<leftarrow> next_side s bm idx;
       Some (arr_set s lvs bm r b) }
     else Some (arr_set s lvs (arr_bm b s) (arr_best b s) b) }"

lemma arr_settle_sides: "arr_settle_bid = arr_settle Buy" "arr_settle_ask = arr_settle Sell"
  by (auto simp: fun_eq_iff arr_settle_bid_def arr_settle_ask_def arr_settle_def arr_lv_def arr_bm_def arr_best_def arr_set_def
      next_side_def Let_def intro!: Option.bind_cong)

definition arr_vacate :: "Side \<Rightarrow> nat \<Rightarrow> PriceLevel \<Rightarrow> OrderBookArray \<Rightarrow> OrderBookArray option" where
  "arr_vacate s idx level b = do {
     lvs \<leftarrow> vset (arr_lv b s) idx level;
     if level_empty level then do {
       bm \<leftarrow> bitset_clear (arr_bm b s) idx;
       if arr_best b s = Some idx then do {
         r \<leftarrow> next_side s bm idx;
         Some (arr_set s lvs bm r b) }
       else Some (arr_set s lvs bm (arr_best b s) b) }
     else Some (arr_set s lvs (arr_bm b s) (arr_best b s) b) }"

lemma arr_vacate_sides: "arr_vacate_bid = arr_vacate Buy" "arr_vacate_ask = arr_vacate Sell"
  by (auto simp: fun_eq_iff arr_vacate_bid_def arr_vacate_ask_def arr_vacate_def arr_lv_def arr_bm_def arr_best_def arr_set_def
      next_side_def Let_def intro!: Option.bind_cong)

definition arr_occupy :: "Side \<Rightarrow> nat \<Rightarrow> Price \<Rightarrow> OrderBookArray \<Rightarrow> OrderBookArray option" where
  "arr_occupy s idx price b = do {
     occupied \<leftarrow> bitset_test (arr_bm b s) idx;
     if occupied then Some b
     else do {
       lv \<leftarrow> vget (arr_lv b s) idx;
       lvs \<leftarrow> vset (arr_lv b s) idx (lv\<lparr>l_price := price\<rparr>);
       bm \<leftarrow> bitset_set (arr_bm b s) idx;
       Some (arr_set s lvs bm (if (case arr_best b s of None \<Rightarrow> True | Some best \<Rightarrow> before s idx best) then Some idx else arr_best b s) b) } }"

lemma arr_occupy_sides: "arr_occupy_bid = arr_occupy Buy" "arr_occupy_ask = arr_occupy Sell"
  by (auto simp: fun_eq_iff arr_occupy_bid_def arr_occupy_ask_def arr_occupy_def arr_lv_def arr_bm_def arr_best_def arr_set_def
      Let_def intro!: Option.bind_cong split: option.splits)

text \<open>A level of the list view is the array element at the index of its price.\<close>

lemma arr_at:
  assumes ok: "arr_ok b" and lv: "arr_levels b s = as @ lv # bs"
  defines "i \<equiv> index_of b (l_price lv)" and "f \<equiv> \<lambda>i. arr_lv b s ! i"
  obtains A B where "idxs s (bits (arr_bm b s)) = A @ i # B" "as = map f A" "bs = map f B" "arr_lv b s ! i = lv"
    "i < ab_range b" "i \<in> bits (arr_bm b s)" "i \<notin> set A" "i \<notin> set B" "price_of b i = l_price lv"
proof -
  obtain A B j where AB: "idxs s (bits (arr_bm b s)) = A @ j # B" "as = map f A" "bs = map f B" "f j = lv"
    using lv by (auto simp: arr_levels_def f_def map_eq_append_conv map_eq_Cons_conv)
  have j: "j \<in> bits (arr_bm b s)" using AB(1) set_idxs [OF arr_okD(8) [OF ok, where s = s], of s] by auto
  note D = arr_okD(4,5) [OF ok j]
  have ij: "j = i" using index_of_price(1) [OF ok D(2)] D(1) AB(4) by (simp add: i_def f_def)
  have "sorted_wrt (before s) (A @ j # B)" using idxs_sorted [of s "bits (arr_bm b s)"] AB(1) by simp
  then have "j \<notin> set A" "j \<notin> set B" by (cases s; force simp: sorted_wrt_append before_fun)+
  then show thesis using that AB D j ij by (auto simp: f_def)
qed

lemma map_nth_update: "i \<notin> set A \<Longrightarrow> map ((!) (xs[i := x])) A = map ((!) xs) A"
  by (auto intro!: nth_list_update_neq)

lemma arr_put:
  assumes ok: "arr_ok b" and lv: "arr_levels b s = as @ lv # bs" and pr: "l_price lv' = l_price lv"
  defines "b' \<equiv> arr_set s ((arr_lv b s)[index_of b (l_price lv) := lv']) (arr_bm b s) (arr_best b s) b"
  shows "arr_ok b'" "arr_levels b' = (arr_levels b)(s := as @ lv' # bs)"
proof -
  obtain A B where AB: "idxs s (bits (arr_bm b s)) = A @ index_of b (l_price lv) # B" "as = map (\<lambda>i. arr_lv b s ! i) A"
    "bs = map (\<lambda>i. arr_lv b s ! i) B" "arr_lv b s ! index_of b (l_price lv) = lv" "index_of b (l_price lv) < ab_range b"
    "index_of b (l_price lv) \<in> bits (arr_bm b s)" "index_of b (l_price lv) \<notin> set A" "index_of b (l_price lv) \<notin> set B"
    "price_of b (index_of b (l_price lv)) = l_price lv"
    by (rule arr_at [OF ok lv])
  note D = arr_okD [OF ok, where s = s]
  show "arr_ok b'" unfolding b'_def
  proof (rule arr_ok_set [OF ok])
    show "arr_side_ok (arr_set s ((arr_lv b s)[index_of b (l_price lv) := lv']) (arr_bm b s) (arr_best b s) b) s"
      using D(1-3,7) D(4,6) AB(5,6,9) pr by (auto simp: arr_side_ok_def nth_list_update)
  qed
  show "arr_levels b' = (arr_levels b)(s := as @ lv' # bs)"
    unfolding b'_def arr_levels_set using AB(1-3,5,7,8) D(1) by (simp add: map_nth_update)
qed

lemma arr_drop:
  assumes ok: "arr_ok b" and lv: "arr_levels b s = as @ lv # bs" and lv': "lv' = empty_level\<lparr>l_price := l_price lv\<rparr>"
    and bm: "bitset_ok bm" "bits bm = bits (arr_bm b s) - {index_of b (l_price lv)}" "bs_num_bits bm = ab_range b"
  defines "b' \<equiv> arr_set s ((arr_lv b s)[index_of b (l_price lv) := lv']) bm (first (idxs s (bits bm))) b"
  shows "arr_ok b'" "arr_levels b' = (arr_levels b)(s := as @ bs)"
    "arr_best b s = Some (index_of b (l_price lv)) \<Longrightarrow> next_side s bm (index_of b (l_price lv)) = Some (first (idxs s (bits bm)))"
    "arr_best b s \<noteq> Some (index_of b (l_price lv)) \<Longrightarrow> arr_best b s = first (idxs s (bits bm))"
    "arr_best b s = Some (index_of b (l_price lv)) \<longleftrightarrow> as = []"
proof -
  let ?i = "index_of b (l_price lv)"
  obtain A B where AB: "idxs s (bits (arr_bm b s)) = A @ ?i # B" "as = map (\<lambda>i. arr_lv b s ! i) A"
    "bs = map (\<lambda>i. arr_lv b s ! i) B" "arr_lv b s ! ?i = lv" "?i < ab_range b"
    "?i \<in> bits (arr_bm b s)" "?i \<notin> set A" "?i \<notin> set B" "price_of b ?i = l_price lv"
    by (rule arr_at [OF ok lv])
  note D = arr_okD [OF ok, where s = s]
  have srt: "sorted_wrt (before s) (A @ ?i # B)" using idxs_sorted [of s "bits (arr_bm b s)"] AB(1) by simp
  have AB': "idxs s (bits bm) = A @ B"
  proof (rule idxs_unique)
    show "sorted_wrt (before s) (A @ B)" using srt by (simp add: sorted_wrt_append)
    have "bits (arr_bm b s) = set (A @ ?i # B)" using AB(1) set_idxs [OF D(8), of s] by simp
    then show "set (A @ B) = bits bm" using bm(2) AB(7,8) by auto
  qed
  show "arr_ok b'" unfolding b'_def
  proof (rule arr_ok_set [OF ok])
    show "arr_side_ok (arr_set s ((arr_lv b s)[?i := lv']) bm (first (idxs s (bits bm))) b) s"
      using D(1,4,6) bm AB(5) lv' by (auto simp: arr_side_ok_def nth_list_update empty_level_def)
  qed
  show "arr_levels b' = (arr_levels b)(s := as @ bs)"
    unfolding b'_def arr_levels_set AB' using AB(2,3,7,8) by (simp add: map_nth_update)
  have best: "arr_best b s = (if A = [] then Some ?i else Some (hd A))" using D(7) AB(1) by (cases A) (simp_all add: first_def)
  then have front: "arr_best b s = Some ?i \<longleftrightarrow> A = []" using AB(7) by (cases A) auto
  then show "arr_best b s = Some ?i \<longleftrightarrow> as = []" using AB(2) by simp
  show "arr_best b s \<noteq> Some ?i \<Longrightarrow> arr_best b s = first (idxs s (bits bm))"
    using front best AB' by (cases A) (simp_all add: first_def)
  assume "arr_best b s = Some ?i"
  then have "A = []" using front by simp
  then have "filter (before s ?i) (idxs s (bits bm)) = idxs s (bits bm)" using AB' srt by (simp add: filter_id_conv)
  then show "next_side s bm ?i = Some (first (idxs s (bits bm)))"
    using next_side_first [OF bm(1), of ?i s] bm(3) AB(5) by simp
qed

text \<open>Settling the best level after matching, and vacating any level after a cancel.\<close>

definition same_params :: "OrderBookArray \<Rightarrow> OrderBookArray \<Rightarrow> bool" where
  "same_params b b' \<longleftrightarrow> core_becomes b (b_pool b) (b_id_index b) b' \<and> in_range b' = in_range b"

lemma same_params_set [simp]: "same_params b (arr_set s lvs bm r b)"
  by (simp add: same_params_def core_becomes_def)

lemma arr_clear_at:
  assumes ok: "arr_ok b" and lv: "arr_levels b s = as @ lv # bs"
  obtains bm where "bitset_clear (arr_bm b s) (index_of b (l_price lv)) = Some bm" "bitset_ok bm"
    "bits bm = bits (arr_bm b s) - {index_of b (l_price lv)}" "bs_num_bits bm = ab_range b"
proof -
  have "index_of b (l_price lv) < bs_num_bits (arr_bm b s)"
    using arr_at [OF ok lv] arr_okD(3) [OF ok] by metis
  then show thesis using bit.clear_law [OF arr_okD(2) [OF ok]] arr_okD(3) [OF ok] that by metis
qed

lemma arr_vset_at:
  assumes ok: "arr_ok b" and lv: "arr_levels b s = as @ lv # bs"
  shows "vset (arr_lv b s) (index_of b (l_price lv)) lv' = Some ((arr_lv b s)[index_of b (l_price lv) := lv'])"
    "vget (arr_lv b s) (index_of b (l_price lv)) = Some lv"
  using arr_at [OF ok lv] arr_okD(1) [OF ok, of s] by (metis vset_Some, metis vget_Some)

lemma arr_vacate_at:
  assumes ok: "arr_ok b" and lv: "arr_levels b s = as @ lv # bs" and pr: "l_price lv' = l_price lv"
    and e: "level_empty lv' \<longrightarrow> lv' = empty_level\<lparr>l_price := l_price lv\<rparr>"
  shows "\<exists>b'. arr_vacate s (index_of b (l_price lv)) lv' b = Some b' \<and> arr_ok b' \<and>
    arr_levels b' = (arr_levels b)(s := as @ (if level_empty lv' then bs else lv' # bs)) \<and> same_params b b'"
proof (cases "level_empty lv'")
  case True
  obtain bm where bm: "bitset_clear (arr_bm b s) (index_of b (l_price lv)) = Some bm" "bitset_ok bm"
    "bits bm = bits (arr_bm b s) - {index_of b (l_price lv)}" "bs_num_bits bm = ab_range b"
    by (rule arr_clear_at [OF ok lv])
  note d = arr_drop [OF ok lv e [rule_format, OF True] bm(2-4)]
  show ?thesis
    using d True bm(1) arr_vset_at [OF ok lv] by (cases "arr_best b s = Some (index_of b (l_price lv))") (simp_all add: arr_vacate_def)
next
  case False
  then show ?thesis using arr_put [OF ok lv pr] arr_vset_at [OF ok lv] by (simp add: arr_vacate_def)
qed

lemma arr_settle_at:
  assumes ok: "arr_ok b" and lv: "arr_levels b s = lv # bs" and pr: "l_price lv' = l_price lv"
    and e: "level_empty lv' \<longrightarrow> lv' = empty_level\<lparr>l_price := l_price lv\<rparr>"
  shows "\<exists>b'. arr_settle s (index_of b (l_price lv)) lv' b = Some b' \<and> arr_ok b' \<and>
    arr_levels b' = (arr_levels b)(s := if level_empty lv' then bs else lv' # bs) \<and> same_params b b'"
proof (cases "level_empty lv'")
  case True
  have lv0: "arr_levels b s = [] @ lv # bs" using lv by simp
  obtain bm where bm: "bitset_clear (arr_bm b s) (index_of b (l_price lv)) = Some bm" "bitset_ok bm"
    "bits bm = bits (arr_bm b s) - {index_of b (l_price lv)}" "bs_num_bits bm = ab_range b"
    by (rule arr_clear_at [OF ok lv0])
  note d = arr_drop [OF ok lv0 e [rule_format, OF True] bm(2-4)]
  show ?thesis using d True bm(1) arr_vset_at [OF ok lv0] by (simp add: arr_settle_def)
next
  case False
  have lv0: "arr_levels b s = [] @ lv # bs" using lv by simp
  show ?thesis using False arr_put [OF ok lv0 pr] arr_vset_at [OF ok lv0] by (simp add: arr_settle_def)
qed

lemma arr_best_level:
  assumes "arr_ok b"
  shows "arr_levels b s = [] \<longleftrightarrow> arr_best b s = None"
    "arr_levels b s = lv # lvs \<Longrightarrow> arr_best b s = Some (index_of b (l_price lv)) \<and> vget (arr_lv b s) (index_of b (l_price lv)) = Some lv"
proof -
  show "arr_levels b s = [] \<longleftrightarrow> arr_best b s = None"
    using arr_okD(7) [OF assms, of s] by (auto simp: arr_levels_def first_def split: list.splits)
  assume l: "arr_levels b s = lv # lvs"
  then have l0: "arr_levels b s = [] @ lv # lvs" by simp
  obtain A B where "idxs s (bits (arr_bm b s)) = A @ index_of b (l_price lv) # B" "[] = map (\<lambda>i. arr_lv b s ! i) A"
    using arr_at [OF assms l0] by metis
  then show "arr_best b s = Some (index_of b (l_price lv)) \<and> vget (arr_lv b s) (index_of b (l_price lv)) = Some lv"
    using arr_okD(7) [OF assms, of s] arr_vset_at(2) [OF assms l0] by (simp add: first_def)
qed

definition arr_put_front :: "Side \<Rightarrow> OrderBookArray \<Rightarrow> PriceLevel \<Rightarrow> OrderBookArray \<Rightarrow> OrderBookArray option" where
  "arr_put_front s b0 lv b = (case arr_best b0 s of None \<Rightarrow> None | Some i \<Rightarrow> arr_settle s i lv b)"

lemma arr_match_side:
  assumes ok: "arr_ok b"
  shows "arr_match_against_book t b w =
      (if 0 < rq t then
        (case arr_levels b (opposite (o_side t)) of
           [] \<Rightarrow> Some (False, t, b, w)
         | lv # lvs \<Rightarrow>
             if \<not> price_ok t (l_price lv) then Some (False, t, b, w)
             else do {
               (k, t1, lv', b1, w1) \<leftarrow> drain_level (l_price lv) t lv b w;
               b2 \<leftarrow> arr_put_front (opposite (o_side t)) b lv' b1;
               if k then Some (True, t1, b2, w1) else arr_match_against_book t1 b2 w1 })
       else Some (False, t, b, w))"
proof (cases "arr_levels b (opposite (o_side t))")
  case Nil
  then show ?thesis using arr_best_level(1) [OF ok, of "opposite (o_side t)"]
    by (subst arr_match_against_book.simps) (cases "o_side t"; simp add: arr_best_def)
next
  case (Cons lv lvs)
  note best = arr_best_level(2) [OF ok Cons]
  show ?thesis
    using Cons best by (subst arr_match_against_book.simps, cases "o_side t")
      (auto simp: arr_best_def arr_lv_def arr_put_front_def arr_settle_sides price_ok_Limit not_le not_less)
qed

interpretation am: level_matcher arr_ok arr_levels in_range arr_put_front arr_match_against_book
proof
  fix b s lv lvs b1 and lv' :: PriceLevel
  assume a: "arr_ok b" "arr_levels b s = lv # lvs" "core_step b b1" "l_price lv' = l_price lv"
    "level_empty lv' \<Longrightarrow> lv' = empty_level\<lparr>l_price := l_price lv\<rparr>"
  note st = arr_step [OF a(3)]
  have b1: "arr_ok b1" "arr_levels b1 s = lv # lvs" using a(1,2) st by auto
  have "arr_best b s = Some (index_of b1 (l_price lv))" using arr_best_level(2) [OF b1] st(6) by simp
  then show "\<exists>b2. arr_put_front s b lv' b1 = Some b2 \<and> arr_ok b2 \<and> arr_levels b2 = (arr_levels b)(s := if level_empty lv' then lvs else lv' # lvs)
      \<and> in_range b2 = in_range b \<and> b_pool b2 = b_pool b1 \<and> b_id_index b2 = b_id_index b1 \<and> b_symbol b2 = b_symbol b1
        \<and> b_trade_callback b2 = b_trade_callback b1 \<and> b_stp_policy b2 = b_stp_policy b1"
    using arr_settle_at [OF b1 a(4)] a(5) st(2,3) by (auto simp: arr_put_front_def same_params_def core_becomes_def)
qed (rule arr_match_side)

section \<open>The array book is a level book\<close>

text \<open>Stepping from an occupied index gives the next one in priority order.\<close>

lemma next_side_walk:
  assumes ok: "arr_ok b" and ix: "idxs s (bits (arr_bm b s)) = A @ i # B"
  shows "next_side s (arr_bm b s) i = Some (first B)" "vget (arr_lv b s) i = Some (arr_lv b s ! i)"
proof -
  note D = arr_okD [OF ok, where s = s]
  have "i \<in> bits (arr_bm b s)" using set_idxs [OF D(8), of s] ix by auto
  then have i: "i < ab_range b" by (rule D(5))
  have "sorted_wrt (before s) (A @ i # B)" using idxs_sorted [of s "bits (arr_bm b s)"] ix by simp
  then have "\<forall>a \<in> set A. \<not> before s i a" "\<forall>c \<in> set B. before s i c" "\<not> before s i i"
    by (cases s; force simp: sorted_wrt_append)+
  then have "filter (before s i) (A @ i # B) = B" by (simp add: filter_id_conv)
  then show "next_side s (arr_bm b s) i = Some (first B)" using next_side_first [OF D(2), of i s] D(3) i ix by simp
  show "vget (arr_lv b s) i = Some (arr_lv b s ! i)" using i D(1) by (simp add: vget_Some)
qed

lemma arr_accumulate_levels:
  assumes ok: "arr_ok b" and ix: "idxs s (bits (arr_bm b s)) = A @ B"
  shows "arr_accumulate (next_side s (arr_bm b s)) (arr_lv b s) stop needed acc (first B) =
    accumulate stop needed acc (map ((!) (arr_lv b s)) B)"
  using ix
proof (induction B arbitrary: A acc)
  case Nil
  then show ?case by (subst arr_accumulate.simps) (simp add: first_def)
next
  case (Cons i B)
  note w = next_side_walk [OF ok Cons.prems]
  have IH: "arr_accumulate (next_side s (arr_bm b s)) (arr_lv b s) stop needed acc (first B) =
      accumulate stop needed acc (map ((!) (arr_lv b s)) B)" for acc
    using Cons.prems by (intro Cons.IH [of "A @ [i]"]) simp
  show ?case using w IH by (subst arr_accumulate.simps) (simp add: first_def cong: if_cong)
qed

lemma arr_depth_levels:
  assumes ok: "arr_ok b" and ix: "idxs s (bits (arr_bm b s)) = A @ B"
  shows "arr_depth (next_side s (arr_bm b s)) (arr_lv b s) n (first B) = Some (map level_view (take n (map ((!) (arr_lv b s)) B)))"
  using ix
proof (induction B arbitrary: A n)
  case Nil
  then show ?case by (cases n) (simp_all add: first_def)
next
  case (Cons i B)
  note w = next_side_walk [OF ok Cons.prems]
  have IH: "arr_depth (next_side s (arr_bm b s)) (arr_lv b s) n (first B) = Some (map level_view (take n (map ((!) (arr_lv b s)) B)))" for n
    using Cons.prems by (intro Cons.IH [of "A @ [i]"]) simp
  show ?case using w IH by (cases n) (simp_all add: first_def)
qed

lemma arr_walk_start:
  assumes ok: "arr_ok b"
  shows "arr_accumulate (next_side s (arr_bm b s)) (arr_lv b s) stop needed acc (arr_best b s) = accumulate stop needed acc (arr_levels b s)"
    "arr_depth (next_side s (arr_bm b s)) (arr_lv b s) n (arr_best b s) = Some (map level_view (take n (arr_levels b s)))"
  using arr_accumulate_levels [OF ok, of s "[]"] arr_depth_levels [OF ok, of s "[]"] arr_okD(7) [OF ok, of s]
  by (simp_all add: arr_levels_def)

lemma arr_crosses_levels:
  assumes "arr_ok b" "o_type ord = Limit"
  shows "arr_crosses ord b \<longleftrightarrow> arr_levels b (opposite (o_side ord)) \<noteq> []
    \<and> price_ok ord (l_price (hd (arr_levels b (opposite (o_side ord)))))"
proof (cases "arr_levels b (opposite (o_side ord))")
  case Nil
  then show ?thesis using arr_best_level(1) [OF assms(1), of "opposite (o_side ord)"]
    by (cases "o_side ord") (auto simp: arr_crosses_def arr_best_ask_def arr_best_bid_def arr_best_def)
next
  case (Cons lv lvs)
  then have "arr_levels b (opposite (o_side ord)) = [] @ lv # lvs" by simp
  from arr_at [OF assms(1) this] have "price_of b (index_of b (l_price lv)) = l_price lv" by metis
  then show ?thesis using Cons arr_best_level(2) [OF assms(1) Cons] assms(2)
    by (cases "o_side ord") (auto simp: arr_crosses_def arr_best_ask_def arr_best_bid_def arr_best_def price_ok_def)
qed

lemma arr_liquidity:
  assumes "arr_ok b" "rep_ok b (arr_levels b)" "abook_ok (view b (arr_levels b))" "0 < o_quantity ord"
  shows "arr_has_liquidity_for (o_side ord) (o_type ord) (o_price ord) (o_quantity ord) b =
    Some (o_quantity ord \<le> reachable_volume ord (side_of (opposite (o_side ord)) (view b (arr_levels b))))"
  using levels_liquidity [OF assms(2-4)] arr_walk_start(1) [OF assms(1), of "opposite (o_side ord)"]
  by (cases "o_side ord") (simp_all add: arr_has_liquidity_for_def arr_best_def arr_bm_def arr_lv_def next_side_def price_ok_def not_le)

text \<open>Opening a level where there was none, or finding the one there is.\<close>

lemma arr_occupied:
  assumes ok: "arr_ok b" and pr: "in_range b pr" and lv: "arr_levels b s = as @ lmid @ bs"
    and as: "\<forall>a \<in> set as. better s (l_price a) pr" and bs: "\<forall>c \<in> set bs. better s pr (l_price c)" and j: "joins lmid pr lv"
  shows "index_of b pr \<in> bits (arr_bm b s) \<longleftrightarrow> lmid = [lv]"
proof -
  note D = arr_okD [OF ok, where s = s] and I = index_in_range [OF ok pr]
  have ex: "set (arr_levels b s) = (!) (arr_lv b s) ` bits (arr_bm b s)" using D(8) by (simp add: arr_levels_def)
  show ?thesis
  proof
    assume "index_of b pr \<in> bits (arr_bm b s)"
    then obtain l where l: "l \<in> set (arr_levels b s)" "l_price l = pr" using ex D(4) I(2) by (metis image_eqI)
    then have "l \<notin> set as" "l \<notin> set bs" using as bs better_irrefl(1) by metis+
    then show "lmid = [lv]" using l(1) lv j by (auto simp: joins_def)
  next
    assume "lmid = [lv]"
    then have "lv \<in> set (arr_levels b s)" "l_price lv = pr" using lv j by (auto simp: joins_def)
    then obtain i where "i \<in> bits (arr_bm b s)" "price_of b i = pr" using ex D(4) by auto
    then show "index_of b pr \<in> bits (arr_bm b s)" using index_of_price(1) [OF ok D(5)] by metis
  qed
qed

lemma arr_open_list:
  assumes ok: "arr_ok b" and pr: "in_range b pr" and lv: "arr_levels b s = as @ bs"
    and as: "\<forall>a \<in> set as. better s (l_price a) pr" and bs: "\<forall>c \<in> set bs. better s pr (l_price c)"
  obtains A B where "idxs s (bits (arr_bm b s)) = A @ B" "as = map ((!) (arr_lv b s)) A" "bs = map ((!) (arr_lv b s)) B"
    "idxs s (insert (index_of b pr) (bits (arr_bm b s))) = A @ index_of b pr # B"
    "\<forall>a \<in> set A. before s a (index_of b pr)" "\<forall>c \<in> set B. before s (index_of b pr) c"
proof -
  note D = arr_okD [OF ok, where s = s] and I = index_in_range [OF ok pr]
  obtain A B where AB: "idxs s (bits (arr_bm b s)) = A @ B" "as = map ((!) (arr_lv b s)) A" "bs = map ((!) (arr_lv b s)) B"
    using lv by (auto simp: arr_levels_def map_eq_append_conv)
  have S: "set (A @ B) = bits (arr_bm b s)" using set_idxs [OF D(8), of s] AB(1) by simp
  have p: "l_price (arr_lv b s ! i) = price_of b i" if "i \<in> set (A @ B)" for i using D(4) [of i] that S by blast
  have "\<forall>a \<in> set A. before s a (index_of b pr)" "\<forall>c \<in> set B. before s (index_of b pr) c"
    using as bs AB(2,3) p I(2) better_before [of s b] by auto metis+
  moreover from this have "idxs s (insert (index_of b pr) (bits (arr_bm b s))) = A @ index_of b pr # B"
    using idxs_sorted [of s "bits (arr_bm b s)"] S unfolding AB(1) by (intro idxs_unique) (auto simp: sorted_wrt_append)
  ultimately show thesis using that AB by blast
qed

lemma arr_occupy_at:
  assumes ok: "arr_ok b" and pr: "in_range b pr" and lv: "arr_levels b s = as @ lmid @ bs"
    and as: "\<forall>a \<in> set as. better s (l_price a) pr" and bs: "\<forall>c \<in> set bs. better s pr (l_price c)" and j: "joins lmid pr lv"
  shows "\<exists>b'. arr_occupy s (index_of b pr) pr b = Some b' \<and> arr_ok b' \<and> arr_levels b' = (arr_levels b)(s := as @ lv # bs)
    \<and> same_params b b' \<and> index_of b' = index_of b"
proof -
  note D = arr_okD [OF ok, where s = s] and I = index_in_range [OF ok pr]
  let ?i = "index_of b pr"
  have test: "bitset_test (arr_bm b s) ?i = Some (lmid = [lv])"
    using bit.test_law [OF D(2)] D(3) I(1) arr_occupied [OF ok pr lv as bs j] by simp
  show ?thesis
  proof (cases "lmid = [lv]")
    case True
    then have "arr_levels b = (arr_levels b)(s := as @ lv # bs)" using lv by (simp add: fun_eq_iff)
    then show ?thesis using test True ok by (auto simp: arr_occupy_def same_params_def core_becomes_def)
  next
    case False
    then have new: "lmid = []" "lv = empty_level\<lparr>l_price := pr\<rparr>" "?i \<notin> bits (arr_bm b s)"
      using j arr_occupied [OF ok pr lv as bs j] by (auto simp: joins_def)
    have lv0: "arr_levels b s = as @ bs" using lv new(1) by simp
    obtain A B where AB: "idxs s (bits (arr_bm b s)) = A @ B" "as = map ((!) (arr_lv b s)) A" "bs = map ((!) (arr_lv b s)) B"
      "idxs s (insert ?i (bits (arr_bm b s))) = A @ ?i # B" "\<forall>a \<in> set A. before s a ?i" "\<forall>c \<in> set B. before s ?i c"
      by (rule arr_open_list [OF ok pr lv0 as bs])
    obtain bm where bm: "bitset_set (arr_bm b s) ?i = Some bm" "bitset_ok bm" "bits bm = insert ?i (bits (arr_bm b s))"
      "bs_num_bits bm = ab_range b" using bit.insert_law [OF D(2), of ?i] D(3) I(1) by auto
    have lvl: "(arr_lv b s ! ?i)\<lparr>l_price := pr\<rparr> = lv"
      using D(6) [OF I(1) new(3)] new(2) by (metis PriceLevel.update_convs(1) PriceLevel.surjective PriceLevel.select_convs)
    have best: "(if (case arr_best b s of None \<Rightarrow> True | Some best \<Rightarrow> before s ?i best) then Some ?i else arr_best b s)
        = first (idxs s (bits bm))"
      using D(7) AB(1,4-6) bm(3) by (cases A; cases B; cases s) (auto simp: first_def)
    let ?b = "arr_set s ((arr_lv b s)[?i := lv]) bm (first (idxs s (bits bm))) b"
    have "arr_occupy s ?i pr b = Some ?b"
      using test False bm(1) D(1) I(1) lvl best by (simp add: arr_occupy_def ub_simps)
    moreover have "arr_ok ?b"
    proof (rule arr_ok_set [OF ok])
      show "arr_side_ok ?b s"
        using D(1,4,5,6) bm(2-4) I new by (auto simp: arr_side_ok_def nth_list_update)
    qed
    moreover have "?i \<notin> set A" "?i \<notin> set B" using AB(5,6) by (cases s; auto)+
    then have "arr_levels ?b = (arr_levels b)(s := as @ lv # bs)"
      unfolding arr_levels_set using AB(2-4) bm(3) I(1) D(1) by (simp add: map_nth_update)
    ultimately show ?thesis by auto
  qed
qed

lemma arr_rest_order_side:
  "arr_rest_order ord b = do {
     (x, p) \<leftarrow> acquire (b_pool b) ord;
     b \<leftarrow> arr_occupy (o_side ord) (index_of b (o_price ord)) (o_price ord) b;
     lv \<leftarrow> vget (arr_lv b (o_side ord)) (index_of b (o_price ord));
     (lv, p) \<leftarrow> level_push_back lv p x;
     lvs \<leftarrow> vset (arr_lv b (o_side ord)) (index_of b (o_price ord)) lv;
     (_, m) \<leftarrow> id_insert (b_id_index b) (o_id ord) x;
     Some ((arr_set (o_side ord) lvs (arr_bm b (o_side ord)) (arr_best b (o_side ord)) b)\<lparr>b_pool := p, b_id_index := m\<rparr>) }"
proof -
  have ix: "arr_occupy s i pr b = Some b1 \<Longrightarrow> index_of b1 = index_of b" for s i pr b1
    by (auto simp: arr_occupy_def Let_def bind_eq_Some_conv split: if_splits)
  show ?thesis
    by (cases "o_side ord")
      (auto simp: arr_rest_order_def arr_occupy_sides arr_lv_def arr_bm_def arr_best_def arr_set_def Let_def ix
        intro!: Option.bind_cong split: prod.splits)
qed

lemma arr_rest:
  assumes cok: "arr_ok b" and rep: "rep_ok b (arr_levels b)" and ok: "abook_ok (view b (arr_levels b))"
    and room: "length (nodes b) < unat kNullIndex"
    and new: "o_id ord \<noteq> kInvalidOrderId" "o_id ord \<notin> ids (view b (arr_levels b))" and rng: "in_range b (o_price ord)"
    and q: "0 < rq ord" "volume (side_of (o_side ord) (view b (arr_levels b))) + rq ord \<le> i64_max"
  shows "\<exists>b'. arr_rest_order ord b = Some b' \<and> moved arr_ok arr_levels in_range b
    (set_side (o_side ord) (place (o_side ord) ord (side_of (o_side ord) (view b (arr_levels b)))) (view b (arr_levels b))) 1 b'"
proof -
  let ?s = "o_side ord"
  obtain as lmid bs lv x p lv' p' m where r: "arr_levels b ?s = as @ lmid @ bs" "joins lmid (o_price ord) lv"
    "\<forall>a \<in> set as. better ?s (l_price a) (o_price ord)" "\<forall>c \<in> set bs. better ?s (o_price ord) (l_price c)"
    "acquire (b_pool b) ord = Some (x, p)" "level_push_back lv p x = Some (lv', p')"
    "id_insert (b_id_index b) (o_id ord) x = Some (True, m)" "l_price lv' = o_price ord" "\<not> level_empty lv'"
    "leads_to arr_levels b ((arr_levels b)(?s := as @ lv' # bs)) p' m
      (set_side ?s (place ?s ord (side_of ?s (view b (arr_levels b)))) (view b (arr_levels b))) 1"
    by (rule rest_step [of b arr_levels ord, OF rep ok room new q])
  obtain b1 where b1: "arr_occupy ?s (index_of b (o_price ord)) (o_price ord) b = Some b1" "arr_ok b1"
    "arr_levels b1 = (arr_levels b)(?s := as @ lv # bs)" "same_params b b1" "index_of b1 = index_of b"
    using arr_occupy_at [OF cok rng r(1,3,4,2)] by blast
  have lv: "arr_levels b1 ?s = as @ lv # bs" "l_price lv = o_price ord" using b1(3) r(2) by (simp_all add: joins_def)
  have pr: "l_price lv' = l_price lv" using lv(2) r(8) by simp
  note put = arr_put [OF b1(2) lv(1) pr] and at = arr_vset_at [OF b1(2) lv(1)]
  let ?b = "(arr_set ?s ((arr_lv b1 ?s)[index_of b1 (l_price lv) := lv']) (arr_bm b1 ?s) (arr_best b1 ?s) b1)\<lparr>b_pool := p', b_id_index := m\<rparr>"
  have "arr_rest_order ord b = Some ?b"
    using r(5-7) b1(1,4,5) at lv(2) by (simp add: arr_rest_order_side same_params_def core_becomes_def)
  moreover have "moved arr_ok arr_levels in_range b
      (set_side ?s (place ?s ord (side_of ?s (view b (arr_levels b)))) (view b (arr_levels b))) 1 ?b"
    by (rule leads_toD [OF r(10)]) (use put b1(3,4) in \<open>simp_all add: core_becomes_def same_params_def\<close>)
  ultimately show ?thesis by blast
qed

lemma arr_cancel_order_side:
  assumes "id_find (b_id_index b) i = Some (Some x)" "pool_get (b_pool b) x = Some nd"
    and "vget (arr_lv b (o_side (n_order nd))) (index_of b (o_price (n_order nd))) = Some lv"
  shows "arr_cancel_order i b = do {
     q \<leftarrow> chk64 (l_total_quantity lv - o_remaining_quantity (n_order nd));
     (lv, p) \<leftarrow> level_unlink (lv\<lparr>l_total_quantity := q\<rparr>) (b_pool b) x;
     b \<leftarrow> arr_vacate (o_side (n_order nd)) (index_of b (o_price (n_order nd))) lv b;
     p \<leftarrow> release p x;
     (_, m) \<leftarrow> id_erase (b_id_index b) i;
     Some (True, b\<lparr>b_pool := p, b_id_index := m\<rparr>) }"
  using assms
  by (cases "o_side (n_order nd)")
    (auto simp: arr_cancel_order_def arr_lv_def Let_def arr_vacate_sides intro!: Option.bind_cong split: prod.splits)

lemma arr_cancel:
  assumes cok: "arr_ok b" and rep: "rep_ok b (arr_levels b)" and ok: "abook_ok (view b (arr_levels b))"
  shows "\<exists>b'. arr_cancel_order i b = Some (fst (spec_cancel i (view b (arr_levels b))), b') \<and>
    moved arr_ok arr_levels in_range b (snd (spec_cancel i (view b (arr_levels b)))) 0 b'"
proof (cases "id_lookup (b_id_index b) i")
  case None
  then have "arr_cancel_order i b = Some (False, b)" using id_find_view [OF rep] by (simp add: arr_cancel_order_def)
  then show ?thesis using cancel_unknown [of arr_ok b arr_levels, OF cok rep None] by auto
next
  case (Some x)
  let ?s = "o_side (ord_at (nodes b) x)"
  obtain as lv bs lv' p1 p2 m where v: "arr_levels b ?s = as @ lv # bs" "l_price lv = o_price (ord_at (nodes b) x)"
    "\<forall>a \<in> set as. better ?s (l_price a) (l_price lv)" "\<forall>c \<in> set bs. better ?s (l_price lv) (l_price c)"
    "pool_get (b_pool b) x = Some (node_at (nodes b) x)"
    "in_i64 (l_total_quantity lv - rem_at (nodes b) x)"
    "level_unlink (lv\<lparr>l_total_quantity := l_total_quantity lv - rem_at (nodes b) x\<rparr>) (b_pool b) x = Some (lv', p1)"
    "release p1 x = Some p2" "id_erase (b_id_index b) i = Some (True, m)" "l_price lv' = l_price lv"
    "level_empty lv' \<longrightarrow> lv' = empty_level\<lparr>l_price := l_price lv\<rparr>"
    "leads_to arr_levels b ((arr_levels b)(?s := as @ (if level_empty lv' then bs else lv' # bs))) p2 m
      (remove_id i (view b (arr_levels b))) 0"
    by (rule cancel_step [of b arr_levels, OF rep ok Some])
  obtain b1 where b1: "arr_vacate ?s (index_of b (l_price lv)) lv' b = Some b1" "arr_ok b1"
    "arr_levels b1 = (arr_levels b)(?s := as @ (if level_empty lv' then bs else lv' # bs))" "same_params b b1"
    using arr_vacate_at [OF cok v(1,10,11)] by blast
  have "arr_cancel_order i b = Some (True, b1\<lparr>b_pool := p2, b_id_index := m\<rparr>)"
    using arr_cancel_order_side [OF _ v(5) arr_vset_at(2) [OF cok v(1), unfolded v(2)], of i] id_find_view [OF rep] Some
      v(2,6-9) b1(1,4) by (simp add: ub_simps same_params_def core_becomes_def)
  moreover have "moved arr_ok arr_levels in_range b (remove_id i (view b (arr_levels b))) 0 (b1\<lparr>b_pool := p2, b_id_index := m\<rparr>)"
    by (rule leads_toD [OF v(12)]) (use b1 in \<open>simp_all add: core_becomes_def same_params_def\<close>)
  ultimately show ?thesis using cancel_known [OF rep Some] by auto
qed

text \<open>The in-place branch of \<open>amend_order\<close>.\<close>

definition arr_shrink :: "Order \<Rightarrow> u32 \<Rightarrow> Quantity \<Rightarrow> OrderBookArray \<Rightarrow> OrderBookArray option" where
  "arr_shrink snapshot x new_quantity b = do {
     let s = o_side snapshot;
     level \<leftarrow> vget (arr_lv b s) (index_of b (o_price snapshot));
     delta \<leftarrow> chk64 (o_remaining_quantity snapshot - new_quantity);
     (level, p) \<leftarrow> level_reduce_quantity level (b_pool b) x delta;
     lvs \<leftarrow> vset (arr_lv b s) (index_of b (o_price snapshot)) level;
     Some ((arr_set s lvs (arr_bm b s) (arr_best b s) b)\<lparr>b_pool := p\<rparr>) }"

lemma arr_shrinks:
  assumes cok: "arr_ok b" and rep: "rep_ok b (arr_levels b)" and ok: "abook_ok (view b (arr_levels b))"
    and x: "id_lookup (b_id_index b) i = Some x" and q: "0 < q" "q \<le> rem_at (nodes b) x"
  shows "\<exists>b'. arr_shrink (ord_at (nodes b) x) x q b = Some b' \<and>
    moved arr_ok arr_levels in_range b (resize_book i q (view b (arr_levels b))) 0 b'"
proof -
  let ?s = "o_side (ord_at (nodes b) x)"
  obtain as lv bs lv' p' where v: "arr_levels b ?s = as @ lv # bs" "l_price lv = o_price (ord_at (nodes b) x)"
    "\<forall>a \<in> set as. better ?s (l_price a) (l_price lv)" "\<forall>c \<in> set bs. better ?s (l_price lv) (l_price c)"
    "in_i64 (rem_at (nodes b) x - q)"
    "level_reduce_quantity lv (b_pool b) x (rem_at (nodes b) x - q) = Some (lv', p')" "l_price lv' = l_price lv" "\<not> level_empty lv'"
    "leads_to arr_levels b ((arr_levels b)(?s := as @ lv' # bs)) p' (b_id_index b) (resize_book i q (view b (arr_levels b))) 0"
    by (rule shrink_step [of b arr_levels, OF rep ok x q])
  note put = arr_put [OF cok v(1,7)] and at = arr_vset_at [OF cok v(1)]
  let ?b = "(arr_set ?s ((arr_lv b ?s)[index_of b (l_price lv) := lv']) (arr_bm b ?s) (arr_best b ?s) b)\<lparr>b_pool := p'\<rparr>"
  have "arr_shrink (ord_at (nodes b) x) x q b = Some ?b"
    using v(5,6) at by (simp add: arr_shrink_def Let_def ub_simps v(2))
  moreover have "moved arr_ok arr_levels in_range b (resize_book i q (view b (arr_levels b))) 0 ?b"
    by (rule leads_toD [OF v(9)]) (use put in \<open>simp_all add: core_becomes_def\<close>)
  ultimately show ?thesis by blast
qed

lemma arr_add_eq:
  "arr_add_order ord b w = add_with (in_range b) arr_crosses arr_has_liquidity_for arr_match_against_book arr_rest_order
     (b_id_index b) ord b w"
  by (simp only: arr_add_order_def add_with_def Let_def)

lemma arr_amend_eq:
  "arr_amend_order i q np b w = amend_with (in_range b) arr_shrink arr_cancel_order arr_add_order i q np b w"
proof -
  have sides: "arr_lv b s = (if s = Buy then ab_bid_levels b else ab_ask_levels b)"
    "arr_set s lvs (arr_bm b s) (arr_best b s) b = (if s = Buy then b\<lparr>ab_bid_levels := lvs\<rparr> else b\<lparr>ab_ask_levels := lvs\<rparr>)" for s lvs
    by (simp_all add: arr_lv_def arr_set_def arr_bm_def arr_best_def)
  show ?thesis
    by (cases np) (auto simp: arr_amend_order_def amend_with_def arr_shrink_def sides Let_def not_less
        intro!: Option.bind_cong split: option.splits prod.splits)
qed

interpretation ab: level_book arr_ok arr_levels in_range arr_crosses arr_has_liquidity_for arr_match_against_book
  arr_rest_order arr_shrink arr_cancel_order arr_add_order arr_amend_order
  by unfold_locales
    (assumption | rule arr_crosses_levels arr_liquidity am.match_refines arr_rest arr_shrinks arr_cancel arr_add_eq arr_amend_eq)+

section \<open>The contract of the array book\<close>

definition arr_abs :: "OrderBookArray \<Rightarrow> ABook" where
  "arr_abs b = view b (arr_levels b)"

definition arr_inv :: "OrderBookArray \<Rightarrow> bool" where
  "arr_inv b \<longleftrightarrow> arr_ok b \<and> rep_ok b (arr_levels b) \<and> abook_ok (arr_abs b)"

lemma arr_inv_linv: "ab.linv = arr_inv"
  by (simp add: fun_eq_iff ab.linv_def arr_inv_def arr_abs_def)

lemma arr_empty:
  assumes "arr_ok b" "\<And>s. bits (arr_bm b s) = {}" "pool_ok (b_pool b)" "nodes b = []" "id_inv (b_id_index b)"
    "id_lookup (b_id_index b) = Map.empty"
  shows "arr_inv b" "arr_abs b = empty_abook"
proof -
  have "arr_levels b = (\<lambda>s. [])" using assms(2) by (simp add: arr_levels_def idxs_def fun_eq_iff)
  then show "arr_abs b = empty_abook" "arr_inv b"
    using view_empty [OF assms(3-6)] empty_abook_ok assms(1) by (simp_all add: arr_inv_def arr_abs_def)
qed

lemma arr_new_ok:
  assumes "arr_new symb mn mx hint stp = Inr b" "mx \<le> i64_max"
  shows "arr_inv b" "arr_abs b = empty_abook"
proof -
  have v: "0 < mn" "mn \<le> mx" and b: "b = \<lparr>b_symbol = symb, b_pool = pool_new hint, b_id_index = id_new hint,
      b_trade_callback = False, b_stp_policy = stp, ab_min_price = mn, ab_max_price = mx, ab_range = nat (mx - mn) + 1,
      ab_bid_levels = replicate (nat (mx - mn) + 1) empty_level, ab_ask_levels = replicate (nat (mx - mn) + 1) empty_level,
      ab_bid_bitmap = bitset_new (nat (mx - mn) + 1), ab_ask_bitmap = bitset_new (nat (mx - mn) + 1),
      ab_best_bid_idx = None, ab_best_ask_idx = None\<rparr>"
    using assms(1) by (auto simp: arr_new_def validate_and_compute_range_def split: if_splits)
  let ?n = "nat (mx - mn) + 1"
  have f: "arr_lv b s = replicate ?n empty_level" "arr_bm b s = bitset_new ?n" "arr_best b s = None" "ab_range b = ?n"
    "b_pool b = pool_new hint" "b_id_index b = id_new hint" "ab_min_price b = mn" "ab_max_price b = mx" for s
    by (simp_all add: b arr_lv_def arr_bm_def arr_best_def)
  have sz: "bs_num_bits (bitset_new ?n) = ?n" by (simp add: bitset_new_def)
  have "arr_side_ok b s" for s
    unfolding arr_side_ok_def f sz bitset_new_ok using bitset_new_ok(1)
    by (simp add: idxs_def first_def empty_level_def nth_Cons' del: replicate_Suc)
  then have "arr_ok b" using v assms(2) by (simp add: arr_ok_def f)
  then show "arr_inv b" "arr_abs b = empty_abook"
    using arr_empty [of b] by (simp_all add: f bitset_new_ok id_new_inv id_new_lookup pool_new_ok)
qed

text \<open>\<open>clear_side\<close> visits exactly the occupied levels, in ascending order.\<close>

lemma clear_side_levels:
  assumes "bitset_ok bm" "length lvs = bs_num_bits bm"
  shows "\<exists>lvs' bm'. clear_side lvs bm (first (sorted_list_of_set (bits bm))) = Some (lvs', bm') \<and> bitset_ok bm' \<and> bits bm' = {}
    \<and> bs_num_bits bm' = bs_num_bits bm \<and> length lvs' = length lvs
    \<and> (\<forall>i < length lvs. lvs' ! i = (if i \<in> bits bm then clear_orders (lvs ! i) else lvs ! i))"
  using assms
proof (induction "card (bits bm)" arbitrary: lvs bm rule: less_induct)
  case less
  show ?case
  proof (cases "sorted_list_of_set (bits bm)")
    case Nil
    then have "bits bm = {}" using finite_bits [OF less.prems(1)] sorted_list_of_set_eq_Nil_iff by blast
    then show ?thesis using less.prems by (subst clear_side.simps) (auto simp: first_def)
  next
    case (Cons i rs)
    have fin: "finite (bits bm)" by (rule finite_bits [OF less.prems(1)])
    have srt: "sorted_wrt (<) (i # rs)" "set (i # rs) = bits bm"
      using strict_sorted_list_of_set [of "bits bm"] set_sorted_list_of_set [OF fin] unfolding Cons by auto
    then have i: "i \<in> bits bm" "i < bs_num_bits bm" using less.prems(1) by (auto simp: bitset_ok_def)
    obtain bm1 where bm1: "bitset_clear bm i = Some bm1" "bitset_ok bm1" "bits bm1 = bits bm - {i}" "bs_num_bits bm1 = bs_num_bits bm"
      using bit.clear_law [OF less.prems(1) i(2)] by blast
    have "sorted_list_of_set (bits bm1) = rs" using bm1(3) Cons fin by (simp add: sorted_list_of_set.sorted_key_list_of_set_remove)
    moreover have "filter (\<lambda>j. i + 1 \<le> j) rs = rs" using srt(1) by (auto simp: filter_id_conv)
    ultimately have nxt: "find_next_set bm1 (i + 1) = Some (first (sorted_list_of_set (bits bm1)))"
      using bit.up_first [OF bm1(2), of "i + 1"] by simp
    let ?l = "lvs[i := clear_orders (lvs ! i)]"
    have "card (bits bm1) < card (bits bm)" using fin i(1) bm1(3) by (metis card_Diff1_less)
    then obtain lvs' bm' where r: "clear_side ?l bm1 (first (sorted_list_of_set (bits bm1))) = Some (lvs', bm')" "bitset_ok bm'"
        "bits bm' = {}" "bs_num_bits bm' = bs_num_bits bm1" "length lvs' = length ?l"
        "\<forall>j < length ?l. lvs' ! j = (if j \<in> bits bm1 then clear_orders (?l ! j) else ?l ! j)"
      using less.hyps [of bm1 ?l] bm1(2,4) less.prems(2) by auto
    have "clear_side lvs bm (Some i) = Some (lvs', bm')"
      using r(1) bm1(1) nxt i(2) less.prems(2) by (subst clear_side.simps) (simp add: ub_simps)
    then show ?thesis using r bm1(3,4) i(1) Cons by (auto simp: first_def nth_list_update)
  qed
qed

lemma arr_clear_side:
  assumes ok: "arr_ok b"
  obtains i lvs bm where "find_next_set (arr_bm b s) 0 = Some i" "clear_side (arr_lv b s) (arr_bm b s) i = Some (lvs, bm)" "bits bm = {}"
    "arr_ok (arr_set s lvs bm None b)"
proof -
  note D = arr_okD [OF ok, where s = s]
  obtain lvs bm where c: "clear_side (arr_lv b s) (arr_bm b s) (first (sorted_list_of_set (bits (arr_bm b s)))) = Some (lvs, bm)"
      "bitset_ok bm" "bits bm = {}" "bs_num_bits bm = bs_num_bits (arr_bm b s)" "length lvs = length (arr_lv b s)"
      "\<forall>i < length (arr_lv b s). lvs ! i = (if i \<in> bits (arr_bm b s) then clear_orders (arr_lv b s ! i) else arr_lv b s ! i)"
    using clear_side_levels [OF D(2)] D(1,3) by metis
  have "find_next_set (arr_bm b s) 0 = Some (first (sorted_list_of_set (bits (arr_bm b s))))"
    using bit.up_first [OF D(2), of 0] by simp
  moreover have "arr_ok (arr_set s lvs bm None b)"
  proof (rule arr_ok_set [OF ok])
    have "lvs ! i = empty_level\<lparr>l_price := l_price (lvs ! i)\<rparr>" if "i < ab_range b" for i
      using c(6) D(1,6) that by (cases "i \<in> bits (arr_bm b s)") (auto simp: clear_orders_def empty_level_def)
    then show "arr_side_ok (arr_set s lvs bm None b) s"
      using c D(1,3) by (simp add: arr_side_ok_def idxs_def first_def)
  qed
  ultimately show thesis using that c(1,3) by blast
qed

lemma arr_reset_ok:
  assumes "arr_inv b"
  shows "\<exists>b'. arr_reset b = Some b' \<and> arr_inv b' \<and> arr_abs b' = empty_abook \<and> in_range b' = in_range b"
proof -
  have ok: "arr_ok b" and "core_ok b (live_slots (queues_of b (arr_levels b)))"
    using assms book_repD(4) by (auto simp: arr_inv_def rep_ok_def)
  then have core: "pool_ok (b_pool b)" "id_inv (b_id_index b)" by (metis core_okD(1), metis core_okD(3))
  obtain i lvs bm where 1: "find_next_set (arr_bm b Buy) 0 = Some i" "clear_side (arr_lv b Buy) (arr_bm b Buy) i = Some (lvs, bm)"
    "bits bm = {}" "arr_ok (arr_set Buy lvs bm None b)"
    by (rule arr_clear_side [OF ok])
  let ?b1 = "arr_set Buy lvs bm None b"
  obtain j lvs' bm' where 2: "find_next_set (arr_bm ?b1 Sell) 0 = Some j" "clear_side (arr_lv ?b1 Sell) (arr_bm ?b1 Sell) j = Some (lvs', bm')"
    "bits bm' = {}" "arr_ok (arr_set Sell lvs' bm' None ?b1)"
    by (rule arr_clear_side [OF 1(4)])
  let ?b = "(arr_set Sell lvs' bm' None ?b1)\<lparr>b_pool := pool_reset (b_pool b), b_id_index := id_clear (b_id_index b)\<rparr>"
  have "arr_reset b = Some ?b"
    using 1(1,2) 2(1,2) by (simp add: arr_reset_def arr_lv_def arr_bm_def arr_set_def)
  moreover have "bits (arr_bm ?b s) = {}" for s using 1(3) 2(3) by (cases s) simp_all
  ultimately show ?thesis
    using arr_empty [of ?b] 2(4) core by (simp add: pool_reset_ok id_clear_inv id_clear_lookup)
qed

lemma arr_best_price:
  assumes inv: "arr_inv b"
  shows "map_option (price_of b) (arr_best b s) = best_price (side_of s (arr_abs b))"
proof (cases "arr_levels b s")
  case Nil
  then show ?thesis using inv arr_best_level(1) [of b s] view_head(1) [of b "arr_levels b" s]
    by (simp add: arr_inv_def arr_abs_def best_price_def)
next
  case (Cons lv lvs)
  then have "arr_levels b s = [] @ lv # lvs" by simp
  from arr_at [OF _ this] have "price_of b (index_of b (l_price lv)) = l_price lv" using inv by (metis arr_inv_def)
  then show ?thesis using inv Cons arr_best_level(2) [OF _ Cons] view_head [of b "arr_levels b" s]
    by (simp add: arr_inv_def arr_abs_def best_price_def)
qed

lemma arr_best_ok:
  assumes "arr_inv b"
  shows "arr_best_bid b = best_price (a_bids (arr_abs b))" "arr_best_ask b = best_price (a_asks (arr_abs b))"
  using arr_best_price [OF assms, of Buy] arr_best_price [OF assms, of Sell]
  by (simp_all add: arr_best_bid_def arr_best_ask_def arr_best_def)

lemma arr_depth_ok:
  assumes "arr_inv b"
  shows "arr_bid_depth n b = Some (take n (depth_of (a_bids (arr_abs b))))"
    "arr_ask_depth n b = Some (take n (depth_of (a_asks (arr_abs b))))"
proof -
  have "rep_ok b (arr_levels b)" "arr_ok b" using assms by (simp_all add: arr_inv_def)
  note d = levels_depth [OF this(1), of Buy] levels_depth [OF this(1), of Sell]
    and w = arr_walk_start(2) [OF this(2), of Buy n] arr_walk_start(2) [OF this(2), of Sell n]
  show "arr_bid_depth n b = Some (take n (depth_of (a_bids (arr_abs b))))"
    "arr_ask_depth n b = Some (take n (depth_of (a_asks (arr_abs b))))"
    using d w by (simp_all add: arr_bid_depth_def arr_ask_depth_def next_side_def arr_bm_def arr_lv_def arr_best_def arr_abs_def
        flip: take_map)
qed

lemma arr_counts_ok:
  assumes "arr_inv b"
  shows "arr_bid_level_count b = length (arr_levels b Buy)" "arr_ask_level_count b = length (arr_levels b Sell)"
  using assms by (simp_all add: arr_bid_level_count_def arr_ask_level_count_def bit.count_law arr_levels_def idxs_def arr_bm_def)

end
