(* ===== verification/Engine_Books.thy ===== *)
theory Engine_Books
  imports Matching_Engine Order_Book_Vector Order_Book_Map Order_Book_Array
begin

text \<open>
  The three books as template arguments of \<open>MatchingEngine\<close>, and the interpretation of the engine's
  contract on each of them.
\<close>

definition vec_class :: "(unit, OrderBookVector) BookClass" where
  "vec_class = \<lparr>bk_new = (\<lambda>symb mn mx hint stp. Inr (vec_new symb hint stp)), bk_add = vec_add_order,
     bk_cancel = vec_cancel_order, bk_amend = vec_amend_order, bk_reset = (\<lambda>b. Some (vec_reset b)),
     bk_set_callback = set_trade_callback\<rparr>"

definition map_class :: "(unit, OrderBookMap) BookClass" where
  "map_class = \<lparr>bk_new = (\<lambda>symb mn mx hint stp. Inr (map_new symb hint stp)), bk_add = map_add_order,
     bk_cancel = map_cancel_order, bk_amend = map_amend_order, bk_reset = (\<lambda>b. Some (map_reset b)),
     bk_set_callback = set_trade_callback\<rparr>"

definition arr_class :: "(range_error, OrderBookArray) BookClass" where
  "arr_class = \<lparr>bk_new = arr_new, bk_add = arr_add_order, bk_cancel = arr_cancel_order, bk_amend = arr_amend_order,
     bk_reset = arr_reset, bk_set_callback = set_trade_callback\<rparr>"

definition any_price :: "Price \<Rightarrow> Price \<Rightarrow> unit + (Price \<Rightarrow> bool)" where
  "any_price mn mx = Inr (\<lambda>p. True)"

definition price_band :: "Price \<Rightarrow> Price \<Rightarrow> range_error + (Price \<Rightarrow> bool)" where
  "price_band mn mx = (if mn > mx then Inl MinAboveMax else if mn \<le> 0 then Inl MinNotPositive else Inr (\<lambda>p. mn \<le> p \<and> p \<le> mx))"

lemmas class_simps = BookClass.select_convs

text \<open>Setting the callback changes nothing else.\<close>

lemma callback_fields [simp]:
  "b_pool (set_trade_callback v b) = b_pool b" "b_id_index (set_trade_callback v b) = b_id_index b"
  "b_symbol (set_trade_callback v b) = b_symbol b" "b_stp_policy (set_trade_callback v b) = b_stp_policy b"
  "b_trade_callback (set_trade_callback v b) = v"
  by (simp_all add: set_trade_callback_def)

lemma vec_callback: "vec_inv (set_trade_callback v b) = vec_inv b" "vec_abs (set_trade_callback v b) = vec_abs b"
proof -
  have "vec_levels (set_trade_callback v b) = vec_levels b" by (simp add: vec_levels_def set_trade_callback_def fun_eq_iff)
  then show "vec_inv (set_trade_callback v b) = vec_inv b" "vec_abs (set_trade_callback v b) = vec_abs b"
    using rep_ok_cong [of "set_trade_callback v b" b] by (simp_all add: vec_inv_def vec_abs_def)
qed

lemma map_callback: "map_inv (set_trade_callback v b) = map_inv b" "map_abs (set_trade_callback v b) = map_abs b"
proof -
  have "map_entries (set_trade_callback v b) = map_entries b" by (simp add: map_entries_def set_trade_callback_def fun_eq_iff)
  then have "map_levels (set_trade_callback v b) = map_levels b" "map_ok (set_trade_callback v b) = map_ok b"
    by (simp_all add: map_levels_def map_ok_def)
  then show "map_inv (set_trade_callback v b) = map_inv b" "map_abs (set_trade_callback v b) = map_abs b"
    using rep_ok_cong [of "set_trade_callback v b" b] by (simp_all add: map_inv_def map_abs_def)
qed

lemma arr_callback: "arr_inv (set_trade_callback v b) = arr_inv b" "arr_abs (set_trade_callback v b) = arr_abs b"
  "in_range (set_trade_callback v b) = in_range b"
proof -
  have f: "arr_lv (set_trade_callback v b) = arr_lv b" "arr_bm (set_trade_callback v b) = arr_bm b"
    "arr_best (set_trade_callback v b) = arr_best b" "price_of (set_trade_callback v b) = price_of b"
    "ab_range (set_trade_callback v b) = ab_range b" "ab_min_price (set_trade_callback v b) = ab_min_price b"
    "ab_max_price (set_trade_callback v b) = ab_max_price b"
    by (simp_all add: arr_lv_def arr_bm_def arr_best_def price_of_def set_trade_callback_def fun_eq_iff)
  then have "arr_levels (set_trade_callback v b) = arr_levels b" "arr_ok (set_trade_callback v b) = arr_ok b"
    by (simp_all add: arr_levels_def arr_ok_def arr_side_ok_def)
  then show "arr_inv (set_trade_callback v b) = arr_inv b" "arr_abs (set_trade_callback v b) = arr_abs b"
    using rep_ok_cong [of "set_trade_callback v b" b] by (simp_all add: arr_inv_def arr_abs_def)
  show "in_range (set_trade_callback v b) = in_range b" using f(6,7) by (simp add: in_range_def fun_eq_iff)
qed

interpretation ve: engine_book vec_inv vec_abs "\<lambda>b p. True" b_stp_policy b_trade_callback b_symbol "\<lambda>b. length (nodes b)" vec_class any_price
proof -
  have "order_book vec_inv vec_abs (\<lambda>b p. True) b_stp_policy b_trade_callback b_symbol (\<lambda>b. length (nodes b))
      (bk_add vec_class) (bk_cancel vec_class) (bk_amend vec_class)"
    using vb.ob.order_book_axioms unfolding vec_inv_linv vec_abs_def [abs_def] by (simp add: vec_class_def)
  then show "engine_book vec_inv vec_abs (\<lambda>b p. True) b_stp_policy b_trade_callback b_symbol (\<lambda>b. length (nodes b)) vec_class any_price"
    by (intro engine_book.intro engine_book_axioms.intro)
      (auto simp: any_price_def vec_class_def vec_new_ok vec_reset_ok vec_callback, simp_all add: vec_new_def vec_reset_def)
qed

interpretation me: engine_book map_inv map_abs "\<lambda>b p. True" b_stp_policy b_trade_callback b_symbol "\<lambda>b. length (nodes b)" map_class any_price
proof -
  have "order_book map_inv map_abs (\<lambda>b p. True) b_stp_policy b_trade_callback b_symbol (\<lambda>b. length (nodes b))
      (bk_add map_class) (bk_cancel map_class) (bk_amend map_class)"
    using mb.ob.order_book_axioms unfolding map_inv_linv map_abs_def [abs_def] by (simp add: map_class_def)
  then show "engine_book map_inv map_abs (\<lambda>b p. True) b_stp_policy b_trade_callback b_symbol (\<lambda>b. length (nodes b)) map_class any_price"
    by (intro engine_book.intro engine_book_axioms.intro)
      (auto simp: any_price_def map_class_def map_new_ok map_reset_ok map_callback, simp_all add: map_new_def map_reset_def)
qed

lemma arr_reset_fields:
  assumes "arr_reset b = Some b'"
  shows "b_stp_policy b' = b_stp_policy b" "b_trade_callback b' = b_trade_callback b" "b_symbol b' = b_symbol b" "nodes b' = []"
  using assms by (auto simp: arr_reset_def bind_eq_Some_conv)

lemma arr_new_class:
  assumes "price_band mn mx = Inr R" "mx \<le> i64_max"
  shows "\<exists>b. arr_new s mn mx h p = Inr b \<and> arr_inv b \<and> arr_abs b = empty_abook \<and> in_range b = R \<and> b_stp_policy b = p
    \<and> b_trade_callback b = False \<and> b_symbol b = s \<and> length (nodes b) = 0"
proof -
  have v: "mn \<le> mx" "0 < mn" "R = (\<lambda>p. mn \<le> p \<and> p \<le> mx)" using assms(1) by (simp_all add: price_band_def split: if_splits)
  then obtain b where b: "arr_new s mn mx h p = Inr b" "ab_min_price b = mn" "ab_max_price b = mx" "b_stp_policy b = p"
      "b_trade_callback b = False" "b_symbol b = s" "b_pool b = pool_new h"
    by (simp add: arr_new_def validate_and_compute_range_def)
  moreover have "in_range b = R" using b(2,3) v(3) by (simp add: in_range_def fun_eq_iff)
  ultimately show ?thesis using arr_new_ok [OF b(1) assms(2)] by simp
qed

interpretation ae: engine_book arr_inv arr_abs in_range b_stp_policy b_trade_callback b_symbol "\<lambda>b. length (nodes b)" arr_class price_band
proof -
  have "order_book arr_inv arr_abs in_range b_stp_policy b_trade_callback b_symbol (\<lambda>b. length (nodes b))
      (bk_add arr_class) (bk_cancel arr_class) (bk_amend arr_class)"
    using ab.ob.order_book_axioms unfolding arr_inv_linv arr_abs_def [abs_def] by (simp add: arr_class_def)
  moreover have "engine_book_axioms arr_inv arr_abs in_range b_stp_policy b_trade_callback b_symbol (\<lambda>b. length (nodes b)) arr_class price_band"
  proof
    show "bk_new arr_class s mn mx h p = Inl err" if "price_band mn mx = Inl err" for mn mx err s h p
      using that by (auto simp: arr_class_def arr_new_def price_band_def validate_and_compute_range_def split: if_splits)
    show "\<exists>b'. bk_reset arr_class b = Some b' \<and> arr_inv b' \<and> arr_abs b' = empty_abook \<and> in_range b' = in_range b
        \<and> b_stp_policy b' = b_stp_policy b \<and> b_trade_callback b' = b_trade_callback b \<and> b_symbol b' = b_symbol b
        \<and> length (nodes b') \<le> length (nodes b)" if "arr_inv b" for b
      using arr_reset_ok [OF that] arr_reset_fields by (auto simp: arr_class_def)
    show "\<exists>b. bk_new arr_class s mn mx h p = Inr b \<and> arr_inv b \<and> arr_abs b = empty_abook \<and> in_range b = R \<and> b_stp_policy b = p
        \<and> b_trade_callback b = False \<and> b_symbol b = s \<and> length (nodes b) = 0"
      if "price_band mn mx = Inr R" "mx \<le> i64_max" for mn mx R s h p
      using arr_new_class [OF that] by (simp only: arr_class_def class_simps)
  qed (simp add: arr_class_def arr_callback)
  ultimately show "engine_book arr_inv arr_abs in_range b_stp_policy b_trade_callback b_symbol (\<lambda>b. length (nodes b)) arr_class price_band"
    by (rule engine_book.intro)
qed

end
