(* ===== verification/Book_Examples.thy ===== *)
theory Book_Examples
  imports Engine_Books
begin

text \<open>
  A small populated book in each of the three representations: two asks by participants 7 and 8 at one
  price, a third ask by participant 7 a tick above, one bid by participant 9.  The session that builds it
  goes through the books' own \<open>add_order\<close>.
\<close>

definition demo_order :: "OrderId \<Rightarrow> ParticipantId \<Rightarrow> Side \<Rightarrow> Price \<Rightarrow> Quantity \<Rightarrow> TimeInForce \<Rightarrow> Order" where
  "demo_order i pt s pr q tif = \<lparr>o_id = i, o_price = pr, o_quantity = q, o_remaining_quantity = q, o_timestamp = 0,
     o_symbol = 1, o_participant_id = pt, o_side = s, o_type = Limit, o_time_in_force = tif\<rparr>"

definition demo_world :: World where
  "demo_world = \<lparr>clock = (\<lambda>k. of_nat k), ticks = 0, events = []\<rparr>"

lemma demo_fields [simp]:
  "o_id (demo_order i pt s pr q tif) = i" "o_side (demo_order i pt s pr q tif) = s" "o_quantity (demo_order i pt s pr q tif) = q"
  "o_price (demo_order i pt s pr q tif) = pr" "o_type (demo_order i pt s pr q tif) = Limit"
  "o_time_in_force (demo_order i pt s pr q tif) = tif" "rq (demo_order i pt s pr q tif) = q" "events demo_world = []"
  by (simp_all add: demo_order_def demo_world_def)

definition demo_ops :: "book_op list" where
  "demo_ops = [Add (demo_order 1 7 Sell 100 5 GTC), Add (demo_order 2 8 Sell 100 3 GTC), Add (demo_order 3 7 Sell 101 5 GTC),
     Add (demo_order 4 9 Buy 99 4 GTC)]"

definition demo_book :: ABook where
  "demo_book = \<lparr>a_bids = [demo_order 4 9 Buy 99 4 GTC],
     a_asks = [demo_order 1 7 Sell 100 5 GTC, demo_order 2 8 Sell 100 3 GTC, demo_order 3 7 Sell 101 5 GTC]\<rparr>"

definition demo_reports :: "book_res list" where
  "demo_reports = [Report (report 1 New 0 5 NoReason), Report (report 2 New 0 3 NoReason), Report (report 3 New 0 5 NoReason),
     Report (report 4 New 0 4 NoReason)]"

lemmas spec_eval = spec_add_def spec_execute_def spec_amend_def spec_cancel_def remove_id_def ids_def resting_def resize_def
  reachable_volume_def volume_def rests_in_book_def price_ok_def self_trade_def emit_trade_def mk_trade_def now_ns_def
  deliver_def Let_def demo_order_def

lemmas allowed_eval = admissible_def amend_admissible_def in_i64_def i64_max_def

lemma demo_run:
  assumes "band 99" "band 100" "band 101"
  shows "spec_run band stp cb symb demo_ops empty_abook w = (demo_reports, demo_book, w)"
    "run_allowed band stp cb symb demo_ops empty_abook w"
  using assms by (simp_all add: demo_ops_def demo_reports_def demo_book_def empty_abook_def spec_eval allowed_eval)

lemma demo_room: "length demo_ops \<le> unat kNullIndex" "k \<le> length demo_ops \<Longrightarrow> Suc k < unat kNullIndex"
  by (simp_all add: demo_ops_def unat_null)

definition demo_like :: "'a BookCore_scheme \<Rightarrow> SelfTradePrevention \<Rightarrow> bool" where
  "demo_like b stp \<longleftrightarrow> b_stp_policy b = stp \<and> b_trade_callback b \<and> b_symbol b = 1 \<and> Suc (length (nodes b)) < unat kNullIndex"

lemma demo_vec: "\<exists>b. vec_inv b \<and> vec_abs b = demo_book \<and> demo_like b stp"
  using vb.ob.session_refines [of "set_trade_callback True (vec_new 1 16 stp)" demo_ops demo_world, unfolded vec_inv_linv,
      folded vec_abs_def, simplified vec_callback vec_new_ok callback_fields, OF TrueI demo_run(2) _ demo_run(1)] demo_room
  by (auto simp: demo_like_def vec_new_def)

lemma demo_map: "\<exists>b. map_inv b \<and> map_abs b = demo_book \<and> demo_like b stp"
  using mb.ob.session_refines [of "set_trade_callback True (map_new 1 16 stp)" demo_ops demo_world, unfolded map_inv_linv,
      folded map_abs_def, simplified map_callback map_new_ok callback_fields, OF TrueI demo_run(2) _ demo_run(1)] demo_room
  by (auto simp: demo_like_def map_new_def)

lemma demo_arr: "\<exists>b. arr_inv b \<and> arr_abs b = demo_book \<and> in_range b = (\<lambda>p. 90 \<le> p \<and> p \<le> 110) \<and> demo_like b stp"
proof -
  obtain b0 where b0: "arr_inv b0" "arr_abs b0 = empty_abook" "in_range b0 = (\<lambda>p. 90 \<le> p \<and> p \<le> 110)" "b_stp_policy b0 = stp"
      "b_symbol b0 = 1" "length (nodes b0) = 0"
    using arr_new_class [of 90 110 "\<lambda>p. 90 \<le> p \<and> p \<le> 110" 1 16 stp] by (auto simp: price_band_def i64_max_def)
  show ?thesis
    using ab.ob.session_refines [of "set_trade_callback True b0" demo_ops demo_world, unfolded arr_inv_linv, folded arr_abs_def,
        simplified arr_callback b0 callback_fields, OF TrueI demo_run(2) _ demo_run(1)] demo_room
    by (auto simp: demo_like_def)
qed

text \<open>The same book followed by a crossing order, amendments and cancellations.\<close>

definition demo_session :: "book_op list" where
  "demo_session = demo_ops @ [Add (demo_order 5 10 Buy 100 6 GTC), Amend 2 1 None, Cancel 4, Cancel 4, Amend 3 6 (Some 102),
     Amend 9 1 None]"

definition demo_results :: "book_res list" where
  "demo_results = demo_reports @ [Report (report 5 Filled 6 0 NoReason), Report (report 2 New 0 1 NoReason), Done True, Done False,
     Report (report 3 New 0 6 NoReason), Report (report 9 Rejected 0 0 UnknownOrder)]"

definition demo_final :: ABook where
  "demo_final = \<lparr>a_bids = [], a_asks = [(demo_order 2 8 Sell 100 3 GTC)\<lparr>o_remaining_quantity := 1\<rparr>, demo_order 3 7 Sell 102 6 GTC]\<rparr>"

lemma demo_session_run:
  assumes "band 99" "band 100" "band 101" "band 102"
  shows "spec_run band NoPrevention False symb demo_session empty_abook demo_world = (demo_results, demo_final, demo_world\<lparr>ticks := 1\<rparr>)"
    "run_allowed band NoPrevention False symb demo_session empty_abook demo_world" "list_all (op_priced band) demo_session"
  using assms by (simp_all add: demo_session_def demo_results_def demo_ops_def demo_reports_def demo_final_def empty_abook_def
    demo_world_def spec_eval allowed_eval)

text \<open>The same session on a book with a trade callback: order 5 takes 5 from order 1, then 1 from order 2, both at 100.\<close>

definition demo_trades :: "SymbolId \<Rightarrow> Trade list" where
  "demo_trades symb =
    [\<lparr>t_taker_order_id = 5, t_maker_order_id = 1, t_symbol = symb, t_price = 100, t_quantity = 5, t_timestamp = 0, t_taker_side = Buy,
      t_taker_participant_id = 10, t_maker_participant_id = 7\<rparr>,
     \<lparr>t_taker_order_id = 5, t_maker_order_id = 2, t_symbol = symb, t_price = 100, t_quantity = 1, t_timestamp = 1, t_taker_side = Buy,
      t_taker_participant_id = 10, t_maker_participant_id = 8\<rparr>]"

lemma demo_session_published:
  assumes "band 99" "band 100" "band 101" "band 102"
  shows "spec_run band NoPrevention True symb demo_session empty_abook demo_world
      = (demo_results, demo_final\<lparr>a_asks := [(demo_order 2 8 Sell 100 3 GTC)\<lparr>o_remaining_quantity := 1\<rparr>,
          (demo_order 3 7 Sell 102 6 GTC)\<lparr>o_timestamp := 2\<rparr>]\<rparr>, demo_world\<lparr>ticks := 3, events := demo_trades symb\<rparr>)"
    "run_allowed band NoPrevention True symb demo_session empty_abook demo_world"
  using assms by (simp_all add: demo_session_def demo_results_def demo_ops_def demo_reports_def demo_final_def empty_abook_def
    demo_world_def demo_trades_def spec_eval allowed_eval)

lemma demo_session_room: "length demo_session \<le> unat kNullIndex"
  by (simp add: demo_session_def demo_ops_def unat_null)

end
