(* ===== verification/Book_Properties.thy ===== *)
theory Book_Properties
  imports Book_Examples
begin

text \<open>
  The properties of the three order books.  Each one is a fact of the contract \<open>order_book\<close>, or of the levels
  the books keep, instantiated at the definitions that translate \<open>order_book_vector.cpp\<close>,
  \<open>order_book_map.cpp\<close> and \<open>order_book_array.cpp\<close>.
\<close>

section \<open>Sessions\<close>

text \<open>
  C1.  A session of adds, cancels and amends on a vector book gives exactly the reports, the trades and the
  final book of the abstract book: every operation returns, and no check for undefined behaviour fails.
\<close>

theorem vector_session_refines:
  assumes "vec_inv b" "run_allowed (\<lambda>p. True) (b_stp_policy b) (b_trade_callback b) (b_symbol b) xs (vec_abs b) w"
    and "length (nodes b) + length xs \<le> unat kNullIndex"
    and "spec_run (\<lambda>p. True) (b_stp_policy b) (b_trade_callback b) (b_symbol b) xs (vec_abs b) w = (rs, A', w')"
  shows "\<exists>b'. run_ops vec_add_order vec_cancel_order vec_amend_order xs b w = Some (rs, b', w') \<and> vec_inv b' \<and> vec_abs b' = A'"
  using vb.ob.session_refines [of b xs w rs A' w'] assms unfolding vec_inv_linv vec_abs_def by blast

theorem vector_session_refines_witness:
  "\<exists>b'. run_ops vec_add_order vec_cancel_order vec_amend_order demo_session (vec_new 1 16 NoPrevention) demo_world =
     Some (demo_results, b', demo_world\<lparr>ticks := 1\<rparr>) \<and> vec_inv b' \<and> vec_abs b' = demo_final"
  by (rule vector_session_refines [OF vec_new_ok(1)]) (simp_all add: vec_new_ok, simp_all add: vec_new_def demo_session_run demo_session_room)

text \<open>
  C2.  The same for the book that keeps its levels in a \<open>std::map\<close>.
\<close>

theorem map_session_refines:
  assumes "map_inv b" "run_allowed (\<lambda>p. True) (b_stp_policy b) (b_trade_callback b) (b_symbol b) xs (map_abs b) w"
    and "length (nodes b) + length xs \<le> unat kNullIndex"
    and "spec_run (\<lambda>p. True) (b_stp_policy b) (b_trade_callback b) (b_symbol b) xs (map_abs b) w = (rs, A', w')"
  shows "\<exists>b'. run_ops map_add_order map_cancel_order map_amend_order xs b w = Some (rs, b', w') \<and> map_inv b' \<and> map_abs b' = A'"
  using mb.ob.session_refines [of b xs w rs A' w'] assms unfolding map_inv_linv map_abs_def by blast

theorem map_session_refines_witness:
  "\<exists>b'. run_ops map_add_order map_cancel_order map_amend_order demo_session (map_new 1 16 NoPrevention) demo_world =
     Some (demo_results, b', demo_world\<lparr>ticks := 1\<rparr>) \<and> map_inv b' \<and> map_abs b' = demo_final"
  by (rule map_session_refines [OF map_new_ok(1)]) (simp_all add: map_new_ok, simp_all add: map_new_def demo_session_run demo_session_room)

text \<open>
  C3.  The same for the book that keeps one level per tick of a price band and finds occupied levels with a
  bitmap; prices outside the band are refused.
\<close>

theorem array_session_refines:
  assumes "arr_inv b" "run_allowed (in_range b) (b_stp_policy b) (b_trade_callback b) (b_symbol b) xs (arr_abs b) w"
    and "length (nodes b) + length xs \<le> unat kNullIndex"
    and "spec_run (in_range b) (b_stp_policy b) (b_trade_callback b) (b_symbol b) xs (arr_abs b) w = (rs, A', w')"
  shows "\<exists>b'. run_ops arr_add_order arr_cancel_order arr_amend_order xs b w = Some (rs, b', w') \<and> arr_inv b' \<and> arr_abs b' = A'"
  using ab.ob.session_refines [of b xs w rs A' w'] assms unfolding arr_inv_linv arr_abs_def by blast

theorem array_session_refines_witness:
  "\<exists>b b'. arr_new 1 90 110 16 NoPrevention = Inr b \<and> run_ops arr_add_order arr_cancel_order arr_amend_order demo_session b demo_world =
     Some (demo_results, b', demo_world\<lparr>ticks := 1\<rparr>) \<and> arr_inv b' \<and> arr_abs b' = demo_final"
proof -
  obtain b where b: "arr_new 1 90 110 16 NoPrevention = Inr b" "arr_inv b" "arr_abs b = empty_abook"
      "in_range b = (\<lambda>p. 90 \<le> p \<and> p \<le> 110)" "b_stp_policy b = NoPrevention" "b_trade_callback b = False" "b_symbol b = 1" "length (nodes b) = 0"
    using arr_new_class [of 90 110 "\<lambda>p. 90 \<le> p \<and> p \<le> 110" 1 16 NoPrevention] by (auto simp: price_band_def i64_max_def)
  then show ?thesis
    using array_session_refines [OF b(2), of demo_session demo_world] demo_session_run(1,2) [of "in_range b" 1] demo_session_room by auto
qed

text \<open>
  New books on which a trade callback has been set or cleared, and an allowed session on each of them: the abstract
  book's results, its trades and its resting orders.
\<close>

lemma fresh_vec_session:
  assumes "run_allowed (\<lambda>p. True) stp cb symb xs empty_abook w" "length xs \<le> unat kNullIndex"
    and "spec_run (\<lambda>p. True) stp cb symb xs empty_abook w = (rs, A', w')"
  obtains v' where "run_ops vec_add_order vec_cancel_order vec_amend_order xs (set_trade_callback cb (vec_new symb h stp)) w = Some (rs, v', w')"
    "vec_inv v'" "vec_abs v' = A'"
proof -
  let ?b = "set_trade_callback cb (vec_new symb h stp)"
  have b: "vec_inv ?b" "vec_abs ?b = empty_abook" "b_stp_policy ?b = stp" "b_trade_callback ?b = cb" "b_symbol ?b = symb" "length (nodes ?b) = 0"
    by (simp_all add: vec_callback vec_new_ok) (simp_all add: vec_new_def)
  show thesis
    using vb.ob.session_refines [of ?b xs w rs A' w', unfolded vec_inv_linv, folded vec_abs_def, unfolded b(2-6)] b(1) assms that by auto
qed

lemma fresh_map_session:
  assumes "run_allowed (\<lambda>p. True) stp cb symb xs empty_abook w" "length xs \<le> unat kNullIndex"
    and "spec_run (\<lambda>p. True) stp cb symb xs empty_abook w = (rs, A', w')"
  obtains m' where "run_ops map_add_order map_cancel_order map_amend_order xs (set_trade_callback cb (map_new symb h stp)) w = Some (rs, m', w')"
    "map_inv m'" "map_abs m' = A'"
proof -
  let ?b = "set_trade_callback cb (map_new symb h stp)"
  have b: "map_inv ?b" "map_abs ?b = empty_abook" "b_stp_policy ?b = stp" "b_trade_callback ?b = cb" "b_symbol ?b = symb" "length (nodes ?b) = 0"
    by (simp_all add: map_callback map_new_ok) (simp_all add: map_new_def)
  show thesis
    using mb.ob.session_refines [of ?b xs w rs A' w', unfolded map_inv_linv, folded map_abs_def, unfolded b(2-6)] b(1) assms that by auto
qed

lemma fresh_arr_session:
  assumes "arr_new symb mn mx h stp = Inr a" "mx \<le> i64_max"
    and "run_allowed (\<lambda>p. mn \<le> p \<and> p \<le> mx) stp cb symb xs empty_abook w" "length xs \<le> unat kNullIndex"
    and "spec_run (\<lambda>p. mn \<le> p \<and> p \<le> mx) stp cb symb xs empty_abook w = (rs, A', w')"
  obtains a' where "run_ops arr_add_order arr_cancel_order arr_amend_order xs (set_trade_callback cb a) w = Some (rs, a', w')"
    "arr_inv a'" "arr_abs a' = A'"
proof -
  let ?b = "set_trade_callback cb a"
  have "price_band mn mx = Inr (\<lambda>p. mn \<le> p \<and> p \<le> mx)"
    using assms(1) by (auto simp: arr_new_def validate_and_compute_range_def price_band_def split: if_splits)
  then have b: "arr_inv ?b" "arr_abs ?b = empty_abook" "in_range ?b = (\<lambda>p. mn \<le> p \<and> p \<le> mx)" "b_stp_policy ?b = stp"
      "b_trade_callback ?b = cb" "b_symbol ?b = symb" "length (nodes ?b) = 0"
    using arr_new_class [of mn mx _ symb h stp] assms(1,2) by (auto simp: arr_callback)
  show thesis
    using ab.ob.session_refines [of ?b xs w rs A' w', unfolded arr_inv_linv, folded arr_abs_def, unfolded b(2-7)] b(1) assms(3-5) that by auto
qed

text \<open>
  C4.  The three books are interchangeable: whether or not a trade callback is set, on a session whose prices stay
  inside the array book's band they return the same reports, publish the same trades in the same order (the world
  after the session holds what was delivered to the callback), those of the abstract book, and answer every depth
  and best-price query alike afterwards.
\<close>

theorem books_agree:
  assumes "arr_new symb mn mx h3 stp = Inr a" "mx \<le> i64_max" "list_all (op_priced (\<lambda>p. mn \<le> p \<and> p \<le> mx)) xs"
    and "run_allowed (\<lambda>p. True) stp cb symb xs empty_abook w" "length xs \<le> unat kNullIndex"
  shows "\<exists>rs A' w' v' m' a'. spec_run (\<lambda>p. True) stp cb symb xs empty_abook w = (rs, A', w')
    \<and> run_ops vec_add_order vec_cancel_order vec_amend_order xs (set_trade_callback cb (vec_new symb h1 stp)) w = Some (rs, v', w')
    \<and> run_ops map_add_order map_cancel_order map_amend_order xs (set_trade_callback cb (map_new symb h2 stp)) w = Some (rs, m', w')
    \<and> run_ops arr_add_order arr_cancel_order arr_amend_order xs (set_trade_callback cb a) w = Some (rs, a', w')
    \<and> (\<forall>n. map_bid_depth n m' = vec_bid_depth n v' \<and> arr_bid_depth n a' = Some (vec_bid_depth n v'))
    \<and> (\<forall>n. map_ask_depth n m' = vec_ask_depth n v' \<and> arr_ask_depth n a' = Some (vec_ask_depth n v'))
    \<and> map_best_bid m' = vec_best_bid v' \<and> arr_best_bid a' = vec_best_bid v'
    \<and> map_best_ask m' = vec_best_ask v' \<and> arr_best_ask a' = vec_best_ask v'"
proof -
  obtain rs A' w' where run: "spec_run (\<lambda>p. True) stp cb symb xs empty_abook w = (rs, A', w')" by (metis prod_cases3)
  have "priced (\<lambda>p. mn \<le> p \<and> p \<le> mx) empty_abook" by (simp add: priced_resting resting_def empty_abook_def)
  note same = spec_run_priced [OF this assms(3), of stp cb symb w]
  obtain v' where v: "run_ops vec_add_order vec_cancel_order vec_amend_order xs (set_trade_callback cb (vec_new symb h1 stp)) w = Some (rs, v', w')"
    "vec_inv v'" "vec_abs v' = A'" by (rule fresh_vec_session [OF assms(4,5) run])
  obtain m' where m: "run_ops map_add_order map_cancel_order map_amend_order xs (set_trade_callback cb (map_new symb h2 stp)) w = Some (rs, m', w')"
    "map_inv m'" "map_abs m' = A'" by (rule fresh_map_session [OF assms(4,5) run])
  obtain a' where a': "run_ops arr_add_order arr_cancel_order arr_amend_order xs (set_trade_callback cb a) w = Some (rs, a', w')"
    "arr_inv a'" "arr_abs a' = A'"
    by (rule fresh_arr_session [OF assms(1,2) _ assms(5), of cb w rs A' w']) (use same run assms(4) in simp_all)
  note depths = vec_depth_ok [OF v(2)] map_depth_ok [OF m(2)] arr_depth_ok [OF a'(2)]
  note bests = vec_best [OF v(2)] map_best [OF m(2)] arr_best_ok [OF a'(2)]
  show ?thesis using run v m a' depths bests by (intro exI conjI) (assumption | simp)+
qed

text \<open>On the demonstration session the three books with a callback publish the same two trades.\<close>

theorem books_agree_witness:
  "\<exists>a w' v' m' a'. arr_new 1 90 110 16 NoPrevention = Inr a
    \<and> run_ops vec_add_order vec_cancel_order vec_amend_order demo_session (set_trade_callback True (vec_new 1 16 NoPrevention)) demo_world = Some (demo_results, v', w')
    \<and> run_ops map_add_order map_cancel_order map_amend_order demo_session (set_trade_callback True (map_new 1 8 NoPrevention)) demo_world = Some (demo_results, m', w')
    \<and> run_ops arr_add_order arr_cancel_order arr_amend_order demo_session (set_trade_callback True a) demo_world = Some (demo_results, a', w')
    \<and> events w' = demo_trades 1 \<and> length (events w') = 2
    \<and> map_ask_depth 5 m' = vec_ask_depth 5 v' \<and> arr_ask_depth 5 a' = Some (vec_ask_depth 5 v')"
proof -
  obtain a where a: "arr_new 1 90 110 16 NoPrevention = Inr a"
    using arr_new_class [of 90 110 "\<lambda>p. 90 \<le> p \<and> p \<le> 110" 1 16 NoPrevention] by (auto simp: price_band_def i64_max_def)
  note run = demo_session_published [of "\<lambda>p. True" 1]
  have "length (demo_trades 1) = 2" by (simp add: demo_trades_def)
  with books_agree [OF a _ demo_session_run(3) run(2) demo_session_room, of 16 8] a run(1)
  show ?thesis by (auto simp: i64_max_def)
qed

section \<open>Adding an order\<close>

text \<open>
  C5.  Matching is by price, then time: the makers an incoming order trades with are the first ones of the
  opposite side in priority order (those the self-trade policy excludes apart), every maker but the last is
  filled completely, each trade is within the taker's limit and never against the taker's own participant, the
  fills add up to the reported quantity, and exactly these trades are published, at the makers' prices.
\<close>

theorem vector_price_time_priority:
  assumes "vec_inv b" "admissible ord (vec_abs b)" "length (nodes b) < unat kNullIndex"
  shows "\<exists>r b' w' fs. vec_add_order ord b w = Some (r, b', w')
    \<and> fills_ok (b_stp_policy b) ord (side_of (opposite (o_side ord)) (vec_abs b)) fs \<and> (\<Sum>f\<leftarrow>fs. snd f) = r_filled_quantity r
    \<and> events w' = events w @ (if b_trade_callback b then trades_of (b_symbol b) ord fs w else [])"
  using vb.ob.add_trades [of b ord w] assms unfolding vec_inv_linv vec_abs_def by blast

theorem vector_price_time_priority_witness:
  "\<exists>b r b' w' fs. vec_abs b = demo_book \<and> vec_add_order (demo_order 5 10 Buy 100 6 GTC) b demo_world = Some (r, b', w')
    \<and> fills_ok NoPrevention (demo_order 5 10 Buy 100 6 GTC) (a_asks demo_book) fs \<and> (\<Sum>f\<leftarrow>fs. snd f) = r_filled_quantity r
    \<and> events w' = trades_of 1 (demo_order 5 10 Buy 100 6 GTC) fs demo_world"
proof -
  obtain b where b: "vec_inv b" "vec_abs b = demo_book" "demo_like b NoPrevention" using demo_vec by blast
  have "admissible (demo_order 5 10 Buy 100 6 GTC) demo_book" by (simp add: demo_book_def spec_eval allowed_eval)
  then show ?thesis
    using vector_price_time_priority [OF b(1), of "demo_order 5 10 Buy 100 6 GTC" demo_world] b
    by (auto simp: demo_like_def) blast
qed

text \<open>
  C6.  The report tells the truth about the order: rejected orders change nothing; a filled or cancelled order is
  not in the book; \<open>New\<close> and \<open>PartiallyFilled\<close> are reported exactly for limit orders good till cancelled, which
  then rest with the reported remaining quantity; filled and remaining quantity add up to the order's quantity.
\<close>

theorem array_add_reports:
  assumes "arr_inv b" "admissible ord (arr_abs b)" "length (nodes b) < unat kNullIndex"
  shows "\<exists>r b' w'. arr_add_order ord b w = Some (r, b', w') \<and> arr_inv b' \<and> report_ok ord r (arr_abs b) (arr_abs b')"
  using ab.ob.add_reports [of b ord w] assms unfolding arr_inv_linv arr_abs_def by blast

theorem array_add_reports_witness:
  "\<exists>b r b' w'. arr_abs b = demo_book \<and> arr_add_order (demo_order 5 10 Buy 100 9 GTC) b demo_world = Some (r, b', w')
    \<and> report_ok (demo_order 5 10 Buy 100 9 GTC) r demo_book (arr_abs b')"
proof -
  obtain b where b: "arr_inv b" "arr_abs b = demo_book" "demo_like b NoPrevention" using demo_arr by blast
  have "admissible (demo_order 5 10 Buy 100 9 GTC) demo_book" by (simp add: demo_book_def spec_eval allowed_eval)
  then show ?thesis
    using array_add_reports [OF b(1), of "demo_order 5 10 Buy 100 9 GTC" demo_world] b by (auto simp: demo_like_def)
qed

text \<open>
  C7.  What \<open>add_order\<close> hands out is well-typed: the quantities of the report fit in 64 bits, and every trade of the call
  carries the book's symbol and a positive price and quantity of 64 bits; nothing else is published.
\<close>

theorem array_add_types:
  assumes "arr_inv b" "admissible ord (arr_abs b)" "length (nodes b) < unat kNullIndex"
  shows "\<exists>r b' w' new. arr_add_order ord b w = Some (r, b', w') \<and> arr_inv b' \<and> in_i64 (r_filled_quantity r) \<and> in_i64 (r_remaining_quantity r)
    \<and> events w' = events w @ new \<and> (\<forall>t \<in> set new. typed_trade (b_symbol b) t)"
  using ab.ob.add_types [of b ord w] assms unfolding arr_inv_linv arr_abs_def by blast

theorem array_add_types_witness:
  "\<exists>b r b' w' new. arr_abs b = demo_book \<and> arr_add_order (demo_order 5 10 Buy 100 9 GTC) b demo_world = Some (r, b', w')
    \<and> in_i64 (r_filled_quantity r) \<and> events w' = new \<and> list_all (typed_trade (b_symbol b)) new"
proof -
  obtain b where b: "arr_inv b" "arr_abs b = demo_book" "demo_like b NoPrevention" using demo_arr by blast
  have "admissible (demo_order 5 10 Buy 100 9 GTC) demo_book" by (simp add: demo_book_def spec_eval allowed_eval)
  then show ?thesis
    using array_add_types [OF b(1), of "demo_order 5 10 Buy 100 9 GTC" demo_world] b by (auto simp: demo_like_def list_all_iff)
qed

text \<open>
  C8.  Quantity is conserved: without self trades the opposite side shrinks by exactly the filled quantity and
  the order's own side grows by exactly the remaining quantity.
\<close>

theorem map_add_conserves:
  assumes "map_inv b" "admissible ord (map_abs b)" "length (nodes b) < unat kNullIndex" "strangers (b_stp_policy b) ord (map_abs b)"
  shows "\<exists>r b' w'. map_add_order ord b w = Some (r, b', w')
    \<and> volume (side_of (opposite (o_side ord)) (map_abs b)) = volume (side_of (opposite (o_side ord)) (map_abs b')) + r_filled_quantity r
    \<and> volume (side_of (o_side ord) (map_abs b')) = volume (side_of (o_side ord) (map_abs b)) + r_remaining_quantity r"
  using mb.ob.add_conserves [of b ord w] assms unfolding map_inv_linv map_abs_def by blast

theorem map_add_conserves_witness:
  "\<exists>b r b' w'. map_abs b = demo_book \<and> map_add_order (demo_order 5 10 Buy 100 9 GTC) b demo_world = Some (r, b', w')
    \<and> 13 = volume (a_asks (map_abs b')) + r_filled_quantity r \<and> volume (a_bids (map_abs b')) = 4 + r_remaining_quantity r"
proof -
  obtain b where b: "map_inv b" "map_abs b = demo_book" "demo_like b CancelResting" using demo_map by blast
  have "admissible (demo_order 5 10 Buy 100 9 GTC) demo_book" "strangers CancelResting (demo_order 5 10 Buy 100 9 GTC) demo_book"
    by (simp_all add: demo_book_def spec_eval allowed_eval strangers_def)
  then show ?thesis
    using map_add_conserves [OF b(1), of "demo_order 5 10 Buy 100 9 GTC" demo_world] b
    by (auto simp: demo_like_def demo_book_def)
qed

text \<open>
  C9.  A fill-or-kill order that meets no order of its own participant is all or nothing: filled completely, or
  nothing traded and the book and the event stream untouched.
\<close>

theorem array_fok_all_or_nothing:
  assumes "arr_inv b" "admissible ord (arr_abs b)" "length (nodes b) < unat kNullIndex" "strangers (b_stp_policy b) ord (arr_abs b)"
    and "o_time_in_force ord = FOK"
  shows "\<exists>r b' w'. arr_add_order ord b w = Some (r, b', w') \<and>
    (r_status r = Filled \<and> r_filled_quantity r = o_quantity ord \<or> r_filled_quantity r = 0 \<and> arr_abs b' = arr_abs b \<and> w' = w)"
  using ab.ob.add_fok [of b ord w] assms unfolding arr_inv_linv arr_abs_def by blast

theorem array_fok_all_or_nothing_witness:
  "\<exists>b r b' w'. arr_abs b = demo_book \<and> arr_add_order (demo_order 5 10 Buy 100 9 FOK) b demo_world = Some (r, b', w') \<and>
    (r_status r = Filled \<and> r_filled_quantity r = 9 \<or> r_filled_quantity r = 0 \<and> arr_abs b' = demo_book \<and> w' = demo_world)"
proof -
  obtain b where b: "arr_inv b" "arr_abs b = demo_book" "demo_like b CancelBoth" using demo_arr by blast
  have "admissible (demo_order 5 10 Buy 100 9 FOK) demo_book" "strangers CancelBoth (demo_order 5 10 Buy 100 9 FOK) demo_book"
    by (simp_all add: demo_book_def spec_eval allowed_eval strangers_def)
  then show ?thesis
    using array_fok_all_or_nothing [OF b(1), of "demo_order 5 10 Buy 100 9 FOK" demo_world] b
    by (auto simp: demo_like_def)
qed

text \<open>
  C10.  The restriction to orders without self trades is needed: the liquidity check counts the resting quantity
  of the taker's own participant, so under \<open>CancelIncoming\<close> a fill-or-kill order for 7 can trade 5 and then be
  cancelled with a partial fill.
\<close>

theorem fok_self_trade_partial_fill:
  "\<exists>b b' w'. map_inv b \<and> map_abs b = demo_book \<and> b_stp_policy b = CancelIncoming
    \<and> map_add_order (demo_order 5 8 Buy 100 7 FOK) b demo_world = Some (report 5 Cancelled 5 0 NoReason, b', w')"
proof -
  obtain b where b: "map_inv b" "map_abs b = demo_book" "demo_like b CancelIncoming" using demo_map by blast
  have adm: "admissible (demo_order 5 8 Buy 100 7 FOK) demo_book" by (simp add: demo_book_def spec_eval allowed_eval)
  have "fst (spec_add (\<lambda>p. True) CancelIncoming cb symb (demo_order 5 8 Buy 100 7 FOK) demo_book w) = report 5 Cancelled 5 0 NoReason"
    for cb symb w by (simp add: demo_book_def spec_eval)
  then show ?thesis
    using mb.ob.add_spec [of b "demo_order 5 8 Buy 100 7 FOK" demo_world, unfolded map_inv_linv, folded map_abs_def] b adm
    by (auto simp: demo_like_def) (metis fst_conv)
qed

text \<open>
  C11.  Refused orders: the first failing check decides the reason, in the order quantity, price, price band,
  duplicate id, and neither the book nor the event stream changes.
\<close>

theorem array_add_refused:
  assumes "arr_inv b" "admissible ord (arr_abs b)" "length (nodes b) < unat kNullIndex" "refusal (in_range b) ord (arr_abs b) \<noteq> NoReason"
  shows "\<exists>b'. arr_add_order ord b w = Some (report (o_id ord) Rejected 0 0 (refusal (in_range b) ord (arr_abs b)), b', w) \<and> arr_abs b' = arr_abs b"
  using ab.ob.add_refused [of b ord w] assms unfolding arr_inv_linv arr_abs_def by blast

theorem array_add_refused_witness:
  "\<exists>b b'. arr_abs b = demo_book \<and> arr_add_order (demo_order 1 7 Buy 200 6 GTC) b demo_world =
    Some (report 1 Rejected 0 0 PriceOutOfRange, b', demo_world) \<and> arr_abs b' = demo_book"
proof -
  obtain b where b: "arr_inv b" "arr_abs b = demo_book" "in_range b = (\<lambda>p. 90 \<le> p \<and> p \<le> 110)" "demo_like b NoPrevention" using demo_arr by blast
  have "admissible (demo_order 1 7 Buy 200 6 GTC) demo_book" by (simp add: demo_book_def spec_eval allowed_eval)
  moreover have "refusal (in_range b) (demo_order 1 7 Buy 200 6 GTC) demo_book = PriceOutOfRange" using b(3) by (simp add: refusal_def demo_order_def)
  ultimately show ?thesis
    using array_add_refused [OF b(1), of "demo_order 1 7 Buy 200 6 GTC" demo_world] b by (auto simp: demo_like_def)
qed

section \<open>Cancelling and amending\<close>

text \<open>
  C12.  Cancelling an order removes exactly that order, leaves every other order in its place, and returns
  whether the order was there; a second cancel finds nothing.
\<close>

theorem array_cancel_exact:
  assumes "arr_inv b" "Suc (length (nodes b)) < unat kNullIndex"
  shows "\<exists>b' b''. arr_cancel_order i b = Some (i \<in> ids (arr_abs b), b') \<and> arr_inv b' \<and> arr_cancel_order i b' = Some (False, b'')
    \<and> arr_abs b'' = arr_abs b' \<and> (\<forall>s. side_of s (arr_abs b') = filter (\<lambda>x. o_id x \<noteq> i) (side_of s (arr_abs b)))"
  using ab.ob.cancel_exact [of b i] assms unfolding arr_inv_linv arr_abs_def by blast

theorem array_cancel_exact_witness:
  "\<exists>b b'. arr_abs b = demo_book \<and> arr_cancel_order 2 b = Some (True, b') \<and> a_bids (arr_abs b') = a_bids demo_book
    \<and> a_asks (arr_abs b') = [demo_order 1 7 Sell 100 5 GTC, demo_order 3 7 Sell 101 5 GTC]"
proof -
  obtain b where b: "arr_inv b" "arr_abs b = demo_book" "demo_like b NoPrevention" using demo_arr by blast
  obtain b' where b': "arr_cancel_order 2 b = Some (2 \<in> ids demo_book, b')"
      "side_of s (arr_abs b') = filter (\<lambda>x. o_id x \<noteq> 2) (side_of s demo_book)" for s
    using array_cancel_exact [OF b(1), of 2] b(2,3) by (auto simp: demo_like_def)
  have "2 \<in> ids demo_book" by (simp add: ids_def resting_def demo_book_def)
  then show ?thesis using b b'(1) b'(2) [of Buy] b'(2) [of Sell] by (auto simp: demo_book_def)
qed

text \<open>
  C13.  Reducing an order at its own price keeps its place in the queue: only its remaining quantity changes, no
  trade happens and no clock is read.
\<close>

theorem vector_amend_down_keeps_priority:
  assumes "vec_inv b" "amend_admissible i q np (vec_abs b)" "length (nodes b) < unat kNullIndex"
    and "find (\<lambda>x. o_id x = i) (resting (vec_abs b)) = Some x" "0 < q" "q \<le> rq x" "np = None \<or> np = Some (o_price x)"
  shows "\<exists>b'. vec_amend_order i q np b w = Some (report i New 0 q NoReason, b', w) \<and> vec_inv b'
    \<and> (\<forall>s. side_of s (vec_abs b') = map (resize i q) (side_of s (vec_abs b)))"
  using vb.ob.amend_down [of b i q np x w] assms unfolding vec_inv_linv vec_abs_def by blast

theorem vector_amend_down_keeps_priority_witness:
  "\<exists>b b'. vec_abs b = demo_book \<and> vec_amend_order 1 2 (Some 100) b demo_world = Some (report 1 New 0 2 NoReason, b', demo_world)
    \<and> map o_id (a_asks (vec_abs b')) = [1, 2, 3] \<and> map rq (a_asks (vec_abs b')) = [2, 3, 5]"
proof -
  obtain b where b: "vec_inv b" "vec_abs b = demo_book" "demo_like b NoPrevention" using demo_vec by blast
  have "amend_admissible 1 2 (Some 100) demo_book" "find (\<lambda>x. o_id x = 1) (resting demo_book) = Some (demo_order 1 7 Sell 100 5 GTC)"
    by (simp_all add: demo_book_def spec_eval allowed_eval)
  then obtain b' where b': "vec_amend_order 1 2 (Some 100) b demo_world = Some (report 1 New 0 2 NoReason, b', demo_world)"
      "side_of s (vec_abs b') = map (resize 1 2) (side_of s demo_book)" for s
    using vector_amend_down_keeps_priority [OF b(1), of 1 2 "Some 100" "demo_order 1 7 Sell 100 5 GTC" demo_world] b by (auto simp: demo_like_def)
  show ?thesis using b(2) b'(1) b'(2) [of Sell] by (auto simp: demo_book_def resize_def)
qed

text \<open>
  C14.  A refused amendment of an array book (unknown order, quantity not positive, price outside the band)
  leaves the book and the event stream as they were.
\<close>

theorem array_amend_refused:
  assumes "arr_inv b" "amend_admissible i q np (arr_abs b)" "length (nodes b) < unat kNullIndex"
    and "amend_refusal (in_range b) i q np (arr_abs b) \<noteq> NoReason"
  shows "\<exists>b'. arr_amend_order i q np b w = Some (report i Rejected 0 0 (amend_refusal (in_range b) i q np (arr_abs b)), b', w)
    \<and> arr_inv b' \<and> arr_abs b' = arr_abs b"
  using ab.ob.amend_refused [of b i q np w] assms unfolding arr_inv_linv arr_abs_def by blast

theorem array_amend_refused_witness:
  "\<exists>b b'. arr_abs b = demo_book \<and> arr_amend_order 2 1 (Some 0) b demo_world = Some (report 2 Rejected 0 0 PriceOutOfRange, b', demo_world)
    \<and> arr_abs b' = demo_book"
proof -
  obtain b where b: "arr_inv b" "arr_abs b = demo_book" "in_range b = (\<lambda>p. 90 \<le> p \<and> p \<le> 110)" "demo_like b NoPrevention" using demo_arr by blast
  have "amend_admissible 2 1 (Some 0) demo_book" "amend_refusal (in_range b) 2 1 (Some 0) demo_book = PriceOutOfRange"
    using b(3) by (simp_all add: demo_book_def spec_eval allowed_eval amend_refusal_def)
  then show ?thesis using array_amend_refused [OF b(1), of 2 1 "Some 0" demo_world] b by (auto simp: demo_like_def)
qed

text \<open>
  C15.  The map book (and the vector book, whose amendment is the same text) checks a new price only after it has
  cancelled the original: amending to a price that is not positive is reported as rejected, yet the order is gone.
\<close>

theorem map_amend_bad_price_loses_order:
  assumes "map_inv b" "amend_admissible i q (Some p) (map_abs b)" "length (nodes b) < unat kNullIndex" "i \<in> ids (map_abs b)" "0 < q" "p \<le> 0"
  shows "\<exists>b' w'. map_amend_order i q (Some p) b w = Some (report i Rejected 0 0 InvalidPrice, b', w') \<and> map_abs b' = remove_id i (map_abs b)"
  using mb.ob.amend_bad_price [of b i q p w] assms unfolding map_inv_linv map_abs_def by blast

theorem map_amend_bad_price_loses_order_witness:
  "\<exists>b b' w'. map_abs b = demo_book \<and> map_amend_order 4 4 (Some 0) b demo_world = Some (report 4 Rejected 0 0 InvalidPrice, b', w')
    \<and> a_bids (map_abs b') = []"
proof -
  obtain b where b: "map_inv b" "map_abs b = demo_book" "demo_like b NoPrevention" using demo_map by blast
  have "amend_admissible 4 4 (Some 0) demo_book" "4 \<in> ids demo_book" "a_bids (remove_id 4 demo_book) = []"
    by (simp_all add: demo_book_def spec_eval allowed_eval)
  then show ?thesis using map_amend_bad_price_loses_order [OF b(1), of 4 4 0 demo_world] b by (auto simp: demo_like_def)
qed

section \<open>Queries\<close>

text \<open>
  What the three quote queries should say of the resting orders: the best bid is the highest bid price, the best
  ask the lowest ask price, and the spread, which is missing exactly when a side is empty, is their difference,
  a positive number.
\<close>

definition quotes_ok :: "Order list \<Rightarrow> Order list \<Rightarrow> Price option \<Rightarrow> Price option \<Rightarrow> Price option option \<Rightarrow> bool" where
  "quotes_ok bids asks bid ask gap \<longleftrightarrow>
     bid = (if bids = [] then None else Some (Max (o_price ` set bids)))
   \<and> ask = (if asks = [] then None else Some (Min (o_price ` set asks)))
   \<and> gap = Some (if bids = [] \<or> asks = [] then None else Some (Min (o_price ` set asks) - Max (o_price ` set bids)))
   \<and> (bids \<noteq> [] \<and> asks \<noteq> [] \<longrightarrow> 0 < Min (o_price ` set asks) - Max (o_price ` set bids))"

lemma best_price_extreme:
  assumes "abook_ok A"
  shows "best_price (a_bids A) = (if a_bids A = [] then None else Some (Max (o_price ` set (a_bids A))))"
    "best_price (a_asks A) = (if a_asks A = [] then None else Some (Min (o_price ` set (a_asks A))))"
proof -
  have p: "in_priority Buy (a_bids A)" "in_priority Sell (a_asks A)" using assms by (simp_all add: abook_ok_def)
  have "o_price (hd (a_bids A)) = Max (o_price ` set (a_bids A))" if "a_bids A \<noteq> []"
    using that p(1) by (intro Max_eqI [symmetric]) (cases "a_bids A"; auto simp: in_priority_def)+
  moreover have "o_price (hd (a_asks A)) = Min (o_price ` set (a_asks A))" if "a_asks A \<noteq> []"
    using that p(2) by (intro Min_eqI [symmetric]) (cases "a_asks A"; auto simp: in_priority_def)+
  ultimately show "best_price (a_bids A) = (if a_bids A = [] then None else Some (Max (o_price ` set (a_bids A))))"
    "best_price (a_asks A) = (if a_asks A = [] then None else Some (Min (o_price ` set (a_asks A))))"
    by (simp_all add: best_price_def)
qed

lemma quotes_of_best:
  assumes ok: "abook_ok A" and "bid = best_price (a_bids A)" "ask = best_price (a_asks A)"
    and gap: "gap = (case (bid, ask) of (Some bb, Some ba) \<Rightarrow> do { d \<leftarrow> chk64 (ba - bb); Some (Some d) } | _ \<Rightarrow> Some None)"
  shows "quotes_ok (a_bids A) (a_asks A) bid ask gap"
proof (cases "a_bids A = [] \<or> a_asks A = []")
  case True
  then show ?thesis using assms best_price_extreme [OF ok] by (auto simp: quotes_ok_def split: option.splits)
next
  case False
  let ?B = "o_price ` set (a_bids A)" and ?S = "o_price ` set (a_asks A)"
  have "Max ?B \<in> ?B" "Min ?S \<in> ?S" using False by simp_all
  then obtain x y where xy: "x \<in> set (a_bids A)" "o_price x = Max ?B" "y \<in> set (a_asks A)" "o_price y = Min ?S" by auto
  have "o_price x < o_price y" "0 < o_price x" "o_price y \<le> i64_max"
    using ok xy(1,3) by (simp_all add: abook_ok_def uncrossed_def resting_ok_def list_all_iff)
  then have "Max ?B < Min ?S" "0 < Max ?B" "Min ?S \<le> i64_max" unfolding xy(2,4) by auto
  then have "chk64 (Min ?S - Max ?B) = Some (Min ?S - Max ?B)" "0 < Min ?S - Max ?B" by (auto simp: chk64_def in_i64_def i64_max_def)
  then show ?thesis using False assms best_price_extreme [OF ok] by (simp add: quotes_ok_def chk64_def)
qed

text \<open>
  C16.  After any allowed session on new books, with or without a trade callback, the three books quote correctly:
  the best bid is the highest price of a resting bid and the best ask the lowest price of a resting ask, the spread
  is computed without overflow, is missing exactly when a side is empty and is otherwise the difference of the
  two, which is positive: no session crosses a book.  The resting orders are those of the abstract book; for the
  array book the session may also contain prices outside the band, which it refuses.
\<close>

theorem spread_positive:
  assumes "run_allowed (\<lambda>p. True) stp cb symb xs empty_abook w" "length xs \<le> unat kNullIndex"
    and "arr_new symb mn mx h3 stp = Inr a" "mx \<le> i64_max" "run_allowed (\<lambda>p. mn \<le> p \<and> p \<le> mx) stp cb symb xs empty_abook w"
    and "spec_run (\<lambda>p. True) stp cb symb xs empty_abook w = (rs, A, w')"
    and "spec_run (\<lambda>p. mn \<le> p \<and> p \<le> mx) stp cb symb xs empty_abook w = (rs2, A2, w2)"
  shows "(\<exists>v. run_ops vec_add_order vec_cancel_order vec_amend_order xs (set_trade_callback cb (vec_new symb h1 stp)) w = Some (rs, v, w')
      \<and> quotes_ok (a_bids A) (a_asks A) (vec_best_bid v) (vec_best_ask v) (vec_spread v))
    \<and> (\<exists>m. run_ops map_add_order map_cancel_order map_amend_order xs (set_trade_callback cb (map_new symb h2 stp)) w = Some (rs, m, w')
      \<and> quotes_ok (a_bids A) (a_asks A) (map_best_bid m) (map_best_ask m) (map_spread m))
    \<and> (\<exists>a'. run_ops arr_add_order arr_cancel_order arr_amend_order xs (set_trade_callback cb a) w = Some (rs2, a', w2)
      \<and> quotes_ok (a_bids A2) (a_asks A2) (arr_best_bid a') (arr_best_ask a') (arr_spread a'))"
proof (intro conjI)
  obtain v where v: "run_ops vec_add_order vec_cancel_order vec_amend_order xs (set_trade_callback cb (vec_new symb h1 stp)) w = Some (rs, v, w')"
    "vec_inv v" "vec_abs v = A" by (rule fresh_vec_session [OF assms(1,2,6)])
  have "quotes_ok (a_bids A) (a_asks A) (vec_best_bid v) (vec_best_ask v) (vec_spread v)"
    using vec_best [OF v(2)] v(2,3) by (intro quotes_of_best) (auto simp: vec_inv_def vec_spread_def)
  with v show "\<exists>v. run_ops vec_add_order vec_cancel_order vec_amend_order xs (set_trade_callback cb (vec_new symb h1 stp)) w = Some (rs, v, w')
      \<and> quotes_ok (a_bids A) (a_asks A) (vec_best_bid v) (vec_best_ask v) (vec_spread v)" by blast
next
  obtain m where m: "run_ops map_add_order map_cancel_order map_amend_order xs (set_trade_callback cb (map_new symb h2 stp)) w = Some (rs, m, w')"
    "map_inv m" "map_abs m = A" by (rule fresh_map_session [OF assms(1,2,6)])
  have "quotes_ok (a_bids A) (a_asks A) (map_best_bid m) (map_best_ask m) (map_spread m)"
    using map_best [OF m(2)] m(2,3) by (intro quotes_of_best) (auto simp: map_inv_def map_spread_def)
  with m show "\<exists>m. run_ops map_add_order map_cancel_order map_amend_order xs (set_trade_callback cb (map_new symb h2 stp)) w = Some (rs, m, w')
      \<and> quotes_ok (a_bids A) (a_asks A) (map_best_bid m) (map_best_ask m) (map_spread m)" by blast
next
  obtain a' where a': "run_ops arr_add_order arr_cancel_order arr_amend_order xs (set_trade_callback cb a) w = Some (rs2, a', w2)"
    "arr_inv a'" "arr_abs a' = A2" by (rule fresh_arr_session [OF assms(3,4,5,2,7)])
  have "quotes_ok (a_bids A2) (a_asks A2) (arr_best_bid a') (arr_best_ask a') (arr_spread a')"
    using arr_best_ok [OF a'(2)] a'(2,3) by (intro quotes_of_best) (auto simp: arr_inv_def arr_spread_def)
  with a' show "\<exists>a'. run_ops arr_add_order arr_cancel_order arr_amend_order xs (set_trade_callback cb a) w = Some (rs2, a', w2)
      \<and> quotes_ok (a_bids A2) (a_asks A2) (arr_best_bid a') (arr_best_ask a') (arr_spread a')" by blast
qed

text \<open>The demonstration book: bid 99, asks 100, 100 and 101.\<close>

theorem spread_positive_witness:
  "\<exists>a v m a'. arr_new 1 90 110 16 NoPrevention = Inr a
    \<and> run_ops vec_add_order vec_cancel_order vec_amend_order demo_ops (set_trade_callback True (vec_new 1 16 NoPrevention)) demo_world = Some (demo_reports, v, demo_world)
    \<and> vec_best_bid v = Some 99 \<and> vec_best_ask v = Some 100 \<and> vec_spread v = Some (Some 1)
    \<and> run_ops map_add_order map_cancel_order map_amend_order demo_ops (set_trade_callback True (map_new 1 8 NoPrevention)) demo_world = Some (demo_reports, m, demo_world)
    \<and> map_best_bid m = Some 99 \<and> map_best_ask m = Some 100 \<and> map_spread m = Some (Some 1)
    \<and> run_ops arr_add_order arr_cancel_order arr_amend_order demo_ops (set_trade_callback True a) demo_world = Some (demo_reports, a', demo_world)
    \<and> arr_best_bid a' = Some 99 \<and> arr_best_ask a' = Some 100 \<and> arr_spread a' = Some (Some 1)"
proof -
  obtain a where a: "arr_new 1 90 110 16 NoPrevention = Inr a"
    using arr_new_class [of 90 110 "\<lambda>p. 90 \<le> p \<and> p \<le> 110" 1 16 NoPrevention] by (auto simp: price_band_def i64_max_def)
  have quotes: "bid = Some 99 \<and> ask = Some 100 \<and> gap = Some (Some 1)" if "quotes_ok (a_bids demo_book) (a_asks demo_book) bid ask gap" for bid ask gap
    using that by (simp add: quotes_ok_def demo_book_def)
  have len: "(110 :: int) \<le> i64_max" by (simp add: i64_max_def)
  have run: "run_allowed (\<lambda>p. True) NoPrevention True 1 demo_ops empty_abook demo_world" "run_allowed (\<lambda>p. 90 \<le> p \<and> p \<le> 110) NoPrevention True 1 demo_ops empty_abook demo_world"
    "spec_run (\<lambda>p. True) NoPrevention True 1 demo_ops empty_abook demo_world = (demo_reports, demo_book, demo_world)"
    "spec_run (\<lambda>p. 90 \<le> p \<and> p \<le> 110) NoPrevention True 1 demo_ops empty_abook demo_world = (demo_reports, demo_book, demo_world)"
    by (rule demo_run; simp)+
  note s = spread_positive [OF run(1) demo_room(1) a len run(2) run(3,4), of 16 8]
  then show ?thesis using a quotes by blast
qed

text \<open>
  C17.  The depth queries of the three books aggregate the resting orders: one entry per price, best first, with
  the summed remaining quantity and the number of orders of that price, cut off at the requested depth.
\<close>

theorem depth_queries:
  assumes "vec_inv v" "map_inv m" "arr_inv a"
  shows "vec_bid_depth n v = take n (depth_of (a_bids (vec_abs v))) \<and> vec_ask_depth n v = take n (depth_of (a_asks (vec_abs v)))
    \<and> map_bid_depth n m = take n (depth_of (a_bids (map_abs m))) \<and> map_ask_depth n m = take n (depth_of (a_asks (map_abs m)))
    \<and> arr_bid_depth n a = Some (take n (depth_of (a_bids (arr_abs a)))) \<and> arr_ask_depth n a = Some (take n (depth_of (a_asks (arr_abs a))))"
  by (simp add: vec_depth_ok [OF assms(1)] map_depth_ok [OF assms(2)] arr_depth_ok [OF assms(3)])

theorem depth_queries_witness:
  "\<exists>v m a. vec_abs v = demo_book \<and> map_abs m = demo_book \<and> arr_abs a = demo_book
    \<and> map (\<lambda>l. (v_price l, v_total_quantity l)) (vec_ask_depth 5 v) = [(100, 8), (101, 5)] \<and> map_ask_depth 5 m = vec_ask_depth 5 v
    \<and> arr_ask_depth 5 a = Some (vec_ask_depth 5 v)"
proof -
  obtain v m a where inv: "vec_inv v" "map_inv m" "arr_inv a" and abs: "vec_abs v = demo_book" "map_abs m = demo_book" "arr_abs a = demo_book"
    using demo_vec demo_map demo_arr by metis
  have "map (\<lambda>l. (v_price l, v_total_quantity l)) (depth_of (a_asks demo_book)) = [(100, 8), (101, 5)]"
    "length (depth_of (a_asks demo_book)) = 2"
    by (simp_all add: demo_book_def volume_def)
  then show ?thesis using depth_queries [OF inv, of 5] abs by (intro exI [of _ v] exI [of _ m] exI [of _ a]) simp
qed

text \<open>
  The counters agree with the contents: \<open>order_count\<close> is the number of resting orders and the level counts are
  the numbers of distinct prices, which the array book counts in its bitmaps.
\<close>

theorem array_counters:
  assumes "arr_inv b"
  shows "order_count b = length (resting (arr_abs b)) \<and> arr_bid_level_count b = length (depth_of (a_bids (arr_abs b)))
    \<and> arr_ask_level_count b = length (depth_of (a_asks (arr_abs b)))"
  using assms order_count_view [of b "arr_levels b"] level_count_view [of b "arr_levels b" Buy] level_count_view [of b "arr_levels b" Sell]
  by (simp add: arr_counts_ok arr_inv_def arr_abs_def)

theorem array_counters_witness:
  "\<exists>b. arr_abs b = demo_book \<and> order_count b = 4 \<and> arr_bid_level_count b = 1 \<and> arr_ask_level_count b = 2"
proof -
  obtain b where "arr_inv b" "arr_abs b = demo_book" using demo_arr by blast
  with array_counters [OF this(1)] show ?thesis by (auto simp: demo_book_def resting_def volume_def)
qed

section \<open>The array book's band\<close>

text \<open>
  Building an array book fails exactly for an empty or non-positive band, with the reason, and otherwise
  gives an empty book that meets the invariant, has one level per tick and accepts exactly the prices of the band.
\<close>

theorem array_new_result:
  assumes "mx \<le> i64_max"
  shows "(case arr_new symb mn mx hint stp of
      Inl e \<Rightarrow> e = MinAboveMax \<and> mx < mn \<or> e = MinNotPositive \<and> mn \<le> mx \<and> mn \<le> 0
    | Inr b \<Rightarrow> 0 < mn \<and> mn \<le> mx \<and> arr_inv b \<and> arr_abs b = empty_abook \<and> in_range b = (\<lambda>p. mn \<le> p \<and> p \<le> mx)
        \<and> length (ab_bid_levels b) = nat (mx - mn) + 1 \<and> length (ab_ask_levels b) = nat (mx - mn) + 1)"
  using arr_new_ok [of symb mn mx hint stp] assms
  by (auto split: sum.split) (auto simp: arr_new_def validate_and_compute_range_def in_range_def fun_eq_iff split: if_splits)

theorem array_new_result_witness:
  "(\<exists>b. arr_new 1 90 110 16 CancelBoth = Inr b \<and> arr_inv b \<and> length (ab_bid_levels b) = 21) \<and> arr_new 1 0 5 16 CancelBoth = Inl MinNotPositive"
  using array_new_result [where mx = 110 and mn = 90 and symb = 1 and hint = 16 and stp = CancelBoth]
    array_new_result [where mx = 5 and mn = 0 and symb = 1 and hint = 16 and stp = CancelBoth]
  by (auto simp: i64_max_def split: sum.splits)

text \<open>
  Inside the band the tick index is in bounds and names its price, and every index is the index of its
  price: the conversions between prices and indices are inverse to each other.
\<close>

theorem array_index_roundtrip:
  assumes "arr_inv b"
  shows "(in_range b p \<longrightarrow> index_of b p < length (ab_bid_levels b) \<and> index_of b p < length (ab_ask_levels b) \<and> price_of b (index_of b p) = p)
    \<and> (i < ab_range b \<longrightarrow> in_range b (price_of b i) \<and> index_of b (price_of b i) = i)"
proof -
  have ok: "arr_ok b" and len: "length (ab_bid_levels b) = ab_range b" "length (ab_ask_levels b) = ab_range b"
    using assms by (auto simp: arr_inv_def arr_ok_def arr_side_ok_def arr_lv_def dest: spec [of _ Buy] spec [of _ Sell])
  have "index_of b p < ab_range b \<and> price_of b (index_of b p) = p" if "in_range b p"
    using ok that by (auto simp: arr_ok_def in_range_def index_of_def price_of_def i64_max_def)
  then show ?thesis using len index_of_price [OF ok] by simp
qed

theorem array_index_roundtrip_witness:
  "\<exists>b. arr_abs b = demo_book \<and> price_of b (index_of b 100) = 100 \<and> index_of b 100 < length (ab_bid_levels b)"
proof -
  obtain b where b: "arr_inv b" "arr_abs b = demo_book" "in_range b = (\<lambda>p. 90 \<le> p \<and> p \<le> 110)" using demo_arr by blast
  with array_index_roundtrip [OF b(1), of 100 0] show ?thesis by auto
qed

text \<open>
  Resetting an array book, which walks only the occupied levels of its bitmaps, returns and leaves an empty
  book with the same band.
\<close>

theorem array_reset_empties:
  assumes "arr_inv b"
  shows "\<exists>b'. arr_reset b = Some b' \<and> arr_inv b' \<and> arr_abs b' = empty_abook \<and> in_range b' = in_range b"
  using arr_reset_ok [OF assms] .

theorem array_reset_empties_witness:
  "\<exists>b b'. arr_abs b = demo_book \<and> arr_reset b = Some b' \<and> arr_abs b' = empty_abook"
proof -
  obtain b where "arr_inv b" "arr_abs b = demo_book" using demo_arr by blast
  with array_reset_empties [OF this(1)] show ?thesis by blast
qed

section \<open>Loops\<close>

text \<open>
  C18.  The matching loop of the array book terminates, whatever the taker, with the outcome of the abstract walk
  over the opposite side: fill, skip or stop at each resting order in turn.
\<close>

theorem array_match_terminates:
  assumes "arr_inv b" "0 \<le> rq t" "rq t \<le> i64_max"
    and "spec_match (b_stp_policy b) t (side_of (opposite (o_side t)) (arr_abs b)) = (k, t', ms, fs)"
  shows "\<exists>b'. arr_match_against_book t b w = Some (k, t', b', emit_fills (b_trade_callback b) (b_symbol b) t fs w)
    \<and> arr_inv b' \<and> arr_abs b' = set_side (opposite (o_side t)) ms (arr_abs b)"
proof -
  have inv: "arr_ok b" "rep_ok b (arr_levels b)" "abook_ok (view b (arr_levels b))" using assms(1) by (simp_all add: arr_inv_def arr_abs_def)
  obtain b' where "arr_match_against_book t b w = Some (k, t', b', emit_fills (b_trade_callback b) (b_symbol b) t fs w)"
      "moved arr_ok arr_levels in_range b (set_side (opposite (o_side t)) ms (view b (arr_levels b))) 0 b'"
    using am.match_refines [OF inv assms(2,3)] assms(4) by (metis arr_abs_def)
  moreover have "abook_ok (set_side (opposite (o_side t)) ms (view b (arr_levels b)))"
    using leftover_ok [OF inv(3) spec_match_leftover] assms(4) by (simp add: arr_abs_def)
  ultimately show ?thesis using ab.moved_inv [of b _ 0 b'] unfolding arr_inv_linv arr_abs_def by blast
qed

theorem array_match_terminates_witness:
  "\<exists>b b'. arr_abs b = demo_book \<and> arr_match_against_book (demo_order 5 7 Buy 105 9 GTC) b demo_world =
     Some (False, (demo_order 5 7 Buy 105 9 GTC)\<lparr>o_remaining_quantity := 6\<rparr>, b', emit_fills True 1 (demo_order 5 7 Buy 105 9 GTC)
       [(demo_order 2 8 Sell 100 3 GTC, 3)] demo_world) \<and> a_asks (arr_abs b') = []"
proof -
  obtain b where b: "arr_inv b" "arr_abs b = demo_book" "demo_like b CancelResting" using demo_arr by blast
  have "spec_match CancelResting (demo_order 5 7 Buy 105 9 GTC) (a_asks demo_book) =
      (False, (demo_order 5 7 Buy 105 9 GTC)\<lparr>o_remaining_quantity := 6\<rparr>, [], [(demo_order 2 8 Sell 100 3 GTC, 3)])"
    by (simp add: demo_book_def price_ok_def self_trade_def demo_order_def)
  then show ?thesis
    using array_match_terminates [OF b(1), where t = "demo_order 5 7 Buy 105 9 GTC" and k = False and w = demo_world] b
    by (auto simp: demo_like_def i64_max_def)
qed

end
