(* ===== verification/Engine_Agreement.thy ===== *)
theory Engine_Agreement
  imports Engine_Books
begin

text \<open>
  Engines over different book classes: what an engine with price bands does on a session inside the bands is what
  an engine without bands does.  With the refinements of \<open>Engine_Books\<close> this makes the engines over the vector,
  the map and the array book interchangeable inside the array book's range.
\<close>

section \<open>Engines without bands\<close>

definition unband :: "SpecBook \<Rightarrow> SpecBook" where
  "unband B = B\<lparr>sb_accepts := \<lambda>p. True\<rparr>"

definition widen :: "SpecBook MatchingEngine \<Rightarrow> SpecBook MatchingEngine" where
  "widen S = S\<lparr>e_books := map_option unband \<circ> e_books S\<rparr>"

definition widen_world :: "SpecBook MatchingEngine \<times> World \<Rightarrow> SpecBook MatchingEngine \<times> World" where
  "widen_world ew = (widen (fst ew), snd ew)"

text \<open>Every resting price is inside the band of its book.\<close>

definition priced_engine :: "SpecBook MatchingEngine \<Rightarrow> bool" where
  "priced_engine S \<longleftrightarrow> (\<forall>s B. e_books S s = Some B \<longrightarrow> priced (sb_accepts B) (sb_book B))"

fun in_band :: "(SymbolId \<Rightarrow> Price \<Rightarrow> bool) \<Rightarrow> engine_op \<Rightarrow> bool" where
  "in_band band (Submit req) = (req_type req = Limit \<longrightarrow> band (req_symbol req) (req_price req))"
| "in_band band (AmendIn symb i q np) = (case np of None \<Rightarrow> True | Some p \<Rightarrow> band symb p)"
| "in_band band _ = True"

definition bands :: "(SymbolId \<Rightarrow> Price \<Rightarrow> bool) \<Rightarrow> SpecBook MatchingEngine \<Rightarrow> bool" where
  "bands band S \<longleftrightarrow> (\<forall>s B. e_books S s = Some B \<longrightarrow> sb_accepts B = band s)"

lemma widen_simps [simp]: "e_books (widen S) s = map_option unband (e_books S s)" "e_risk_manager (widen S) = e_risk_manager S"
  "e_next_order_id (widen S) = e_next_order_id S" "e_user_callback (widen S) = e_user_callback S"
  "widen (S\<lparr>e_risk_manager := rm\<rparr>) = (widen S)\<lparr>e_risk_manager := rm\<rparr>" "widen (S\<lparr>e_next_order_id := i\<rparr>) = (widen S)\<lparr>e_next_order_id := i\<rparr>"
  "widen (S\<lparr>e_books := (e_books S)(s \<mapsto> B)\<rparr>) = (widen S)\<lparr>e_books := (e_books (widen S))(s \<mapsto> unband B)\<rparr>"
  by (auto simp: widen_def fun_eq_iff)

lemma unband_simps [simp]: "sb_book (unband B) = sb_book B" "sb_accepts (unband B) = (\<lambda>p. True)" "sb_stp (unband B) = sb_stp B"
  "sb_callback (unband B) = sb_callback B" "sb_symbol (unband B) = sb_symbol B" "unband (B\<lparr>sb_book := A\<rparr>) = (unband B)\<lparr>sb_book := A\<rparr>"
  by (simp_all add: unband_def)

text \<open>Settling trades does not look at the books.\<close>

lemma on_trade_widen: "on_trade t (widen_world ew) = map_option widen_world (on_trade t ew)"
  by (cases ew) (auto simp: on_trade_def widen_world_def Let_def map_option_bind intro!: Option.bind_cong)

lemma foldM_commute:
  assumes "\<And>x s. f x (g s) = map_option g (f x s)"
  shows "foldM f xs (g s) = map_option g (foldM f xs s)"
proof (induction xs arbitrary: s)
  case (Cons x xs)
  then show ?case by (cases "f x s") (simp_all add: assms)
qed simp

lemma settle_widen: "foldM on_trade ts (widen_world ew) = map_option widen_world (foldM on_trade ts ew)"
  by (rule foldM_commute) (rule on_trade_widen)

section \<open>One step\<close>

definition banded :: "(SymbolId \<Rightarrow> Price \<Rightarrow> bool) \<Rightarrow> SpecBook MatchingEngine \<Rightarrow> bool" where
  "banded band S \<longleftrightarrow> bands band S \<and> priced_engine S"

definition widen_result :: "'r \<times> SpecBook MatchingEngine \<times> World \<Rightarrow> 'r \<times> SpecBook MatchingEngine \<times> World" where
  "widen_result x = (fst x, widen (fst (snd x)), snd (snd x))"

lemma banded_book: "banded band S \<Longrightarrow> e_books S s = Some B \<Longrightarrow> sb_accepts B = band s \<and> priced (band s) (sb_book B)"
  by (auto simp: banded_def bands_def priced_engine_def)

lemma banded_cong: "e_books S' = e_books S \<Longrightarrow> banded band S' = banded band S"
  by (simp add: banded_def bands_def priced_engine_def)

lemma banded_upd:
  assumes "banded band S" "sb_accepts B = band s" "priced (band s) (sb_book B)" "e_books S' = (e_books S)(s \<mapsto> B)"
  shows "banded band S'"
  using assms by (auto simp: banded_def bands_def priced_engine_def)

lemma book_call_widen:
  assumes call: "\<And>w. call' (unband B) w = map_option (\<lambda>(r, B', w'). (r, unband B', w')) (call B w)"
  shows "book_call s call' (unband B) (widen S) w = map_option widen_result (book_call s call B S w)"
proof (cases "call B (w\<lparr>events := []\<rparr>)")
  case None
  then show ?thesis by (simp add: book_call_def call)
next
  case (Some x)
  obtain r B' w1 where x: "x = (r, B', w1)" by (cases x)
  let ?ew = "(S\<lparr>e_books := (e_books S)(s \<mapsto> B')\<rparr>, w1\<lparr>events := events w\<rparr>)"
  have "book_call s call' (unband B) (widen S) w = do { (e, w) \<leftarrow> foldM on_trade (events w1) (widen_world ?ew); Some (r, e, w) }"
    using Some x by (simp add: book_call_def call widen_world_def)
  moreover have "book_call s call B S w = do { (e, w) \<leftarrow> foldM on_trade (events w1) ?ew; Some (r, e, w) }"
    using Some x by (simp add: book_call_def)
  ultimately show ?thesis unfolding settle_widen
    by (cases "foldM on_trade (events w1) ?ew") (simp_all add: widen_world_def widen_result_def split_def)
qed

text \<open>The calls of a book inside its band.\<close>

lemma add_unband:
  assumes "priced (sb_accepts B) (sb_book B)" "o_type ord = Limit \<longrightarrow> sb_accepts B (o_price ord)"
  shows "bk_add (spec_class any_price) ord (unband B) w =
      map_option (\<lambda>(r, B', w'). (r, unband B', w')) (bk_add (spec_class price_band) ord B w)"
    "bk_add (spec_class price_band) ord B w = Some (r, B', w') \<Longrightarrow> sb_accepts B' = sb_accepts B \<and> priced (sb_accepts B) (sb_book B')"
  using spec_add_priced [OF assms, of "sb_stp B" "sb_callback B" "sb_symbol B" w]
  by (auto simp: spec_class_def split_def)

lemma spec_amend_priced:
  assumes "priced band A" "case np of None \<Rightarrow> True | Some p \<Rightarrow> band p"
  shows "spec_amend band stp cb symb i q np A w = spec_amend (\<lambda>p. True) stp cb symb i q np A w"
    "priced band (fst (snd (spec_amend (\<lambda>p. True) stp cb symb i q np A w)))"
  using spec_op_priced [of band A "Amend i q np" stp cb symb w] assms by (simp_all add: split_def prod_eq_iff Let_def)

lemma amend_unband:
  assumes "priced (sb_accepts B) (sb_book B)" "case np of None \<Rightarrow> True | Some p \<Rightarrow> sb_accepts B p"
  shows "bk_amend (spec_class any_price) i q np (unband B) w =
      map_option (\<lambda>(r, B', w'). (r, unband B', w')) (bk_amend (spec_class price_band) i q np B w)"
    "bk_amend (spec_class price_band) i q np B w = Some (r, B', w') \<Longrightarrow> sb_accepts B' = sb_accepts B \<and> priced (sb_accepts B) (sb_book B')"
  using spec_amend_priced [OF assms, of "sb_stp B" "sb_callback B" "sb_symbol B" i q w]
  by (auto simp: spec_class_def split_def)

lemma book_call_banded:
  assumes "book_call s call B S w = Some (r, S', w')" "banded band S"
    and "\<And>r B' w'. call B (w\<lparr>events := []\<rparr>) = Some (r, B', w') \<Longrightarrow> sb_accepts B' = band s \<and> priced (band s) (sb_book B')"
  shows "banded band S'"
proof (rule book_call_effect [OF assms(1)])
  fix B' w1 assume "call B (w\<lparr>events := []\<rparr>) = Some (r, B', w1)" "e_books S' = (e_books S)(s \<mapsto> B')"
  then show ?thesis using banded_upd [OF assms(2), of B' s S'] assms(3) by blast
qed

lemma submit_widen:
  assumes "banded band S" "in_band band (Submit req)"
  shows "submit_order (spec_class any_price) req (widen S) w = map_option widen_result (submit_order (spec_class price_band) req S w)"
    "submit_order (spec_class price_band) req S w = Some (r, S', w') \<Longrightarrow> banded band S'"
proof -
  let ?s = "req_symbol req"
  have side: "priced (sb_accepts B) (sb_book B)" "o_type (make_order i ts req) = Limit \<longrightarrow> sb_accepts B (o_price (make_order i ts req))"
      "sb_accepts B = band ?s" if "e_books S ?s = Some B" for B i ts
    using banded_book [OF assms(1) that] assms(2) by (simp_all add: make_order_def)
  show "submit_order (spec_class any_price) req (widen S) w = map_option widen_result (submit_order (spec_class price_band) req S w)"
  proof (cases "e_books S ?s")
    case None
    then show ?thesis by (simp add: submit_order_def widen_result_def)
  next
    case (Some B)
    note call = book_call_widen [of "bk_add (spec_class any_price) (make_order i ts req)" B "bk_add (spec_class price_band) (make_order i ts req)" for i ts,
        OF add_unband(1) [OF side(1,2) [OF Some]]]
    show ?thesis using Some
      by (auto simp: submit_order_def now_ns_def Let_def call map_option_bind widen_result_def simp flip: widen_simps(5,6) intro!: Option.bind_cong)
  qed
  show "banded band S'" if run: "submit_order (spec_class price_band) req S w = Some (r, S', w')"
    using run
  proof (cases rule: submit_order_cases)
    case (known B rm reason i ts e1 w1)
    have b1: "banded band e1" using assms(1) banded_cong [of e1 S band] known(5) by simp
    show ?thesis
    proof (cases "reason = NoReason")
      case True
      then have "book_call ?s (bk_add (spec_class price_band) (make_order i ts req)) B e1 w1 = Some (r, S', w')" using known(6) by simp
      then show ?thesis using add_unband(2) [OF side(1,2) [OF known(1)]] side(3) [OF known(1)] by (intro book_call_banded [OF _ b1]) auto
    qed (use known(6) b1 in auto)
  qed (use assms(1) in simp)
qed

lemma amend_widen:
  assumes "banded band S" "in_band band (AmendIn symb i q np)"
  shows "amend_order (spec_class any_price) symb i q np (widen S) w = map_option widen_result (amend_order (spec_class price_band) symb i q np S w)"
    "amend_order (spec_class price_band) symb i q np S w = Some (r, S', w') \<Longrightarrow> banded band S'"
proof -
  have side: "priced (sb_accepts B) (sb_book B)" "case np of None \<Rightarrow> True | Some p \<Rightarrow> sb_accepts B p" "sb_accepts B = band symb"
    if "e_books S symb = Some B" for B
    using banded_book [OF assms(1) that] assms(2) by (simp_all split: option.splits)
  show "amend_order (spec_class any_price) symb i q np (widen S) w = map_option widen_result (amend_order (spec_class price_band) symb i q np S w)"
  proof (cases "e_books S symb")
    case (Some B)
    note call = book_call_widen [of "bk_amend (spec_class any_price) i q np" B "bk_amend (spec_class price_band) i q np",
        OF amend_unband(1) [OF side(1,2) [OF Some]]]
    show ?thesis using Some by (simp add: amend_order_def call)
  qed (simp add: amend_order_def widen_result_def)
  show "banded band S'" if run: "amend_order (spec_class price_band) symb i q np S w = Some (r, S', w')"
  proof (cases "e_books S symb")
    case (Some B)
    then have "book_call symb (bk_amend (spec_class price_band) i q np) B S w = Some (r, S', w')" using run by (simp add: amend_order_def)
    then show ?thesis using amend_unband(2) [OF side(1,2) [OF Some]] side(3) [OF Some] by (intro book_call_banded [OF _ assms(1)]) auto
  qed (use run assms(1) in \<open>simp add: amend_order_def\<close>)
qed

lemma priced_cancel: "priced band A \<Longrightarrow> priced band (snd (spec_cancel i A))"
  by (simp add: spec_cancel_def priced_remove)

lemma priced_empty: "priced band empty_abook"
  by (simp add: priced_resting resting_def empty_abook_def)

lemma step_widen:
  assumes "banded band S" "in_band band x"
  shows "engine_step (spec_class any_price) x (widen S) w = map_option widen_result (engine_step (spec_class price_band) x S w)"
proof (cases x)
  case (Submit req)
  then show ?thesis using submit_widen(1) [OF assms(1), of req w] assms(2)
    by (cases "submit_order (spec_class price_band) req S w") (auto simp: widen_result_def)
next
  case (AmendIn symb i q np)
  then show ?thesis using amend_widen(1) [OF assms(1), of symb i q np w] assms(2)
    by (cases "amend_order (spec_class price_band) symb i q np S w") (auto simp: widen_result_def)
next
  case (CancelIn symb i)
  then show ?thesis
    by (cases "e_books S symb") (auto simp: cancel_order_def spec_class_def split_def widen_result_def simp flip: unband_simps(6))
next
  case (ResetSymbol symb)
  then show ?thesis
    by (cases "e_books S symb") (auto simp: reset_symbol_def spec_class_def widen_result_def simp flip: unband_simps(6))
next
  case (SetLimits symb p lim)
  then show ?thesis by (simp add: set_risk_limits_def widen_result_def)
qed

lemma step_banded:
  assumes "banded band S" "in_band band x" and run: "engine_step (spec_class price_band) x S w = Some (r, S', w')"
  shows "banded band S'"
proof (cases x)
  case (CancelIn symb i)
  show ?thesis
  proof (cases "e_books S symb")
    case (Some B)
    then have "e_books S' = (e_books S)(symb \<mapsto> B\<lparr>sb_book := snd (spec_cancel i (sb_book B))\<rparr>)"
      using run CancelIn by (auto simp: cancel_order_def spec_class_def split_def)
    then show ?thesis using banded_upd [OF assms(1), of "B\<lparr>sb_book := snd (spec_cancel i (sb_book B))\<rparr>" symb S'] banded_book [OF assms(1) Some] priced_cancel
      by simp
  qed (use run CancelIn assms(1) in \<open>simp add: cancel_order_def\<close>)
next
  case (ResetSymbol symb)
  show ?thesis
  proof (cases "e_books S symb")
    case (Some B)
    then have "e_books S' = (e_books S)(symb \<mapsto> B\<lparr>sb_book := empty_abook\<rparr>)"
      using run ResetSymbol by (auto simp: reset_symbol_def spec_class_def)
    then show ?thesis using banded_upd [OF assms(1), of "B\<lparr>sb_book := empty_abook\<rparr>" symb S'] banded_book [OF assms(1) Some] priced_empty by simp
  qed (use run ResetSymbol assms(1) in \<open>simp add: reset_symbol_def\<close>)
next
  case (SetLimits symb p lim)
  then have "e_books S' = e_books S" using run by (auto simp: set_risk_limits_def)
  then show ?thesis using assms(1) banded_cong by blast
next
  case (Submit req)
  then obtain q where "submit_order (spec_class price_band) req S w = Some (q, S', w')" using run by (auto simp: bind_eq_Some_conv)
  then show ?thesis using submit_widen(2) [OF assms(1)] assms(2) Submit by blast
next
  case (AmendIn symb i q np)
  then obtain q' where "amend_order (spec_class price_band) symb i q np S w = Some (q', S', w')" using run by (auto simp: bind_eq_Some_conv)
  then show ?thesis using amend_widen(2) [OF assms(1)] assms(2) AmendIn by blast
qed

section \<open>Sessions\<close>

lemma allowed_widen: "step_allowed x (widen S) w = step_allowed x S w"
  by (cases x) (auto simp: submit_allowed_def split: option.splits)

lemma run_widen:
  assumes "banded band S" "list_all (in_band band) xs" "session_allowed (spec_class price_band) xs S w"
    and "engine_run (spec_class price_band) xs S w = Some (rs, S', w')"
  shows "session_allowed (spec_class any_price) xs (widen S) w \<and> engine_run (spec_class any_price) xs (widen S) w = Some (rs, widen S', w')"
  using assms
proof (induction xs arbitrary: S w rs)
  case (Cons x xs)
  obtain r S1 w1 rs1 where S1: "engine_step (spec_class price_band) x S w = Some (r, S1, w1)"
    "engine_run (spec_class price_band) xs S1 w1 = Some (rs1, S', w')" "rs = r # rs1"
    using Cons.prems(4) by (auto simp: bind_eq_Some_conv)
  have x: "in_band band x" "list_all (in_band band) xs" using Cons.prems(2) by simp_all
  have "engine_step (spec_class any_price) x (widen S) w = Some (r, widen S1, w1)"
    using step_widen [OF Cons.prems(1) x(1), of w] S1(1) by (simp add: widen_result_def)
  moreover have "session_allowed (spec_class any_price) xs (widen S1) w1 \<and> engine_run (spec_class any_price) xs (widen S1) w1 = Some (rs1, widen S', w')"
    using Cons.IH [OF step_banded [OF Cons.prems(1) x(1) S1(1)] x(2) _ S1(2)] Cons.prems(3) S1(1) by simp
  ultimately show ?case using Cons.prems(3) S1(3) by (simp add: allowed_widen)
qed simp

text \<open>The three engines answer a session alike, from states that stand for the same books.\<close>

theorem engines_same:
  assumes "ve.sim n ev (widen S)" "me.sim n em (widen S)" "ae.sim n ea S" "banded band S" "list_all (in_band band) xs"
    and "session_allowed (spec_class price_band) xs S w" "n + length xs \<le> unat kNullIndex"
    and "engine_run (spec_class price_band) xs S w = Some (rs, S', w')"
  shows "\<exists>ev' em' ea'. engine_run vec_class xs ev w = Some (rs, ev', w') \<and> engine_run map_class xs em w = Some (rs, em', w')
    \<and> engine_run arr_class xs ea w = Some (rs, ea', w') \<and> e_risk_manager ev' = e_risk_manager ea' \<and> e_risk_manager em' = e_risk_manager ea'"
proof -
  note wide = run_widen [OF assms(4-6,8)]
  obtain ev' where "engine_run vec_class xs ev w = Some (rs, ev', w')" "ve.sim (n + length xs) ev' (widen S')"
    using ve.run_sim [OF assms(1) _ assms(7)] wide by blast
  moreover obtain em' where "engine_run map_class xs em w = Some (rs, em', w')" "me.sim (n + length xs) em' (widen S')"
    using me.run_sim [OF assms(2) _ assms(7)] wide by blast
  moreover obtain ea' where "engine_run arr_class xs ea w = Some (rs, ea', w')" "ae.sim (n + length xs) ea' S'"
    using ae.run_sim [OF assms(3,6,7,8)] by blast
  ultimately show ?thesis by (auto simp: ve.sim_def me.sim_def ae.sim_def)
qed

text \<open>Engines with one symbol, as \<open>add_symbol\<close> builds them, whose user callback has been set or cleared.\<close>

definition one_symbol :: "SymbolId \<Rightarrow> (Price \<Rightarrow> bool) \<Rightarrow> SelfTradePrevention \<Rightarrow> RiskManager \<Rightarrow> bool \<Rightarrow> SpecBook MatchingEngine" where
  "one_symbol s rng p rm cb = \<lparr>e_books = [s \<mapsto> \<lparr>sb_book = empty_abook, sb_accepts = rng, sb_stp = p, sb_callback = True, sb_symbol = s\<rparr>],
     e_risk_manager = rm, e_next_order_id = 1, e_user_callback = cb\<rparr>"

lemma callback_sims:
  "ve.sim n e S \<Longrightarrow> ve.sim n (engine_set_trade_callback cb e) (engine_set_trade_callback cb S)"
  "me.sim n e' S \<Longrightarrow> me.sim n (engine_set_trade_callback cb e') (engine_set_trade_callback cb S)"
  "ae.sim n e'' S \<Longrightarrow> ae.sim n (engine_set_trade_callback cb e'') (engine_set_trade_callback cb S)"
  by (simp_all add: ve.sim_def me.sim_def ae.sim_def engine_set_trade_callback_def)

lemma one_symbol_sims:
  assumes "0 < mn" "mn \<le> mx" "mx \<le> i64_max"
  obtains ev em ea where "add_symbol vec_class s mn mx h p (engine_new rm) = Inr ev" "add_symbol map_class s mn mx h p (engine_new rm) = Inr em"
    "add_symbol arr_class s mn mx h p (engine_new rm) = Inr ea"
    "ve.sim 0 (engine_set_trade_callback cb ev) (one_symbol s (\<lambda>p. True) p rm cb)"
    "me.sim 0 (engine_set_trade_callback cb em) (one_symbol s (\<lambda>p. True) p rm cb)"
    "ae.sim 0 (engine_set_trade_callback cb ea) (one_symbol s (\<lambda>p. mn \<le> p \<and> p \<le> mx) p rm cb)"
proof -
  have spec: "add_symbol (spec_class acc) s mn mx h p (engine_new rm) = Inr (one_symbol s R p rm False)" if "acc mn mx = Inr R"
    for acc :: "Price \<Rightarrow> Price \<Rightarrow> 'e + (Price \<Rightarrow> bool)" and R
    using that by (simp add: add_symbol_def spec_class_def engine_new_def one_symbol_def)
  obtain ev em ea where e: "add_symbol vec_class s mn mx h p (engine_new rm) = Inr ev" "add_symbol map_class s mn mx h p (engine_new rm) = Inr em"
    "add_symbol arr_class s mn mx h p (engine_new rm) = Inr ea"
    "ve.sim 0 ev (one_symbol s (\<lambda>p. True) p rm False)" "me.sim 0 em (one_symbol s (\<lambda>p. True) p rm False)"
    "ae.sim 0 ea (one_symbol s (\<lambda>p. mn \<le> p \<and> p \<le> mx) p rm False)"
    using ve.add_symbol_sim [OF ve.new_sim assms(3), of s mn h p rm] me.add_symbol_sim [OF me.new_sim assms(3), of s mn h p rm]
      ae.add_symbol_sim [OF ae.new_sim assms(3), of s mn h p rm] assms(1,2)
    by (auto simp: spec any_price_def price_band_def)
  have "engine_set_trade_callback cb (one_symbol s R p rm False) = one_symbol s R p rm cb" for R
    by (simp add: engine_set_trade_callback_def one_symbol_def)
  with callback_sims(1) [OF e(4), of cb] callback_sims(2) [OF e(5), of cb] callback_sims(3) [OF e(6), of cb] show thesis
    using that e(1-3) by simp
qed

lemma one_symbol_widen [simp]: "widen (one_symbol s rng p rm cb) = one_symbol s (\<lambda>p. True) p rm cb"
  by (auto simp: widen_def one_symbol_def unband_def fun_eq_iff)

lemma one_symbol_banded: "band s = rng \<Longrightarrow> banded band (one_symbol s rng p rm cb)"
  by (auto simp: banded_def bands_def priced_engine_def one_symbol_def priced_empty split: if_splits)

end
