(* ===== verification/Lockfree_Queue.thy ===== *)
theory Lockfree_Queue
  imports LOB_Prelude
begin

text \<open>
  \<open>include/lightninglob/lockfree_queue.hpp\<close>: the single-producer, single-consumer ring buffer.

  The template parameter \<open>Capacity\<close> is the length of the buffer; the static assertions are the predicate
  \<open>ring_ok\<close>.  The operations are modelled twice: as uninterrupted calls (\<open>try_push\<close>, \<open>try_pop\<close>), shown
  to be the operations of a bounded FIFO queue (locale \<open>spsc_queue\<close>), and as the sequence of their atomic
  accesses (\<open>spsc_step\<close>), where a producer and a consumer interleave in every possible way under sequential
  consistency.  \<open>Ring_Memory\<close> replaces this memory by the one the code's memory orders ask for.
\<close>

section \<open>Model\<close>

record 'a SpscRingBuffer =
  rb_write_idx :: nat
  rb_read_idx :: nat
  rb_buffer :: "'a list"

abbreviation Capacity :: "'a SpscRingBuffer \<Rightarrow> nat" where
  "Capacity rb \<equiv> length (rb_buffer rb)"

definition kMask :: "'a SpscRingBuffer \<Rightarrow> nat" where
  "kMask rb = Capacity rb - 1"

definition ring_new :: "nat \<Rightarrow> 'a \<Rightarrow> 'a SpscRingBuffer" where
  "ring_new cap dflt = \<lparr>rb_write_idx = 0, rb_read_idx = 0, rb_buffer = replicate cap dflt\<rparr>"

definition try_push :: "'a \<Rightarrow> 'a SpscRingBuffer \<Rightarrow> (bool \<times> 'a SpscRingBuffer) option" where
  "try_push item rb = do {
     let write = rb_write_idx rb;
     let nxt = (write + 1) AND kMask rb;
     if nxt = rb_read_idx rb then Some (False, rb)
     else do {
       buf \<leftarrow> vset (rb_buffer rb) write item;
       Some (True, rb\<lparr>rb_buffer := buf, rb_write_idx := nxt\<rparr>) } }"

text \<open>The result of \<open>try_pop(T& out)\<close> and of \<open>try_pop()\<close>: the item taken, if any.\<close>

definition try_pop :: "'a SpscRingBuffer \<Rightarrow> ('a option \<times> 'a SpscRingBuffer) option" where
  "try_pop rb = do {
     let read = rb_read_idx rb;
     if read = rb_write_idx rb then Some (None, rb)
     else do {
       out \<leftarrow> vget (rb_buffer rb) read;
       Some (Some out, rb\<lparr>rb_read_idx := (read + 1) AND kMask rb\<rparr>) } }"

definition ring_empty :: "'a SpscRingBuffer \<Rightarrow> bool" where
  "ring_empty rb \<longleftrightarrow> rb_read_idx rb = rb_write_idx rb"

text \<open>The difference of two \<open>size_t\<close> wraps around.\<close>

definition size_approx :: "'a SpscRingBuffer \<Rightarrow> nat" where
  "size_approx rb = ((rb_write_idx rb + 2 ^ 64 - rb_read_idx rb) mod 2 ^ 64) AND kMask rb"

definition ring_capacity :: "'a SpscRingBuffer \<Rightarrow> nat" where
  "ring_capacity rb = Capacity rb - 1"

section \<open>The queue a ring holds\<close>

definition ring_ok :: "'a SpscRingBuffer \<Rightarrow> bool" where
  "ring_ok rb \<longleftrightarrow> (\<exists>k. 1 \<le> k \<and> k < 64 \<and> Capacity rb = 2 ^ k) \<and> rb_write_idx rb < Capacity rb \<and> rb_read_idx rb < Capacity rb"

text \<open>The items in the slots from \<open>i\<close> up to, not including, \<open>j\<close>.\<close>

definition between :: "'a list \<Rightarrow> nat \<Rightarrow> nat \<Rightarrow> 'a list" where
  "between buf i j = map (\<lambda>k. buf ! ((i + k) mod length buf)) [0..<cyc_dist (length buf) i j]"

definition items :: "'a SpscRingBuffer \<Rightarrow> 'a list" where
  "items rb = between (rb_buffer rb) (rb_read_idx rb) (rb_write_idx rb)"

lemma cyc_dist_mod: "i < n \<Longrightarrow> j < n \<Longrightarrow> (i + cyc_dist n i j) mod n = j"
  by (auto simp: cyc_dist_def)

lemma between_self [simp]: "between buf i i = []"
  by (simp add: between_def)

lemma between_Cons:
  assumes "i < length buf" "j < length buf" "i \<noteq> j"
  shows "between buf i j = buf ! i # between buf (cyc_next (length buf) i) j"
proof -
  let ?n = "length buf"
  have "(i + Suc k) mod ?n = (cyc_next ?n i + k) mod ?n" for k
  proof (cases "Suc i = ?n")
    case True
    then have "i + Suc k = k + ?n" by simp
    then have "(i + Suc k) mod ?n = k mod ?n" by (simp only: mod_add_self2)
    then show ?thesis using True by (simp add: cyc_next_def del: add_Suc_right)
  qed (simp add: cyc_next_def)
  then show ?thesis
    unfolding between_def cyc_dist_next_left [OF assms] upt_conv_Cons [OF zero_less_Suc] map_Suc_upt [symmetric]
    using assms(1) by (simp add: comp_def)
qed

lemma between_snoc:
  assumes "i < length buf" "j < length buf" "cyc_next (length buf) j \<noteq> i"
  shows "between buf i (cyc_next (length buf) j) = between buf i j @ [buf ! j]"
  unfolding between_def cyc_dist_next_right [OF assms] using cyc_dist_mod [OF assms(1,2)] by simp

lemma between_update:
  assumes "i < length buf" "j < length buf"
  shows "between (buf[j := x]) i j = between buf i j"
proof -
  have "(i + k) mod length buf \<noteq> j" if "k < cyc_dist (length buf) i j" for k
  proof (cases "i + k < length buf")
    case True
    then show ?thesis using assms that by (auto simp: cyc_dist_def split: if_splits)
  next
    case False
    moreover have "k < length buf" using that cyc_dist_less [OF assms] by linarith
    ultimately have "(i + k) mod length buf = i + k - length buf" "i + k - length buf < i"
      using assms(1) by (simp_all add: le_mod_geq)
    then show ?thesis using assms that False by (auto simp: cyc_dist_def split: if_splits)
  qed
  then have "buf[j := x] ! ((i + k) mod length buf) = buf ! ((i + k) mod length buf)" if "k < cyc_dist (length buf) i j" for k
    using that nth_list_update_neq by metis
  then show ?thesis by (simp add: between_def)
qed

lemma between_nil_iff: "i < length buf \<Longrightarrow> j < length buf \<Longrightarrow> between buf i j = [] \<longleftrightarrow> i = j"
  by (simp add: between_def)

lemma length_between [simp]: "length (between buf i j) = cyc_dist (length buf) i j"
  by (simp add: between_def)

lemma ring_step: "ring_ok rb \<Longrightarrow> i < Capacity rb \<Longrightarrow> (i + 1) AND kMask rb = cyc_next (Capacity rb) i"
  using cyc_next_and [of "Capacity rb" _ i] by (auto simp: ring_ok_def kMask_def)

lemma ring_okD: "ring_ok rb \<Longrightarrow> rb_write_idx rb < Capacity rb" "ring_ok rb \<Longrightarrow> rb_read_idx rb < Capacity rb" "ring_ok rb \<Longrightarrow> 0 < Capacity rb"
  by (auto simp: ring_ok_def)

lemma ring_full: "ring_ok rb \<Longrightarrow> cyc_next (Capacity rb) (rb_write_idx rb) = rb_read_idx rb \<longleftrightarrow> length (items rb) = ring_capacity rb"
  using ring_okD [of rb] by (auto simp: items_def ring_capacity_def cyc_dist_def cyc_next_def)

lemma try_push_items:
  assumes ok: "ring_ok rb"
  shows "\<exists>rb'. try_push x rb = Some (length (items rb) < ring_capacity rb, rb') \<and> ring_ok rb' \<and> ring_capacity rb' = ring_capacity rb
    \<and> items rb' = (if length (items rb) < ring_capacity rb then items rb @ [x] else items rb)"
proof -
  note D = ring_okD [OF ok] and full = ring_full [OF ok]
  let ?n = "Capacity rb" and ?w = "rb_write_idx rb" and ?r = "rb_read_idx rb"
  have le: "length (items rb) \<le> ring_capacity rb" using cyc_dist_less [OF D(2,1)] by (simp add: items_def ring_capacity_def)
  show ?thesis
  proof (cases "cyc_next ?n ?w = ?r")
    case True
    then show ?thesis using full ok ring_step [OF ok D(1)] by (simp add: try_push_def Let_def)
  next
    case False
    let ?rb = "rb\<lparr>rb_buffer := (rb_buffer rb)[?w := x], rb_write_idx := cyc_next ?n ?w\<rparr>"
    have "items ?rb = items rb @ [x]"
      using between_snoc [of ?r "(rb_buffer rb)[?w := x]" ?w] between_update [of ?r "rb_buffer rb" ?w x] False D by (simp add: items_def)
    moreover have "ring_ok ?rb" using ok D by (simp add: ring_ok_def)
    moreover have "length (items rb) < ring_capacity rb" using False full le by linarith
    ultimately show ?thesis
      using False ring_step [OF ok D(1)] D by (simp add: try_push_def Let_def ub_simps ring_capacity_def)
  qed
qed

lemma try_pop_items:
  assumes ok: "ring_ok rb"
  shows "\<exists>rb'. try_pop rb = Some (if items rb = [] then None else Some (hd (items rb)), rb') \<and> ring_ok rb'
    \<and> ring_capacity rb' = ring_capacity rb \<and> items rb' = tl (items rb)"
proof -
  note D = ring_okD [OF ok]
  let ?n = "Capacity rb" and ?w = "rb_write_idx rb" and ?r = "rb_read_idx rb"
  show ?thesis
  proof (cases "?r = ?w")
    case True
    then show ?thesis using ok by (simp add: try_pop_def items_def Let_def)
  next
    case False
    then have "items rb = rb_buffer rb ! ?r # between (rb_buffer rb) (cyc_next ?n ?r) ?w"
      using between_Cons D by (simp add: items_def)
    moreover have "ring_ok (rb\<lparr>rb_read_idx := cyc_next ?n ?r\<rparr>)" using ok D by (simp add: ring_ok_def)
    ultimately show ?thesis
      using False ring_step [OF ok D(2)] D by (simp add: try_pop_def Let_def ub_simps ring_capacity_def items_def)
  qed
qed

lemma ring_queries:
  assumes ok: "ring_ok rb"
  shows "ring_empty rb \<longleftrightarrow> items rb = []" "size_approx rb = length (items rb)" "length (items rb) \<le> ring_capacity rb"
proof -
  note D = ring_okD [OF ok]
  obtain k where k: "1 \<le> k" "k < 64" "Capacity rb = 2 ^ k" using ok by (auto simp: ring_ok_def)
  show "ring_empty rb \<longleftrightarrow> items rb = []" using D by (simp add: ring_empty_def items_def between_nil_iff)
  show "length (items rb) \<le> ring_capacity rb" using cyc_dist_less [OF D(2,1)]
    by (simp add: items_def ring_capacity_def)
  have dvd: "(2 :: nat) ^ k dvd 2 ^ 64" using k(2) by (intro le_imp_power_dvd) simp
  then have "size_approx rb = (rb_write_idx rb + 2 ^ 64 - rb_read_idx rb) mod 2 ^ k"
    using and_mask_mod [OF k(3)] k(3) by (simp only: size_approx_def kMask_def mod_mod_cancel)
  moreover have "(w + m - r) mod n = cyc_dist n r w" if mn: "n dvd m" "0 < m" "w < n" "r < n" for w m r n :: nat
  proof -
    obtain c where "m = n * c" using mn(1) by (elim dvdE)
    then obtain d where "m = n + n * d" using mn(2) by (cases c) auto
    then have "w + m - r = (w + n - r) + n * d" using mn(4) by simp
    then have "(w + m - r) mod n = (w + n - r) mod n" by simp
    also have "\<dots> = cyc_dist n r w" using mn(3,4) by (auto simp: cyc_dist_def mod_if)
    finally show ?thesis .
  qed
  note this [OF dvd _ D(1,2) [unfolded k(3)]]
  ultimately show "size_approx rb = length (items rb)" by (simp add: items_def k(3))
qed

section \<open>The contract of a bounded queue\<close>

text \<open>
  The calls of a client and what they return, and the reference they are measured against: a list of at most
  \<open>n\<close> items, which takes a push exactly while it is shorter than \<open>n\<close> and gives out its head exactly while it is
  not empty.
\<close>

datatype 'a queue_call = CallPush 'a | CallPop | CallEmpty | CallSize

datatype 'a queue_return = PushReturned bool | PopReturned "'a option" | EmptyReturned bool | SizeReturned nat

fun bounded_call :: "nat \<Rightarrow> 'a queue_call \<Rightarrow> 'a list \<Rightarrow> 'a queue_return \<times> 'a list" where
  "bounded_call n (CallPush x) xs = (if length xs < n then (PushReturned True, xs @ [x]) else (PushReturned False, xs))"
| "bounded_call n CallPop [] = (PopReturned None, [])"
| "bounded_call n CallPop (x # xs) = (PopReturned (Some x), xs)"
| "bounded_call n CallEmpty xs = (EmptyReturned (xs = []), xs)"
| "bounded_call n CallSize xs = (SizeReturned (length xs), xs)"

fun bounded_session :: "nat \<Rightarrow> 'a queue_call list \<Rightarrow> 'a list \<Rightarrow> 'a queue_return list \<times> 'a list" where
  "bounded_session n [] xs = ([], xs)"
| "bounded_session n (c # cs) xs =
     (let (r, xs) = bounded_call n c xs; (rs, xs) = bounded_session n cs xs in (r # rs, xs))"

locale spsc_queue =
  fixes ok :: "'q \<Rightarrow> bool" and contents :: "'q \<Rightarrow> 'a list" and room :: "'q \<Rightarrow> nat"
    and push :: "'a \<Rightarrow> 'q \<Rightarrow> (bool \<times> 'q) option" and pop :: "'q \<Rightarrow> ('a option \<times> 'q) option"
    and is_empty :: "'q \<Rightarrow> bool" and size_of :: "'q \<Rightarrow> nat"
  assumes push_law: "ok q \<Longrightarrow> \<exists>q'. push x q = Some (length (contents q) < room q, q') \<and> ok q' \<and> room q' = room q
      \<and> contents q' = (if length (contents q) < room q then contents q @ [x] else contents q)"
    and pop_law: "ok q \<Longrightarrow> \<exists>q'. pop q = Some (if contents q = [] then None else Some (hd (contents q)), q') \<and> ok q'
      \<and> room q' = room q \<and> contents q' = tl (contents q)"
    and empty_law: "ok q \<Longrightarrow> is_empty q \<longleftrightarrow> contents q = []"
    and size_law: "ok q \<Longrightarrow> size_of q = length (contents q)"
begin

fun call :: "'a queue_call \<Rightarrow> 'q \<Rightarrow> ('a queue_return \<times> 'q) option" where
  "call (CallPush x) q = do { (accepted, q) \<leftarrow> push x q; Some (PushReturned accepted, q) }"
| "call CallPop q = do { (out, q) \<leftarrow> pop q; Some (PopReturned out, q) }"
| "call CallEmpty q = Some (EmptyReturned (is_empty q), q)"
| "call CallSize q = Some (SizeReturned (size_of q), q)"

fun session :: "'a queue_call list \<Rightarrow> 'q \<Rightarrow> ('a queue_return list \<times> 'q) option" where
  "session [] q = Some ([], q)"
| "session (c # cs) q = do { (r, q) \<leftarrow> call c q; (rs, q) \<leftarrow> session cs q; Some (r # rs, q) }"

lemma call_refines:
  assumes "ok q"
  shows "\<exists>q'. call c q = Some (fst (bounded_call (room q) c (contents q)), q') \<and> ok q' \<and> room q' = room q
    \<and> contents q' = snd (bounded_call (room q) c (contents q))"
proof (cases c)
  case (CallPush x)
  then show ?thesis using push_law [OF assms, of x] by (auto split: if_splits)
next
  case CallPop
  then show ?thesis using pop_law [OF assms] by (cases "contents q") auto
qed (use assms empty_law size_law in auto)

theorem session_refines:
  assumes "ok q"
  shows "\<exists>q'. session cs q = Some (fst (bounded_session (room q) cs (contents q)), q') \<and> ok q' \<and> room q' = room q
    \<and> contents q' = snd (bounded_session (room q) cs (contents q))"
  using assms
proof (induction cs arbitrary: q)
  case Nil
  then show ?case by simp
next
  case (Cons c cs)
  obtain q1 where q1: "call c q = Some (fst (bounded_call (room q) c (contents q)), q1)" "ok q1" "room q1 = room q"
    "contents q1 = snd (bounded_call (room q) c (contents q))"
    using call_refines [OF Cons.prems] by blast
  then show ?case using Cons.IH [OF q1(2)] by (auto simp: case_prod_beta Let_def)
qed

end

interpretation ring: spsc_queue ring_ok items ring_capacity try_push try_pop ring_empty size_approx
  using try_push_items try_pop_items ring_queries by unfold_locales

lemma ring_new_ok:
  assumes "1 \<le> k" "k < 64"
  shows "ring_ok (ring_new (2 ^ k) d)" "items (ring_new (2 ^ k) d) = []" "ring_capacity (ring_new (2 ^ k) d) = 2 ^ k - 1"
  using assms by (auto simp: ring_ok_def ring_new_def items_def ring_capacity_def)

section \<open>Interleaved producer and consumer\<close>

text \<open>
  Where each thread is inside its call.  The producer loads its own index, then the consumer's index, then
  stores the item, then publishes its index; the consumer mirrors this.
\<close>

datatype 'a producer =
    P_idle
  | P_loaded 'a nat nat    \<comment> \<open>item, \<open>write\<close>, \<open>next\<close>: before the load of \<open>read_idx_\<close>\<close>
  | P_storing 'a nat nat   \<comment> \<open>not full: before the store into \<open>buffer_[write]\<close>\<close>
  | P_stored 'a nat nat    \<comment> \<open>before the release store of \<open>write_idx_\<close>\<close>

datatype 'a consumer =
    C_idle
  | C_loaded nat           \<comment> \<open>\<open>read\<close>: before the load of \<open>write_idx_\<close>\<close>
  | C_taking nat           \<comment> \<open>not empty: before the load from \<open>buffer_[read]\<close>\<close>
  | C_taken 'a nat         \<comment> \<open>before the release store of \<open>read_idx_\<close>\<close>

text \<open>The shared ring, both threads, and the history: items pushed and items popped, oldest first.\<close>

record 'a Spsc =
  sp_ring :: "'a SpscRingBuffer"
  sp_prod :: "'a producer"
  sp_cons :: "'a consumer"
  sp_pushed :: "'a list"
  sp_popped :: "'a list"

inductive spsc_step :: "'a Spsc \<Rightarrow> 'a Spsc \<Rightarrow> bool" where
  push_begin: "sp_prod s = P_idle \<Longrightarrow> write = rb_write_idx (sp_ring s) \<Longrightarrow>
    spsc_step s (s\<lparr>sp_prod := P_loaded x write ((write + 1) AND kMask (sp_ring s))\<rparr>)"
| push_full: "sp_prod s = P_loaded x write nxt \<Longrightarrow> nxt = rb_read_idx (sp_ring s) \<Longrightarrow> spsc_step s (s\<lparr>sp_prod := P_idle\<rparr>)"
| push_check: "sp_prod s = P_loaded x write nxt \<Longrightarrow> nxt \<noteq> rb_read_idx (sp_ring s) \<Longrightarrow>
    spsc_step s (s\<lparr>sp_prod := P_storing x write nxt\<rparr>)"
| push_store: "sp_prod s = P_storing x write nxt \<Longrightarrow> vset (rb_buffer (sp_ring s)) write x = Some buf \<Longrightarrow>
    spsc_step s (s\<lparr>sp_prod := P_stored x write nxt, sp_ring := (sp_ring s)\<lparr>rb_buffer := buf\<rparr>\<rparr>)"
| push_publish: "sp_prod s = P_stored x write nxt \<Longrightarrow>
    spsc_step s (s\<lparr>sp_prod := P_idle, sp_ring := (sp_ring s)\<lparr>rb_write_idx := nxt\<rparr>, sp_pushed := sp_pushed s @ [x]\<rparr>)"
| pop_begin: "sp_cons s = C_idle \<Longrightarrow> spsc_step s (s\<lparr>sp_cons := C_loaded (rb_read_idx (sp_ring s))\<rparr>)"
| pop_empty: "sp_cons s = C_loaded read \<Longrightarrow> read = rb_write_idx (sp_ring s) \<Longrightarrow> spsc_step s (s\<lparr>sp_cons := C_idle\<rparr>)"
| pop_check: "sp_cons s = C_loaded read \<Longrightarrow> read \<noteq> rb_write_idx (sp_ring s) \<Longrightarrow> spsc_step s (s\<lparr>sp_cons := C_taking read\<rparr>)"
| pop_take: "sp_cons s = C_taking read \<Longrightarrow> vget (rb_buffer (sp_ring s)) read = Some x \<Longrightarrow>
    spsc_step s (s\<lparr>sp_cons := C_taken x read\<rparr>)"
| pop_publish: "sp_cons s = C_taken x read \<Longrightarrow>
    spsc_step s (s\<lparr>sp_cons := C_idle, sp_ring := (sp_ring s)\<lparr>rb_read_idx := (read + 1) AND kMask (sp_ring s)\<rparr>,
      sp_popped := sp_popped s @ [x]\<rparr>)"

inductive spsc_reachable :: "'a SpscRingBuffer \<Rightarrow> 'a Spsc \<Rightarrow> bool" for rb where
  start: "spsc_reachable rb \<lparr>sp_ring = rb, sp_prod = P_idle, sp_cons = C_idle, sp_pushed = items rb, sp_popped = []\<rparr>"
| step: "spsc_reachable rb s \<Longrightarrow> spsc_step s t \<Longrightarrow> spsc_reachable rb t"

text \<open>What each thread knows of the shared ring at each point of its call.\<close>

definition not_full :: "'a SpscRingBuffer \<Rightarrow> bool" where
  "not_full rb \<longleftrightarrow> cyc_next (Capacity rb) (rb_write_idx rb) \<noteq> rb_read_idx rb"

fun prod_ok :: "'a producer \<Rightarrow> 'a SpscRingBuffer \<Rightarrow> bool" where
  "prod_ok P_idle rb = True"
| "prod_ok (P_loaded x write nxt) rb = (write = rb_write_idx rb \<and> nxt = cyc_next (Capacity rb) write)"
| "prod_ok (P_storing x write nxt) rb = (write = rb_write_idx rb \<and> nxt = cyc_next (Capacity rb) write \<and> not_full rb)"
| "prod_ok (P_stored x write nxt) rb = (write = rb_write_idx rb \<and> nxt = cyc_next (Capacity rb) write \<and> not_full rb
     \<and> rb_buffer rb ! write = x)"

fun cons_ok :: "'a consumer \<Rightarrow> 'a SpscRingBuffer \<Rightarrow> bool" where
  "cons_ok C_idle rb = True"
| "cons_ok (C_loaded read) rb = (read = rb_read_idx rb)"
| "cons_ok (C_taking read) rb = (read = rb_read_idx rb \<and> read \<noteq> rb_write_idx rb)"
| "cons_ok (C_taken x read) rb = (read = rb_read_idx rb \<and> read \<noteq> rb_write_idx rb \<and> rb_buffer rb ! read = x)"

definition spsc_inv :: "'a Spsc \<Rightarrow> bool" where
  "spsc_inv s \<longleftrightarrow> ring_ok (sp_ring s) \<and> prod_ok (sp_prod s) (sp_ring s) \<and> cons_ok (sp_cons s) (sp_ring s)
     \<and> sp_pushed s = sp_popped s @ items (sp_ring s)"

text \<open>The three accesses that change the ring.\<close>

lemma cyc_next_inj: "i < n \<Longrightarrow> j < n \<Longrightarrow> cyc_next n i = cyc_next n j \<Longrightarrow> i = j"
  by (auto simp: cyc_next_def split: if_splits)

lemma producer_store:
  assumes ok: "ring_ok rb" and p: "prod_ok (P_storing x w nxt) rb" and c: "cons_ok c rb"
  defines "rb' \<equiv> rb\<lparr>rb_buffer := (rb_buffer rb)[w := x]\<rparr>"
  shows "ring_ok rb'" "prod_ok (P_stored x w nxt) rb'" "cons_ok c rb'" "items rb' = items rb"
proof -
  note D = ring_okD [OF ok]
  show "ring_ok rb'" "prod_ok (P_stored x w nxt) rb'" "items rb' = items rb"
    using ok p D between_update [OF D(2,1), of x] by (simp_all add: rb'_def ring_ok_def not_full_def items_def)
  show "cons_ok c rb'" using c p by (cases c) (auto simp: rb'_def)
qed

lemma producer_publish:
  assumes ok: "ring_ok rb" and p: "prod_ok (P_stored x w nxt) rb" and c: "cons_ok c rb"
  defines "rb' \<equiv> rb\<lparr>rb_write_idx := nxt\<rparr>"
  shows "ring_ok rb'" "cons_ok c rb'" "items rb' = items rb @ [x]"
proof -
  note D = ring_okD [OF ok]
  show "ring_ok rb'" "items rb' = items rb @ [x]"
    using ok p D between_snoc [OF D(2,1)] by (auto simp: rb'_def ring_ok_def not_full_def items_def)
  show "cons_ok c rb'" using c p by (cases c) (auto simp: rb'_def not_full_def)
qed

lemma consumer_publish:
  assumes ok: "ring_ok rb" and p: "prod_ok p rb" and c: "cons_ok (C_taken x r) rb"
  defines "rb' \<equiv> rb\<lparr>rb_read_idx := (r + 1) AND kMask rb\<rparr>"
  shows "ring_ok rb'" "prod_ok p rb'" "items rb = x # items rb'"
proof -
  note D = ring_okD [OF ok]
  have r: "(r + 1) AND kMask rb = cyc_next (Capacity rb) (rb_read_idx rb)" "rb_read_idx rb \<noteq> rb_write_idx rb" "rb_buffer rb ! rb_read_idx rb = x"
    using ring_step [OF ok D(2)] c by auto
  show "ring_ok rb'" "items rb = x # items rb'"
    using ok D r between_Cons [OF D(2,1) r(2)] by (simp_all add: rb'_def ring_ok_def items_def)
  have "not_full rb'" if "not_full rb" using cyc_next_inj [OF D(1,2)] r unfolding rb'_def not_full_def by auto
  then show "prod_ok p rb'" using p by (cases p) (auto simp: rb'_def)
qed

lemma spsc_inv_step:
  assumes "spsc_step s t" "spsc_inv s"
  shows "spsc_inv t"
  using assms
proof (induction rule: spsc_step.induct)
  case (push_begin s wr x)
  then show ?case using ring_step ring_okD(1) by (auto simp: spsc_inv_def)
next
  case (push_store s x wr nxt buf)
  then show ?case
    using producer_store [of "sp_ring s" x wr nxt "sp_cons s"] by (simp add: spsc_inv_def vset_eq_Some_iff)
next
  case (push_publish s x wr nxt)
  then show ?case using producer_publish [of "sp_ring s" x wr nxt "sp_cons s"] by (auto simp: spsc_inv_def)
next
  case (pop_publish s x rd)
  then show ?case using consumer_publish [of "sp_ring s" "sp_prod s" x rd] by (auto simp: spsc_inv_def)
qed (auto simp: spsc_inv_def not_full_def vget_eq_Some_iff)

lemma spsc_reachable_inv:
  assumes "spsc_reachable rb s" "ring_ok rb"
  shows "spsc_inv s"
  using assms
proof (induction rule: spsc_reachable.induct)
  case start
  then show ?case by (simp add: spsc_inv_def)
next
  case (step s t)
  then show ?case by (blast intro: spsc_inv_step)
qed

text \<open>The slot the producer writes is never the slot the consumer reads.\<close>

lemma spsc_race_free:
  assumes "spsc_inv s" "sp_prod s = P_storing x w nxt" "sp_cons s = C_taking r"
  shows "w \<noteq> r"
  using assms by (auto simp: spsc_inv_def)

text \<open>No access ever gets stuck: every state in the middle of a call has a next step of that thread.\<close>

lemma spsc_progress:
  assumes "spsc_inv s"
  shows "\<exists>t. spsc_step s t \<and> sp_cons t = sp_cons s \<and> sp_prod t \<noteq> sp_prod s"
    "\<exists>t. spsc_step s t \<and> sp_prod t = sp_prod s \<and> sp_cons t \<noteq> sp_cons s"
proof -
  have D: "ring_ok (sp_ring s)" "prod_ok (sp_prod s) (sp_ring s)" "cons_ok (sp_cons s) (sp_ring s)" using assms by (auto simp: spsc_inv_def)
  note R = ring_okD [OF D(1)]
  show "\<exists>t. spsc_step s t \<and> sp_cons t = sp_cons s \<and> sp_prod t \<noteq> sp_prod s"
  proof (cases "sp_prod s")
    case P_idle
    then show ?thesis using spsc_step.push_begin [OF P_idle refl] by fastforce
  next
    case (P_loaded x w n)
    then show ?thesis using spsc_step.push_full [OF P_loaded] spsc_step.push_check [OF P_loaded] by fastforce
  next
    case (P_storing x w n)
    then show ?thesis using spsc_step.push_store [OF P_storing vset_Some] R(1) D(2) by fastforce
  next
    case (P_stored x w n)
    then show ?thesis using spsc_step.push_publish [OF P_stored] by fastforce
  qed
  show "\<exists>t. spsc_step s t \<and> sp_prod t = sp_prod s \<and> sp_cons t \<noteq> sp_cons s"
  proof (cases "sp_cons s")
    case C_idle
    then show ?thesis using spsc_step.pop_begin [OF C_idle] by fastforce
  next
    case (C_loaded r)
    then show ?thesis using spsc_step.pop_empty [OF C_loaded] spsc_step.pop_check [OF C_loaded] by fastforce
  next
    case (C_taking r)
    then show ?thesis using spsc_step.pop_take [OF C_taking vget_Some] R(2) D(3) by fastforce
  next
    case (C_taken x r)
    then show ?thesis using spsc_step.pop_publish [OF C_taken] by fastforce
  qed
qed

text \<open>A call that is not interrupted does what \<open>try_push\<close> and \<open>try_pop\<close> do.\<close>

lemma push_uninterrupted:
  assumes "ring_ok (sp_ring s)" "sp_prod s = P_idle" "try_push x (sp_ring s) = Some (ok, rb')"
  shows "spsc_step\<^sup>*\<^sup>* s (s\<lparr>sp_ring := rb', sp_pushed := (if ok then sp_pushed s @ [x] else sp_pushed s)\<rparr>)"
proof -
  let ?w = "rb_write_idx (sp_ring s)" and ?n = "(rb_write_idx (sp_ring s) + 1) AND kMask (sp_ring s)"
  let ?s1 = "s\<lparr>sp_prod := P_loaded x ?w ?n\<rparr>"
  have s1: "spsc_step s ?s1" by (rule spsc_step.push_begin [OF assms(2) refl])
  show ?thesis
  proof (cases "?n = rb_read_idx (sp_ring s)")
    case True
    then have "spsc_step ?s1 (s\<lparr>sp_prod := P_idle\<rparr>)" using spsc_step.push_full [of ?s1 x ?w ?n] by simp
    moreover have "s\<lparr>sp_prod := P_idle\<rparr> = s" using assms(2) by simp
    moreover have "\<not> ok" "rb' = sp_ring s" using True assms(3) by (simp_all add: try_push_def)
    ultimately show ?thesis by simp
  next
    case False
    let ?buf = "(rb_buffer (sp_ring s))[?w := x]"
    let ?s2 = "s\<lparr>sp_prod := P_storing x ?w ?n\<rparr>"
    let ?s3 = "s\<lparr>sp_prod := P_stored x ?w ?n, sp_ring := (sp_ring s)\<lparr>rb_buffer := ?buf\<rparr>\<rparr>"
    have "spsc_step ?s1 ?s2" using spsc_step.push_check [of ?s1 x ?w ?n] False by simp
    moreover have "spsc_step ?s2 ?s3"
      using spsc_step.push_store [of ?s2 x ?w ?n ?buf] ring_okD(1) [OF assms(1)] by (simp add: ub_simps)
    moreover have "spsc_step ?s3 (s\<lparr>sp_prod := P_idle, sp_ring := (sp_ring s)\<lparr>rb_buffer := ?buf, rb_write_idx := ?n\<rparr>, sp_pushed := sp_pushed s @ [x]\<rparr>)"
      using spsc_step.push_publish [of ?s3 x ?w ?n] by simp
    moreover have "ok" "rb' = (sp_ring s)\<lparr>rb_buffer := ?buf, rb_write_idx := ?n\<rparr>"
      using False assms(3) ring_okD(1) [OF assms(1)] by (auto simp: try_push_def ub_simps Let_def)
    moreover have "s\<lparr>sp_prod := P_idle, sp_ring := r, sp_pushed := q\<rparr> = s\<lparr>sp_ring := r, sp_pushed := q\<rparr>" for r q
      using assms(2) by (cases s) simp
    ultimately show ?thesis
      using s1 by simp
  qed
qed

section \<open>The queue's promises\<close>

text \<open>
  Calls on a ring, one after the other: \<open>try_push\<close>, \<open>try_pop\<close>, \<open>empty\<close> and \<open>size_approx\<close>.
\<close>

fun ring_call :: "'a queue_call \<Rightarrow> 'a SpscRingBuffer \<Rightarrow> ('a queue_return \<times> 'a SpscRingBuffer) option" where
  "ring_call (CallPush x) rb = do { (accepted, rb) \<leftarrow> try_push x rb; Some (PushReturned accepted, rb) }"
| "ring_call CallPop rb = do { (out, rb) \<leftarrow> try_pop rb; Some (PopReturned out, rb) }"
| "ring_call CallEmpty rb = Some (EmptyReturned (ring_empty rb), rb)"
| "ring_call CallSize rb = Some (SizeReturned (size_approx rb), rb)"

fun ring_session :: "'a queue_call list \<Rightarrow> 'a SpscRingBuffer \<Rightarrow> ('a queue_return list \<times> 'a SpscRingBuffer) option" where
  "ring_session [] rb = Some ([], rb)"
| "ring_session (c # cs) rb = do { (r, rb) \<leftarrow> ring_call c rb; (rs, rb) \<leftarrow> ring_session cs rb; Some (r # rs, rb) }"

lemma ring_session_locale: "ring_session cs rb = ring.session cs rb"
proof (induction cs arbitrary: rb)
  case (Cons c cs)
  have "ring_call c rb = ring.call c rb" by (cases c) simp_all
  then show ?case by (simp add: Cons.IH)
qed simp

text \<open>
  C23.  Used by one thread, a new ring of \<open>2 ^ k\<close> slots is a bounded queue of \<open>2 ^ k - 1\<close> items: in every session of
  pushes, pops and queries each call returns exactly what the reference list queue returns there (a push is
  accepted exactly while fewer than \<open>2 ^ k - 1\<close> items are in, a pop gives the oldest item exactly while there is
  one, \<open>empty\<close> and \<open>size_approx\<close> are exact), no access is out of bounds, and the ring is left with the
  reference's items.
\<close>

theorem ring_fifo:
  assumes "1 \<le> k" "k < 64"
  shows "\<exists>rb'. ring_session cs (ring_new (2 ^ k) dflt) = Some (fst (bounded_session (2 ^ k - 1) cs []), rb')
    \<and> items rb' = snd (bounded_session (2 ^ k - 1) cs []) \<and> ring_capacity rb' = 2 ^ k - 1"
  using ring.session_refines [OF ring_new_ok(1) [OF assms], of cs dflt]
  unfolding ring_session_locale ring_new_ok(2,3) [OF assms] by blast

text \<open>Three pushes fill four slots, the fourth is refused until a pop made room; the fifth pop finds the ring empty.\<close>

definition ring_demo :: "nat queue_call list" where
  "ring_demo = [CallPop, CallPush 1, CallPush 2, CallPush 3, CallPush 4, CallSize, CallPop, CallPush 5,
     CallPop, CallPop, CallPop, CallPop, CallEmpty, CallPush 6]"

theorem ring_fifo_witness:
  "\<exists>rb'. ring_session ring_demo (ring_new 4 0)
    = Some ([PopReturned None, PushReturned True, PushReturned True, PushReturned True, PushReturned False, SizeReturned 3,
        PopReturned (Some 1), PushReturned True, PopReturned (Some 2), PopReturned (Some 3), PopReturned (Some 5), PopReturned None,
        EmptyReturned True, PushReturned True], rb') \<and> items rb' = [6] \<and> ring_capacity rb' = 3"
proof -
  have "bounded_session 3 ring_demo [] = ([PopReturned None, PushReturned True, PushReturned True, PushReturned True, PushReturned False,
      SizeReturned 3, PopReturned (Some 1), PushReturned True, PopReturned (Some 2), PopReturned (Some 3), PopReturned (Some 5),
      PopReturned None, EmptyReturned True, PushReturned True], [6])"
    by (simp add: ring_demo_def)
  with ring_fifo [of 2 ring_demo 0] show ?thesis by simp
qed

text \<open>
  With one producer and one consumer interleaved at every load and store, nothing is lost, duplicated or
  reordered: the items published are those consumed followed by those in the ring, which never holds more than
  its capacity.
\<close>

theorem spsc_fifo:
  assumes "spsc_reachable rb s" "ring_ok rb"
  shows "sp_pushed s = sp_popped s @ items (sp_ring s) \<and> length (items (sp_ring s)) \<le> ring_capacity (sp_ring s)"
  using spsc_reachable_inv [OF assms] ring_queries(3) by (auto simp: spsc_inv_def)

definition spsc_demo :: "nat producer \<Rightarrow> nat consumer \<Rightarrow> nat \<Rightarrow> nat list \<Rightarrow> nat list \<Rightarrow> nat Spsc" where
  "spsc_demo p c write buf pushed = \<lparr>sp_ring = \<lparr>rb_write_idx = write, rb_read_idx = 0, rb_buffer = buf\<rparr>, sp_prod = p, sp_cons = c,
     sp_pushed = pushed, sp_popped = []\<rparr>"

lemma demo_ring: "ring_ok (ring_new 4 (0 :: nat))"
  using ring_new_ok(1) [of 2 "0 :: nat"] by simp

lemma step_to: "spsc_reachable rb s \<Longrightarrow> spsc_step s t' \<Longrightarrow> t' = t \<Longrightarrow> spsc_reachable rb t"
  by (auto intro: step)

lemma demo_mask: "Suc 0 AND Suc (Suc (Suc 0)) = Suc 0" "Suc (Suc 0) AND Suc (Suc (Suc 0)) = Suc (Suc 0)"
  by code_simp+

lemmas demo_step = spsc_demo_def kMask_def vset_def vget_def demo_mask

text \<open>A state in which the producer is about to store its second item while the consumer is about to read the first one.\<close>

lemma spsc_demo_reachable: "spsc_reachable (ring_new 4 0) (spsc_demo (P_storing 8 1 2) (C_taking 0) 1 [7, 0, 0, 0] [7])"
proof -
  let ?r = "spsc_reachable (ring_new 4 (0 :: nat))"
  have "?r (spsc_demo P_idle C_idle 0 [0, 0, 0, 0] [])"
    using start [of "ring_new 4 (0 :: nat)"] by (simp add: spsc_demo_def ring_new_def items_def numeral_eq_Suc)
  then have "?r (spsc_demo (P_loaded 7 0 1) C_idle 0 [0, 0, 0, 0] [])"
    by (rule step_to [OF _ push_begin [of _ 0 7]]) (simp_all add: demo_step)
  then have "?r (spsc_demo (P_storing 7 0 1) C_idle 0 [0, 0, 0, 0] [])"
    by (rule step_to [OF _ push_check]) (simp_all add: demo_step)
  then have "?r (spsc_demo (P_stored 7 0 1) C_idle 0 [7, 0, 0, 0] [])"
    by (rule step_to [OF _ push_store]) (simp_all add: demo_step)
  then have "?r (spsc_demo P_idle C_idle 1 [7, 0, 0, 0] [7])"
    by (rule step_to [OF _ push_publish]) (simp_all add: demo_step)
  then have "?r (spsc_demo (P_loaded 8 1 2) C_idle 1 [7, 0, 0, 0] [7])"
    by (rule step_to [OF _ push_begin [of _ 1 8]]) (simp_all add: demo_step)
  then have "?r (spsc_demo (P_storing 8 1 2) C_idle 1 [7, 0, 0, 0] [7])"
    by (rule step_to [OF _ push_check]) (simp_all add: demo_step)
  then have "?r (spsc_demo (P_storing 8 1 2) (C_loaded 0) 1 [7, 0, 0, 0] [7])"
    by (rule step_to [OF _ pop_begin]) (simp_all add: demo_step)
  then show ?thesis by (rule step_to [OF _ pop_check]) (simp_all add: demo_step)
qed

theorem spsc_fifo_witness:
  "items \<lparr>rb_write_idx = 1, rb_read_idx = 0, rb_buffer = [7, 0, 0, 0 :: nat]\<rparr> = [7]"
  using spsc_fifo [OF spsc_demo_reachable demo_ring] by (simp add: spsc_demo_def)

text \<open>
  The unsynchronised accesses to the buffer never collide: while the producer is about to store into a cell
  and the consumer is about to read one, the cells are different.
\<close>

theorem spsc_no_race:
  assumes "spsc_reachable rb s" "ring_ok rb" "sp_prod s = P_storing x w nxt" "sp_cons s = C_taking r"
  shows "w \<noteq> r \<and> w < Capacity (sp_ring s) \<and> r < Capacity (sp_ring s)"
proof -
  have inv: "spsc_inv s" using spsc_reachable_inv assms(1,2) by blast
  then show ?thesis using spsc_race_free [OF inv assms(3,4)] assms(3,4) by (auto simp: spsc_inv_def dest: ring_okD)
qed

theorem spsc_no_race_witness:
  "(1 :: nat) \<noteq> 0 \<and> 1 < Capacity (sp_ring (spsc_demo (P_storing 8 1 2) (C_taking 0) 1 [7, 0, 0, 0] [7]))"
  using spsc_no_race [OF spsc_demo_reachable demo_ring, of 8 1 2 0] by (simp add: spsc_demo_def)

text \<open>
  Neither side ever waits for the other: in every reachable state the producer can take its next step
  alone, and so can the consumer.
\<close>

theorem spsc_wait_free:
  assumes "spsc_reachable rb s" "ring_ok rb"
  shows "(\<exists>t. spsc_step s t \<and> sp_cons t = sp_cons s \<and> sp_prod t \<noteq> sp_prod s) \<and> (\<exists>t. spsc_step s t \<and> sp_prod t = sp_prod s \<and> sp_cons t \<noteq> sp_cons s)"
  using spsc_progress [OF spsc_reachable_inv [OF assms]] by blast

theorem spsc_wait_free_witness:
  "\<exists>t. spsc_step (spsc_demo (P_storing 8 1 2) (C_taking 0) 1 [7, 0, 0, 0] [7]) t \<and> sp_prod t \<noteq> P_storing 8 1 2 \<and> sp_cons t = C_taking 0"
  using spsc_wait_free [OF spsc_demo_reachable demo_ring] by (auto simp: spsc_demo_def)

end
