(* ===== verification/Order_Gateway.thy ===== *)
theory Order_Gateway
  imports Lockfree_Queue Core_Types
begin

text \<open>
  \<open>include/lightninglob/order_gateway.hpp\<close>: one ring per producer, swept round-robin by the matching thread.

  The handler of \<open>poll_once\<close> is an argument: a transformer of the client's state.  The lemmas relate the
  gateway to a list of request queues: \<open>submit\<close> appends to one of them, a sweep takes the head of every
  queue that has one, starting at the rotating lane, and enough sweeps drain every lane.
\<close>

section \<open>Model\<close>

record OrderGateway =
  gw_lanes :: "OrderRequest SpscRingBuffer list"
  gw_next_lane :: nat

definition gateway_new :: "nat \<Rightarrow> OrderRequest \<Rightarrow> nat \<Rightarrow> OrderGateway" where
  "gateway_new lane_capacity default_request num_producers =
     \<lparr>gw_lanes = replicate num_producers (ring_new lane_capacity default_request), gw_next_lane = 0\<rparr>"

definition lane_count :: "OrderGateway \<Rightarrow> nat" where
  "lane_count g = length (gw_lanes g)"

definition submit :: "nat \<Rightarrow> OrderRequest \<Rightarrow> OrderGateway \<Rightarrow> (bool \<times> OrderGateway) option" where
  "submit lane_index request g = do {
     lane \<leftarrow> vget (gw_lanes g) lane_index;
     (pushed, lane) \<leftarrow> try_push request lane;
     lanes \<leftarrow> vset (gw_lanes g) lane_index lane;
     Some (pushed, g\<lparr>gw_lanes := lanes\<rparr>) }"

definition all_lanes_empty :: "OrderGateway \<Rightarrow> bool" where
  "all_lanes_empty g \<longleftrightarrow> list_all ring_empty (gw_lanes g)"

text \<open>One iteration of the sweep: the lane, the requests drained so far and the handler's state.\<close>

definition poll_lane :: "(OrderRequest \<Rightarrow> 's \<Rightarrow> 's option) \<Rightarrow> nat \<Rightarrow> OrderRequest SpscRingBuffer list \<times> nat \<times> 's
    \<Rightarrow> (OrderRequest SpscRingBuffer list \<times> nat \<times> 's) option" where
  "poll_lane handler lane st = (case st of (lanes, drained, s) \<Rightarrow> do {
     ring \<leftarrow> vget lanes lane;
     (popped, ring) \<leftarrow> try_pop ring;
     lanes \<leftarrow> vset lanes lane ring;
     (case popped of
        None \<Rightarrow> Some (lanes, drained, s)
      | Some request \<Rightarrow> do {
          s \<leftarrow> handler request s;
          Some (lanes, drained + 1, s) }) })"

definition poll_once :: "(OrderRequest \<Rightarrow> 's \<Rightarrow> 's option) \<Rightarrow> OrderGateway \<Rightarrow> 's \<Rightarrow> (nat \<times> OrderGateway \<times> 's) option" where
  "poll_once handler g s = do {
     let n = length (gw_lanes g);
     (lanes, drained, s) \<leftarrow> foldM (\<lambda>i. poll_lane handler ((gw_next_lane g + i) mod n)) [0..<n] (gw_lanes g, 0, s);
     let nxt = (if n > 0 then (gw_next_lane g + 1) mod n else gw_next_lane g);
     Some (drained, g\<lparr>gw_lanes := lanes, gw_next_lane := nxt\<rparr>, s) }"

fun poll_times :: "(OrderRequest \<Rightarrow> 's \<Rightarrow> 's option) \<Rightarrow> nat \<Rightarrow> OrderGateway \<Rightarrow> 's \<Rightarrow> (OrderGateway \<times> 's) option" where
  "poll_times handler 0 g s = Some (g, s)"
| "poll_times handler (Suc k) g s = do {
     (_, g, s) \<leftarrow> poll_once handler g s;
     poll_times handler k g s }"

section \<open>The queues of a gateway\<close>

definition gateway_ok :: "OrderGateway \<Rightarrow> bool" where
  "gateway_ok g \<longleftrightarrow> list_all ring_ok (gw_lanes g) \<and> (gw_lanes g \<noteq> [] \<longrightarrow> gw_next_lane g < length (gw_lanes g))"

definition queues :: "OrderGateway \<Rightarrow> OrderRequest list list" where
  "queues g = map items (gw_lanes g)"

text \<open>The lanes in the order of a sweep, and the requests it takes.\<close>

definition sweep :: "OrderGateway \<Rightarrow> nat list" where
  "sweep g = map (\<lambda>i. (gw_next_lane g + i) mod lane_count g) [0..<lane_count g]"

definition heads :: "OrderRequest list list \<Rightarrow> nat list \<Rightarrow> OrderRequest list" where
  "heads qs lanes = map hd (filter (\<lambda>q. q \<noteq> []) (map ((!) qs) lanes))"

lemma foldM_map: "foldM f (map g xs) s = foldM (\<lambda>x. f (g x)) xs s"
  by (induction xs arbitrary: s) (auto intro!: Option.bind_cong)

lemma submit_queue:
  assumes "gateway_ok g" "i < lane_count g"
  defines "lane \<equiv> gw_lanes g ! i"
  shows "\<exists>g'. submit i r g = Some (length (queues g ! i) < ring_capacity lane, g') \<and> gateway_ok g' \<and> lane_count g' = lane_count g
    \<and> queues g' = (if length (queues g ! i) < ring_capacity lane then (queues g)[i := queues g ! i @ [r]] else queues g)"
proof -
  have i: "i < length (gw_lanes g)" using assms(2) by (simp add: lane_count_def)
  then have "ring_ok lane" using assms(1) by (simp add: lane_def gateway_ok_def list_all_length)
  from ring.push_law [OF this, of r] obtain ring where r: "try_push r lane = Some (length (items lane) < ring_capacity lane, ring)" "ring_ok ring"
    "items ring = (if length (items lane) < ring_capacity lane then items lane @ [r] else items lane)"
    by blast
  have "gateway_ok (g\<lparr>gw_lanes := (gw_lanes g)[i := ring]\<rparr>)"
    using assms(1) i r(2) by (auto simp: gateway_ok_def list_all_length nth_list_update)
  moreover have "queues (g\<lparr>gw_lanes := (gw_lanes g)[i := ring]\<rparr>) = (queues g)[i := items ring]"
    by (simp add: queues_def map_update)
  moreover have "submit i r g = Some (length (items lane) < ring_capacity lane, g\<lparr>gw_lanes := (gw_lanes g)[i := ring]\<rparr>)"
    using i r(1) by (simp add: submit_def ub_simps lane_def)
  moreover have q: "queues g ! i = items lane" using i by (simp add: queues_def lane_def)
  moreover have "(queues g)[i := items lane] = queues g" using q by (metis list_update_id)
  ultimately show ?thesis using r(3) by (simp add: lane_count_def)
qed

lemma poll_lane_step:
  assumes "list_all ring_ok lanes" "i < length lanes"
  obtains ring where "ring_ok ring" "items ring = tl (items (lanes ! i))"
    "\<forall>(handler :: OrderRequest \<Rightarrow> 's \<Rightarrow> 's option) d s. poll_lane handler i (lanes, d, s) =
      (if items (lanes ! i) = [] then Some (lanes[i := ring], d, s)
       else do { s \<leftarrow> handler (hd (items (lanes ! i))) s; Some (lanes[i := ring], d + 1, s) })"
proof -
  have "ring_ok (lanes ! i)" using assms by (simp add: list_all_length)
  from ring.pop_law [OF this] obtain ring where "try_pop (lanes ! i) = Some (if items (lanes ! i) = [] then None else Some (hd (items (lanes ! i))), ring)"
    "ring_ok ring" "items ring = tl (items (lanes ! i))"
    by blast
  then show thesis using that assms(2) by (simp add: poll_lane_def ub_simps)
qed

lemma heads_simps [simp]: "heads qs [] = []"
    "heads qs (i # xs) = (if qs ! i = [] then heads qs xs else hd (qs ! i) # heads qs xs)"
  by (simp_all add: heads_def)

text \<open>Polling distinct lanes hands their heads to the handler, in that order.\<close>

lemma poll_lanes:
  assumes "list_all ring_ok lanes" "distinct xs" "\<forall>i \<in> set xs. i < length lanes"
  shows "\<exists>lanes'. list_all ring_ok lanes' \<and> length lanes' = length lanes
    \<and> (\<forall>i < length lanes. items (lanes' ! i) = (if i \<in> set xs then tl (items (lanes ! i)) else items (lanes ! i)))
    \<and> (\<forall>(handler :: OrderRequest \<Rightarrow> 's \<Rightarrow> 's option) d s. foldM (poll_lane handler) xs (lanes, d, s) =
        do { s' \<leftarrow> foldM handler (heads (map items lanes) xs) s; Some (lanes', d + length (heads (map items lanes) xs), s') })"
  using assms
proof (induction xs arbitrary: lanes)
  case Nil
  then show ?case by (auto simp: heads_def)
next
  case (Cons i xs)
  have i: "i < length lanes" "i \<notin> set xs" using Cons.prems by auto
  obtain ring where r: "ring_ok ring" "items ring = tl (items (lanes ! i))"
    "\<forall>(handler :: OrderRequest \<Rightarrow> 's \<Rightarrow> 's option) d s. poll_lane handler i (lanes, d, s) =
      (if items (lanes ! i) = [] then Some (lanes[i := ring], d, s)
       else do { s \<leftarrow> handler (hd (items (lanes ! i))) s; Some (lanes[i := ring], d + 1, s) })"
    by (rule poll_lane_step [OF Cons.prems(1) i(1)])
  let ?l = "lanes[i := ring]"
  have ok: "list_all ring_ok ?l" using Cons.prems(1) r(1) i(1) by (auto simp: list_all_length nth_list_update)
  obtain lanes' where L: "list_all ring_ok lanes'" "length lanes' = length ?l"
    "\<forall>j < length ?l. items (lanes' ! j) = (if j \<in> set xs then tl (items (?l ! j)) else items (?l ! j))"
    "\<forall>(handler :: OrderRequest \<Rightarrow> 's \<Rightarrow> 's option) d s. foldM (poll_lane handler) xs (?l, d, s) =
        do { s' \<leftarrow> foldM handler (heads (map items ?l) xs) s; Some (lanes', d + length (heads (map items ?l) xs), s') }"
    using Cons.IH [OF ok] Cons.prems(2,3) by auto
  have same: "heads (map items ?l) xs = heads (map items lanes) xs"
    using i(2) Cons.prems(3) unfolding heads_def map_update by (metis (mono_tags, lifting) map_eq_conv nth_list_update_neq)
  have "foldM (poll_lane handler) (i # xs) (lanes, d, s) =
      do { s' \<leftarrow> foldM handler (heads (map items lanes) (i # xs)) s; Some (lanes', d + length (heads (map items lanes) (i # xs)), s') }"
    for handler :: "OrderRequest \<Rightarrow> 's \<Rightarrow> 's option" and d s
    using L(4) same i(1) by (cases "items (lanes ! i) = []") (simp_all add: r(3))
  then show ?case using L(1-3) i r(2) by (intro exI [of _ lanes']) (auto simp: nth_list_update)
qed

lemma sweep_lanes: "distinct (sweep g)" "set (sweep g) = {..<lane_count g}"
proof -
  let ?n = "lane_count g" and ?f = "\<lambda>i. (gw_next_lane g + i) mod lane_count g"
  have inj: "inj_on ?f {0..<?n}"
  proof (rule linorder_inj_onI)
    fix i j assume ij: "i < j" "i \<in> {0..<?n}" "j \<in> {0..<?n}"
    show "?f i \<noteq> ?f j"
    proof
      assume "?f i = ?f j"
      then have "?n dvd (gw_next_lane g + j) - (gw_next_lane g + i)" using ij(1) by (intro mod_eq_dvd_iff_nat [THEN iffD1]) simp_all
      then show False using ij by (auto dest: dvd_imp_le)
    qed
  qed auto
  show "distinct (sweep g)" using inj by (simp add: sweep_def distinct_map)
  have "?f ` {0..<?n} = {..<?n}"
    by (rule card_subset_eq) (use inj in \<open>auto simp: card_image\<close>)
  then show "set (sweep g) = {..<lane_count g}" by (simp add: sweep_def)
qed

lemma poll_once_queues:
  assumes ok: "gateway_ok g"
  shows "\<exists>g'. gateway_ok g' \<and> lane_count g' = lane_count g \<and> queues g' = map tl (queues g)
    \<and> (gw_lanes g \<noteq> [] \<longrightarrow> gw_next_lane g' = (gw_next_lane g + 1) mod lane_count g)
    \<and> (\<forall>(handler :: OrderRequest \<Rightarrow> 's \<Rightarrow> 's option) s. poll_once handler g s =
        do { s' \<leftarrow> foldM handler (heads (queues g) (sweep g)) s; Some (length (heads (queues g) (sweep g)), g', s') })"
proof -
  obtain lanes where L: "list_all ring_ok lanes" "length lanes = length (gw_lanes g)"
    "\<forall>i < length (gw_lanes g). items (lanes ! i) = tl (items (gw_lanes g ! i))"
    "\<forall>(handler :: OrderRequest \<Rightarrow> 's \<Rightarrow> 's option) d s. foldM (poll_lane handler) (sweep g) (gw_lanes g, d, s) =
        do { s' \<leftarrow> foldM handler (heads (queues g) (sweep g)) s; Some (lanes, d + length (heads (queues g) (sweep g)), s') }"
    using poll_lanes [of "gw_lanes g" "sweep g"] ok sweep_lanes [of g] by (auto simp: gateway_ok_def lane_count_def queues_def)
  let ?nxt = "if gw_lanes g \<noteq> [] then (gw_next_lane g + 1) mod lane_count g else gw_next_lane g"
  let ?g = "g\<lparr>gw_lanes := lanes, gw_next_lane := ?nxt\<rparr>"
  have "poll_once handler g s =
      do { s' \<leftarrow> foldM handler (heads (queues g) (sweep g)) s; Some (length (heads (queues g) (sweep g)), ?g, s') }"
    for handler :: "OrderRequest \<Rightarrow> 's \<Rightarrow> 's option" and s
  proof -
    have "foldM (\<lambda>i. poll_lane handler ((gw_next_lane g + i) mod length (gw_lanes g))) [0..<length (gw_lanes g)] (gw_lanes g, 0, s) =
        do { s' \<leftarrow> foldM handler (heads (queues g) (sweep g)) s; Some (lanes, length (heads (queues g) (sweep g)), s') }"
      using L(4) by (simp add: sweep_def foldM_map lane_count_def)
    then show ?thesis by (simp add: poll_once_def Let_def lane_count_def)
  qed
  moreover have "gateway_ok ?g" using L(1,2) by (auto simp: gateway_ok_def lane_count_def)
  moreover have "queues ?g = map tl (queues g)" using L(2,3) by (auto simp: queues_def intro!: nth_equalityI)
  ultimately show ?thesis using L(2) by (intro exI [of _ ?g]) (auto simp: lane_count_def)
qed

section \<open>Draining\<close>

lemma all_lanes_empty_queues: "gateway_ok g \<Longrightarrow> all_lanes_empty g \<longleftrightarrow> (\<forall>q \<in> set (queues g). q = [])"
  using ring_queries(1) by (auto simp: all_lanes_empty_def gateway_ok_def list_all_iff queues_def)

lemma foldM_total: "(\<And>x s. f x s \<noteq> None) \<Longrightarrow> \<exists>s'. foldM f xs s = Some s'"
proof (induction xs arbitrary: s)
  case (Cons x xs)
  obtain s1 where "f x s = Some s1" using Cons.prems [of x s] by blast
  then show ?case using Cons.IH [OF Cons.prems, of s1] by simp
qed simp

text \<open>A sweep with a given handler.\<close>

lemma poll_once_sweep:
  assumes "gateway_ok g"
  obtains g' where "gateway_ok g'" "queues g' = map tl (queues g)"
    "\<forall>s. poll_once handler g s = do { s' \<leftarrow> foldM handler (heads (queues g) (sweep g)) s; Some (length (heads (queues g) (sweep g)), g', s') }"
proof -
  from poll_once_queues [OF assms, where 's = 'a] obtain g' where "gateway_ok g'" "queues g' = map tl (queues g)"
    "\<forall>(handler :: OrderRequest \<Rightarrow> 'a \<Rightarrow> 'a option) s. poll_once handler g s =
        do { s' \<leftarrow> foldM handler (heads (queues g) (sweep g)) s; Some (length (heads (queues g) (sweep g)), g', s') }"
    by blast
  then show thesis using that by blast
qed

lemma poll_times_queues:
  assumes "gateway_ok g" "\<And>r s. handler r s \<noteq> None"
  shows "\<exists>g' s'. poll_times handler k g s = Some (g', s') \<and> gateway_ok g' \<and> queues g' = map (drop k) (queues g)"
  using assms(1)
proof (induction k arbitrary: g s)
  case 0
  then show ?case by simp
next
  case (Suc k)
  obtain g1 where g1: "gateway_ok g1" "queues g1 = map tl (queues g)"
    "\<forall>s. poll_once handler g s = do { s' \<leftarrow> foldM handler (heads (queues g) (sweep g)) s; Some (length (heads (queues g) (sweep g)), g1, s') }"
    by (rule poll_once_sweep [OF Suc.prems])
  obtain s1 where "foldM handler (heads (queues g) (sweep g)) s = Some s1" using foldM_total [of handler] assms(2) by blast
  moreover obtain g' s' where "poll_times handler k g1 s1 = Some (g', s')" "gateway_ok g'" "queues g' = map (drop k) (queues g1)"
    using Suc.IH [OF g1(1)] by blast
  ultimately show ?case using g1(2,3) by (simp add: drop_Suc comp_def)
qed

lemma heads_mset:
  assumes "distinct xs" "set xs = {..<length qs}"
  shows "mset (heads qs xs) + mset (concat (map tl qs)) = mset (concat qs)"
proof -
  have "mset xs = mset [0..<length qs]" using assms by (metis atLeast_upt distinct_upt set_eq_iff_mset_eq_distinct)
  then have "mset (map ((!) qs) xs) = mset (map ((!) qs) [0..<length qs])" by (metis mset_map)
  then have "mset (heads qs xs) = mset (map hd (filter (\<lambda>q. q \<noteq> []) qs))"
    unfolding heads_def map_nth by (metis mset_filter mset_map)
  moreover have "mset (map hd (filter (\<lambda>q. q \<noteq> []) qs)) + mset (concat (map tl qs)) = mset (concat qs)"
  proof (induction qs)
    case (Cons q qs)
    then show ?case by (cases q) simp_all
  qed simp
  ultimately show ?thesis by simp
qed

lemma foldM_collect: "foldM (\<lambda>r s. Some (s @ [r])) xs log = Some (log @ xs)"
  by (induction xs arbitrary: log) simp_all

text \<open>Nothing is lost or handled twice: what was handled and what still waits is what was submitted.\<close>

lemma poll_times_conserves:
  assumes "gateway_ok g" "poll_times (\<lambda>r s. Some (s @ [r])) k g log = Some (g', log')"
  shows "mset log' + mset (concat (queues g')) = mset log + mset (concat (queues g))"
  using assms
proof (induction k arbitrary: g log)
  case 0
  then show ?case by simp
next
  case (Suc k)
  obtain g1 where g1: "gateway_ok g1" "queues g1 = map tl (queues g)"
    "\<forall>s. poll_once (\<lambda>r s. Some (s @ [r])) g s = do { s' \<leftarrow> foldM (\<lambda>r s. Some (s @ [r])) (heads (queues g) (sweep g)) s;
      Some (length (heads (queues g) (sweep g)), g1, s') }"
    by (rule poll_once_sweep [OF Suc.prems(1)])
  then have "poll_times (\<lambda>r s. Some (s @ [r])) k g1 (log @ heads (queues g) (sweep g)) = Some (g', log')"
    using Suc.prems(2) by (simp add: foldM_collect)
  from Suc.IH [OF g1(1) this] have "mset log' + mset (concat (queues g')) =
      mset log + (mset (heads (queues g) (sweep g)) + mset (concat (map tl (queues g))))" using g1(2) by simp
  then show ?case using heads_mset [OF sweep_lanes(1), of g "queues g"] sweep_lanes(2) [of g] by (simp add: queues_def lane_count_def)
qed

lemma gateway_new_ok:
  assumes "1 \<le> k" "k < 64"
  shows "gateway_ok (gateway_new (2 ^ k) d n)" "queues (gateway_new (2 ^ k) d n) = replicate n []"
  using ring_new_ok [OF assms, where 'a = OrderRequest] by (auto simp: gateway_ok_def gateway_new_def queues_def list_all_iff)

section \<open>The gateway's promises\<close>

text \<open>
  One poll serves every lane once: the handler gets the oldest request of each non-empty lane, lanes taken in
  rotation from the current one, the count returned is the number of requests handled, and the rotation starts one
  lane further next time.
\<close>

theorem gateway_poll_sweeps:
  assumes "gateway_ok g" "foldM handler (heads (queues g) (sweep g)) s = Some s'"
  shows "\<exists>g'. poll_once handler g s = Some (length (heads (queues g) (sweep g)), g', s') \<and> gateway_ok g'
    \<and> queues g' = map tl (queues g) \<and> (gw_lanes g \<noteq> [] \<longrightarrow> gw_next_lane g' = (gw_next_lane g + 1) mod lane_count g)"
proof -
  obtain g' where g': "gateway_ok g'" "queues g' = map tl (queues g)" "gw_lanes g \<noteq> [] \<longrightarrow> gw_next_lane g' = (gw_next_lane g + 1) mod lane_count g"
      "\<forall>h (s :: 'a). poll_once h g s = do { s' \<leftarrow> foldM h (heads (queues g) (sweep g)) s; Some (length (heads (queues g) (sweep g)), g', s') }"
    using poll_once_queues [OF assms(1), where 's = 'a] by blast
  then show ?thesis using assms(2) by auto
qed

definition sample_request :: "OrderId \<Rightarrow> OrderRequest" where
  "sample_request i = \<lparr>req_client_order_id = i, req_symbol = 1, req_participant_id = 0, req_side = Buy, req_type = Limit,
     req_price = 100, req_quantity = 5, req_time_in_force = GTC\<rparr>"

lemma sample_gateway:
  obtains g where "gateway_ok g" "queues g = [[], [sample_request 1], []]" "lane_count g = 3"
proof -
  let ?g = "gateway_new (2 ^ 2) (sample_request 0) 3"
  have ok: "gateway_ok ?g" "queues ?g = replicate 3 []" by (rule gateway_new_ok; simp)+
  have "lane_count ?g = 3" "ring_capacity (gw_lanes ?g ! 1) = 3"
    by (simp_all add: lane_count_def gateway_new_def ring_capacity_def ring_new_def numeral_3_eq_3)
  then show thesis using submit_queue [OF ok(1), of 1 "sample_request 1"] ok(2) that by (auto simp: numeral_3_eq_3)
qed

theorem gateway_poll_sweeps_witness:
  "\<exists>g g'. queues g = [[], [sample_request 1], []] \<and> poll_once (\<lambda>r s. Some (s @ [r])) g [] = Some (1, g', [sample_request 1])
    \<and> queues g' = [[], [], []]"
proof -
  obtain g where g: "gateway_ok g" "queues g = [[], [sample_request 1], []]" "lane_count g = 3" using sample_gateway .
  have "mset (heads (queues g) (sweep g)) + mset (concat (map tl (queues g))) = mset (concat (queues g))"
    using heads_mset [OF sweep_lanes(1), of g "queues g"] sweep_lanes(2) [of g] g(2,3) by (simp add: numeral_3_eq_3)
  then have "heads (queues g) (sweep g) = [sample_request 1]" using g(2) by simp
  then show ?thesis
    using gateway_poll_sweeps [OF g(1), of "\<lambda>r s. Some (s @ [r])" "[]" "[sample_request 1]"] g(2) by auto
qed

text \<open>
  Polling drains the gateway: after as many polls as the longest lane holds requests every lane is empty, and
  every request submitted was handled exactly once.
\<close>

theorem gateway_drains:
  assumes "gateway_ok g" "\<forall>q \<in> set (queues g). length q \<le> k"
  shows "\<exists>g' handled. poll_times (\<lambda>r s. Some (s @ [r])) k g [] = Some (g', handled) \<and> all_lanes_empty g'
    \<and> mset handled = mset (concat (queues g))"
proof -
  obtain g' handled where run: "poll_times (\<lambda>r s. Some (s @ [r])) k g [] = Some (g', handled)" "gateway_ok g'" "queues g' = map (drop k) (queues g)"
    using poll_times_queues [OF assms(1), of "\<lambda>r s. Some (s @ [r])" k "[]"] by auto
  have empty: "\<forall>q \<in> set (queues g'). q = []" using run(3) assms(2) by auto
  have none: "concat (queues g') = []" unfolding concat_eq_Nil_conv by (rule empty)
  show ?thesis
    using run(1) all_lanes_empty_queues [OF run(2)] empty poll_times_conserves [OF assms(1) run(1), unfolded none] by simp
qed

theorem gateway_drains_witness:
  "\<exists>g g'. queues g = [[], [sample_request 1], []] \<and> poll_times (\<lambda>r s. Some (s @ [r])) 1 g [] = Some (g', [sample_request 1]) \<and> all_lanes_empty g'"
proof -
  obtain g where g: "gateway_ok g" "queues g = [[], [sample_request 1], []]" "lane_count g = 3" using sample_gateway .
  then show ?thesis using gateway_drains [OF g(1), of 1] by auto
qed

end
