(* ===== verification/Matching_Loop.thy ===== *)
theory Matching_Loop
  imports Order_Gateway
begin

text \<open>
  The threads of \<open>run_multithreaded_demo\<close> (\<open>src/main.cpp\<close>): producers that push their requests through the
  gateway, and the matching thread that polls it until every producer has finished and every lane is empty.

  A step is one access to what the threads share: a \<open>submit\<close> (successful, or answered with a full lane), the
  decrement or the load of \<open>producers_remaining\<close>, the test of one lane for emptiness, or the pop of one lane
  together with the handler's call, which touches nothing shared.  The theorems hold for every interleaving of
  these steps: nothing is lost or reordered, no thread is ever stuck, and under every fair schedule the
  matching thread leaves its loop.
\<close>

section \<open>Model\<close>

datatype demo_producer = Submitting "OrderRequest list" | Finished

datatype matcher = Loop_Test | Scanning nat | Sweeping nat nat | Loop_Exited

datatype actor = Producer nat | Matcher

text \<open>\<open>d_log\<close> is not part of the program: it remembers which request of which lane was handled, in order.\<close>

record 's Demo =
  d_producers :: "demo_producer list"
  d_remaining :: int
  d_gateway :: OrderGateway
  d_matcher :: matcher
  d_processed :: u64
  d_state :: 's
  d_log :: "(nat \<times> OrderRequest) list"

definition demo_start :: "OrderGateway \<Rightarrow> OrderRequest list list \<Rightarrow> 's \<Rightarrow> 's Demo" where
  "demo_start g plan s = \<lparr>d_producers = map Submitting plan, d_remaining = int (length plan), d_gateway = g,
     d_matcher = Loop_Test, d_processed = 0, d_state = s, d_log = []\<rparr>"

definition recorded :: "(OrderRequest \<Rightarrow> 's \<Rightarrow> 's option) \<Rightarrow> nat \<Rightarrow> OrderRequest \<Rightarrow> 's \<times> (nat \<times> OrderRequest) list
    \<Rightarrow> ('s \<times> (nat \<times> OrderRequest) list) option" where
  "recorded handler lane request st = (case st of (s, log) \<Rightarrow> do { s \<leftarrow> handler request s; Some (s, log @ [(lane, request)]) })"

definition lane_at :: "nat \<Rightarrow> OrderGateway \<Rightarrow> nat" where
  "lane_at i g = (gw_next_lane g + i) mod lane_count g"

text \<open>The last statement of \<open>poll_once\<close>: the next sweep starts one lane further.\<close>

definition rotate_lane :: "OrderGateway \<Rightarrow> OrderGateway" where
  "rotate_lane g = (if lane_count g > 0 then g\<lparr>gw_next_lane := (gw_next_lane g + 1) mod lane_count g\<rparr> else g)"

inductive mt_step :: "(OrderRequest \<Rightarrow> 's \<Rightarrow> 's option) \<Rightarrow> actor \<Rightarrow> 's Demo \<Rightarrow> 's Demo \<Rightarrow> bool" for handler where
  submitted: "p < length (d_producers d) \<Longrightarrow> d_producers d ! p = Submitting (r # rs) \<Longrightarrow> submit p r (d_gateway d) = Some (True, g) \<Longrightarrow>
    mt_step handler (Producer p) d (d\<lparr>d_producers := (d_producers d)[p := Submitting rs], d_gateway := g\<rparr>)"
| backpressure: "p < length (d_producers d) \<Longrightarrow> d_producers d ! p = Submitting (r # rs) \<Longrightarrow> submit p r (d_gateway d) = Some (False, g) \<Longrightarrow>
    mt_step handler (Producer p) d (d\<lparr>d_gateway := g\<rparr>)"
| finished: "p < length (d_producers d) \<Longrightarrow> d_producers d ! p = Submitting [] \<Longrightarrow>
    mt_step handler (Producer p) d (d\<lparr>d_producers := (d_producers d)[p := Finished], d_remaining := d_remaining d - 1\<rparr>)"
| busy: "d_matcher d = Loop_Test \<Longrightarrow> d_remaining d > 0 \<Longrightarrow> mt_step handler Matcher d (d\<lparr>d_matcher := Sweeping 0 0\<rparr>)"
| idle: "d_matcher d = Loop_Test \<Longrightarrow> \<not> d_remaining d > 0 \<Longrightarrow> mt_step handler Matcher d (d\<lparr>d_matcher := Scanning 0\<rparr>)"
| lane_empty: "d_matcher d = Scanning k \<Longrightarrow> k < lane_count (d_gateway d) \<Longrightarrow> ring_empty (gw_lanes (d_gateway d) ! k) \<Longrightarrow>
    mt_step handler Matcher d (d\<lparr>d_matcher := Scanning (Suc k)\<rparr>)"
| lane_busy: "d_matcher d = Scanning k \<Longrightarrow> k < lane_count (d_gateway d) \<Longrightarrow> \<not> ring_empty (gw_lanes (d_gateway d) ! k) \<Longrightarrow>
    mt_step handler Matcher d (d\<lparr>d_matcher := Sweeping 0 0\<rparr>)"
| exit: "d_matcher d = Scanning k \<Longrightarrow> \<not> k < lane_count (d_gateway d) \<Longrightarrow> mt_step handler Matcher d (d\<lparr>d_matcher := Loop_Exited\<rparr>)"
| polled: "d_matcher d = Sweeping i drained \<Longrightarrow> i < lane_count (d_gateway d) \<Longrightarrow>
    poll_lane (recorded handler (lane_at i (d_gateway d))) (lane_at i (d_gateway d)) (gw_lanes (d_gateway d), drained, (d_state d, d_log d))
      = Some (lanes, drained', (s, log)) \<Longrightarrow>
    mt_step handler Matcher d (d\<lparr>d_gateway := (d_gateway d)\<lparr>gw_lanes := lanes\<rparr>, d_matcher := Sweeping (Suc i) drained',
      d_state := s, d_log := log\<rparr>)"
| swept: "d_matcher d = Sweeping i drained \<Longrightarrow> \<not> i < lane_count (d_gateway d) \<Longrightarrow>
    mt_step handler Matcher d (d\<lparr>d_gateway := rotate_lane (d_gateway d), d_matcher := Loop_Test,
      d_processed := d_processed d + of_nat drained\<rparr>)"

inductive_cases producer_stepE: "mt_step handler (Producer p) d d'"
inductive_cases matcher_stepE: "mt_step handler Matcher d d'"

inductive mt_reach :: "(OrderRequest \<Rightarrow> 's \<Rightarrow> 's option) \<Rightarrow> 's Demo \<Rightarrow> 's Demo \<Rightarrow> bool" for handler d0 where
  start: "mt_reach handler d0 d0"
| step: "mt_reach handler d0 d \<Longrightarrow> mt_step handler a d d' \<Longrightarrow> mt_reach handler d0 d'"

definition todo :: "demo_producer \<Rightarrow> OrderRequest list" where
  "todo P = (case P of Submitting rs \<Rightarrow> rs | Finished \<Rightarrow> [])"

definition unfinished :: "demo_producer list \<Rightarrow> nat" where
  "unfinished Ps = length (filter (\<lambda>P. P \<noteq> Finished) Ps)"

text \<open>The requests of one lane among those handled.\<close>

definition lane_log :: "nat \<Rightarrow> (nat \<times> OrderRequest) list \<Rightarrow> OrderRequest list" where
  "lane_log p log = map snd (filter (\<lambda>e. fst e = p) log)"

fun matcher_ok :: "matcher \<Rightarrow> int \<Rightarrow> OrderRequest list list \<Rightarrow> bool" where
  "matcher_ok Loop_Test rem qs = True"
| "matcher_ok (Sweeping i drained) rem qs = (i \<le> length qs)"
| "matcher_ok (Scanning k) rem qs = (k \<le> length qs \<and> rem = 0 \<and> (\<forall>l < k. qs ! l = []))"
| "matcher_ok Loop_Exited rem qs = (rem = 0 \<and> (\<forall>l < length qs. qs ! l = []))"

fun pending :: "matcher \<Rightarrow> nat" where
  "pending (Sweeping i drained) = drained"
| "pending _ = 0"

definition loop_inv :: "(OrderRequest \<Rightarrow> 's \<Rightarrow> 's option) \<Rightarrow> OrderRequest list list \<Rightarrow> 's \<Rightarrow> 's Demo \<Rightarrow> bool" where
  "loop_inv handler plan s0 d \<longleftrightarrow> gateway_ok (d_gateway d) \<and> length (queues (d_gateway d)) = length plan
     \<and> length (d_producers d) = length plan
     \<and> (\<forall>p < length plan. plan ! p = lane_log p (d_log d) @ queues (d_gateway d) ! p @ todo (d_producers d ! p))
     \<and> d_remaining d = int (unfinished (d_producers d))
     \<and> (\<forall>e \<in> set (d_log d). fst e < length plan)
     \<and> foldM handler (map snd (d_log d)) s0 = Some (d_state d)
     \<and> d_processed d + of_nat (pending (d_matcher d)) = of_nat (length (d_log d))
     \<and> matcher_ok (d_matcher d) (d_remaining d) (queues (d_gateway d))"

section \<open>Every interleaving keeps the accounts\<close>

lemma todo_simps [simp]: "todo (Submitting rs) = rs" "todo Finished = []"
  by (simp_all add: todo_def)

lemma lane_log_append [simp]: "lane_log p (log @ [(l, r)]) = lane_log p log @ (if l = p then [r] else [])"
  by (simp add: lane_log_def)

lemma lane_log_other [simp]: "lane_log p [] = []"
  by (simp add: lane_log_def)

lemma length_queues: "length (queues g) = lane_count g"
  by (simp add: queues_def lane_count_def)

lemma queue_nth: "l < lane_count g \<Longrightarrow> queues g ! l = items (gw_lanes g ! l)"
  by (simp add: queues_def lane_count_def)

lemma ring_empty_queue:
  assumes "gateway_ok g" "l < lane_count g"
  shows "ring_empty (gw_lanes g ! l) \<longleftrightarrow> queues g ! l = []"
  using assms ring_queries(1) [of "gw_lanes g ! l"] by (simp add: queue_nth gateway_ok_def list_all_length lane_count_def)

lemma lane_at_less: "0 < lane_count g \<Longrightarrow> lane_at i g < lane_count g"
  by (simp add: lane_at_def)

lemma rotate_lane_ok [simp]:
  "gateway_ok g \<Longrightarrow> gateway_ok (rotate_lane g)" "queues (rotate_lane g) = queues g" "lane_count (rotate_lane g) = lane_count g"
  by (auto simp: rotate_lane_def gateway_ok_def queues_def lane_count_def)

lemma unfinished_update:
  assumes "p < length Ps"
  shows "unfinished (Ps[p := P]) + (if Ps ! p = Finished then 0 else 1) = unfinished Ps + (if P = Finished then 0 else 1)"
  using assms
proof (induction Ps arbitrary: p)
  case (Cons Q Ps)
  show ?case
  proof (cases p)
    case (Suc k)
    then show ?thesis using Cons.IH [of k] Cons.prems by (auto simp: unfinished_def split: if_splits)
  qed (simp add: unfinished_def)
qed simp

lemma unfinished_0: "unfinished Ps = 0 \<longleftrightarrow> (\<forall>P \<in> set Ps. P = Finished)"
  by (auto simp: unfinished_def filter_empty_conv)

text \<open>One poll of a lane with the recording handler: nothing when the lane is empty, its head otherwise.\<close>

lemma poll_lane_recorded:
  assumes ok: "gateway_ok g" and l: "l < lane_count g"
  obtains lanes where "gateway_ok (g\<lparr>gw_lanes := lanes\<rparr>)" "queues (g\<lparr>gw_lanes := lanes\<rparr>) = (queues g)[l := tl (queues g ! l)]"
    "\<forall>k s log. poll_lane (recorded handler l) l (gw_lanes g, k, (s, log)) =
      (if queues g ! l = [] then Some (lanes, k, (s, log))
       else do { s \<leftarrow> handler (hd (queues g ! l)) s; Some (lanes, k + 1, (s, log @ [(l, hd (queues g ! l))])) })"
proof -
  have rings: "list_all ring_ok (gw_lanes g)" and i: "l < length (gw_lanes g)" using ok l by (simp_all add: gateway_ok_def lane_count_def)
  obtain ring where r: "ring_ok ring" "items ring = tl (items (gw_lanes g ! l))"
    "\<forall>(h :: OrderRequest \<Rightarrow> 'a \<times> (nat \<times> OrderRequest) list \<Rightarrow> _) d s. poll_lane h l (gw_lanes g, d, s) =
      (if items (gw_lanes g ! l) = [] then Some ((gw_lanes g)[l := ring], d, s)
       else do { s \<leftarrow> h (hd (items (gw_lanes g ! l))) s; Some ((gw_lanes g)[l := ring], d + 1, s) })"
    by (rule poll_lane_step [OF rings i])
  show thesis
  proof (rule that [of "(gw_lanes g)[l := ring]"])
    show "gateway_ok (g\<lparr>gw_lanes := (gw_lanes g)[l := ring]\<rparr>)"
      using ok r(1) i by (auto simp: gateway_ok_def list_all_length nth_list_update)
    show "queues (g\<lparr>gw_lanes := (gw_lanes g)[l := ring]\<rparr>) = (queues g)[l := tl (queues g ! l)]"
      using r(2) i by (simp add: queues_def map_update)
  qed (simp add: r(3) queue_nth [OF l] recorded_def)
qed

lemma submitted_inv:
  assumes inv: "loop_inv handler plan s0 d" and p: "p < length (d_producers d)" "d_producers d ! p = Submitting (r # rs)"
    and sub: "submit p r (d_gateway d) = Some (True, g)"
  shows "loop_inv handler plan s0 (d\<lparr>d_producers := (d_producers d)[p := Submitting rs], d_gateway := g\<rparr>)"
proof -
  let ?q = "queues (d_gateway d)"
  have gw: "gateway_ok (d_gateway d)" "p < lane_count (d_gateway d)" "p < length plan"
    using inv p by (simp_all add: loop_inv_def length_queues)
  from submit_queue [OF gw(1,2), of r] sub
  have g: "gateway_ok g" "queues g = ?q[p := ?q ! p @ [r]]" by (auto split: if_splits)
  have busy: "unfinished (d_producers d) \<noteq> 0" using p nth_mem [OF p(1)] by (auto simp: unfinished_0)
  then have "matcher_ok (d_matcher d) (d_remaining d) (queues g)"
    using inv g(2) by (cases "d_matcher d") (simp_all add: loop_inv_def)
  moreover have "unfinished ((d_producers d)[p := Submitting rs]) = unfinished (d_producers d)"
    using unfinished_update [OF p(1), of "Submitting rs"] p(2) by simp
  ultimately show ?thesis using p inv g by (auto simp: loop_inv_def nth_list_update)
qed

lemma polled_inv:
  assumes inv: "loop_inv handler plan s0 d" and i: "d_matcher d = Sweeping i drained" "i < lane_count (d_gateway d)"
    and poll: "poll_lane (recorded handler (lane_at i (d_gateway d))) (lane_at i (d_gateway d)) (gw_lanes (d_gateway d), drained, (d_state d, d_log d))
      = Some (lanes, drained', (s, log))"
  shows "loop_inv handler plan s0 (d\<lparr>d_gateway := (d_gateway d)\<lparr>gw_lanes := lanes\<rparr>, d_matcher := Sweeping (Suc i) drained',
      d_state := s, d_log := log\<rparr>)"
proof -
  let ?g = "d_gateway d" and ?q = "queues (d_gateway d)" and ?l = "lane_at i (d_gateway d)"
  have ok: "gateway_ok ?g" "?l < lane_count ?g" using i(2) inv by (simp_all add: loop_inv_def lane_at_less)
  obtain lanes0 where L: "gateway_ok (?g\<lparr>gw_lanes := lanes0\<rparr>)" "queues (?g\<lparr>gw_lanes := lanes0\<rparr>) = ?q[?l := tl (?q ! ?l)]"
    "\<forall>k s log. poll_lane (recorded handler ?l) ?l (gw_lanes ?g, k, (s, log)) =
      (if ?q ! ?l = [] then Some (lanes0, k, (s, log))
       else do { s \<leftarrow> handler (hd (?q ! ?l)) s; Some (lanes0, k + 1, (s, log @ [(?l, hd (?q ! ?l))])) })"
    by (rule poll_lane_recorded [OF ok])
  show ?thesis
  proof (cases "?q ! ?l")
    case Nil
    then have "lanes = lanes0" "drained' = drained" "s = d_state d" "log = d_log d" "?q[?l := tl (?q ! ?l)] = ?q"
      using poll L(3) list_update_id [of ?q ?l] by auto
    then show ?thesis using inv i L(1,2) by (auto simp: loop_inv_def length_queues)
  next
    case (Cons r rs)
    then have e: "lanes = lanes0" "drained' = drained + 1" "log = d_log d @ [(?l, r)]" "handler r (d_state d) = Some s"
      using poll L(3) by (auto simp: bind_eq_Some_conv)
    have "foldM handler (map snd log) s0 = Some s" using inv e(3,4) by (simp add: loop_inv_def foldM_append)
    moreover have "d_processed d + of_nat drained' = of_nat (length log)"
      using i(1) inv e(2,3) by (simp add: loop_inv_def algebra_simps)
    ultimately show ?thesis
      using inv i L(1,2) e(1,3) Cons ok(2) by (auto simp: loop_inv_def length_queues nth_list_update)
  qed
qed

lemma finished_inv:
  assumes inv: "loop_inv handler plan s0 d" and p: "p < length (d_producers d)" "d_producers d ! p = Submitting []"
  shows "loop_inv handler plan s0 (d\<lparr>d_producers := (d_producers d)[p := Finished], d_remaining := d_remaining d - 1\<rparr>)"
proof -
  have "Suc (unfinished ((d_producers d)[p := Finished])) = unfinished (d_producers d)"
    using unfinished_update [OF p(1), of Finished] p(2) by simp
  then have n: "int (unfinished ((d_producers d)[p := Finished])) = d_remaining d - 1" "0 < d_remaining d"
    using inv by (auto simp: loop_inv_def)
  have "matcher_ok (d_matcher d) (d_remaining d - 1) (queues (d_gateway d))"
    using inv n(2) by (cases "d_matcher d") (simp_all add: loop_inv_def)
  then show ?thesis using inv p n(1) by (auto simp: loop_inv_def nth_list_update)
qed

lemma mt_step_inv:
  assumes "mt_step handler a d d'" "loop_inv handler plan s0 d"
  shows "loop_inv handler plan s0 d'"
  using assms
proof (induction rule: mt_step.induct)
  case (submitted p d r rs g)
  show ?case by (rule submitted_inv [OF submitted(4,1-3)])
next
  case (backpressure p d r rs g)
  have "gateway_ok g" "queues g = queues (d_gateway d)"
    using submit_queue [of "d_gateway d" p r] backpressure by (auto simp: loop_inv_def length_queues split: if_splits)
  then show ?case using backpressure(4) by (auto simp: loop_inv_def)
next
  case (finished p d)
  show ?case by (rule finished_inv [OF finished(3,1,2)])
next
  case (polled d i drained lanes drained' s log)
  show ?case by (rule polled_inv [OF polled(4,1-3)])
next
  case (swept d i drained)
  then show ?case by (simp add: loop_inv_def)
next
  case (lane_empty d k)
  then show ?case using ring_empty_queue [of "d_gateway d" k] by (auto simp: loop_inv_def length_queues less_Suc_eq)
qed (auto simp: loop_inv_def length_queues)

lemma start_inv:
  assumes "gateway_ok g" "queues g = replicate (length plan) []"
  shows "loop_inv handler plan s0 (demo_start g plan s0)"
  using assms by (simp add: loop_inv_def demo_start_def unfinished_def)

lemma mt_reach_inv:
  assumes "mt_reach handler d0 d" "loop_inv handler plan s0 d0"
  shows "loop_inv handler plan s0 d"
  using assms by (induction rule: mt_reach.induct) (auto intro: mt_step_inv)

section \<open>Work\<close>

text \<open>What is left to do: two accesses for each request not yet submitted, one for each that waits, one for each running producer.\<close>

definition work :: "'s Demo \<Rightarrow> nat" where
  "work d = 2 * length (concat (map todo (d_producers d))) + length (concat (queues (d_gateway d))) + unfinished (d_producers d)"

lemma length_concat_update:
  "p < length xss \<Longrightarrow> length (concat (xss[p := ys])) + length (xss ! p) = length (concat xss) + length ys"
proof (induction xss arbitrary: p)
  case (Cons xs xss)
  show ?case
  proof (cases p)
    case (Suc k)
    then show ?thesis using Cons.IH [of k] Cons.prems by simp
  qed simp
qed simp

lemma todo_update:
  assumes "p < length Ps"
  shows "length (concat (map todo (Ps[p := P]))) + length (todo (Ps ! p)) = length (concat (map todo Ps)) + length (todo P)"
  using length_concat_update [of p "map todo Ps" "todo P"] assms by (simp add: map_update)

text \<open>A step either gets work done or leaves the requests and the producers as they are.\<close>

definition same_work :: "'s Demo \<Rightarrow> 's Demo \<Rightarrow> bool" where
  "same_work d d' \<longleftrightarrow> d_producers d' = d_producers d \<and> queues (d_gateway d') = queues (d_gateway d)"

lemma same_work_work: "same_work d d' \<Longrightarrow> work d' = work d"
  by (simp add: same_work_def work_def)

lemma mt_step_work:
  assumes "mt_step handler a d d'" "loop_inv handler plan s0 d"
  shows "work d' < work d \<or> same_work d d'"
  using assms
proof (induction rule: mt_step.induct)
  case (submitted p d r rs g)
  let ?q = "queues (d_gateway d)"
  have inv: "gateway_ok (d_gateway d)" "p < lane_count (d_gateway d)"
    using submitted by (simp_all add: loop_inv_def length_queues)
  from submit_queue [OF inv, of r] submitted(3) have g: "queues g = ?q[p := ?q ! p @ [r]]" by (auto split: if_splits)
  have "length (concat (queues g)) = length (concat ?q) + 1"
    using length_concat_update [of p ?q "?q ! p @ [r]"] inv(2) g by (simp add: length_queues)
  moreover have "length (concat (map todo ((d_producers d)[p := Submitting rs]))) + 1 = length (concat (map todo (d_producers d)))"
    using todo_update [OF submitted(1), of "Submitting rs"] submitted(2) by simp
  moreover have "unfinished ((d_producers d)[p := Submitting rs]) = unfinished (d_producers d)"
    using unfinished_update [OF submitted(1), of "Submitting rs"] submitted(2) by simp
  ultimately show ?case by (simp add: work_def)
next
  case (backpressure p d r rs g)
  then show ?case using submit_queue [of "d_gateway d" p r] by (auto simp: same_work_def loop_inv_def length_queues split: if_splits)
next
  case (finished p d)
  then show ?case using todo_update [OF finished(1), of Finished] unfinished_update [OF finished(1), of Finished] by (simp add: work_def)
next
  case (polled d i drained lanes drained' s log)
  let ?g = "d_gateway d" and ?q = "queues (d_gateway d)" and ?l = "lane_at i (d_gateway d)"
  have ok: "gateway_ok ?g" "?l < lane_count ?g" using polled(2,4) by (simp_all add: loop_inv_def lane_at_less)
  obtain lanes0 where L: "queues (?g\<lparr>gw_lanes := lanes0\<rparr>) = ?q[?l := tl (?q ! ?l)]"
    "\<forall>k s log. poll_lane (recorded handler ?l) ?l (gw_lanes ?g, k, (s, log)) =
      (if ?q ! ?l = [] then Some (lanes0, k, (s, log))
       else do { s \<leftarrow> handler (hd (?q ! ?l)) s; Some (lanes0, k + 1, (s, log @ [(?l, hd (?q ! ?l))])) })"
    by (rule poll_lane_recorded [OF ok])
  have "lanes = lanes0" using polled(3) L(2) by (auto simp: bind_eq_Some_conv split: if_splits)
  then show ?case
    using L(1) length_concat_update [of ?l ?q "tl (?q ! ?l)"] ok(2) list_update_id [of ?q ?l]
    by (cases "?q ! ?l") (auto simp: same_work_def work_def length_queues)
qed (simp_all add: same_work_def)

section \<open>How much has been handled\<close>

lemma length_concat_sum: "length (concat xss) = (\<Sum>p < length xss. length (xss ! p))"
  by (simp add: length_concat sum_list_sum_nth atLeast0LessThan)

lemma length_lane_logs:
  assumes "\<forall>e \<in> set log. fst e < n"
  shows "(\<Sum>p < n. length (lane_log p log)) = length log"
  using assms
proof (induction log)
  case (Cons e log)
  have "length (lane_log p (e # log)) = (if p = fst e then 1 else 0) + length (lane_log p log)" for p
    by (simp add: lane_log_def)
  then show ?case using Cons by (simp add: sum.distrib)
qed simp

lemma inv_log:
  assumes "loop_inv handler plan s0 d"
  shows "length (d_log d) + length (concat (queues (d_gateway d))) + length (concat (map todo (d_producers d))) = length (concat plan)"
    "set (map snd (d_log d)) \<subseteq> set (concat plan)"
proof -
  let ?n = "length plan" and ?q = "queues (d_gateway d)"
  have split: "plan ! p = lane_log p (d_log d) @ ?q ! p @ todo (d_producers d ! p)" if "p < ?n" for p
    using assms that by (simp add: loop_inv_def)
  have lens: "length ?q = ?n" "length (d_producers d) = ?n" using assms by (simp_all add: loop_inv_def)
  have "length (concat plan) = (\<Sum>p < ?n. length (lane_log p (d_log d)) + length (?q ! p) + length (todo (d_producers d ! p)))"
    unfolding length_concat_sum using arg_cong [OF split, of _ length] by (intro sum.cong) simp_all
  then show "length (d_log d) + length (concat ?q) + length (concat (map todo (d_producers d))) = length (concat plan)"
    using length_lane_logs [of "d_log d" ?n] assms by (simp add: loop_inv_def sum.distrib length_concat_sum lens)
  show "set (map snd (d_log d)) \<subseteq> set (concat plan)"
  proof
    fix r assume "r \<in> set (map snd (d_log d))"
    then obtain p where p: "(p, r) \<in> set (d_log d)" by auto
    then have less: "p < ?n" using assms by (auto simp: loop_inv_def)
    have "r \<in> set (lane_log p (d_log d))" using p by (auto simp: lane_log_def image_iff)
    then have "r \<in> set (plan ! p)" using split [OF less] by simp
    then show "r \<in> set (concat plan)" using nth_mem [OF less] by auto
  qed
qed

section \<open>How far the matching thread is\<close>

text \<open>
  \<open>seek l\<close> bounds the steps the matching thread takes before it pops the non-empty lane \<open>l\<close>, \<open>leave\<close> the
  steps it takes to leave the loop when there is nothing left to do.
\<close>

definition sweep_pos :: "nat \<Rightarrow> OrderGateway \<Rightarrow> nat" where
  "sweep_pos l g = (l + lane_count g - gw_next_lane g) mod lane_count g"

fun seek_from :: "nat \<Rightarrow> nat \<Rightarrow> matcher \<Rightarrow> nat" where
  "seek_from n pos (Sweeping i drained) = (if i \<le> pos then pos - i else 2 * n + 3 + (n - i))"
| "seek_from n pos Loop_Test = 2 * n + 2"
| "seek_from n pos (Scanning k) = n + 1 + (n - k)"
| "seek_from n pos Loop_Exited = 0"

definition seek :: "nat \<Rightarrow> 's Demo \<Rightarrow> nat" where
  "seek l d = seek_from (lane_count (d_gateway d)) (sweep_pos l (d_gateway d)) (d_matcher d)"

fun leave_from :: "nat \<Rightarrow> matcher \<Rightarrow> nat" where
  "leave_from n (Sweeping i drained) = n + 3 + (n - i)"
| "leave_from n Loop_Test = n + 2"
| "leave_from n (Scanning k) = 1 + (n - k)"
| "leave_from n Loop_Exited = 0"

definition leave :: "'s Demo \<Rightarrow> nat" where
  "leave d = leave_from (lane_count (d_gateway d)) (d_matcher d)"

lemma submit_keeps: "submit p r g = Some (ok, g') \<Longrightarrow> gw_next_lane g' = gw_next_lane g \<and> lane_count g' = lane_count g"
  by (auto simp: submit_def lane_count_def bind_eq_Some_conv vset_def split: if_splits)

lemma poll_lane_length: "poll_lane h l (lanes, k, st) = Some (lanes', k', st') \<Longrightarrow> length lanes' = length lanes"
  by (auto simp: poll_lane_def bind_eq_Some_conv vset_def split: if_splits option.splits)

lemma producer_keeps:
  assumes "mt_step handler (Producer p) d d'"
  shows "seek l d' = seek l d" "leave d' = leave d"
  using assms by (auto elim!: producer_stepE simp: seek_def leave_def sweep_pos_def dest: submit_keeps)

lemma sweep_pos:
  assumes "gateway_ok g" "l < lane_count g"
  shows "sweep_pos l g < lane_count g" "lane_at (sweep_pos l g) g = l"
proof -
  have "gw_next_lane g < lane_count g" using assms by (auto simp: gateway_ok_def lane_count_def)
  then show "lane_at (sweep_pos l g) g = l" using assms(2) by (simp add: lane_at_def sweep_pos_def mod_add_right_eq)
qed (use assms(2) in \<open>simp add: sweep_pos_def\<close>)

lemma matcher_seeks:
  assumes step: "mt_step handler Matcher d d'" and inv: "loop_inv handler plan s0 d" and same: "same_work d d'"
    and l: "l < lane_count (d_gateway d)" "queues (d_gateway d) ! l \<noteq> []"
  shows "seek l d' < seek l d"
proof -
  let ?g = "d_gateway d"
  have ok: "gateway_ok ?g" using inv by (simp add: loop_inv_def)
  note pos = sweep_pos [OF ok l(1)]
  show ?thesis
    using step
  proof cases
    case (exit k)
    then have "queues ?g ! l = []" using inv l(1) by (simp add: loop_inv_def length_queues)
    then show ?thesis using l(2) by simp
  next
    case (polled i drained lanes drained' s log)
    have i: "i \<noteq> sweep_pos l ?g"
    proof
      assume i: "i = sweep_pos l ?g"
      obtain lanes0 where L: "queues (?g\<lparr>gw_lanes := lanes0\<rparr>) = (queues ?g)[l := tl (queues ?g ! l)]"
        "\<forall>k s log. poll_lane (recorded handler l) l (gw_lanes ?g, k, (s, log)) =
          (if queues ?g ! l = [] then Some (lanes0, k, (s, log))
           else do { s \<leftarrow> handler (hd (queues ?g ! l)) s; Some (lanes0, k + 1, (s, log @ [(l, hd (queues ?g ! l))])) })"
        by (rule poll_lane_recorded [OF ok l(1)])
      have "lanes = lanes0" using polled(4) L(2) i pos(2) by (auto simp: bind_eq_Some_conv split: if_splits)
      then have "(queues ?g)[l := tl (queues ?g ! l)] ! l = queues ?g ! l" using same L(1) polled(1) by (simp add: same_work_def)
      then show False using l by (simp add: length_queues) (metis list.collapse not_Cons_self2)
    qed
    have "lane_count (?g\<lparr>gw_lanes := lanes\<rparr>) = lane_count ?g" using poll_lane_length [OF polled(4)] by (simp add: lane_count_def)
    then show ?thesis using polled(1-3) i by (auto simp: seek_def sweep_pos_def)
  qed (use pos(1) in \<open>auto simp: seek_def\<close>)
qed

lemma matcher_leaves:
  assumes step: "mt_step handler Matcher d d'" and inv: "loop_inv handler plan s0 d"
    and idle: "d_remaining d = 0" "\<forall>l < lane_count (d_gateway d). queues (d_gateway d) ! l = []"
  shows "leave d' < leave d"
  using step
proof cases
  case (lane_busy k)
  then show ?thesis using ring_empty_queue [of "d_gateway d" k] inv idle(2) by (simp add: loop_inv_def)
next
  case (polled i drained lanes drained' s log)
  then show ?thesis using poll_lane_length [OF polled(4)] by (simp add: leave_def lane_count_def)
qed (use idle(1) in \<open>auto simp: leave_def\<close>)

section \<open>Fair schedules\<close>

text \<open>An actor that is scheduled takes its step; one that has nothing left to do lets the others go on.\<close>

lemma ring_capacity_pos: "ring_ok rb \<Longrightarrow> 0 < ring_capacity rb"
  using power_increasing [of 1 _ "2 :: nat"] by (fastforce simp: ring_ok_def ring_capacity_def)

definition moves :: "(OrderRequest \<Rightarrow> 's \<Rightarrow> 's option) \<Rightarrow> actor \<Rightarrow> 's Demo \<Rightarrow> 's Demo \<Rightarrow> bool" where
  "moves handler a d d' \<longleftrightarrow> mt_step handler a d d' \<or> (d' = d \<and> (\<nexists>e. mt_step handler a d e))"

definition mt_run :: "(OrderRequest \<Rightarrow> 's \<Rightarrow> 's option) \<Rightarrow> (nat \<Rightarrow> actor) \<Rightarrow> (nat \<Rightarrow> 's Demo) \<Rightarrow> bool" where
  "mt_run handler sched run \<longleftrightarrow> (\<forall>i. moves handler (sched i) (run i) (run (Suc i)))"

definition fair :: "nat \<Rightarrow> (nat \<Rightarrow> actor) \<Rightarrow> bool" where
  "fair n sched \<longleftrightarrow> (\<forall>i. (\<exists>j \<ge> i. sched j = Matcher) \<and> (\<forall>p < n. \<exists>j \<ge> i. sched j = Producer p))"

lemma fair_progress:
  fixes f :: "nat \<Rightarrow> nat"
  assumes "\<And>i. N \<le> i \<Longrightarrow> \<not> goal i \<Longrightarrow> f (Suc i) \<le> f i"
    and "\<And>i. N \<le> i \<Longrightarrow> \<not> goal i \<Longrightarrow> sched i = a \<Longrightarrow> f (Suc i) < f i"
    and "\<forall>i. \<exists>j \<ge> i. sched j = a"
  shows "\<exists>i \<ge> N. goal i"
proof (rule ccontr)
  assume no: "\<not> (\<exists>i \<ge> N. goal i)"
  have mono: "f j \<le> f i" if "N \<le> i" "i \<le> j" for i j
    using that(2,1) by (induction rule: dec_induct) (use assms(1) no in \<open>auto intro: le_trans\<close>)
  obtain m where m: "N \<le> m" "\<forall>i. N \<le> i \<longrightarrow> f m \<le> f i" using ex_has_least_nat [of "\<lambda>i. N \<le> i" N f] by blast
  obtain j where j: "m \<le> j" "sched j = a" using assms(3) by blast
  then have "f (Suc j) < f m" using assms(2) [of j] mono [of m j] m(1) no by fastforce
  then show False using m j(1) by (meson le_SucI le_trans not_le)
qed

section \<open>Producers\<close>

text \<open>A producer can step until it has finished, and one whose lane is empty gets its work done.\<close>

lemma producer_enabled:
  assumes "loop_inv handler plan s0 d" "p < length plan" "d_producers d ! p \<noteq> Finished"
  shows "\<exists>d'. mt_step handler (Producer p) d d'"
proof (cases "d_producers d ! p")
  case (Submitting rs)
  have p: "p < length (d_producers d)" "p < lane_count (d_gateway d)" "gateway_ok (d_gateway d)"
    using assms(1,2) by (simp_all add: loop_inv_def length_queues)
  show ?thesis
  proof (cases rs)
    case (Cons r rs')
    from submit_queue [OF p(3,2), of r] obtain ok g where "submit p r (d_gateway d) = Some (ok, g)" by blast
    then show ?thesis using mt_step.submitted [OF p(1)] mt_step.backpressure [OF p(1)] Submitting Cons by (cases ok; simp; blast)
  next
    case Nil
    then show ?thesis using mt_step.finished [OF p(1)] Submitting by blast
  qed
qed (use assms(3) in simp)

lemma producer_works:
  assumes "mt_step handler (Producer p) d d'" "loop_inv handler plan s0 d" "queues (d_gateway d) ! p = []"
  shows "\<not> same_work d d'"
proof -
  have p: "p < lane_count (d_gateway d)" "gateway_ok (d_gateway d)"
    using assms(1,2) by (auto elim!: producer_stepE simp: loop_inv_def length_queues)
  then have "ring_ok (gw_lanes (d_gateway d) ! p)" by (simp add: gateway_ok_def list_all_length lane_count_def)
  then have "0 < ring_capacity (gw_lanes (d_gateway d) ! p)" by (rule ring_capacity_pos)
  then have full: "submit p r (d_gateway d) \<noteq> Some (False, g)" for r g
    using submit_queue [OF p(2,1), of r] assms(3) by auto
  show ?thesis
    using assms(1)
  proof cases
    case (submitted r rs g)
    then show ?thesis by (auto simp: same_work_def list_update_same_conv)
  next
    case finished
    then show ?thesis by (auto simp: same_work_def list_update_same_conv)
  qed (use full in blast)
qed

text \<open>Along a run there comes a point after which no work gets done.\<close>

lemma moves_inv: "moves handler a d d' \<Longrightarrow> loop_inv handler plan s0 d \<Longrightarrow> loop_inv handler plan s0 d'"
  by (auto simp: moves_def intro: mt_step_inv)

lemma moves_work: "moves handler a d d' \<Longrightarrow> loop_inv handler plan s0 d \<Longrightarrow> work d' < work d \<or> same_work d d'"
  using mt_step_work by (fastforce simp: moves_def same_work_def)

lemma run_settles:
  assumes run: "\<And>i. moves handler (sched i) (run i) (run (Suc i))" and inv: "\<And>i. loop_inv handler plan s0 (run i)"
  obtains N where "\<And>i. N \<le> i \<Longrightarrow> same_work (run N) (run i)"
proof -
  obtain N where N: "\<And>i. work (run N) \<le> work (run i)" using ex_has_least_nat [of "\<lambda>_. True" 0 "\<lambda>i. work (run i)"] by blast
  show thesis
  proof (rule that)
    fix i assume "N \<le> i"
    then show "same_work (run N) (run i)"
    proof (induction rule: dec_induct)
      case (step i)
      then have "\<not> work (run (Suc i)) < work (run i)" using N [of "Suc i"] by (simp add: same_work_work)
      then show ?case using moves_work [OF run inv, of i] step.IH by (auto simp: same_work_def)
    qed (simp add: same_work_def)
  qed
qed

section \<open>Leaving the loop\<close>

lemma exit_accounts:
  assumes "loop_inv handler plan s0 d" "d_matcher d = Loop_Exited"
  shows "\<forall>P \<in> set (d_producers d). P = Finished" "all_lanes_empty (d_gateway d)" "\<forall>p < length plan. lane_log p (d_log d) = plan ! p"
    "d_processed d = of_nat (length (concat plan))" "foldM handler (map snd (d_log d)) s0 = Some (d_state d)"
    "length (d_log d) = length (concat plan)"
proof -
  let ?q = "queues (d_gateway d)"
  have "d_remaining d = 0" and empty: "\<forall>q \<in> set ?q. q = []" using assms by (auto simp: loop_inv_def in_set_conv_nth)
  then show fin: "\<forall>P \<in> set (d_producers d). P = Finished" using assms(1) unfinished_0 [of "d_producers d"] by (simp add: loop_inv_def)
  show "all_lanes_empty (d_gateway d)" using all_lanes_empty_queues empty assms(1) by (simp add: loop_inv_def)
  have "d_producers d ! p = Finished" "?q ! p = []" if "p < length plan" for p
    using bspec [OF fin nth_mem] bspec [OF empty nth_mem] that assms(1) by (auto simp: loop_inv_def)
  then show "\<forall>p < length plan. lane_log p (d_log d) = plan ! p" using assms(1) by (simp add: loop_inv_def)
  have "length (concat ?q) = 0" "length (concat (map todo (d_producers d))) = 0" using empty fin by auto
  then show len: "length (d_log d) = length (concat plan)" using inv_log(1) [OF assms(1)] by linarith
  show "d_processed d = of_nat (length (concat plan))" "foldM handler (map snd (d_log d)) s0 = Some (d_state d)"
    using assms len by (simp_all add: loop_inv_def)
qed

text \<open>Every schedule has a run, and the round robin is fair.\<close>

lemma run_exists:
  obtains run where "run 0 = d" "mt_run handler sched run"
proof -
  have "\<exists>d'. moves handler a d d'" for a d by (auto simp: moves_def)
  then obtain f where "\<forall>n. (n = 0 \<longrightarrow> f n = d) \<and> moves handler (sched n) (f n) (f (Suc n))"
    using dependent_nat_choice [of "\<lambda>n x. n = 0 \<longrightarrow> x = d" "\<lambda>n x y. moves handler (sched n) x y"] by auto
  then show thesis using that by (auto simp: mt_run_def)
qed

lemma run_reach:
  assumes "mt_run handler sched run"
  shows "mt_reach handler (run 0) (run i)"
proof (induction i)
  case (Suc i)
  then show ?case using assms by (auto simp: mt_run_def moves_def dest: spec [of _ i] intro: mt_reach.step)
qed (rule mt_reach.start)

definition round_robin :: "nat \<Rightarrow> nat \<Rightarrow> actor" where
  "round_robin n i = (if i mod Suc n < n then Producer (i mod Suc n) else Matcher)"

lemma round_robin_fair: "fair n (round_robin n)"
proof -
  have here: "i \<le> Suc n * i + k \<and> (Suc n * i + k) mod Suc n = k" if "k \<le> n" for i k
    using that mod_mult_self4 [of "Suc n" i k] by (simp add: trans_le_add1 del: mult_Suc)
  have turn: "\<exists>j \<ge> i. round_robin n j = (if k < n then Producer k else Matcher)" if "k \<le> n" for i k
    using here [OF that, of i] by (intro exI [of _ "Suc n * i + k"]) (simp add: round_robin_def)
  show ?thesis unfolding fair_def
  proof (intro allI conjI impI)
    fix i p
    show "\<exists>j \<ge> i. round_robin n j = Matcher" using turn [of n i] by simp
    show "\<exists>j \<ge> i. round_robin n j = Producer p" if "p < n" using turn [of p i] that by simp
  qed
qed

section \<open>A handler that does not fail\<close>

text \<open>
  What the loop asks of the code it hands the requests to: in a state that \<open>n\<close> requests can lead to, with
  \<open>n\<close> below a limit, every further request that fits is handled.
\<close>

locale demo_loop =
  fixes handler :: "OrderRequest \<Rightarrow> 's \<Rightarrow> 's option"
    and good :: "nat \<Rightarrow> 's \<Rightarrow> bool"
    and fits :: "OrderRequest \<Rightarrow> bool"
    and limit :: nat
  assumes good_step: "good n s \<Longrightarrow> n < limit \<Longrightarrow> fits r \<Longrightarrow> \<exists>s'. handler r s = Some s' \<and> good (Suc n) s'"
begin

definition planned :: "OrderRequest list list \<Rightarrow> 's \<Rightarrow> bool" where
  "planned plan s0 \<longleftrightarrow> good 0 s0 \<and> (\<forall>r \<in> set (concat plan). fits r) \<and> length (concat plan) \<le> limit"

lemma good_fold:
  assumes "planned plan s0" "set rs \<subseteq> set (concat plan)" "length rs \<le> length (concat plan)"
  shows "\<exists>s. foldM handler rs s0 = Some s \<and> good (length rs) s"
  using assms
proof (induction rs rule: rev_induct)
  case (snoc r rs)
  then obtain s where s: "foldM handler rs s0 = Some s" "good (length rs) s" by auto
  from good_step [OF s(2), of r] snoc.prems have "\<exists>s'. handler r s = Some s' \<and> good (Suc (length rs)) s'" by (auto simp: planned_def)
  then obtain s' where "handler r s = Some s'" "good (Suc (length rs)) s'" by blast
  then show ?case using s(1) by (simp add: foldM_append)
qed (simp add: planned_def)

lemma good_state:
  assumes "planned plan s0" "loop_inv handler plan s0 d"
  shows "good (length (d_log d)) (d_state d)"
  using good_fold [OF assms(1), of "map snd (d_log d)"] inv_log [OF assms(2)] assms(2) by (auto simp: loop_inv_def)

text \<open>The head of a lane can be handled.\<close>

lemma head_handled:
  assumes plan: "planned plan s0" and "loop_inv handler plan s0 d" "l < lane_count (d_gateway d)" "queues (d_gateway d) ! l \<noteq> []"
  shows "\<exists>s. handler (hd (queues (d_gateway d) ! l)) (d_state d) = Some s"
proof -
  let ?q = "queues (d_gateway d)"
  have l: "l < length plan" "l < length ?q" using assms(2,3) by (simp_all add: loop_inv_def length_queues)
  have q: "?q ! l \<in> set ?q" using l(2) by simp
  have "concat ?q \<noteq> []" using q assms(4) by auto
  then have "length (d_log d) < length (concat plan)" using inv_log(1) [OF assms(2)] by (cases "concat ?q") simp_all
  moreover have "hd (?q ! l) \<in> set (plan ! l)" using assms(2,4) l(1) by (simp add: loop_inv_def)
  then have "hd (?q ! l) \<in> set (concat plan)" using nth_mem [OF l(1)] by auto
  then have "fits (hd (?q ! l))" using plan unfolding planned_def by blast
  moreover have "length (concat plan) \<le> limit" using plan by (simp add: planned_def)
  ultimately show ?thesis using good_step [OF good_state [OF plan assms(2)]] by (meson less_le_trans)
qed

text \<open>The matching thread can step until it leaves its loop.\<close>

lemma matcher_enabled:
  assumes plan: "planned plan s0" and "loop_inv handler plan s0 d" "d_matcher d \<noteq> Loop_Exited"
  shows "\<exists>d'. mt_step handler Matcher d d'"
proof (cases "d_matcher d")
  case Loop_Test
  then show ?thesis by (cases "d_remaining d > 0") (blast intro: mt_step.intros)+
next
  case (Scanning k)
  then show ?thesis
    by (cases "k < lane_count (d_gateway d)"; cases "ring_empty (gw_lanes (d_gateway d) ! k)") (blast intro: mt_step.intros)+
next
  case (Sweeping i drained)
  show ?thesis
  proof (cases "i < lane_count (d_gateway d)")
    case True
    let ?g = "d_gateway d" and ?l = "lane_at i (d_gateway d)"
    have ok: "gateway_ok ?g" "?l < lane_count ?g" using assms(2) True by (simp_all add: loop_inv_def lane_at_less)
    obtain lanes where "\<forall>k s log. poll_lane (recorded handler ?l) ?l (gw_lanes ?g, k, (s, log)) =
      (if queues ?g ! ?l = [] then Some (lanes, k, (s, log))
       else do { s \<leftarrow> handler (hd (queues ?g ! ?l)) s; Some (lanes, k + 1, (s, log @ [(?l, hd (queues ?g ! ?l))])) })"
      by (rule poll_lane_recorded [OF ok])
    then have "\<exists>k' s' log'. poll_lane (recorded handler ?l) ?l (gw_lanes ?g, drained, (d_state d, d_log d)) = Some (lanes, k', (s', log'))"
      using head_handled [OF plan assms(2) ok(2)] by fastforce
    then show ?thesis using mt_step.polled [OF Sweeping True] by blast
  qed (use Sweeping in \<open>blast intro: mt_step.intros\<close>)
qed (use assms(3) in simp)

text \<open>From there on the lanes are empty, since the matching thread would otherwise reach a request.\<close>

lemma settled_empty:
  assumes plan: "planned plan s0" and run: "\<And>i. moves handler (sched i) (run i) (run (Suc i))" and inv: "\<And>i. loop_inv handler plan s0 (run i)"
    and same: "\<And>i. N \<le> i \<Longrightarrow> same_work (run N) (run i)" and fair: "\<forall>i. \<exists>j \<ge> i. sched j = Matcher"
    and l: "l < length plan"
  shows "queues (d_gateway (run N)) ! l = []"
proof (rule ccontr)
  assume ne: "queues (d_gateway (run N)) ! l \<noteq> []"
  have l': "l < lane_count (d_gateway (run i))" for i using inv [of i] l by (simp add: loop_inv_def length_queues)
  have here: "queues (d_gateway (run i)) ! l \<noteq> []" "same_work (run i) (run (Suc i))" if "N \<le> i" for i
    using same [OF that] same [of "Suc i"] that ne by (simp_all add: same_work_def)
  have on: "d_matcher (run i) \<noteq> Loop_Exited" if "N \<le> i" for i
    using inv [of i] here(1) [OF that] l' [of i] by (auto simp: loop_inv_def length_queues)
  have "\<exists>i \<ge> N. False"
  proof (rule fair_progress [where f = "\<lambda>i. seek l (run i)" and sched = sched and a = Matcher])
    fix i assume i: "N \<le> i"
    show less: "seek l (run (Suc i)) < seek l (run i)" if "sched i = Matcher"
      using run [of i] that matcher_enabled [OF plan inv on [OF i]] matcher_seeks [OF _ inv here(2) [OF i] l' here(1) [OF i]]
      by (auto simp: moves_def)
    show "seek l (run (Suc i)) \<le> seek l (run i)"
    proof (cases "sched i")
      case (Producer p)
      then show ?thesis using run [of i] producer_keeps(1) by (fastforce simp: moves_def)
    qed (use less in simp)
  qed (rule fair)
  then show False by simp
qed

text \<open>The producers have finished, since one whose lane is empty would get a step further.\<close>

lemma settled_finished:
  assumes plan: "planned plan s0" and run: "\<And>i. moves handler (sched i) (run i) (run (Suc i))" and inv: "\<And>i. loop_inv handler plan s0 (run i)"
    and same: "\<And>i. N \<le> i \<Longrightarrow> same_work (run N) (run i)" and fair: "fair (length plan) sched"
  shows "d_remaining (run N) = 0"
proof -
  have empty: "queues (d_gateway (run N)) ! l = []" if "l < length plan" for l
    by (rule settled_empty [where sched = sched, OF plan run inv same _ that]) (use fair in \<open>auto simp: fair_def\<close>)
  have "d_producers (run N) ! p = Finished" if p: "p < length plan" for p
  proof (rule ccontr)
    assume running: "d_producers (run N) ! p \<noteq> Finished"
    obtain j where j: "N \<le> j" "sched j = Producer p" using fair p unfolding fair_def by blast
    have here: "same_work (run N) (run j)" "same_work (run j) (run (Suc j))"
      using same [OF j(1)] same [of "Suc j"] j(1) by (simp_all add: same_work_def)
    have "\<exists>d'. mt_step handler (Producer p) (run j) d'"
      by (rule producer_enabled [OF inv p]) (use here(1) running in \<open>simp add: same_work_def\<close>)
    then have "mt_step handler (Producer p) (run j) (run (Suc j))" using run [of j] j(2) by (auto simp: moves_def)
    moreover have "queues (d_gateway (run j)) ! p = []" using here(1) empty [OF p] by (simp add: same_work_def)
    ultimately show False using producer_works [OF _ inv] here(2) by blast
  qed
  then have "unfinished (d_producers (run N)) = 0" using inv [of N] by (auto simp: unfinished_0 in_set_conv_nth loop_inv_def)
  then show ?thesis using inv [of N] by (simp add: loop_inv_def)
qed

lemma fair_run_exits:
  assumes plan: "planned plan s0" and "mt_run handler sched run" and start: "loop_inv handler plan s0 (run 0)" and fair: "fair (length plan) sched"
  shows "\<exists>i. d_matcher (run i) = Loop_Exited"
proof -
  have run: "moves handler (sched i) (run i) (run (Suc i))" for i using assms(2) by (simp add: mt_run_def)
  have inv: "loop_inv handler plan s0 (run i)" for i by (induction i) (auto intro: start moves_inv [OF run])
  obtain N where same: "\<And>i. N \<le> i \<Longrightarrow> same_work (run N) (run i)" using run_settles [where run = run, OF run inv] by blast
  have mf: "\<forall>i. \<exists>j \<ge> i. sched j = Matcher" using fair by (simp add: fair_def)
  have quiet: "d_remaining (run i) = 0 \<and> (\<forall>l < lane_count (d_gateway (run i)). queues (d_gateway (run i)) ! l = [])" if "N \<le> i" for i
  proof -
    have "d_remaining (run i) = d_remaining (run N)" using inv [of i] inv [of N] same [OF that] by (simp add: loop_inv_def same_work_def)
    moreover have "d_remaining (run N) = 0" by (rule settled_finished [where sched = sched, OF plan run inv same fair])
    moreover have "queues (d_gateway (run i)) ! l = []" if "l < lane_count (d_gateway (run i))" for l
    proof -
      have "l < length plan" using that inv [of i] by (simp add: loop_inv_def length_queues)
      then show ?thesis using settled_empty [where sched = sched and N = N, OF plan run inv same mf] same [OF \<open>N \<le> i\<close>] by (simp add: same_work_def)
    qed
    ultimately show ?thesis by simp
  qed
  have "\<exists>i \<ge> N. d_matcher (run i) = Loop_Exited"
  proof (rule fair_progress [where f = "\<lambda>i. leave (run i)" and sched = sched and a = Matcher])
    fix i assume i: "N \<le> i" "d_matcher (run i) \<noteq> Loop_Exited"
    show less: "leave (run (Suc i)) < leave (run i)" if "sched i = Matcher"
      using run [of i] that matcher_enabled [OF plan inv i(2)] matcher_leaves [OF _ inv] quiet [OF i(1)] by (auto simp: moves_def)
    show "leave (run (Suc i)) \<le> leave (run i)"
    proof (cases "sched i")
      case (Producer p)
      then show ?thesis using run [of i] producer_keeps(2) by (fastforce simp: moves_def)
    qed (use less in simp)
  qed (rule mf)
  then show ?thesis by blast
qed

end

section \<open>What every interleaving guarantees\<close>

text \<open>
  C27.  When the matching thread has left its loop, whatever the interleaving was, every producer has finished, every
  lane is empty, each producer's requests have been handled exactly once and in the order it submitted them, the
  counter shows their number, and the handler's state is the result of handling them one after the other.
\<close>

theorem loop_handles_everything:
  assumes "gateway_ok g" "queues g = replicate (length plan) []"
    and "mt_reach handler (demo_start g plan s0) d" "d_matcher d = Loop_Exited"
  shows "(\<forall>P \<in> set (d_producers d). P = Finished) \<and> all_lanes_empty (d_gateway d)
    \<and> (\<forall>p < length plan. lane_log p (d_log d) = plan ! p) \<and> length (d_log d) = length (concat plan)
    \<and> d_processed d = of_nat (length (concat plan)) \<and> foldM handler (map snd (d_log d)) s0 = Some (d_state d)"
  using exit_accounts [OF mt_reach_inv [OF assms(3) start_inv [OF assms(1,2)]] assms(4)] by blast

theorem loop_handles_everything_witness:
  "\<exists>g d. mt_reach (\<lambda>r s. Some (s @ [r])) (demo_start g [[sample_request 1, sample_request 2], [], [sample_request 3]] []) d
    \<and> lane_log 0 (d_log d) = [sample_request 1, sample_request 2] \<and> d_processed d = 3"
proof -
  let ?h = "\<lambda>r s. Some (s @ [r])" and ?plan = "[[sample_request 1, sample_request 2], [], [sample_request 3]]"
  let ?d0 = "demo_start (gateway_new (2 ^ 2) (sample_request 0) 3) ?plan []"
  have loop: "demo_loop ?h (\<lambda>n s. True) (\<lambda>r. True) 3" by unfold_locales simp
  have g: "gateway_ok (gateway_new (2 ^ 2) (sample_request 0) 3)" "queues (gateway_new (2 ^ 2) (sample_request 0) 3) = replicate (length ?plan) []"
    using gateway_new_ok [of 2 "sample_request 0" 3] by (simp_all add: numeral_3_eq_3)
  obtain run where run: "run 0 = ?d0" "mt_run ?h (round_robin 3) run" using run_exists by blast
  have plan: "demo_loop.planned (\<lambda>n s. True) (\<lambda>r. True) 3 ?plan ([] :: OrderRequest list)" by (simp add: demo_loop.planned_def [OF loop])
  have fair: "fair (length ?plan) (round_robin 3)" using round_robin_fair [of 3] by (simp add: numeral_3_eq_3)
  have start: "loop_inv ?h ?plan [] (run 0)" using start_inv [OF g] run(1) by simp
  have "\<exists>i. d_matcher (run i) = Loop_Exited" by (rule demo_loop.fair_run_exits [OF loop plan run(2) start fair])
  then obtain i where i: "d_matcher (run i) = Loop_Exited" ..
  have "mt_reach ?h ?d0 (run i)" using run_reach [OF run(2)] run(1) by metis
  then show ?thesis using loop_handles_everything [OF g _ i] by fastforce
qed

end
