(* ===== verification/Threaded_Demo.thy ===== *)
theory Threaded_Demo
  imports Matching_Loop Engine_Books
begin

text \<open>
  \<open>run_multithreaded_demo\<close> of \<open>src/main.cpp\<close>: four producers with 250000 random orders each, one matching
  thread over an engine with an array book.

  The random numbers are arbitrary: a producer draws a list of price offsets and quantities, of which only the
  ranges of the two distributions are used.  The invariant \<open>flow_good\<close> of the engine makes it a handler that
  never fails in the sense of the locale \<open>demo_loop\<close>: ids, volumes, positions and rate windows stay far below
  their limits.  So the demo ends under every fair schedule, with a million orders processed.
\<close>

section \<open>Model\<close>

definition kProducers :: nat where
  "kProducers = 4"

definition kOrdersPerProducer :: nat where
  "kOrdersPerProducer = 250000"

definition make_request :: "nat \<Rightarrow> Price \<times> Quantity \<Rightarrow> OrderRequest" where
  "make_request i draw = \<lparr>req_client_order_id = kInvalidOrderId, req_symbol = 1, req_participant_id = kNoParticipant,
     req_side = (if i mod 2 = 0 then Buy else Sell), req_type = Limit, req_price = 10000 + fst draw, req_quantity = snd draw,
     req_time_in_force = GTC\<rparr>"

definition producer_requests :: "(Price \<times> Quantity) list \<Rightarrow> OrderRequest list" where
  "producer_requests draws = map (\<lambda>(i, draw). make_request i draw) (enumerate 0 draws)"

text \<open>The ranges of \<open>price_offset\<close> and \<open>qty_dist\<close>.\<close>

definition draws_ok :: "(Price \<times> Quantity) list \<Rightarrow> bool" where
  "draws_ok draws \<longleftrightarrow> length draws = kOrdersPerProducer \<and> list_all (\<lambda>(offset, qty). - 25 \<le> offset \<and> offset \<le> 25 \<and> 1 \<le> qty \<and> qty \<le> 50) draws"

definition demo_book_engine :: "range_error + OrderBookArray MatchingEngine" where
  "demo_book_engine = add_symbol arr_class 1 1 200000 4096 NoPrevention (engine_new Map.empty)"

definition handle :: "OrderRequest \<Rightarrow> OrderBookArray MatchingEngine \<times> World \<Rightarrow> (OrderBookArray MatchingEngine \<times> World) option" where
  "handle request st = (case st of (e, w) \<Rightarrow> do { (r, e, w) \<leftarrow> submit_order arr_class request e w; Some (e, w) })"

definition threaded_demo :: "(Price \<times> Quantity) list list \<Rightarrow> OrderRequest \<Rightarrow> OrderBookArray MatchingEngine \<Rightarrow> World
    \<Rightarrow> (OrderBookArray MatchingEngine \<times> World) Demo" where
  "threaded_demo draws default_request e w = demo_start (gateway_new 8192 default_request kProducers) (map producer_requests draws) (e, w)"

section \<open>The flow of the demo\<close>

definition flow_fits :: "OrderRequest \<Rightarrow> bool" where
  "flow_fits r \<longleftrightarrow> req_client_order_id r = kInvalidOrderId \<and> req_symbol r = 1 \<and> req_participant_id r = kNoParticipant
     \<and> req_type r = Limit \<and> req_time_in_force r = GTC \<and> 9975 \<le> req_price r \<and> req_price r \<le> 10025 \<and> 1 \<le> req_quantity r \<and> req_quantity r \<le> 50"

lemma producer_requests_fit:
  assumes "draws_ok draws"
  shows "\<forall>r \<in> set (producer_requests draws). flow_fits r" "length (producer_requests draws) = kOrdersPerProducer"
proof -
  show "\<forall>r \<in> set (producer_requests draws). flow_fits r"
    using assms by (auto simp: producer_requests_def draws_ok_def list_all_iff make_request_def flow_fits_def enumerate_eq_zip
      dest!: set_zip_rightD)
qed (use assms in \<open>simp add: producer_requests_def draws_ok_def\<close>)

text \<open>The risk state of the one participant: no limits, a flat position, at most one entry in the window per order.\<close>

definition flat :: "nat \<Rightarrow> RiskManager \<Rightarrow> bool" where
  "flat n rm \<longleftrightarrow> (case rm (pack_key 1 kNoParticipant) of None \<Rightarrow> True
     | Some st \<Rightarrow> limits st = no_limits \<and> net_position st = 0 \<and> unat (orders_in_window st) \<le> n)"

lemma flat_check:
  assumes "flat n rm" "n < 1000000" "1 \<le> q" "q \<le> 50"
  shows "\<exists>rm'. check_new_order 1 kNoParticipant side q now rm = Some (NoReason, rm') \<and> flat (Suc n) rm'"
proof (cases "rm (pack_key 1 kNoParticipant)")
  case None
  then show ?thesis by (simp add: check_new_order_def flat_def)
next
  case (Some st)
  then have st: "limits st = no_limits" "net_position st = 0" "unat (orders_in_window st) \<le> n" using assms(1) by (simp_all add: flat_def)
  have few: "x < u32_max \<and> unat (x + 1) \<le> Suc n" if "unat x \<le> n" for x :: u32
  proof -
    have "unat x < unat u32_max" using that assms(2) by (simp add: u32_max_def unsigned_minus_1_eq_mask mask_eq_exp_minus_1)
    moreover have "unat (x + 1) \<le> unat x + 1" by (metis mod_less_eq_dividend unat_1 unat_word_ariths(1))
    ultimately show ?thesis using that by (simp add: word_less_nat_alt)
  qed
  show ?thesis using few [OF st(3)] few [of 0] assms(3,4) Some st
    by (auto simp: check_new_order_def flat_def no_limits_def i64_max_def chk64_def in_i64_def Let_def not_le)
qed

text \<open>Both sides of a trade belong to the same participant, so settling leaves it flat.\<close>

definition own_trade :: "Trade \<Rightarrow> bool" where
  "own_trade t \<longleftrightarrow> t_symbol t = 1 \<and> t_taker_participant_id t = kNoParticipant \<and> t_maker_participant_id t = kNoParticipant
     \<and> 0 < t_quantity t \<and> t_quantity t \<le> 50"

lemma flat_on_trade:
  assumes "flat n (e_risk_manager e)" "own_trade t"
  shows "\<exists>e' w'. on_trade t (e, w) = Some (e', w') \<and> flat n (e_risk_manager e')"
  using assms
  by (auto simp: on_trade_def on_fill_def own_trade_def flat_def state_at_def fresh_state_def chk64_def in_i64_def i64_max_def Let_def
      split: option.splits)

lemma flat_settle:
  assumes "flat n (e_risk_manager e)" "\<forall>t \<in> set ts. own_trade t"
  shows "\<exists>e' w'. foldM on_trade ts (e, w) = Some (e', w') \<and> flat n (e_risk_manager e')"
  using assms
proof (induction ts arbitrary: e w)
  case (Cons t ts)
  obtain e1 w1 where "on_trade t (e, w) = Some (e1, w1)" "flat n (e_risk_manager e1)"
    using flat_on_trade [of n e t w] Cons.prems by auto
  then show ?case using Cons.IH [of e1 w1] Cons.prems(2) by simp
qed simp

text \<open>The book: ids below the counter, one participant, at most 50 units per order.\<close>

definition flow_book :: "nat \<Rightarrow> SpecBook \<Rightarrow> bool" where
  "flow_book n B \<longleftrightarrow> sb_accepts B = (\<lambda>p. 1 \<le> p \<and> p \<le> 200000) \<and> sb_stp B = NoPrevention \<and> sb_symbol B = 1 \<and> abook_ok (sb_book B)
     \<and> (\<forall>x \<in> set (resting (sb_book B)). unat (o_id x) \<le> n \<and> o_participant_id x = kNoParticipant)
     \<and> (\<forall>s. volume (side_of s (sb_book B)) \<le> 50 * int n)"

definition flow_order :: "nat \<Rightarrow> Order \<Rightarrow> bool" where
  "flow_order n ord \<longleftrightarrow> unat (o_id ord) = Suc n \<and> o_participant_id ord = kNoParticipant \<and> o_type ord = Limit
     \<and> o_time_in_force ord = GTC \<and> 9975 \<le> o_price ord \<and> o_price ord \<le> 10025 \<and> 1 \<le> o_quantity ord \<and> o_quantity ord \<le> 50"

lemma flow_admissible:
  assumes "flow_book n B" "flow_order n ord" "n < 1000000"
  shows "admissible ord (sb_book B)" "refusal (sb_accepts B) ord (sb_book B) = NoReason" "strangers (sb_stp B) ord (sb_book B)"
proof -
  have "volume (side_of (o_side ord) (sb_book B)) \<le> 50 * int n" using assms(1) by (simp add: flow_book_def)
  moreover have "o_id ord \<noteq> 0" using assms(2) by (auto simp: flow_order_def)
  ultimately show "admissible ord (sb_book B)" using assms(2,3) by (simp add: admissible_def flow_order_def in_i64_def i64_max_def)
  have "o_id ord \<notin> ids (sb_book B)" using assms(1,2) by (force simp: flow_book_def flow_order_def ids_def)
  then show "refusal (sb_accepts B) ord (sb_book B) = NoReason" using assms(1,2) by (simp add: refusal_def flow_book_def flow_order_def)
  show "strangers (sb_stp B) ord (sb_book B)" using assms(1) by (simp add: strangers_def flow_book_def self_trade_def)
qed

lemma leftover_member:
  assumes "leftover ms ms'" "x \<in> set ms'"
  shows "\<exists>y \<in> set ms. o_id x = o_id y \<and> o_participant_id x = o_participant_id y"
  using assms unfolding leftover_def
  by (elim disjE exE conjE) (auto dest: in_set_dropD, (metis in_set_dropD list.set_intros)+)

text \<open>The orders of the book after an order was added: the order itself and orders that were there before.\<close>

lemma spec_add_members:
  assumes add: "spec_add rng stp cb symb ord A w = (r, A', w')" and x: "x \<in> set (resting A')"
  shows "(o_id x = o_id ord \<and> o_participant_id x = o_participant_id ord)
    \<or> (\<exists>y \<in> set (resting A). o_id x = o_id y \<and> o_participant_id x = o_participant_id y)"
  using add
proof (cases rule: spec_add_cases)
  case executed
  let ?t = "ord\<lparr>o_remaining_quantity := o_quantity ord\<rparr>" and ?opp = "opposite (o_side ord)"
  have old: "\<exists>y \<in> set (resting A). o_id x = o_id y \<and> o_participant_id x = o_participant_id y"
    if "spec_match stp ?t (side_of ?opp A) = (k, t, opp, fs)" "x \<in> set (resting (set_side ?opp opp A))" for k t opp fs
    using leftover_member [OF spec_match_leftover [OF that(1)]] that(2) by (auto simp: resting_set [of _ "o_side ord"])
  show ?thesis
  proof (cases rule: spec_execute_cases [of stp ord A cb symb w])
    case (rested t opp fs)
    have "o_id t = o_id ord" "o_participant_id t = o_participant_id ord"
      using spec_match_taker [OF rested(1)] by (metis Order.select_convs Order.surjective Order.update_convs(4))+
    then show ?thesis using rested executed(1) x old [OF rested(1)] by (auto simp: resting_set [of _ "o_side ord"])
  qed (use executed(1) x old in auto)
qed (use x in auto)

lemma flow_add:
  assumes B: "flow_book n B" and ord: "flow_order n ord" and n: "n < 1000000" and ev: "events w = []"
    and add: "spec_add (sb_accepts B) (sb_stp B) (sb_callback B) (sb_symbol B) ord (sb_book B) w = (r, A', w')"
  shows "flow_book (Suc n) (B\<lparr>sb_book := A'\<rparr>)" "\<forall>t \<in> set (events w'). own_trade t"
proof -
  let ?A = "sb_book B" and ?opp = "opposite (o_side ord)"
  note adm = flow_admissible [OF B ord n]
  have ok: "abook_ok ?A" and members: "\<forall>x \<in> set (resting ?A). unat (o_id x) \<le> n \<and> o_participant_id x = kNoParticipant"
    and vol: "\<And>s. volume (side_of s ?A) \<le> 50 * int n" using B by (simp_all add: flow_book_def)
  have ok': "abook_ok A'" using spec_add_ok [OF ok adm(1), of "sb_accepts B" "sb_stp B" "sb_callback B" "sb_symbol B" w] add by simp
  have rep: "report_ok ord r ?A A'" by (rule spec_add_report [OF add ok adm(1)])
  have q: "0 \<le> r_filled_quantity r" "r_filled_quantity r \<le> 50" "0 \<le> r_remaining_quantity r" "r_remaining_quantity r \<le> 50"
    using rep ord by (auto simp: report_ok_def flow_order_def split: OrderStatus.splits)
  have "volume (side_of s A') \<le> 50 * int (Suc n)" for s
  proof -
    have "s = o_side ord \<or> s = ?opp" by (cases s; cases "o_side ord") simp_all
    then show ?thesis using spec_add_conserves [OF add adm(3)] vol [of s] q by auto
  qed
  moreover have "unat (o_id x) \<le> Suc n \<and> o_participant_id x = kNoParticipant" if "x \<in> set (resting A')" for x
    using spec_add_members [OF add that] members ord by (auto simp: flow_order_def le_SucI)
  ultimately show "flow_book (Suc n) (B\<lparr>sb_book := A'\<rparr>)" using B ok' by (simp add: flow_book_def)
  obtain fs where fs: "fills_ok (sb_stp B) ord (side_of ?opp ?A) fs" "(\<Sum>f\<leftarrow>fs. snd f) = r_filled_quantity r"
    "events w' = (if sb_callback B then trades_of (sb_symbol B) ord fs w else [])"
    using spec_add_trades [OF add ok] ev by auto
  show "\<forall>t \<in> set (events w'). own_trade t"
  proof
    fix t assume "t \<in> set (events w')"
    then have "t \<in> set (trades_of (sb_symbol B) ord fs w)" using fs(3) by (simp split: if_splits)
    then obtain i m v where t: "t = mk_trade (sb_symbol B) ord m (o_price m) v (clock w i)" "(m, v) \<in> set fs" by (rule trades_of_member)
    have "m \<in> set (side_of ?opp ?A)" by (rule fills_ok_maker [OF fs(1) t(2)])
    then have "o_participant_id m = kNoParticipant" using members resting_set [of ?A "o_side ord"] by auto
    moreover have "0 < v" using fs(1) t(2) by (auto simp: fills_ok_def)
    moreover have "v \<le> r_filled_quantity r"
      unfolding fs(2) [symmetric] by (rule member_le_sum_list_int) (use fs(1) t(2) in \<open>force simp: fills_ok_def\<close>)+
    ultimately show "own_trade t" using t(1) B ord q(2) by (simp add: own_trade_def mk_trade_def flow_book_def flow_order_def)
  qed
qed

section \<open>The engine as a handler\<close>

definition flow_ok :: "nat \<Rightarrow> SpecBook MatchingEngine \<Rightarrow> bool" where
  "flow_ok n S \<longleftrightarrow> (case e_books S 1 of None \<Rightarrow> False | Some B \<Rightarrow> flow_book n B) \<and> unat (e_next_order_id S) = Suc n \<and> flat n (e_risk_manager S)"

definition flow_good :: "nat \<Rightarrow> OrderBookArray MatchingEngine \<times> World \<Rightarrow> bool" where
  "flow_good n st \<longleftrightarrow> (\<exists>S. ae.sim n (fst st) S \<and> flow_ok n S)"

lemma flow_submit:
  assumes S: "flow_ok n S" and r: "flow_fits r" and n: "n < 1000000"
  shows "submit_allowed r S w \<and> (\<exists>rep S' w'. submit_order (spec_class price_band) r S w = Some (rep, S', w') \<and> flow_ok (Suc n) S')"
proof -
  obtain B where B: "e_books S 1 = Some B" "flow_book n B" using S by (auto simp: flow_ok_def split: option.splits)
  let ?i = "e_next_order_id S" and ?ts = "fst (now_ns w)" and ?w = "snd (now_ns w)"
  let ?ord = "make_order ?i ?ts r"
  have ord: "flow_order n ?ord" using S r by (simp add: flow_order_def make_order_def flow_ok_def flow_fits_def)
  have req: "req_client_order_id r = kInvalidOrderId" "req_symbol r = 1" "req_participant_id r = kNoParticipant" using r by (simp_all add: flow_fits_def)
  obtain rm where rm: "check_new_order 1 kNoParticipant (req_side r) (req_quantity r) ?ts (e_risk_manager S) = Some (NoReason, rm)" "flat (Suc n) rm"
    using flat_check [of n "e_risk_manager S" "req_quantity r" "req_side r" ?ts] S r n by (auto simp: flow_ok_def flow_fits_def)
  obtain rep A' w1 where add: "spec_add (sb_accepts B) (sb_stp B) (sb_callback B) (sb_symbol B) ?ord (sb_book B) (?w\<lparr>events := []\<rparr>) = (rep, A', w1)"
    by (metis prod_cases3)
  note new = flow_add [OF B(2) ord n _ add, simplified]
  let ?e = "S\<lparr>e_next_order_id := ?i + 1, e_risk_manager := rm, e_books := (e_books S)(1 \<mapsto> B\<lparr>sb_book := A'\<rparr>)\<rparr>"
  obtain S' w' where settle: "foldM on_trade (events w1) (?e, w1\<lparr>events := events ?w\<rparr>) = Some (S', w')" "flat (Suc n) (e_risk_manager S')"
    using flat_settle [of "Suc n" ?e "events w1" "w1\<lparr>events := events ?w\<rparr>"] rm(2) new(2) by auto
  have "e_books S' = e_books ?e" "e_next_order_id S' = ?i + 1" using settle_trades [OF settle(1)] by simp_all
  moreover have "unat (?i + 1) = Suc (Suc n)" using S n by (simp add: flow_ok_def unat_word_ariths)
  ultimately have "flow_ok (Suc n) S'" using new(1) settle(2) by (simp add: flow_ok_def)
  moreover have "submit_order (spec_class price_band) r S w = Some (rep, S', w')"
    using B(1) req rm(1) add settle(1) by (simp add: submit_order_def book_call_def spec_class_def case_prod_beta)
  moreover have "submit_allowed r S w" using B(1) req flow_admissible(1) [OF B(2) ord n] by (simp add: submit_allowed_def)
  ultimately show ?thesis by blast
qed

interpretation mt: demo_loop handle flow_good flow_fits 1000000
proof
  fix n st r assume "flow_good n st" "n < 1000000" "flow_fits r"
  then obtain S where S: "ae.sim n (fst st) S" "flow_ok n S" by (auto simp: flow_good_def)
  obtain e w where st: "st = (e, w)" by force
  obtain rep S' w' where run: "submit_allowed r S w" "submit_order (spec_class price_band) r S w = Some (rep, S', w')" "flow_ok (Suc n) S'"
    using flow_submit [OF S(2) \<open>flow_fits r\<close> \<open>n < 1000000\<close>] by blast
  have "n < unat kNullIndex" using \<open>n < 1000000\<close> by (simp add: unat_null)
  then obtain e' where "submit_order arr_class r e w = Some (rep, e', w')" "ae.sim (Suc n) e' S'"
    using ae.submit_sim [OF S(1) [unfolded st fst_conv] run(1) _ run(2)] by blast
  then show "\<exists>s'. handle r st = Some s' \<and> flow_good (Suc n) s'" using run(3) st by (auto simp: handle_def flow_good_def)
qed

lemma demo_engine:
  obtains e where "demo_book_engine = Inr e" "\<And>w. flow_good 0 (e, w)"
proof -
  let ?B = "\<lparr>sb_book = empty_abook, sb_accepts = (\<lambda>p. 1 \<le> p \<and> p \<le> 200000), sb_stp = NoPrevention, sb_callback = True, sb_symbol = 1\<rparr>"
  let ?S = "(engine_new Map.empty)\<lparr>e_books := [1 \<mapsto> ?B]\<rparr>"
  have "add_symbol (spec_class price_band) 1 1 200000 4096 NoPrevention (engine_new Map.empty) = Inr ?S"
    by (simp add: add_symbol_def spec_class_def price_band_def engine_new_def)
  then obtain e where e: "demo_book_engine = Inr e" "ae.sim 0 e ?S"
    using ae.add_symbol_sim [OF ae.new_sim, of 200000 1 1 4096 NoPrevention Map.empty] by (auto simp: demo_book_engine_def i64_max_def)
  have "side_of s empty_abook = []" for s by (cases s) (simp_all add: empty_abook_def)
  then have "flow_book 0 ?B" using empty_abook_ok by (simp add: flow_book_def resting_set [of _ Buy] volume_def)
  then have "flow_ok 0 ?S" by (simp add: flow_ok_def engine_new_def flat_def)
  then have "flow_good 0 (e, w)" for w using e(2) by (auto simp: flow_good_def)
  with e(1) show thesis by (rule that)
qed

lemma demo_engine_good: "demo_book_engine = Inr e \<Longrightarrow> flow_good 0 (e, w)"
  by (rule demo_engine) (metis sum.inject(2))

section \<open>The demo ends\<close>

lemma demo_gateway: "gateway_ok (gateway_new 8192 default_request kProducers)" "queues (gateway_new 8192 default_request kProducers) = replicate kProducers []"
  using gateway_new_ok [of 13 default_request kProducers] by simp_all

lemma demo_planned:
  assumes "length draws = kProducers" "\<forall>ds \<in> set draws. draws_ok ds" "flow_good 0 s"
  shows "mt.planned (map producer_requests draws) s" "length (concat (map producer_requests draws)) = 1000000"
proof -
  have "map length (map producer_requests draws) = replicate kProducers kOrdersPerProducer"
    using assms(1,2) producer_requests_fit(2) by (auto intro!: nth_equalityI simp: all_set_conv_all_nth)
  then show len: "length (concat (map producer_requests draws)) = 1000000"
    by (simp add: length_concat sum_list_replicate kProducers_def kOrdersPerProducer_def)
  show "mt.planned (map producer_requests draws) s"
    using assms(2,3) producer_requests_fit(1) len unfolding mt.planned_def by auto
qed

lemma threaded_inv:
  assumes "length draws = kProducers"
  shows "loop_inv handle (map producer_requests draws) (e, w) (threaded_demo draws default_request e w)"
  unfolding threaded_demo_def by (rule start_inv) (use demo_gateway [of default_request] assms in simp_all)

text \<open>
  C26.  The multi-threaded demo ends: for every outcome of the random draws and every fair schedule of its threads
  the matching thread leaves its loop, a million orders have been processed without undefined behaviour, each
  producer's orders in the order it drew them, and the engine is in the state that submitting the handled orders
  one after the other leads to, with a flat position.
\<close>

theorem threaded_demo_ends:
  assumes "length draws = kProducers" "\<forall>ds \<in> set draws. draws_ok ds" "demo_book_engine = Inr e"
    and "run 0 = threaded_demo draws default_request e w" "mt_run handle sched run" "fair kProducers sched"
  shows "\<exists>i. d_matcher (run i) = Loop_Exited \<and> d_processed (run i) = 1000000
    \<and> (\<forall>p < kProducers. lane_log p (d_log (run i)) = producer_requests (draws ! p))
    \<and> foldM handle (map snd (d_log (run i))) (e, w) = Some (d_state (run i))
    \<and> position 1 kNoParticipant (e_risk_manager (fst (d_state (run i)))) = 0"
proof -
  let ?plan = "map producer_requests draws"
  have good: "flow_good 0 (e, w)" by (rule demo_engine_good [OF assms(3)])
  note plan = demo_planned [OF assms(1,2) good]
  have inv0: "loop_inv handle ?plan (e, w) (run 0)" using threaded_inv [OF assms(1)] assms(4) by simp
  have "fair (length ?plan) sched" using assms(1,6) by simp
  then obtain i where i: "d_matcher (run i) = Loop_Exited" using mt.fair_run_exits [OF plan(1) assms(5) inv0] by blast
  have inv: "loop_inv handle ?plan (e, w) (run i)" by (rule mt_reach_inv [OF run_reach [OF assms(5)] inv0])
  note acc = exit_accounts [OF inv i]
  obtain S where S: "ae.sim (length (d_log (run i))) (fst (d_state (run i))) S" "flow_ok (length (d_log (run i))) S"
    using mt.good_state [OF plan(1) inv] by (auto simp: flow_good_def)
  have "position 1 kNoParticipant (e_risk_manager S) = 0"
    using S(2) by (auto simp: flow_ok_def flat_def position_def split: option.splits)
  then have "position 1 kNoParticipant (e_risk_manager (fst (d_state (run i)))) = 0" using S(1) by (simp add: ae.sim_def)
  moreover have "d_processed (run i) = 1000000" using acc(4) plan(2) by simp
  ultimately show ?thesis using i acc(3,5) assms(1) by auto
qed

theorem threaded_demo_ends_witness:
  "\<exists>run (i :: nat). run 0 = threaded_demo (replicate 4 (replicate 250000 (0, 1))) (sample_request 0) (projr demo_book_engine) \<lparr>clock = \<lambda>i. of_nat i, ticks = 0, events = []\<rparr>
    \<and> mt_run handle (round_robin kProducers) run \<and> fair kProducers (round_robin kProducers)
    \<and> d_matcher (run i) = Loop_Exited \<and> d_processed (run i) = 1000000"
proof -
  let ?draws = "replicate 4 (replicate 250000 (0, 1))" and ?w = "\<lparr>clock = \<lambda>i. of_nat i, ticks = 0, events = []\<rparr>"
  obtain e where e: "demo_book_engine = Inr e" by (rule demo_engine)
  obtain run where run: "run 0 = threaded_demo ?draws (sample_request 0) e ?w" "mt_run handle (round_robin kProducers) run" by (rule run_exists)
  have "length ?draws = kProducers" "\<forall>ds \<in> set ?draws. draws_ok ds"
    by (simp_all add: kProducers_def kOrdersPerProducer_def draws_ok_def list_all_iff)
  then have "\<exists>i. d_matcher (run i) = Loop_Exited \<and> d_processed (run i) = 1000000"
    using threaded_demo_ends [OF _ _ e run round_robin_fair] by blast
  then show ?thesis unfolding e sum.sel using run round_robin_fair by blast
qed

text \<open>
  No thread of the demo is ever stuck and nothing it does is undefined: in every state the demo can reach the
  matching thread has a next step until it has left its loop, and a producer until it has finished.
\<close>

theorem threaded_demo_never_stuck:
  assumes "length draws = kProducers" "\<forall>ds \<in> set draws. draws_ok ds" "demo_book_engine = Inr e"
    and "mt_reach handle (threaded_demo draws default_request e w) d"
  shows "(d_matcher d \<noteq> Loop_Exited \<longrightarrow> (\<exists>d'. mt_step handle Matcher d d'))
    \<and> (\<forall>p < kProducers. d_producers d ! p \<noteq> Finished \<longrightarrow> (\<exists>d'. mt_step handle (Producer p) d d'))"
proof -
  have good: "flow_good 0 (e, w)" by (rule demo_engine_good [OF assms(3)])
  have inv: "loop_inv handle (map producer_requests draws) (e, w) d" by (rule mt_reach_inv [OF assms(4) threaded_inv [OF assms(1)]])
  show ?thesis using mt.matcher_enabled [OF demo_planned(1) [OF assms(1,2) good] inv] producer_enabled [OF inv] assms(1) by simp
qed

theorem threaded_demo_never_stuck_witness:
  "\<exists>d'. mt_step handle Matcher (threaded_demo (replicate 4 (replicate 250000 (0, 1))) (sample_request 0) (projr demo_book_engine)
     \<lparr>clock = \<lambda>i. of_nat i, ticks = 0, events = []\<rparr>) d'"
proof -
  let ?draws = "replicate 4 (replicate 250000 (0, 1))"
  obtain e where e: "demo_book_engine = Inr e" by (rule demo_engine)
  have "length ?draws = kProducers" "\<forall>ds \<in> set ?draws. draws_ok ds"
    by (simp_all add: kProducers_def kOrdersPerProducer_def draws_ok_def list_all_iff)
  from threaded_demo_never_stuck [OF this e mt_reach.start] show ?thesis by (simp add: e threaded_demo_def demo_start_def)
qed

end
