(* ===== verification/Format_Text.thy ===== *)
theory Format_Text
  imports Main
begin

text \<open>
  The part of \<open>std::format\<close> the program prints with: decimal numbers and padding to a width, right-aligned
  (\<open>{:>n}\<close>) or left-aligned (\<open>{:<n}\<close>).  Text longer than the width is not cut.
\<close>

definition digit_char :: "nat \<Rightarrow> char" where
  "digit_char d = char_of (48 + d)"

fun show_nat :: "nat \<Rightarrow> string" where
  "show_nat n = (if n < 10 then [digit_char n] else show_nat (n div 10) @ [digit_char (n mod 10)])"

declare show_nat.simps [simp del]

definition show_int :: "int \<Rightarrow> string" where
  "show_int i = (if i < 0 then CHR ''-'' # show_nat (nat (- i)) else show_nat (nat i))"

definition pad_left :: "nat \<Rightarrow> string \<Rightarrow> string" where
  "pad_left n s = replicate (n - length s) (CHR '' '') @ s"

definition pad_right :: "nat \<Rightarrow> string \<Rightarrow> string" where
  "pad_right n s = s @ replicate (n - length s) (CHR '' '')"

lemma length_pad [simp]: "length (pad_left n s) = max n (length s)" "length (pad_right n s) = max n (length s)"
  by (simp_all add: pad_left_def pad_right_def)

abbreviation newline :: char where "newline \<equiv> CHR 0x0A"

lemma in_pad: "c \<in> set (pad_left n s) \<Longrightarrow> c = CHR '' '' \<or> c \<in> set s" "c \<in> set (pad_right n s) \<Longrightarrow> c = CHR '' '' \<or> c \<in> set s"
  by (auto simp: pad_left_def pad_right_def)

lemma digit_char_code: "d < 10 \<Longrightarrow> of_char (digit_char d) = (48 + d :: nat)"
  by (simp add: digit_char_def)

lemma show_nat_code: "c \<in> set (show_nat n) \<Longrightarrow> 48 \<le> (of_char c :: nat) \<and> (of_char c :: nat) \<le> 57"
proof (induction n rule: show_nat.induct)
  case (1 n)
  have "c = digit_char n \<and> n < 10 \<or> \<not> n < 10 \<and> (c \<in> set (show_nat (n div 10)) \<or> c = digit_char (n mod 10))"
    using 1(2) by (subst (asm) show_nat.simps) (auto split: if_splits)
  then show ?case using 1(1) by (auto simp: digit_char_code)
qed

lemma show_text: "newline \<notin> set (show_nat n)" "newline \<notin> set (show_int i)"
  using show_nat_code [of newline] by (auto simp: show_int_def)

end
