(* ===== verification/Book_Print.thy ===== *)
theory Book_Print
  imports Order_Book_Vector Order_Book_Map Order_Book_Array Format_Text
begin

text \<open>
  The table the books print: \<open>OrderBookVector::print\<close>, \<open>OrderBookMap::print\<close> and \<open>OrderBookArray::print\<close>.  The
  three functions have the same text over the book's own depth queries and name; the stream is the string written.
\<close>

definition print_header :: "string \<Rightarrow> SymbolId \<Rightarrow> string" where
  "print_header approach symb =
     ''Order Book [symbol='' @ show_nat (unat symb) @ ''] ('' @ approach @ '')'' @ [newline]
     @ pad_left 12 ''BID QTY'' @ '' '' @ pad_left 10 ''BID PX'' @ '' | '' @ pad_right 10 ''ASK PX'' @ '' '' @ pad_right 12 ''ASK QTY'' @ [newline]
     @ replicate 48 (CHR ''-'') @ [newline]"

definition print_row_at :: "PriceLevelView list \<Rightarrow> PriceLevelView list \<Rightarrow> nat \<Rightarrow> string" where
  "print_row_at bids asks i =
     (if i < length bids then pad_left 12 (show_int (v_total_quantity (bids ! i))) @ '' '' @ pad_left 10 (show_int (v_price (bids ! i)))
      else pad_left 12 [] @ '' '' @ pad_left 10 [])
     @ '' | ''
     @ (if i < length asks then pad_right 10 (show_int (v_price (asks ! i))) @ '' '' @ pad_right 12 (show_int (v_total_quantity (asks ! i)))
        else pad_right 10 [] @ '' '' @ pad_right 12 [])
     @ [newline]"

definition print_rows :: "PriceLevelView list \<Rightarrow> PriceLevelView list \<Rightarrow> string" where
  "print_rows bids asks = concat (map (print_row_at bids asks) [0..<max (length bids) (length asks)])"

definition vec_print :: "nat \<Rightarrow> OrderBookVector \<Rightarrow> string" where
  "vec_print depth b = (let bids = vec_bid_depth depth b; asks = vec_ask_depth depth b
     in print_header ''sorted std::vector'' (b_symbol b) @ print_rows bids asks)"

definition map_print :: "nat \<Rightarrow> OrderBookMap \<Rightarrow> string" where
  "map_print depth b = (let bids = map_bid_depth depth b; asks = map_ask_depth depth b
     in print_header ''std::map'' (b_symbol b) @ print_rows bids asks)"

definition arr_print :: "nat \<Rightarrow> OrderBookArray \<Rightarrow> string option" where
  "arr_print depth b = do {
     bids \<leftarrow> arr_bid_depth depth b;
     asks \<leftarrow> arr_ask_depth depth b;
     Some (print_header ''direct-indexed array'' (b_symbol b) @ print_rows bids asks) }"

text \<open>Each row ends one line, so the table has one line per level of the deeper side.\<close>

definition line_count :: "string \<Rightarrow> nat" where
  "line_count s = length (filter (\<lambda>c. c = newline) s)"

lemma line_count_simps [simp]: "line_count [] = 0" "line_count (s @ t) = line_count s + line_count t" 
  "line_count (c # s) = (if c = newline then 1 else 0) + line_count s"
  by (simp_all add: line_count_def)

lemma no_lines: "newline \<notin> set s \<Longrightarrow> line_count s = 0"
  by (auto simp: line_count_def filter_empty_conv)

lemma pad_no_lines [simp]: "newline \<notin> set s \<Longrightarrow> line_count (pad_left n s) = 0" "newline \<notin> set s \<Longrightarrow> line_count (pad_right n s) = 0"
  using in_pad(1) [of newline n s] in_pad(2) [of newline n s] no_lines [of "pad_left n s"] no_lines [of "pad_right n s"] by auto

lemma row_lines: "line_count (print_row_at bids asks i) = 1"
  by (simp add: print_row_at_def show_text)

lemma print_rows_lines: "line_count (print_rows bids asks) = max (length bids) (length asks)"
proof -
  have "line_count (concat (map (print_row_at bids asks) xs)) = length xs" for xs
    by (induction xs) (simp_all add: row_lines)
  then show ?thesis by (simp add: print_rows_def)
qed

lemma header_lines: "newline \<notin> set approach \<Longrightarrow> line_count (print_header approach symb) = 3"
proof -
  have "line_count (replicate k (CHR ''-'')) = 0" for k by (simp add: no_lines)
  then show ?thesis if "newline \<notin> set approach" using that by (simp add: print_header_def show_text no_lines)
qed

text \<open>The books print the aggregated resting orders.\<close>

lemma prints_depth:
  "vec_inv v \<Longrightarrow> vec_print n v = print_header ''sorted std::vector'' (b_symbol v)
     @ print_rows (take n (depth_of (a_bids (vec_abs v)))) (take n (depth_of (a_asks (vec_abs v))))"
  "map_inv m \<Longrightarrow> map_print n m = print_header ''std::map'' (b_symbol m)
     @ print_rows (take n (depth_of (a_bids (map_abs m)))) (take n (depth_of (a_asks (map_abs m))))"
  "arr_inv a \<Longrightarrow> arr_print n a = Some (print_header ''direct-indexed array'' (b_symbol a)
     @ print_rows (take n (depth_of (a_bids (arr_abs a)))) (take n (depth_of (a_asks (arr_abs a)))))"
  by (simp_all add: vec_print_def map_print_def arr_print_def vec_depth_ok map_depth_ok arr_depth_ok)

end
