(* ===== verification/Replay.thy ===== *)
theory Replay
  imports Matching_Engine Format_Text
begin

text \<open>
  \<open>include/lightninglob/replay.hpp\<close> and \<open>src/replay.cpp\<close>: loading a CSV file of orders and feeding it to an
  engine.

  A file is its contents, \<open>None\<close> when it cannot be opened; the exceptions are the values of \<open>replay_error\<close>.
  \<open>std::from_chars\<close> is modelled as the standard describes it: the longest prefix of digits, with a minus sign
  for signed types only, and an error when there is none or the value does not fit.  The lemmas show that
  \<open>split\<close> inverts joining with the delimiter, that what \<open>print_csv\<close> writes is what \<open>load_csv\<close> reads, and that
  the statistics of a replay tally the reports of the engine.
  \<open>orders_per_second\<close>, a quotient of floating-point numbers, is not modelled.
\<close>

section \<open>Parsing\<close>

datatype replay_error = CannotOpen | MalformedLine string | BadNumber string | BadSide string | BadType string | BadTif string

text \<open>The exception's \<open>what()\<close>, for the file of the given path.\<close>

definition quoted :: "string \<Rightarrow> string" where
  "quoted s = CHR 0x27 # s @ [CHR 0x27]"

fun what_text :: "string \<Rightarrow> replay_error \<Rightarrow> string" where
  "what_text path CannotOpen = ''OrderReplay: could not open file: '' @ path"
| "what_text path (MalformedLine line) = ''OrderReplay: malformed CSV line (need >= 7 fields): '' @ line"
| "what_text path (BadNumber field) = ''OrderReplay: failed to parse numeric field: '' @ quoted field"
| "what_text path (BadSide field) = ''OrderReplay: invalid side field: '' @ quoted field"
| "what_text path (BadType field) = ''OrderReplay: invalid type field: '' @ quoted field"
| "what_text path (BadTif field) = ''OrderReplay: invalid time_in_force field: '' @ quoted field"

text \<open>\<open>line.find(delim, start)\<close>\<close>

definition find_from :: "char \<Rightarrow> string \<Rightarrow> nat \<Rightarrow> nat option" where
  "find_from delim line start =
     (let pos = start + length (takeWhile (\<lambda>c. c \<noteq> delim) (drop start line)) in if pos < length line then Some pos else None)"

function split_from :: "string \<Rightarrow> char \<Rightarrow> nat \<Rightarrow> string list \<Rightarrow> string list" where
  "split_from line delim start flds =
     (if start \<le> length line then
        (case find_from delim line start of
           None \<Rightarrow> flds @ [drop start line]
         | Some pos \<Rightarrow> split_from line delim (pos + 1) (flds @ [take (pos - start) (drop start line)]))
      else flds)"
  by pat_completeness auto
termination
  by (relation "measure (\<lambda>(line, delim, start, flds). Suc (length line) - start)")
    (auto simp: find_from_def Let_def split: if_splits)

definition split_fields :: "string \<Rightarrow> char \<Rightarrow> string list" where
  "split_fields line delim = split_from line delim 0 []"

definition is_digit :: "char \<Rightarrow> bool" where
  "is_digit c \<longleftrightarrow> 48 \<le> (of_char c :: nat) \<and> (of_char c :: nat) \<le> 57"

definition digit_value :: "char \<Rightarrow> int" where
  "digit_value c = int (of_char c) - 48"

definition digits_value :: "string \<Rightarrow> int" where
  "digits_value ds = foldl (\<lambda>v c. 10 * v + digit_value c) 0 ds"

definition from_chars :: "bool \<Rightarrow> int \<Rightarrow> int \<Rightarrow> string \<Rightarrow> int option" where
  "from_chars is_signed lo hi field =
     (let neg = (is_signed \<and> field \<noteq> [] \<and> hd field = CHR ''-'');
          ds = takeWhile is_digit (if neg then tl field else field);
          v = (if neg then - digits_value ds else digits_value ds)
      in if ds = [] then None else if lo \<le> v \<and> v \<le> hi then Some v else None)"

definition parse_number :: "bool \<Rightarrow> int \<Rightarrow> int \<Rightarrow> string \<Rightarrow> replay_error + int" where
  "parse_number is_signed lo hi field = (case from_chars is_signed lo hi field of None \<Rightarrow> Inl (BadNumber field) | Some v \<Rightarrow> Inr v)"

abbreviation "parse_u64 \<equiv> parse_number False 0 (2 ^ 64 - 1)"
abbreviation "parse_u32 \<equiv> parse_number False 0 (2 ^ 32 - 1)"
abbreviation "parse_i64 \<equiv> parse_number True (- i64_max - 1) i64_max"

definition parse_side :: "string \<Rightarrow> replay_error + Side" where
  "parse_side field = (if field = ''BUY'' then Inr Buy else if field = ''SELL'' then Inr Sell else Inl (BadSide field))"

definition parse_type :: "string \<Rightarrow> replay_error + OrderType" where
  "parse_type field = (if field = ''LIMIT'' then Inr Limit else if field = ''MARKET'' then Inr Market else Inl (BadType field))"

definition parse_tif :: "string \<Rightarrow> replay_error + TimeInForce" where
  "parse_tif field = (if field = ''GTC'' \<or> field = [] then Inr GTC else if field = ''IOC'' then Inr IOC else Inl (BadTif field))"

text \<open>Sequencing of computations that may throw.\<close>

definition and_then :: "'e + 'x \<Rightarrow> ('x \<Rightarrow> 'e + 'y) \<Rightarrow> 'e + 'y" where
  "and_then m f = (case m of Inl e \<Rightarrow> Inl e | Inr x \<Rightarrow> f x)"

lemma and_then_simps [simp]: "and_then (Inl e) f = Inl e" "and_then (Inr x) f = f x"
  by (simp_all add: and_then_def)

definition parse_row :: "string \<Rightarrow> replay_error + OrderRequest" where
  "parse_row line =
     (let flds = split_fields line CHR '','' in
      if length flds < 7 then Inl (MalformedLine line)
      else and_then (parse_u64 (flds ! 0)) (\<lambda>i.
        and_then (parse_u64 (flds ! 1)) (\<lambda>_.
        and_then (parse_u32 (flds ! 2)) (\<lambda>symb.
        and_then (parse_side (flds ! 3)) (\<lambda>side.
        and_then (parse_type (flds ! 4)) (\<lambda>type.
        and_then (parse_i64 (flds ! 5)) (\<lambda>price.
        and_then (parse_i64 (flds ! 6)) (\<lambda>quantity.
        and_then (if length flds > 7 then parse_tif (flds ! 7) else Inr GTC) (\<lambda>tif.
          Inr \<lparr>req_client_order_id = word_of_int i, req_symbol = word_of_int symb, req_participant_id = kNoParticipant,
            req_side = side, req_type = type, req_price = price, req_quantity = quantity, req_time_in_force = tif\<rparr>)))))))))"

text \<open>Successive calls of \<open>std::getline\<close>.\<close>

abbreviation carriage_return :: char where "carriage_return \<equiv> CHR 0x0D"

function getlines :: "string \<Rightarrow> string list" where
  "getlines cs = (if cs = [] then [] else takeWhile (\<lambda>c. c \<noteq> newline) cs #
     (case dropWhile (\<lambda>c. c \<noteq> newline) cs of [] \<Rightarrow> [] | _ # rest \<Rightarrow> getlines rest))"
  by pat_completeness auto
termination
proof (relation "measure length")
  fix cs c :: "char list" and x rest
  assume "cs \<noteq> []" "dropWhile (\<lambda>c. c \<noteq> newline) cs = x # rest"
  then have "length (x # rest) \<le> length cs" by (metis length_dropWhile_le)
  then show "(rest, cs) \<in> measure length" by simp
qed simp

declare split_from.simps [simp del] getlines.simps [simp del]

fun load_lines :: "bool \<Rightarrow> string list \<Rightarrow> replay_error + OrderRequest list" where
  "load_lines first_line [] = Inr []"
| "load_lines first_line (raw # ls) =
     (let line = (if raw \<noteq> [] \<and> last raw = carriage_return then butlast raw else raw) in
      if line = [] then load_lines first_line ls
      else if first_line \<and> \<not> is_digit (hd line) then load_lines False ls
      else and_then (parse_row line) (\<lambda>request. and_then (load_lines False ls) (\<lambda>requests. Inr (request # requests))))"

definition load_csv :: "string option \<Rightarrow> replay_error + OrderRequest list" where
  "load_csv file = (case file of None \<Rightarrow> Inl CannotOpen | Some contents \<Rightarrow> load_lines True (getlines contents))"

section \<open>Replaying\<close>

record ReplayStats =
  rs_total :: nat
  rs_accepted :: nat
  rs_rejected :: nat
  rs_filled :: nat
  rs_partially_filled :: nat
  rs_elapsed :: int

definition tally :: "ExecutionReport \<Rightarrow> ReplayStats \<Rightarrow> ReplayStats" where
  "tally rep st =
     (if r_status rep = Rejected then st\<lparr>rs_rejected := rs_rejected st + 1\<rparr>
      else let st = st\<lparr>rs_accepted := rs_accepted st + 1\<rparr> in
        if r_status rep = Filled then st\<lparr>rs_filled := rs_filled st + 1\<rparr>
        else if r_status rep = PartiallyFilled then st\<lparr>rs_partially_filled := rs_partially_filled st + 1\<rparr>
        else st)"

definition replay_one :: "('e, 'b) BookClass \<Rightarrow> OrderRequest \<Rightarrow> ReplayStats \<times> 'b MatchingEngine \<times> World
    \<Rightarrow> (ReplayStats \<times> 'b MatchingEngine \<times> World) option" where
  "replay_one C request st = (case st of (stats, e, w) \<Rightarrow> do {
     (rep, e, w) \<leftarrow> submit_order C request e w;
     Some (tally rep stats, e, w) })"

text \<open>The clock is read before the first and after the last order; nanoseconds are signed.\<close>

definition replay :: "('e, 'b) BookClass \<Rightarrow> OrderRequest list \<Rightarrow> 'b MatchingEngine \<Rightarrow> World
    \<Rightarrow> (ReplayStats \<times> 'b MatchingEngine \<times> World) option" where
  "replay C orders e w = do {
     let stats = \<lparr>rs_total = length orders, rs_accepted = 0, rs_rejected = 0, rs_filled = 0, rs_partially_filled = 0, rs_elapsed = 0\<rparr>;
     let (start, w) = now_ns w;
     (stats, e, w) \<leftarrow> foldM (replay_one C) orders (stats, e, w);
     let (stop, w) = now_ns w;
     Some (stats\<lparr>rs_elapsed := sint (stop - start)\<rparr>, e, w) }"

section \<open>Splitting\<close>

fun join :: "char \<Rightarrow> string list \<Rightarrow> string" where
  "join d [] = []"
| "join d [x] = x"
| "join d (x # y # ys) = x @ d # join d (y # ys)"

lemma split_from_join:
  assumes "fs \<noteq> []" "\<forall>f \<in> set fs. d \<notin> set f"
  shows "split_from (pre @ join d fs) d (length pre) acc = acc @ fs"
  using assms
proof (induction d fs arbitrary: pre acc rule: join.induct)
  case (2 d x)
  then have whole: "takeWhile (\<lambda>c. c \<noteq> d) x = x" by (auto simp: takeWhile_eq_all_conv)
  show ?case by (subst split_from.simps) (simp add: find_from_def whole)
next
  case (3 d x y ys)
  let ?rest = "join d (y # ys)"
  have "takeWhile (\<lambda>c. c \<noteq> d) (x @ d # ?rest) = x" using 3(3) by (subst takeWhile_append2) auto
  then have "find_from d (pre @ x @ d # ?rest) (length pre) = Some (length pre + length x)" by (simp add: find_from_def)
  moreover have "split_from ((pre @ x @ [d]) @ ?rest) d (length (pre @ x @ [d])) (acc @ [x]) = (acc @ [x]) @ y # ys"
    using 3(3) by (intro 3(1)) auto
  ultimately show ?case by (subst split_from.simps) simp
qed simp

lemma split_join: "fs \<noteq> [] \<Longrightarrow> \<forall>f \<in> set fs. d \<notin> set f \<Longrightarrow> split_fields (join d fs) d = fs"
  using split_from_join [of fs d "[]" "[]"] by (simp add: split_fields_def)

lemma as_join: "\<exists>fs. fs \<noteq> [] \<and> (\<forall>f \<in> set fs. d \<notin> set f) \<and> line = join d fs"
proof (induction line)
  case Nil
  show ?case by (rule exI [of _ "[[]]"]) simp
next
  case (Cons c cs)
  then obtain f fs where fs: "\<forall>f \<in> set (f # fs). d \<notin> set f" "cs = join d (f # fs)" by (metis neq_Nil_conv)
  show ?case
  proof (cases "c = d")
    case True
    then show ?thesis using fs by (intro exI [of _ "[] # f # fs"]) auto
  next
    case False
    then show ?thesis using fs by (intro exI [of _ "(c # f) # fs"]) (cases fs; auto)
  qed
qed

lemma join_split: "join d (split_fields line d) = line" "f \<in> set (split_fields line d) \<Longrightarrow> d \<notin> set f"
  using as_join [of d line] split_join by auto

section \<open>Numbers\<close>

lemma digit_char [simp]: "d < 10 \<Longrightarrow> is_digit (digit_char d)" "d < 10 \<Longrightarrow> digit_value (digit_char d) = int d"
  by (simp_all add: is_digit_def digit_char_def digit_value_def)

lemma digits_value_snoc: "digits_value (xs @ [c]) = 10 * digits_value xs + digit_value c"
  by (simp add: digits_value_def)

lemma show_nat_digits: "list_all is_digit (show_nat n)" "show_nat n \<noteq> []" "digits_value (show_nat n) = int n"
proof (induction n rule: show_nat.induct)
  case (1 n)
  show "list_all is_digit (show_nat n)" using 1(1) by (subst show_nat.simps) simp
  show "show_nat n \<noteq> []" by (subst show_nat.simps) simp
  show "digits_value (show_nat n) = int n"
  proof (cases "n < 10")
    case True
    then show ?thesis by (subst show_nat.simps) (simp add: digits_value_def)
  next
    case False
    then have "digits_value (show_nat n) = 10 * int (n div 10) + int (n mod 10)"
      using 1(3) by (subst show_nat.simps) (simp add: digits_value_snoc)
    then show ?thesis by presburger
  qed
qed

lemma digit_not: "is_digit c \<Longrightarrow> c \<noteq> CHR ''-'' \<and> c \<noteq> CHR '','' \<and> c \<noteq> newline \<and> c \<noteq> carriage_return"
  by (auto simp: is_digit_def)

lemma takeWhile_digits: "junk = [] \<or> \<not> is_digit (hd junk) \<Longrightarrow> takeWhile is_digit (show_nat n @ junk) = show_nat n"
  using show_nat_digits(1) [of n] by (subst takeWhile_append2) (auto simp: list_all_iff takeWhile_eq_Nil_iff)

text \<open>A number is read back, and whatever follows its digits is ignored.\<close>

lemma from_chars_nat:
  assumes "junk = [] \<or> \<not> is_digit (hd junk)" "lo \<le> int n" "int n \<le> hi"
  shows "from_chars sg lo hi (show_nat n @ junk) = Some (int n)"
proof -
  have "is_digit (hd (show_nat n @ junk))" using show_nat_digits(1,2) [of n] by (cases "show_nat n") auto
  then have "hd (show_nat n @ junk) \<noteq> CHR ''-''" using digit_not by blast
  then show ?thesis using assms show_nat_digits [of n] takeWhile_digits [OF assms(1)] by (simp add: from_chars_def Let_def)
qed

lemma from_chars_int:
  assumes "junk = [] \<or> \<not> is_digit (hd junk)" "lo \<le> i" "i \<le> hi"
  shows "from_chars True lo hi (show_int i @ junk) = Some i"
proof (cases "i < 0")
  case True
  then show ?thesis using assms show_nat_digits [of "nat (- i)"] takeWhile_digits [OF assms(1)]
    by (simp add: from_chars_def Let_def show_int_def)
next
  case False
  then show ?thesis using from_chars_nat [OF assms(1), of lo "nat i" hi True] assms(2,3) by (simp add: show_int_def)
qed

section \<open>Files\<close>

text \<open>A row and a file in the documented format, with the optional last column and the header.\<close>

definition print_row :: "nat \<times> OrderRequest \<Rightarrow> string" where
  "print_row tr = (case tr of (ts, req) \<Rightarrow> join CHR '','' [show_nat (unat (req_client_order_id req)), show_nat ts,
     show_nat (unat (req_symbol req)), to_string_Side (req_side req), to_string_OrderType (req_type req),
     show_int (req_price req), show_int (req_quantity req), to_string_TimeInForce (req_time_in_force req)])"

definition csv_header :: string where
  "csv_header = ''order_id,timestamp_ns,symbol_id,side,type,price,quantity,time_in_force''"

definition print_csv :: "(nat \<times> OrderRequest) list \<Rightarrow> string" where
  "print_csv rows = concat (map (\<lambda>l. l @ [newline]) (csv_header # map print_row rows))"

text \<open>The requests the format can express: no participant, and no fill-or-kill.\<close>

definition expressible :: "nat \<times> OrderRequest \<Rightarrow> bool" where
  "expressible tr = (case tr of (ts, req) \<Rightarrow> ts < 2 ^ 64 \<and> req_participant_id req = kNoParticipant
     \<and> req_time_in_force req \<noteq> FOK \<and> in_i64 (req_price req) \<and> in_i64 (req_quantity req))"

lemma show_nat_chars: "c \<in> set (show_nat n) \<Longrightarrow> is_digit c"
  using show_nat_digits(1) [of n] by (simp add: list_all_iff)

lemma show_int_chars: "c \<in> set (show_int i) \<Longrightarrow> is_digit c \<or> c = CHR ''-''"
  by (auto simp: show_int_def dest: show_nat_chars split: if_splits)

lemma to_string_chars:
  "set (to_string_Side sd) \<subseteq> set ''BUYSELL''" "set (to_string_OrderType ty) \<subseteq> set ''LIMITMARKET''"
  "set (to_string_TimeInForce tf) \<subseteq> set ''GTCIOCFOK''"
proof -
  show "set (to_string_Side sd) \<subseteq> set ''BUYSELL''" by (cases sd) auto
  show "set (to_string_OrderType ty) \<subseteq> set ''LIMITMARKET''" by (cases ty) auto
  show "set (to_string_TimeInForce tf) \<subseteq> set ''GTCIOCFOK''" by (cases tf) auto
qed

lemma row_chars:
  assumes "c = CHR '','' \<or> c = newline"
  shows "c \<notin> set (show_nat n)" "c \<notin> set (show_int i)" "c \<notin> set (to_string_Side sd)" "c \<notin> set (to_string_OrderType ty)"
    "c \<notin> set (to_string_TimeInForce tf)"
proof -
  have "\<not> is_digit c" "c \<noteq> CHR ''-''" using assms digit_not by auto
  then show "c \<notin> set (show_nat n)" "c \<notin> set (show_int i)" using show_nat_chars show_int_chars by blast+
  show "c \<notin> set (to_string_Side sd)" "c \<notin> set (to_string_OrderType ty)" "c \<notin> set (to_string_TimeInForce tf)"
    using assms to_string_chars(1) [of sd] to_string_chars(2) [of ty] to_string_chars(3) [of tf] by auto
qed

lemma parse_words:
  fixes w :: "'a :: len word"
  assumes "LENGTH('a) = n"
  shows "parse_number False 0 (2 ^ n - 1) (show_nat (unat w)) = Inr (uint w)"
proof -
  have "int (unat w) \<le> 2 ^ n - 1" using unsigned_less [of w, where 'a = int] assms by simp
  then show ?thesis using from_chars_nat [of "[]" 0 "unat w" "2 ^ n - 1" False] by (simp add: parse_number_def)
qed

lemma parse_row_print:
  assumes "expressible (ts, req)"
  shows "parse_row (print_row (ts, req)) = Inr req"
proof -
  let ?fs = "[show_nat (unat (req_client_order_id req)), show_nat ts, show_nat (unat (req_symbol req)), to_string_Side (req_side req),
     to_string_OrderType (req_type req), show_int (req_price req), show_int (req_quantity req), to_string_TimeInForce (req_time_in_force req)]"
  have sp: "split_fields (print_row (ts, req)) CHR '','' = ?fs"
    unfolding print_row_def prod.case by (rule split_join) (use row_chars [OF disjI1 [OF refl]] in auto)
  have ts: "parse_u64 (show_nat ts) = Inr (int ts)"
    using from_chars_nat [of "[]" 0 ts "2 ^ 64 - 1" False] assms by (simp add: parse_number_def expressible_def)
  have i: "parse_i64 (show_int i) = Inr i" if "in_i64 i" for i
    using from_chars_int [of "[]" "- i64_max - 1" i i64_max] that by (simp add: parse_number_def in_i64_def)
  have sd: "parse_side (to_string_Side sd) = Inr sd" for sd by (cases sd) (simp_all add: parse_side_def)
  have ty: "parse_type (to_string_OrderType ty) = Inr ty" for ty by (cases ty) (simp_all add: parse_type_def)
  have tf: "tf \<noteq> FOK \<Longrightarrow> parse_tif (to_string_TimeInForce tf) = Inr tf" for tf by (cases tf) (simp_all add: parse_tif_def)
  have "parse_u64 (show_nat (unat (req_client_order_id req))) = Inr (uint (req_client_order_id req))"
    "parse_u32 (show_nat (unat (req_symbol req))) = Inr (uint (req_symbol req))"
    using parse_words [of 64 "req_client_order_id req"] parse_words [of 32 "req_symbol req"] by simp_all
  then show ?thesis
    using assms ts i sd ty tf unfolding parse_row_def sp Let_def by (simp add: expressible_def)
qed

lemma getlines_lines:
  assumes "\<forall>l \<in> set ls. newline \<notin> set l"
  shows "getlines (concat (map (\<lambda>l. l @ [newline]) ls)) = ls"
  using assms
proof (induction ls)
  case Nil
  show ?case by (simp add: getlines.simps)
next
  case (Cons l ls)
  let ?rest = "concat (map (\<lambda>l. l @ [newline]) ls)"
  have "takeWhile (\<lambda>c. c \<noteq> newline) (l @ newline # ?rest) = l" "dropWhile (\<lambda>c. c \<noteq> newline) (l @ newline # ?rest) = newline # ?rest"
    using Cons.prems by (subst takeWhile_append2 dropWhile_append2; auto)+
  then show ?case using Cons by (subst getlines.simps) simp
qed

lemma print_row_shape:
  obtains d ds where "print_row (ts, req) = d # ds" "is_digit d" "last (d # ds) \<noteq> carriage_return" "newline \<notin> set (d # ds)"
proof -
  obtain d ds where d: "show_nat (unat (req_client_order_id req)) = d # ds" using show_nat_digits(2) by (metis neq_Nil_conv)
  then have "is_digit d" using show_nat_chars [of d] by (metis list.set_intros(1))
  moreover have "last (print_row (ts, req)) \<noteq> carriage_return"
    by (cases "req_time_in_force req") (simp_all add: print_row_def)
  moreover have "newline \<notin> set (print_row (ts, req))"
    using row_chars [OF disjI2 [OF refl]] by (simp add: print_row_def)
  ultimately show thesis using that d by (simp add: print_row_def)
qed

lemma load_rows:
  assumes "list_all expressible rows"
  shows "load_lines False (map print_row rows) = Inr (map snd rows)"
  using assms
proof (induction rows)
  case (Cons row rows)
  obtain ts req where row: "row = (ts, req)" by (cases row)
  obtain d ds where p: "print_row (ts, req) = d # ds" "is_digit d" "last (d # ds) \<noteq> carriage_return" "newline \<notin> set (d # ds)"
    by (rule print_row_shape)
  have "parse_row (d # ds) = Inr req" using parse_row_print [of ts req] Cons.prems row p(1) by simp
  then show ?case using Cons p row by (simp add: Let_def)
qed simp

lemma load_print:
  assumes "list_all expressible rows"
  shows "load_csv (Some (print_csv rows)) = Inr (map snd rows)"
proof -
  have "newline \<notin> set (print_row row)" for row
    by (cases row, rule print_row_shape [of "fst row" "snd row"]) simp
  then have "\<forall>l \<in> set (csv_header # map print_row rows). newline \<notin> set l"
    by (auto simp: csv_header_def)
  then have "getlines (print_csv rows) = csv_header # map print_row rows" unfolding print_csv_def by (rule getlines_lines)
  moreover have "csv_header \<noteq> []" "last csv_header \<noteq> carriage_return" "\<not> is_digit (hd csv_header)"
    by (simp_all add: csv_header_def is_digit_def)
  ultimately show ?thesis using load_rows [OF assms] by (simp add: load_csv_def)
qed

section \<open>Statistics\<close>

fun reports_of :: "book_res list \<Rightarrow> ExecutionReport list" where
  "reports_of [] = []"
| "reports_of (Report r # rs) = r # reports_of rs"
| "reports_of (Done _ # rs) = reports_of rs"

lemma replay_session:
  "foldM (replay_one C) orders (st, e, w) =
     map_option (\<lambda>(rs, e, w). (fold tally (reports_of rs) st, e, w)) (engine_run C (map Submit orders) e w)"
proof (induction orders arbitrary: st e w)
  case (Cons req orders)
  show ?case
  proof (cases "submit_order C req e w")
    case None
    then show ?thesis by (simp add: replay_one_def)
  next
    case (Some x)
    obtain r e1 w1 where x: "x = (r, e1, w1)" by (cases x)
    have "foldM (replay_one C) (req # orders) (st, e, w) = foldM (replay_one C) orders (tally r st, e1, w1)"
      using Some x by (simp add: replay_one_def)
    then show ?thesis using Some x Cons.IH by (cases "engine_run C (map Submit orders) e1 w1") auto
  qed
qed simp

lemma tally_counts:
  assumes "st' = fold tally reps st"
  shows "rs_total st' = rs_total st" "rs_accepted st' + rs_rejected st' = rs_accepted st + rs_rejected st + length reps"
    "rs_rejected st' = rs_rejected st + length (filter (\<lambda>r. r_status r = Rejected) reps)"
    "rs_filled st' = rs_filled st + length (filter (\<lambda>r. r_status r = Filled) reps)"
    "rs_partially_filled st' = rs_partially_filled st + length (filter (\<lambda>r. r_status r = PartiallyFilled) reps)"
  unfolding assms by (induction reps arbitrary: st) (auto simp: tally_def Let_def)

lemma reports_of_submits: "engine_run C (map Submit orders) e w = Some (rs, e', w') \<Longrightarrow> length (reports_of rs) = length orders"
  by (induction orders arbitrary: e w rs) (auto simp: bind_eq_Some_conv)

lemma replay_tally:
  assumes "replay C orders e w = Some (st, e', w')"
  shows "\<exists>rs w1. engine_run C (map Submit orders) e (snd (now_ns w)) = Some (rs, e', w1) \<and> w' = snd (now_ns w1)
    \<and> rs_total st = length orders \<and> rs_accepted st + rs_rejected st = length orders
    \<and> rs_rejected st = length (filter (\<lambda>r. r_status r = Rejected) (reports_of rs))
    \<and> rs_filled st = length (filter (\<lambda>r. r_status r = Filled) (reports_of rs))
    \<and> rs_partially_filled st = length (filter (\<lambda>r. r_status r = PartiallyFilled) (reports_of rs))
    \<and> rs_filled st + rs_partially_filled st \<le> rs_accepted st
    \<and> rs_elapsed st = sint (fst (now_ns w1) - fst (now_ns w))"
proof -
  let ?z = "\<lparr>rs_total = length orders, rs_accepted = 0, rs_rejected = 0, rs_filled = 0, rs_partially_filled = 0, rs_elapsed = 0\<rparr>"
  obtain rs w1 where run: "engine_run C (map Submit orders) e (snd (now_ns w)) = Some (rs, e', w1)" "w' = snd (now_ns w1)"
      "st = (fold tally (reports_of rs) ?z)\<lparr>rs_elapsed := sint (fst (now_ns w1) - fst (now_ns w))\<rparr>"
    using assms unfolding replay_def by (auto simp: replay_session split_def Let_def bind_eq_Some_conv)
  note counts = tally_counts [OF refl, of "reports_of rs" ?z] reports_of_submits [OF run(1)]
  have "length (filter (\<lambda>r. r_status r = Filled) xs) + length (filter (\<lambda>r. r_status r = PartiallyFilled) xs)
      + length (filter (\<lambda>r. r_status r = Rejected) xs) \<le> length xs" for xs
    by (induction xs) auto
  from this [of "reports_of rs"] counts show ?thesis using run by (intro exI [of _ rs] exI [of _ w1]) simp
qed

text \<open>The statistics that reports of submissions and the clock readings around them call for.\<close>

definition status_count :: "OrderStatus \<Rightarrow> ExecutionReport list \<Rightarrow> nat" where
  "status_count s reps = length (filter (\<lambda>r. r_status r = s) reps)"

definition stats_of_reports :: "ExecutionReport list \<Rightarrow> int \<Rightarrow> ReplayStats" where
  "stats_of_reports reps elapsed = \<lparr>rs_total = length reps, rs_accepted = length reps - status_count Rejected reps,
     rs_rejected = status_count Rejected reps, rs_filled = status_count Filled reps,
     rs_partially_filled = status_count PartiallyFilled reps, rs_elapsed = elapsed\<rparr>"

lemma replay_of_run:
  assumes "engine_run C (map Submit orders) e (snd (now_ns w)) = Some (rs, e', w1)"
  shows "replay C orders e w = Some (stats_of_reports (reports_of rs) (sint (fst (now_ns w1) - fst (now_ns w))), e', snd (now_ns w1))"
proof -
  obtain st where st: "replay C orders e w = Some (st, e', snd (now_ns w1))"
    using assms by (simp add: replay_def replay_session split_def Let_def)
  have "st = stats_of_reports (reports_of rs) (sint (fst (now_ns w1) - fst (now_ns w)))"
    using replay_tally [OF st] assms reports_of_submits [OF assms]
    by (intro ReplayStats.equality) (auto simp: stats_of_reports_def status_count_def)
  with st show ?thesis by simp
qed

section \<open>The replay's promises\<close>

text \<open>
  C34.  Parsing inverts printing: a file with the documented header and one line per order is read back as exactly
  the orders written, in order, for every order the format can express.
\<close>

theorem csv_roundtrip:
  assumes "list_all expressible rows"
  shows "load_csv (Some (print_csv rows)) = Inr (map snd rows)"
  using load_print [OF assms] .

definition sample_row :: "nat \<times> OrderRequest" where
  "sample_row = (17, \<lparr>req_client_order_id = 12, req_symbol = 1, req_participant_id = 0, req_side = Sell, req_type = Limit,
     req_price = 10050, req_quantity = 5, req_time_in_force = IOC\<rparr>)"

theorem csv_roundtrip_witness:
  "load_csv (Some (print_csv [sample_row, sample_row])) = Inr [snd sample_row, snd sample_row]"
  using csv_roundtrip [of "[sample_row, sample_row]"] by (simp add: sample_row_def expressible_def in_i64_def i64_max_def)

text \<open>
  A replay submits the orders of the file to the engine, in order, and its statistics tally the engine's reports:
  every order counts once as accepted or rejected, the filled and the partially filled ones among the accepted, and
  the elapsed time is the difference of the clock readings around the run.
\<close>

theorem replay_counts:
  assumes "replay C orders e w = Some (st, e', w')"
  shows "\<exists>rs w1. engine_run C (map Submit orders) e (snd (now_ns w)) = Some (rs, e', w1) \<and> w' = snd (now_ns w1)
    \<and> rs_total st = length orders \<and> rs_accepted st + rs_rejected st = length orders
    \<and> rs_rejected st = length (filter (\<lambda>r. r_status r = Rejected) (reports_of rs))
    \<and> rs_filled st = length (filter (\<lambda>r. r_status r = Filled) (reports_of rs))
    \<and> rs_partially_filled st = length (filter (\<lambda>r. r_status r = PartiallyFilled) (reports_of rs))
    \<and> rs_filled st + rs_partially_filled st \<le> rs_accepted st
    \<and> rs_elapsed st = sint (fst (now_ns w1) - fst (now_ns w))"
  using replay_tally [OF assms] .

theorem replay_counts_witness:
  "\<exists>st e' w'. replay (spec_class (\<lambda>mn mx. Inr (\<lambda>p. True) :: unit + (Price \<Rightarrow> bool))) [snd sample_row] (engine_new Map.empty)
      \<lparr>clock = of_nat, ticks = 0, events = []\<rparr> = Some (st, e', w') \<and> rs_accepted st + rs_rejected st = 1"
proof -
  obtain st e' w' where st: "replay (spec_class (\<lambda>mn mx. Inr (\<lambda>p. True) :: unit + (Price \<Rightarrow> bool))) [snd sample_row] (engine_new Map.empty)
      \<lparr>clock = of_nat, ticks = 0, events = []\<rparr> = Some (st, e', w')"
    by (simp add: replay_def replay_one_def submit_order_def engine_new_def now_ns_def)
  with replay_counts [OF st] show ?thesis by auto
qed

end
