(* ===== verification/Logger.thy ===== *)
theory Logger
  imports Lockfree_Queue Core_Types Format_Text "HOL-Library.Sublist"
begin

text \<open>
  \<open>include/lightninglob/logger.hpp\<close> and \<open>src/logger.cpp\<close>: the asynchronous logger.

  The calling thread pushes fixed-size records; the worker thread pops and writes them.  Calls of \<open>log\<close> and
  polls of the worker are the steps of a session and interleave freely (the ring makes their overlap
  harmless); the output stream is the string written so far.  The lemmas show that the output is exactly
  the accepted records in order, that what does not fit is counted as dropped, and what \<open>flush\<close> waits for.
\<close>

section \<open>Model\<close>

datatype LogLevel = Debug | Info | Warn | Error

fun level_value :: "LogLevel \<Rightarrow> nat" where
  "level_value Debug = 0"
| "level_value Info = 1"
| "level_value Warn = 2"
| "level_value Error = 3"

text \<open>The comparison of the enumerators is that of their values.\<close>

instantiation LogLevel :: linorder
begin

definition less_eq_LogLevel :: "LogLevel \<Rightarrow> LogLevel \<Rightarrow> bool" where
  "a \<le> b \<longleftrightarrow> level_value a \<le> level_value b"

definition less_LogLevel :: "LogLevel \<Rightarrow> LogLevel \<Rightarrow> bool" where
  "a < b \<longleftrightarrow> level_value a < level_value b"

instance
proof
  fix a b c :: LogLevel
  show "a = b" if "a \<le> b" "b \<le> a" using that by (cases a; cases b) (simp_all add: less_eq_LogLevel_def)
qed (auto simp: less_eq_LogLevel_def less_LogLevel_def)

end

fun to_string_LogLevel :: "LogLevel \<Rightarrow> string" where
  "to_string_LogLevel Debug = ''DEBUG''"
| "to_string_LogLevel Info = ''INFO''"
| "to_string_LogLevel Warn = ''WARN''"
| "to_string_LogLevel Error = ''ERROR''"

text \<open>\<open>char message[120]\<close> with a terminating zero.\<close>

record LogRecord =
  lr_timestamp :: Timestamp
  lr_level :: LogLevel
  lr_message :: string

definition message_size :: nat where
  "message_size = 120"

record Logger =
  lg_queue :: "LogRecord SpscRingBuffer"
  lg_min_level :: LogLevel
  lg_dropped :: u64
  lg_pushed_count :: u64
  lg_processed_count :: u64
  lg_out :: string

definition logger_new :: "nat \<Rightarrow> LogLevel \<Rightarrow> Logger" where
  "logger_new queue_capacity min_level =
     \<lparr>lg_queue = ring_new queue_capacity \<lparr>lr_timestamp = 0, lr_level = Info, lr_message = replicate message_size (CHR 0x00)\<rparr>,
      lg_min_level = min_level, lg_dropped = 0, lg_pushed_count = 0, lg_processed_count = 0, lg_out = []\<rparr>"

definition make_record :: "LogLevel \<Rightarrow> string \<Rightarrow> Timestamp \<Rightarrow> LogRecord" where
  "make_record level message ts =
     (let n = min (length message) (message_size - 1)
      in \<lparr>lr_timestamp = ts, lr_level = level, lr_message = take n message @ replicate (message_size - n) (CHR 0x00)\<rparr>)"

definition log_message :: "LogLevel \<Rightarrow> string \<Rightarrow> Logger \<Rightarrow> World \<Rightarrow> (Logger \<times> World) option" where
  "log_message level message lg w =
     (if level < lg_min_level lg then Some (lg, w)
      else do {
        let (ts, w) = now_ns w;
        (pushed, q) \<leftarrow> try_push (make_record level message ts) (lg_queue lg);
        Some (if pushed then lg\<lparr>lg_queue := q, lg_pushed_count := lg_pushed_count lg + 1\<rparr>
              else lg\<lparr>lg_queue := q, lg_dropped := lg_dropped lg + 1\<rparr>, w) })"

definition debug :: "string \<Rightarrow> Logger \<Rightarrow> World \<Rightarrow> (Logger \<times> World) option" where
  "debug msg = log_message Debug msg"

definition info :: "string \<Rightarrow> Logger \<Rightarrow> World \<Rightarrow> (Logger \<times> World) option" where
  "info msg = log_message Info msg"

definition warn :: "string \<Rightarrow> Logger \<Rightarrow> World \<Rightarrow> (Logger \<times> World) option" where
  "warn msg = log_message Warn msg"

definition error :: "string \<Rightarrow> Logger \<Rightarrow> World \<Rightarrow> (Logger \<times> World) option" where
  "error msg = log_message Error msg"

definition format_record :: "LogRecord \<Rightarrow> string" where
  "format_record rec = ''['' @ pad_left 14 (show_nat (unat (lr_timestamp rec))) @ ''ns] ['' @ pad_right 5 (to_string_LogLevel (lr_level rec))
     @ ''] '' @ takeWhile (\<lambda>c. c \<noteq> CHR 0x00) (lr_message rec) @ [CHR 0x0A]"

definition write_record :: "LogRecord \<Rightarrow> Logger \<Rightarrow> Logger" where
  "write_record rec lg = lg\<lparr>lg_out := lg_out lg @ format_record rec, lg_processed_count := lg_processed_count lg + 1\<rparr>"

text \<open>One iteration of the loop of \<open>worker_loop\<close>; the sleep of an empty poll has no effect on the state.\<close>

definition worker_poll :: "Logger \<Rightarrow> Logger option" where
  "worker_poll lg = do {
     (popped, q) \<leftarrow> try_pop (lg_queue lg);
     let lg = lg\<lparr>lg_queue := q\<rparr>;
     Some (case popped of None \<Rightarrow> lg | Some rec \<Rightarrow> write_record rec lg) }"

text \<open>The loop of \<open>worker_loop\<close> after the stop request.\<close>

partial_function (option) worker_drain :: "Logger \<Rightarrow> Logger option" where
  "worker_drain lg = do {
     (popped, q) \<leftarrow> try_pop (lg_queue lg);
     let lg = lg\<lparr>lg_queue := q\<rparr>;
     (case popped of None \<Rightarrow> Some lg | Some rec \<Rightarrow> worker_drain (write_record rec lg)) }"

text \<open>\<open>flush\<close> takes its target when it is called and waits while this holds.\<close>

definition flush_target :: "Logger \<Rightarrow> u64" where
  "flush_target lg = lg_pushed_count lg"

definition flush_waits :: "u64 \<Rightarrow> Logger \<Rightarrow> bool" where
  "flush_waits target lg \<longleftrightarrow> lg_processed_count lg < target"

definition dropped_count :: "Logger \<Rightarrow> u64" where
  "dropped_count lg = lg_dropped lg"

datatype log_event = Log LogLevel string | Poll

fun log_step :: "log_event \<Rightarrow> Logger \<times> World \<Rightarrow> (Logger \<times> World) option" where
  "log_step (Log level message) (lg, w) = log_message level message lg w"
| "log_step Poll (lg, w) = do { lg \<leftarrow> worker_poll lg; Some (lg, w) }"

section \<open>What has been logged\<close>

text \<open>\<open>logged lg recs d\<close>: the records accepted so far are \<open>recs\<close>, and \<open>d\<close> were dropped.\<close>

definition logged :: "Logger \<Rightarrow> LogRecord list \<Rightarrow> nat \<Rightarrow> bool" where
  "logged lg recs d \<longleftrightarrow> ring_ok (lg_queue lg) \<and> (\<exists>k \<le> length recs. items (lg_queue lg) = drop k recs
     \<and> lg_out lg = concat (map format_record (take k recs)) \<and> lg_processed_count lg = of_nat k)
     \<and> lg_pushed_count lg = of_nat (length recs) \<and> lg_dropped lg = of_nat d"

lemma logger_new_logged: "1 \<le> k \<Longrightarrow> k < 64 \<Longrightarrow> logged (logger_new (2 ^ k) lv) [] 0"
  using ring_new_ok [of k, where 'a = LogRecord] by (simp add: logged_def logger_new_def)

lemma log_message_logged:
  assumes lg: "logged lg recs d"
  shows "\<exists>lg' w'. log_message level message lg w = Some (lg', w') \<and> lg_min_level lg' = lg_min_level lg \<and>
    (if level < lg_min_level lg then logged lg' recs d
     else if length (items (lg_queue lg)) < ring_capacity (lg_queue lg) then logged lg' (recs @ [make_record level message (fst (now_ns w))]) d
     else logged lg' recs (Suc d))"
proof (cases "level < lg_min_level lg")
  case True
  then show ?thesis using lg by (simp add: log_message_def)
next
  case False
  let ?r = "make_record level message (fst (now_ns w))" and ?room = "length (items (lg_queue lg)) < ring_capacity (lg_queue lg)"
  have ok: "ring_ok (lg_queue lg)" using lg by (simp add: logged_def)
  from ring.push_law [OF ok, of ?r] obtain q where q: "try_push ?r (lg_queue lg) = Some (?room, q)" "ring_ok q"
    "items q = (if ?room then items (lg_queue lg) @ [?r] else items (lg_queue lg))" by blast
  obtain k where k: "k \<le> length recs" "items (lg_queue lg) = drop k recs" "lg_out lg = concat (map format_record (take k recs))"
    "lg_processed_count lg = of_nat k" using lg by (auto simp: logged_def)
  have run: "log_message level message lg w = Some (if ?room then lg\<lparr>lg_queue := q, lg_pushed_count := lg_pushed_count lg + 1\<rparr>
      else lg\<lparr>lg_queue := q, lg_dropped := lg_dropped lg + 1\<rparr>, snd (now_ns w))"
    using False q(1) by (simp add: log_message_def split_def Let_def)
  have "logged (lg\<lparr>lg_queue := q, lg_pushed_count := lg_pushed_count lg + 1\<rparr>) (recs @ [?r]) d" if ?room
    using that k q(2,3) lg by (auto simp: logged_def intro!: exI [of _ k])
  moreover have "logged (lg\<lparr>lg_queue := q, lg_dropped := lg_dropped lg + 1\<rparr>) recs (Suc d)" if "\<not> ?room"
    using that k q(2,3) lg by (auto simp: logged_def intro!: exI [of _ k])
  ultimately show ?thesis using False run by simp
qed

lemma pop_logged:
  assumes lg: "logged lg recs d"
  obtains popped q where "try_pop (lg_queue lg) = Some (popped, q)" "length (items q) = length (items (lg_queue lg)) - 1"
    "popped = None \<longleftrightarrow> items (lg_queue lg) = []"
    "logged (case popped of None \<Rightarrow> lg\<lparr>lg_queue := q\<rparr> | Some rec \<Rightarrow> write_record rec (lg\<lparr>lg_queue := q\<rparr>)) recs d"
proof -
  have ok: "ring_ok (lg_queue lg)" using lg by (simp add: logged_def)
  from ring.pop_law [OF ok] obtain q where q: "ring_ok q" "items q = tl (items (lg_queue lg))"
    "try_pop (lg_queue lg) = Some (if items (lg_queue lg) = [] then None else Some (hd (items (lg_queue lg))), q)" by blast
  obtain k where k: "k \<le> length recs" "items (lg_queue lg) = drop k recs" "lg_out lg = concat (map format_record (take k recs))"
    "lg_processed_count lg = of_nat k" using lg by (auto simp: logged_def)
  show thesis
  proof (rule that [OF q(3)])
    show "logged (case if items (lg_queue lg) = [] then None else Some (hd (items (lg_queue lg))) of
        None \<Rightarrow> lg\<lparr>lg_queue := q\<rparr> | Some rec \<Rightarrow> write_record rec (lg\<lparr>lg_queue := q\<rparr>)) recs d"
    proof (cases "k < length recs")
      case True
      then have "items (lg_queue lg) = recs ! k # drop (Suc k) recs" using k(2) by (simp add: Cons_nth_drop_Suc)
      then show ?thesis using lg k q(1,2) True
        by (auto simp: logged_def write_record_def take_Suc_conv_app_nth intro!: exI [of _ "Suc k"])
    next
      case False
      then show ?thesis using lg k q(1,2) by (auto simp: logged_def intro!: exI [of _ k])
    qed
  qed (use q(2) in auto)
qed

lemma worker_poll_logged:
  assumes "logged lg recs d"
  shows "\<exists>lg'. worker_poll lg = Some lg' \<and> logged lg' recs d \<and> lg_min_level lg' = lg_min_level lg
    \<and> length (items (lg_queue lg')) = length (items (lg_queue lg)) - 1"
proof -
  obtain popped q where "try_pop (lg_queue lg) = Some (popped, q)" "length (items q) = length (items (lg_queue lg)) - 1"
    "popped = None \<longleftrightarrow> items (lg_queue lg) = []"
    "logged (case popped of None \<Rightarrow> lg\<lparr>lg_queue := q\<rparr> | Some rec \<Rightarrow> write_record rec (lg\<lparr>lg_queue := q\<rparr>)) recs d"
    by (rule pop_logged [OF assms])
  then show ?thesis by (cases popped) (simp_all add: worker_poll_def write_record_def)
qed

text \<open>Draining writes everything that was accepted.\<close>

lemma worker_drain_logged:
  assumes "logged lg recs d"
  shows "\<exists>lg'. worker_drain lg = Some lg' \<and> logged lg' recs d \<and> items (lg_queue lg') = [] \<and> lg_out lg' = concat (map format_record recs)"
  using assms
proof (induction "length (items (lg_queue lg))" arbitrary: lg rule: less_induct)
  case less
  obtain popped q where p: "try_pop (lg_queue lg) = Some (popped, q)" "length (items q) = length (items (lg_queue lg)) - 1"
    "popped = None \<longleftrightarrow> items (lg_queue lg) = []"
    "logged (case popped of None \<Rightarrow> lg\<lparr>lg_queue := q\<rparr> | Some rec \<Rightarrow> write_record rec (lg\<lparr>lg_queue := q\<rparr>)) recs d"
    by (rule pop_logged [OF less.prems])
  show ?case
  proof (cases popped)
    case None
    then have lg: "logged (lg\<lparr>lg_queue := q\<rparr>) recs d" "items q = []" using p by auto
    then have "lg_out lg = concat (map format_record recs)" by (auto simp: logged_def)
    then show ?thesis using None p(1) lg by (subst worker_drain.simps) simp
  next
    case (Some rec)
    let ?lg = "write_record rec (lg\<lparr>lg_queue := q\<rparr>)"
    have "length (items (lg_queue ?lg)) < length (items (lg_queue lg))" using p(2,3) Some by (simp add: write_record_def)
    then show ?thesis using less.hyps [of ?lg] p(1,4) Some by (subst worker_drain.simps) simp
  qed
qed

lemma flush_complete:
  assumes start: "logged lg0 recs0 d0" and later: "logged lg (recs0 @ later_recs) d" and small: "length (recs0 @ later_recs) < 2 ^ 64"
    and fin: "\<not> flush_waits (flush_target lg0) lg"
  shows "\<exists>rest. lg_out lg = concat (map format_record recs0) @ rest"
proof -
  obtain k where k: "k \<le> length (recs0 @ later_recs)" "lg_out lg = concat (map format_record (take k (recs0 @ later_recs)))" "lg_processed_count lg = of_nat k"
    using later by (auto simp: logged_def)
  have "flush_target lg0 = of_nat (length recs0)" using start by (simp add: logged_def flush_target_def)
  moreover have "unat (of_nat n :: u64) = n" if "n < 2 ^ 64" for n using that by (simp add: unat_of_nat take_bit_nat_eq_self)
  ultimately have "length recs0 \<le> k"
    using fin k(1,3) small by (simp add: flush_waits_def not_less word_le_nat_alt)
  then show ?thesis using k(2) by simp
qed

text \<open>A whole session: every call that passes the level filter is either accepted, in order, or counted as dropped.\<close>

fun passing :: "LogLevel \<Rightarrow> log_event list \<Rightarrow> (LogLevel \<times> string) list" where
  "passing lv [] = []"
| "passing lv (Log level message # es) = (if level < lv then passing lv es else (level, message) # passing lv es)"
| "passing lv (Poll # es) = passing lv es"

text \<open>What the buffer of a message holds: its first 119 characters, filled up with zeros to 120.\<close>

definition text_of :: "LogLevel \<times> string \<Rightarrow> LogLevel \<times> string" where
  "text_of lm = (let shown = take 119 (snd lm) in (fst lm, shown @ replicate (120 - length shown) (CHR 0x00)))"

lemma text_of_record: "(lr_level (make_record lv m ts), lr_message (make_record lv m ts)) = text_of (lv, m)"
  by (auto simp: make_record_def text_of_def message_size_def Let_def min_def)

lemma log_session:
  assumes "logged lg recs d"
  shows "\<exists>lg' w' new n. foldM log_step es (lg, w) = Some (lg', w') \<and> logged lg' (recs @ new) (d + n)
    \<and> length new + n = length (passing (lg_min_level lg) es)
    \<and> subseq (map (\<lambda>r. (lr_level r, lr_message r)) new) (map text_of (passing (lg_min_level lg) es))"
  using assms
proof (induction es arbitrary: lg recs d w)
  case Nil
  then show ?case by auto
next
  case (Cons ev es)
  show ?case
  proof (cases ev)
    case Poll
    obtain lg1 where "worker_poll lg = Some lg1" "logged lg1 recs d" "lg_min_level lg1 = lg_min_level lg"
      using worker_poll_logged [OF Cons.prems] by blast
    then show ?thesis using Cons.IH [of lg1 recs d w] Poll by simp
  next
    case (Log level message)
    obtain lg1 w1 where lg1: "log_message level message lg w = Some (lg1, w1)" "lg_min_level lg1 = lg_min_level lg"
      "if level < lg_min_level lg then logged lg1 recs d
       else if length (items (lg_queue lg)) < ring_capacity (lg_queue lg) then logged lg1 (recs @ [make_record level message (fst (now_ns w))]) d
       else logged lg1 recs (Suc d)"
      using log_message_logged [OF Cons.prems, of level message w] by blast
    let ?r = "make_record level message (fst (now_ns w))"
    consider (filtered) "level < lg_min_level lg" "logged lg1 recs d"
      | (accepted) "\<not> level < lg_min_level lg" "logged lg1 (recs @ [?r]) d"
      | (lost) "\<not> level < lg_min_level lg" "logged lg1 recs (Suc d)"
      using lg1(3) by (auto split: if_splits)
    then show ?thesis
    proof cases
      case filtered
      then show ?thesis using Cons.IH [of lg1 recs d w1] lg1(1,2) Log by simp
    next
      case accepted
      obtain lg' w' new n where "foldM log_step es (lg1, w1) = Some (lg', w')" "logged lg' ((recs @ [?r]) @ new) (d + n)"
        "length new + n = length (passing (lg_min_level lg) es)"
        "subseq (map (\<lambda>r. (lr_level r, lr_message r)) new) (map text_of (passing (lg_min_level lg) es))"
        using Cons.IH [OF accepted(2), of w1] lg1(2) by auto
      then show ?thesis using accepted(1) lg1(1) Log text_of_record [of level message]
        by (intro exI [of _ lg'] exI [of _ w'] exI [of _ "?r # new"] exI [of _ n]) simp
    next
      case lost
      obtain lg' w' new n where "foldM log_step es (lg1, w1) = Some (lg', w')" "logged lg' (recs @ new) (Suc d + n)"
        "length new + n = length (passing (lg_min_level lg) es)"
        "subseq (map (\<lambda>r. (lr_level r, lr_message r)) new) (map text_of (passing (lg_min_level lg) es))"
        using Cons.IH [OF lost(2), of w1] lg1(2) by auto
      then show ?thesis using lost(1) lg1(1) Log
        by (intro exI [of _ lg'] exI [of _ w'] exI [of _ new] exI [of _ "Suc n"]) auto
    qed
  qed
qed

section \<open>The logger's promises\<close>

text \<open>
  Nothing is lost silently: in any interleaving of log calls with the worker's polls, every message at or
  above the level is either queued or counted as dropped, the queued ones keep their order, and when the logger
  shuts down the output is exactly the formatted records, in that order.
\<close>

theorem logger_accounts_for_messages:
  assumes "1 \<le> k" "k < 64"
  shows "\<exists>lg w' recs n lg'. foldM log_step es (logger_new (2 ^ k) lv, w) = Some (lg, w') \<and> dropped_count lg = of_nat n
    \<and> length recs + n = length (passing lv es)
    \<and> subseq (map (\<lambda>r. (lr_level r, lr_message r)) recs) (map text_of (passing lv es))
    \<and> worker_drain lg = Some lg' \<and> lg_out lg' = concat (map format_record recs)"
proof -
  have "lg_min_level (logger_new (2 ^ k) lv) = lv" by (simp add: logger_new_def)
  then obtain lg w' recs n where run: "foldM log_step es (logger_new (2 ^ k) lv, w) = Some (lg, w')" "logged lg recs n"
      "length recs + n = length (passing lv es)" "subseq (map (\<lambda>r. (lr_level r, lr_message r)) recs) (map text_of (passing lv es))"
    using log_session [OF logger_new_logged [OF assms, of lv], of es w] by auto
  moreover have "dropped_count lg = of_nat n" using run(2) by (simp add: logged_def dropped_count_def)
  moreover obtain lg' where "worker_drain lg = Some lg'" "lg_out lg' = concat (map format_record recs)"
    using worker_drain_logged [OF run(2)] by blast
  ultimately show ?thesis by blast
qed

theorem logger_accounts_for_messages_witness:
  "\<exists>lg w' (recs :: LogRecord list) n. foldM log_step [Log Info ''up'', Log Debug ''x'', Poll, Log Error ''down''] (logger_new (2 ^ 1) Info, \<lparr>clock = of_nat, ticks = 0, events = []\<rparr>)
      = Some (lg, w') \<and> dropped_count lg = of_nat n \<and> length recs + n = 2
    \<and> subseq (map (\<lambda>r. (lr_level r, lr_message r)) recs) (map text_of [(Info, ''up''), (Error, ''down'')])"
proof -
  have "passing Info [Log Info ''up'', Log Debug ''x'', Poll, Log Error ''down''] = [(Info, ''up''), (Error, ''down'')]" by (simp add: less_LogLevel_def)
  moreover have one_small: "(1 :: nat) < 64" by simp
  moreover obtain lg w' n and recs :: "LogRecord list" where "foldM log_step [Log Info ''up'', Log Debug ''x'', Poll, Log Error ''down'']
        (logger_new (2 ^ 1) Info, \<lparr>clock = of_nat, ticks = 0, events = []\<rparr>) = Some (lg, w')" "dropped_count lg = of_nat n"
      "length recs + n = length (passing Info [Log Info ''up'', Log Debug ''x'', Poll, Log Error ''down''])"
      "subseq (map (\<lambda>r. (lr_level r, lr_message r)) recs) (map text_of (passing Info [Log Info ''up'', Log Debug ''x'', Poll, Log Error ''down'']))"
    using logger_accounts_for_messages [of 1 "[Log Info ''up'', Log Debug ''x'', Poll, Log Error ''down'']" Info "\<lparr>clock = of_nat, ticks = 0, events = []\<rparr>", OF order_refl one_small] by blast
  moreover have "length [(Info, ''up''), (Error, ''down'')] = 2" by simp
  ultimately show ?thesis by (intro exI conjI) (assumption | simp only:)+
qed

end
