(* ===== verification/Logger_Threads.thy ===== *)
theory Logger_Threads
  imports Logger
begin

text \<open>
  The two threads of the logger (\<open>src/logger.cpp\<close>): the calling thread, which logs, flushes and at last destroys
  the logger, and the worker thread, which writes records until it is asked to stop and then drains the queue.

  A step is one access to what they share: the push of a record, the increment of one of the counters, the load
  of a counter in \<open>flush\<close>, the pop of a record, the write of a record, the request to stop.  The theorems hold
  for every interleaving: when \<open>flush\<close> returns everything accepted before it is in the output, and under every
  fair schedule the destructor returns, with every accepted record written and every other one counted.
\<close>

section \<open>Model\<close>

datatype log_command = Write LogLevel string | Flush

text \<open>
  \<open>Calling cs\<close>: between two calls, with \<open>cs\<close> still to come, the destructor after the last.  \<open>Counting\<close>: in \<open>log\<close>,
  after the push.  \<open>Flushing\<close>: in the loop of \<open>flush\<close>.  \<open>Closing\<close>: in the \<open>flush\<close> of the destructor.  \<open>Joining\<close>:
  in the destructor of the \<open>jthread\<close>, after the request to stop.
\<close>

datatype caller = Calling "log_command list" | Counting bool "log_command list" | Flushing u64 "log_command list"
  | Closing u64 | Joining | Destroyed

datatype worker = Polling | Writing LogRecord | Draining | WritingLast LogRecord | Ended

datatype log_actor = Caller | Worker

text \<open>\<open>lt_accepted\<close> and \<open>lt_refused\<close> are not part of the program: the records pushed so far, and how many were dropped.\<close>

record LoggerRun =
  lt_logger :: Logger
  lt_world :: World
  lt_caller :: caller
  lt_worker :: worker
  lt_stop :: bool
  lt_accepted :: "LogRecord list"
  lt_refused :: nat

definition log_start :: "nat \<Rightarrow> LogLevel \<Rightarrow> log_command list \<Rightarrow> World \<Rightarrow> LoggerRun" where
  "log_start queue_capacity min_level cs w = \<lparr>lt_logger = logger_new queue_capacity min_level, lt_world = w, lt_caller = Calling cs,
     lt_worker = Polling, lt_stop = False, lt_accepted = [], lt_refused = 0\<rparr>"

text \<open>The push in \<open>log\<close>.\<close>

definition push_record :: "LogLevel \<Rightarrow> string \<Rightarrow> log_command list \<Rightarrow> LoggerRun \<Rightarrow> LoggerRun option" where
  "push_record level message cs d = do {
     let lg = lt_logger d;
     let (ts, w) = now_ns (lt_world d);
     let rec = make_record level message ts;
     (pushed, q) \<leftarrow> try_push rec (lg_queue lg);
     Some (d\<lparr>lt_logger := lg\<lparr>lg_queue := q\<rparr>, lt_world := w, lt_caller := Counting pushed cs,
       lt_accepted := lt_accepted d @ (if pushed then [rec] else []), lt_refused := lt_refused d + (if pushed then 0 else 1)\<rparr>) }"

definition count_record :: "bool \<Rightarrow> Logger \<Rightarrow> Logger" where
  "count_record pushed lg = (if pushed then lg\<lparr>lg_pushed_count := lg_pushed_count lg + 1\<rparr> else lg\<lparr>lg_dropped := lg_dropped lg + 1\<rparr>)"

inductive lg_step :: "log_actor \<Rightarrow> LoggerRun \<Rightarrow> LoggerRun \<Rightarrow> bool" where
  filtered: "lt_caller d = Calling (Write level message # cs) \<Longrightarrow> level < lg_min_level (lt_logger d) \<Longrightarrow>
    lg_step Caller d (d\<lparr>lt_caller := Calling cs\<rparr>)"
| pushed: "lt_caller d = Calling (Write level message # cs) \<Longrightarrow> \<not> level < lg_min_level (lt_logger d) \<Longrightarrow>
    push_record level message cs d = Some d' \<Longrightarrow> lg_step Caller d d'"
| counted: "lt_caller d = Counting p cs \<Longrightarrow> lg_step Caller d (d\<lparr>lt_logger := count_record p (lt_logger d), lt_caller := Calling cs\<rparr>)"
| flush: "lt_caller d = Calling (Flush # cs) \<Longrightarrow> lg_step Caller d (d\<lparr>lt_caller := Flushing (flush_target (lt_logger d)) cs\<rparr>)"
| flush_wait: "lt_caller d = Flushing target cs \<Longrightarrow> flush_waits target (lt_logger d) \<Longrightarrow> lg_step Caller d d"
| flushed: "lt_caller d = Flushing target cs \<Longrightarrow> \<not> flush_waits target (lt_logger d) \<Longrightarrow> lg_step Caller d (d\<lparr>lt_caller := Calling cs\<rparr>)"
| close: "lt_caller d = Calling [] \<Longrightarrow> lg_step Caller d (d\<lparr>lt_caller := Closing (flush_target (lt_logger d))\<rparr>)"
| close_wait: "lt_caller d = Closing target \<Longrightarrow> flush_waits target (lt_logger d) \<Longrightarrow> lg_step Caller d d"
| request_stop: "lt_caller d = Closing target \<Longrightarrow> \<not> flush_waits target (lt_logger d) \<Longrightarrow>
    lg_step Caller d (d\<lparr>lt_stop := True, lt_caller := Joining\<rparr>)"
| joined: "lt_caller d = Joining \<Longrightarrow> lt_worker d = Ended \<Longrightarrow> lg_step Caller d (d\<lparr>lt_caller := Destroyed\<rparr>)"
| popped: "lt_worker d = Polling \<Longrightarrow> \<not> lt_stop d \<Longrightarrow> try_pop (lg_queue (lt_logger d)) = Some (Some rec, q) \<Longrightarrow>
    lg_step Worker d (d\<lparr>lt_logger := (lt_logger d)\<lparr>lg_queue := q\<rparr>, lt_worker := Writing rec\<rparr>)"
| slept: "lt_worker d = Polling \<Longrightarrow> \<not> lt_stop d \<Longrightarrow> try_pop (lg_queue (lt_logger d)) = Some (None, q) \<Longrightarrow> lg_step Worker d d"
| written: "lt_worker d = Writing rec \<Longrightarrow> lg_step Worker d (d\<lparr>lt_logger := write_record rec (lt_logger d), lt_worker := Polling\<rparr>)"
| stopped: "lt_worker d = Polling \<Longrightarrow> lt_stop d \<Longrightarrow> lg_step Worker d (d\<lparr>lt_worker := Draining\<rparr>)"
| drained: "lt_worker d = Draining \<Longrightarrow> try_pop (lg_queue (lt_logger d)) = Some (Some rec, q) \<Longrightarrow>
    lg_step Worker d (d\<lparr>lt_logger := (lt_logger d)\<lparr>lg_queue := q\<rparr>, lt_worker := WritingLast rec\<rparr>)"
| written_last: "lt_worker d = WritingLast rec \<Longrightarrow>
    lg_step Worker d (d\<lparr>lt_logger := write_record rec (lt_logger d), lt_worker := Draining\<rparr>)"
| ended: "lt_worker d = Draining \<Longrightarrow> try_pop (lg_queue (lt_logger d)) = Some (None, q) \<Longrightarrow> lg_step Worker d (d\<lparr>lt_worker := Ended\<rparr>)"

inductive lg_reach :: "LoggerRun \<Rightarrow> LoggerRun \<Rightarrow> bool" for d0 where
  start: "lg_reach d0 d0"
| step: "lg_reach d0 d \<Longrightarrow> lg_step a d d' \<Longrightarrow> lg_reach d0 d'"

inductive_cases caller_stepE: "lg_step Caller d d'"
inductive_cases worker_stepE: "lg_step Worker d d'"

section \<open>Accounts\<close>

text \<open>The record the worker holds, and the messages still to be logged.\<close>

fun held :: "worker \<Rightarrow> LogRecord list" where
  "held (Writing rec) = [rec]"
| "held (WritingLast rec) = [rec]"
| "held _ = []"

fun commands :: "caller \<Rightarrow> log_command list" where
  "commands (Calling cs) = cs"
| "commands (Counting p cs) = cs"
| "commands (Flushing target cs) = cs"
| "commands _ = []"

fun texts :: "LogLevel \<Rightarrow> log_command list \<Rightarrow> (LogLevel \<times> string) list" where
  "texts lv [] = []"
| "texts lv (Write level message # cs) = (if level < lv then texts lv cs else text_of (level, message) # texts lv cs)"
| "texts lv (Flush # cs) = texts lv cs"

definition record_text :: "LogRecord \<Rightarrow> LogLevel \<times> string" where
  "record_text rec = (lr_level rec, lr_message rec)"

definition uncounted :: "bool \<Rightarrow> caller \<Rightarrow> nat" where
  "uncounted p c = (case c of Counting p' cs \<Rightarrow> if p' = p then 1 else 0 | _ \<Rightarrow> 0)"

text \<open>
  The invariant: what was accepted is what has been written, what the worker holds and what waits in the queue,
  in this order; the counters lag behind by the record being counted; every loud message is accounted for.
\<close>

fun stopping :: "worker \<Rightarrow> bool" where
  "stopping Draining = True"
| "stopping (WritingLast rec) = True"
| "stopping Ended = True"
| "stopping _ = False"

fun target_ok :: "caller \<Rightarrow> nat \<Rightarrow> bool" where
  "target_ok (Flushing target cs) n = (target = of_nat n)"
| "target_ok (Closing target) n = (target = of_nat n)"
| "target_ok _ n = True"

definition queue_accounts :: "LoggerRun \<Rightarrow> bool" where
  "queue_accounts d \<longleftrightarrow> ring_ok (lg_queue (lt_logger d))
     \<and> (\<exists>out. lt_accepted d = out @ held (lt_worker d) @ items (lg_queue (lt_logger d))
          \<and> lg_out (lt_logger d) = concat (map format_record out) \<and> lg_processed_count (lt_logger d) = of_nat (length out))"

definition log_inv :: "LogLevel \<Rightarrow> log_command list \<Rightarrow> LoggerRun \<Rightarrow> bool" where
  "log_inv lv cs0 d \<longleftrightarrow> queue_accounts d \<and> lg_min_level (lt_logger d) = lv
     \<and> lg_pushed_count (lt_logger d) + of_nat (uncounted True (lt_caller d)) = of_nat (length (lt_accepted d))
     \<and> lg_dropped (lt_logger d) + of_nat (uncounted False (lt_caller d)) = of_nat (lt_refused d)
     \<and> length (lt_accepted d) + lt_refused d + length (texts lv (commands (lt_caller d))) = length (texts lv cs0)
     \<and> subseq (map record_text (lt_accepted d) @ texts lv (commands (lt_caller d))) (texts lv cs0)
     \<and> target_ok (lt_caller d) (length (lt_accepted d))
     \<and> (lt_stop d \<longleftrightarrow> lt_caller d = Joining \<or> lt_caller d = Destroyed)
     \<and> (stopping (lt_worker d) \<longrightarrow> lt_stop d)
     \<and> (lt_worker d = Ended \<longrightarrow> items (lg_queue (lt_logger d)) = [])
     \<and> (lt_caller d = Destroyed \<longrightarrow> lt_worker d = Ended)"

lemma record_text_make: "record_text (make_record level message ts) = text_of (level, message)"
  by (simp add: record_text_def text_of_record)

lemma subseq_skip: "subseq (xs @ y # ys) zs \<Longrightarrow> subseq (xs @ ys) zs"
  by (metis append.left_neutral append_Cons list_emb_append_mono subseq_order.dual_order.trans subseq_order.order_refl list_emb_Cons)

lemma uncounted_simps [simp]: "uncounted p (Calling cs) = 0" "uncounted p (Flushing t cs) = 0" "uncounted p (Closing t) = 0"
  "uncounted p Joining = 0" "uncounted p Destroyed = 0" "uncounted p (Counting p' cs) = (if p' = p then 1 else 0)"
  by (simp_all add: uncounted_def)

lemma log_start_inv: "1 \<le> k \<Longrightarrow> k < 64 \<Longrightarrow> log_inv lv cs (log_start (2 ^ k) lv cs w)"
  using ring_new_ok [of k, where 'a = LogRecord] by (simp add: log_inv_def queue_accounts_def log_start_def logger_new_def)

text \<open>A pop that yields a record takes the head of the queue.\<close>

lemma pop_cases:
  assumes "ring_ok q"
  obtains (empty) "items q = []" "\<And>r q'. try_pop q \<noteq> Some (Some r, q')" "\<exists>q'. try_pop q = Some (None, q')"
  | (head) r q' where "try_pop q = Some (Some r, q')" "ring_ok q'" "items q = r # items q'"
proof -
  from ring.pop_law [OF assms] obtain q' where q': "ring_ok q'" "items q' = tl (items q)"
    "try_pop q = Some (if items q = [] then None else Some (hd (items q)), q')" by blast
  then show thesis using empty head by (cases "items q") auto
qed

lemma push_record_inv:
  assumes inv: "log_inv lv cs0 d" and c: "lt_caller d = Calling (Write level message # cs)" and loud: "\<not> level < lv"
    and push: "push_record level message cs d = Some d'"
  shows "log_inv lv cs0 d'"
proof -
  let ?q = "lg_queue (lt_logger d)" and ?r = "make_record level message (fst (now_ns (lt_world d)))"
  have ok: "ring_ok ?q" using inv by (simp add: log_inv_def queue_accounts_def)
  from ring.push_law [OF ok, of ?r] obtain room q where q: "try_push ?r ?q = Some (room, q)" "ring_ok q"
    "items q = (if room then items ?q @ [?r] else items ?q)" by metis
  have d': "d' = d\<lparr>lt_logger := (lt_logger d)\<lparr>lg_queue := q\<rparr>, lt_world := snd (now_ns (lt_world d)), lt_caller := Counting room cs,
      lt_accepted := lt_accepted d @ (if room then [?r] else []), lt_refused := lt_refused d + (if room then 0 else 1)\<rparr>"
    using push q(1) by (simp add: push_record_def Let_def split_def)
  have "queue_accounts d'" using inv q(2,3) by (auto simp: d' log_inv_def queue_accounts_def)
  moreover have "\<not> lt_stop d" using inv c by (simp add: log_inv_def)
  moreover have "subseq (map record_text (lt_accepted d') @ texts lv cs) (texts lv cs0)"
  proof -
    have sub: "subseq (map record_text (lt_accepted d) @ text_of (level, message) # texts lv cs) (texts lv cs0)"
      using inv c loud by (simp add: log_inv_def)
    then show ?thesis using subseq_skip [OF sub] by (simp add: d' record_text_make)
  qed
  ultimately show ?thesis using inv c loud by (auto simp: d' log_inv_def)
qed

lemma lg_step_inv:
  assumes "lg_step a d d'" "log_inv lv cs0 d"
  shows "log_inv lv cs0 d'"
  using assms
proof (induction rule: lg_step.induct)
  case (pushed d level message cs d')
  then show ?case using push_record_inv [of lv cs0 d] by (auto simp: log_inv_def)
next
  case (counted d p cs)
  then show ?case by (cases p) (auto simp: log_inv_def queue_accounts_def count_record_def)
next
  case (popped d rec q)
  have "ring_ok (lg_queue (lt_logger d))" using popped(4) by (simp add: log_inv_def queue_accounts_def)
  then show ?case using popped by (cases rule: pop_cases) (auto simp: log_inv_def queue_accounts_def)
next
  case (drained d rec q)
  have "ring_ok (lg_queue (lt_logger d))" using drained(3) by (simp add: log_inv_def queue_accounts_def)
  then show ?case using drained by (cases rule: pop_cases) (auto simp: log_inv_def queue_accounts_def)
next
  case (ended d q)
  have "ring_ok (lg_queue (lt_logger d))" using ended(3) by (simp add: log_inv_def queue_accounts_def)
  then show ?case using ended by (cases rule: pop_cases) (auto simp: log_inv_def queue_accounts_def)
next
  case (written d rec)
  then obtain out where "lt_accepted d = out @ rec # items (lg_queue (lt_logger d))" "lg_out (lt_logger d) = concat (map format_record out)"
    "lg_processed_count (lt_logger d) = of_nat (length out)" by (auto simp: log_inv_def queue_accounts_def)
  then have "queue_accounts (d\<lparr>lt_logger := write_record rec (lt_logger d), lt_worker := Polling\<rparr>)"
    using written(2) by (auto simp: log_inv_def queue_accounts_def write_record_def intro!: exI [of _ "out @ [rec]"])
  then show ?case using written by (auto simp: log_inv_def write_record_def)
next
  case (written_last d rec)
  then obtain out where "lt_accepted d = out @ rec # items (lg_queue (lt_logger d))" "lg_out (lt_logger d) = concat (map format_record out)"
    "lg_processed_count (lt_logger d) = of_nat (length out)" by (auto simp: log_inv_def queue_accounts_def)
  then have "queue_accounts (d\<lparr>lt_logger := write_record rec (lt_logger d), lt_worker := Draining\<rparr>)"
    using written_last(2) by (auto simp: log_inv_def queue_accounts_def write_record_def intro!: exI [of _ "out @ [rec]"])
  then show ?case using written_last by (auto simp: log_inv_def write_record_def)
qed (auto simp: log_inv_def queue_accounts_def flush_target_def)

lemma lg_reach_inv: "lg_reach d0 d \<Longrightarrow> log_inv lv cs0 d0 \<Longrightarrow> log_inv lv cs0 d"
  by (induction rule: lg_reach.induct) (auto intro: lg_step_inv)

section \<open>Progress\<close>

fun caller_phase :: "caller \<Rightarrow> nat" where
  "caller_phase (Calling cs) = 4"
| "caller_phase (Counting p cs) = 5"
| "caller_phase (Flushing target cs) = 5"
| "caller_phase (Closing target) = 3"
| "caller_phase Joining = 2"
| "caller_phase Destroyed = 1"

fun worker_phase :: "worker \<Rightarrow> nat" where
  "worker_phase Polling = 3"
| "worker_phase (Writing rec) = 4"
| "worker_phase Draining = 1"
| "worker_phase (WritingLast rec) = 2"
| "worker_phase Ended = 0"

definition potential :: "LoggerRun \<Rightarrow> nat" where
  "potential d = 8 * length (commands (lt_caller d)) + caller_phase (lt_caller d)
     + 3 * length (items (lg_queue (lt_logger d))) + worker_phase (lt_worker d)"

text \<open>The states in which a step of a thread changes nothing.\<close>

fun waits :: "log_actor \<Rightarrow> LoggerRun \<Rightarrow> bool" where
  "waits Caller d = (case lt_caller d of Flushing target cs \<Rightarrow> flush_waits target (lt_logger d)
     | Closing target \<Rightarrow> flush_waits target (lt_logger d) | _ \<Rightarrow> False)"
| "waits Worker d = (lt_worker d = Polling \<and> \<not> lt_stop d \<and> items (lg_queue (lt_logger d)) = [])"

lemma push_record_potential:
  assumes "ring_ok (lg_queue (lt_logger d))" "lt_caller d = Calling (Write level message # cs)" "push_record level message cs d = Some d'"
  shows "potential d' < potential d"
proof -
  let ?q = "lg_queue (lt_logger d)" and ?r = "make_record level message (fst (now_ns (lt_world d)))"
  from ring.push_law [OF assms(1), of ?r] obtain room q where q: "try_push ?r ?q = Some (room, q)"
    "items q = (if room then items ?q @ [?r] else items ?q)" by metis
  then show ?thesis using assms(2,3) by (auto simp: push_record_def Let_def split_def potential_def)
qed

lemma lg_step_progress:
  assumes "lg_step a d d'" "log_inv lv cs0 d"
  shows "potential d' < potential d \<or> (d' = d \<and> waits a d)"
  using assms
proof (induction rule: lg_step.induct)
  case (pushed d level message cs d')
  then show ?case using push_record_potential by (simp add: log_inv_def queue_accounts_def)
next
  case (popped d rec q)
  have "ring_ok (lg_queue (lt_logger d))" using popped(4) by (simp add: log_inv_def queue_accounts_def)
  then show ?case using popped by (cases rule: pop_cases) (auto simp: potential_def)
next
  case (drained d rec q)
  have "ring_ok (lg_queue (lt_logger d))" using drained(3) by (simp add: log_inv_def queue_accounts_def)
  then show ?case using drained by (cases rule: pop_cases) (auto simp: potential_def)
next
  case (slept d q)
  have "ring_ok (lg_queue (lt_logger d))" using slept(4) by (simp add: log_inv_def queue_accounts_def)
  then show ?case using slept by (cases rule: pop_cases) auto
qed (auto simp: potential_def count_record_def write_record_def)

lemma worker_enabled:
  assumes "log_inv lv cs0 d" "lt_worker d \<noteq> Ended"
  shows "\<exists>d'. lg_step Worker d d'"
proof -
  have "ring_ok (lg_queue (lt_logger d))" using assms(1) by (simp add: log_inv_def queue_accounts_def)
  then show ?thesis using assms(2)
    by (cases "lt_worker d"; cases "lt_stop d"; cases rule: pop_cases) (blast intro: lg_step.intros)+
qed

lemma caller_enabled:
  assumes "log_inv lv cs0 d" "lt_caller d \<noteq> Destroyed" "lt_caller d = Joining \<longrightarrow> lt_worker d = Ended"
  shows "\<exists>d'. lg_step Caller d d'"
proof (cases "lt_caller d")
  case (Calling cs)
  show ?thesis
  proof (cases cs)
    case (Cons c cs')
    show ?thesis
    proof (cases c)
      case (Write level message)
      have ok: "ring_ok (lg_queue (lt_logger d))" using assms(1) by (simp add: log_inv_def queue_accounts_def)
      from ring.push_law [OF ok, of "make_record level message (fst (now_ns (lt_world d)))"]
      have "\<exists>d'. push_record level message cs' d = Some d'" by (auto simp: push_record_def Let_def split_def)
      then show ?thesis using Calling Cons Write lg_step.filtered lg_step.pushed by blast
    qed (use Calling Cons in \<open>blast intro: lg_step.flush\<close>)
  qed (use Calling in \<open>blast intro: lg_step.close\<close>)
next
  case (Flushing target cs)
  then show ?thesis by (cases "flush_waits target (lt_logger d)") (blast intro: lg_step.intros)+
next
  case (Closing target)
  then show ?thesis by (cases "flush_waits target (lt_logger d)") (blast intro: lg_step.intros)+
qed (use assms(2,3) in \<open>blast intro: lg_step.intros\<close>)+

section \<open>Fair schedules\<close>

definition lg_moves :: "log_actor \<Rightarrow> LoggerRun \<Rightarrow> LoggerRun \<Rightarrow> bool" where
  "lg_moves a d d' \<longleftrightarrow> lg_step a d d' \<or> (d' = d \<and> (\<nexists>e. lg_step a d e))"

definition lg_run :: "(nat \<Rightarrow> log_actor) \<Rightarrow> (nat \<Rightarrow> LoggerRun) \<Rightarrow> bool" where
  "lg_run sched run \<longleftrightarrow> (\<forall>i. lg_moves (sched i) (run i) (run (Suc i)))"

definition lg_fair :: "(nat \<Rightarrow> log_actor) \<Rightarrow> bool" where
  "lg_fair sched \<longleftrightarrow> (\<forall>a i. \<exists>j \<ge> i. sched j = a)"

text \<open>A state that neither thread changes any more is the end of the destructor.\<close>

lemma at_rest_destroyed:
  assumes inv: "log_inv lv cs0 d" and rest: "lg_moves Caller d d" "lg_moves Worker d d"
  shows "lt_caller d = Destroyed"
proof (rule ccontr)
  assume alive: "lt_caller d \<noteq> Destroyed"
  have w: "waits Worker d \<or> lt_worker d = Ended"
    using rest(2) worker_enabled [OF inv] lg_step_progress [OF _ inv] by (fastforce simp: lg_moves_def)
  have "waits Caller d \<or> (lt_caller d = Joining \<and> lt_worker d \<noteq> Ended)"
    using rest(1) alive caller_enabled [OF inv] lg_step_progress [OF _ inv] by (fastforce simp: lg_moves_def)
  then show False
  proof
    assume "waits Caller d"
    moreover have "lg_processed_count (lt_logger d) = of_nat (length (lt_accepted d))"
      using w inv by (auto simp: log_inv_def queue_accounts_def)
    ultimately show False using inv by (auto simp: log_inv_def flush_waits_def split: caller.splits)
  qed (use w inv in \<open>auto simp: log_inv_def\<close>)
qed

lemma lg_run_inv:
  assumes "lg_run sched run" "log_inv lv cs0 (run 0)"
  shows "log_inv lv cs0 (run i)"
proof (induction i)
  case (Suc i)
  then show ?case using assms(1) lg_step_inv by (metis lg_moves_def lg_run_def)
qed (rule assms(2))

lemma fair_run_destroys:
  assumes run: "lg_run sched run" and start: "log_inv lv cs0 (run 0)" and fair: "lg_fair sched"
  shows "\<exists>i. lt_caller (run i) = Destroyed"
proof -
  note inv = lg_run_inv [OF run start]
  obtain N where N: "\<And>i. potential (run N) \<le> potential (run i)"
    using ex_has_least_nat [of "\<lambda>_. True" 0 "\<lambda>i. potential (run i)"] by blast
  have same: "run i = run N" if "N \<le> i" for i
    using that
  proof (induction rule: dec_induct)
    case (step i)
    have "lg_moves (sched i) (run i) (run (Suc i))" using run by (simp add: lg_run_def)
    then show ?case using lg_step_progress [OF _ inv] N [of "Suc i"] step.IH by (auto simp: lg_moves_def not_less [symmetric])
  qed simp
  have "lg_moves a (run N) (run N)" for a
  proof -
    obtain j where "N \<le> j" "sched j = a" using fair by (auto simp: lg_fair_def)
    then show ?thesis using run same [of j] same [of "Suc j"] unfolding lg_run_def by (metis le_SucI)
  qed
  then show ?thesis using at_rest_destroyed [OF inv] by blast
qed

section \<open>The logger's promises\<close>

text \<open>
  C35.  The logger shuts down: under every fair schedule of the two threads the destructor returns, the output is
  the formatted accepted records in the order of the calls, and every message at or above the level that is not
  in it was counted as dropped.
\<close>

theorem logger_shuts_down:
  assumes "1 \<le> k" "k < 64" and "run 0 = log_start (2 ^ k) lv cs w" "lg_run sched run" "lg_fair sched"
  shows "\<exists>i lg recs. lt_caller (run i) = Destroyed \<and> lt_worker (run i) = Ended \<and> lg = lt_logger (run i)
    \<and> lg_out lg = concat (map format_record recs) \<and> subseq (map record_text recs) (texts lv cs)
    \<and> dropped_count lg = of_nat (length (texts lv cs) - length recs)"
proof -
  have start: "log_inv lv cs (run 0)" using log_start_inv [OF assms(1,2)] assms(3) by simp
  obtain i where i: "lt_caller (run i) = Destroyed" using fair_run_destroys [OF assms(4) start assms(5)] by blast
  note inv = lg_run_inv [OF assms(4) start, of i]
  have ended: "lt_worker (run i) = Ended" "items (lg_queue (lt_logger (run i))) = []" using inv i by (simp_all add: log_inv_def)
  then have "lg_out (lt_logger (run i)) = concat (map format_record (lt_accepted (run i)))"
    using inv by (auto simp: log_inv_def queue_accounts_def)
  moreover have "subseq (map record_text (lt_accepted (run i))) (texts lv cs)" using inv i by (simp add: log_inv_def)
  moreover have "lt_refused (run i) = length (texts lv cs) - length (lt_accepted (run i))" using inv i by (auto simp: log_inv_def)
  moreover have "dropped_count (lt_logger (run i)) = of_nat (lt_refused (run i))" using inv i by (simp add: log_inv_def dropped_count_def)
  ultimately have "lg_out (lt_logger (run i)) = concat (map format_record (lt_accepted (run i)))
    \<and> subseq (map record_text (lt_accepted (run i))) (texts lv cs)
    \<and> dropped_count (lt_logger (run i)) = of_nat (length (texts lv cs) - length (lt_accepted (run i)))" by simp
  then show ?thesis using i ended(1) by blast
qed

lemma lg_run_exists:
  obtains run where "run 0 = d" "lg_run sched run"
proof -
  have "\<exists>d'. lg_moves a d d'" for a d by (auto simp: lg_moves_def)
  then obtain f where "\<forall>n. (n = 0 \<longrightarrow> f n = d) \<and> lg_moves (sched n) (f n) (f (Suc n))"
    using dependent_nat_choice [of "\<lambda>n x. n = 0 \<longrightarrow> x = d" "\<lambda>n x y. lg_moves (sched n) x y"] by auto
  then show thesis using that by (auto simp: lg_run_def)
qed

definition alternating :: "nat \<Rightarrow> log_actor" where
  "alternating i = (if even i then Caller else Worker)"

lemma alternating_fair: "lg_fair alternating"
  unfolding lg_fair_def
proof (intro allI)
  fix a i
  show "\<exists>j \<ge> i. alternating j = a"
    by (cases a) (rule exI [of _ "2 * i"], simp add: alternating_def, rule exI [of _ "2 * i + 1"], simp add: alternating_def)
qed

theorem logger_shuts_down_witness:
  "\<exists>run (i :: nat) recs. run 0 = log_start (2 ^ 13) Info [Write Info ''up'', Flush, Write Debug ''x''] \<lparr>clock = of_nat, ticks = 0, events = []\<rparr>
    \<and> lg_run alternating run \<and> lg_fair alternating \<and> lt_caller (run i) = Destroyed \<and> lt_worker (run i) = Ended
    \<and> lg_out (lt_logger (run i)) = concat (map format_record recs) \<and> subseq (map record_text recs) [text_of (Info, ''up'')]
    \<and> dropped_count (lt_logger (run i)) = of_nat (1 - length recs)"
proof -
  let ?cs = "[Write Info ''up'', Flush, Write Debug ''x'']"
  let ?d = "log_start (2 ^ 13) Info ?cs \<lparr>clock = of_nat, ticks = 0, events = []\<rparr>"
  obtain run where run: "run 0 = ?d" "lg_run alternating run" using lg_run_exists .
  have texts: "texts Info ?cs = [text_of (Info, ''up'')]" by (simp add: less_LogLevel_def)
  have "\<exists>i recs. lt_caller (run i) = Destroyed \<and> lt_worker (run i) = Ended \<and> lg_out (lt_logger (run i)) = concat (map format_record recs)
    \<and> subseq (map record_text recs) [text_of (Info, ''up'')] \<and> dropped_count (lt_logger (run i)) = of_nat (1 - length recs)"
    using logger_shuts_down [OF _ _ run alternating_fair] unfolding texts by auto
  then show ?thesis using run alternating_fair by blast
qed

text \<open>
  C36.  \<open>flush\<close> means flushed: in every interleaving, when a call of \<open>flush\<close> returns, everything logged and accepted
  before it has been written.
\<close>

theorem flush_writes_everything:
  assumes "1 \<le> k" "k < 64" "length (texts lv cs) < 2 ^ 64" and "lg_reach (log_start (2 ^ k) lv cs w) d"
    and "lt_caller d = Flushing target cs'" "lg_step Caller d d'" "lt_caller d' = Calling cs'"
  shows "lg_out (lt_logger d') = concat (map format_record (lt_accepted d'))"
proof -
  have inv: "log_inv lv cs d" by (rule lg_reach_inv [OF assms(4) log_start_inv [OF assms(1,2)]])
  have d': "d' = d\<lparr>lt_caller := Calling cs'\<rparr>" "\<not> flush_waits target (lt_logger d)"
    using assms(6) by (cases; use assms(5,7) in auto)+
  obtain out rest where out: "lt_accepted d = out @ rest" "lg_out (lt_logger d) = concat (map format_record out)"
    "lg_processed_count (lt_logger d) = of_nat (length out)" using inv by (auto simp: log_inv_def queue_accounts_def)
  have unat: "unat (of_nat n :: u64) = n" if "n < 2 ^ 64" for n using that by (simp add: unat_of_nat take_bit_nat_eq_self)
  have "length (lt_accepted d) < 2 ^ 64" using inv assms(3) by (simp add: log_inv_def)
  then have "unat (of_nat (length (lt_accepted d)) :: u64) = length (lt_accepted d)" "unat (of_nat (length out) :: u64) = length out"
    by (rule unat, intro unat) (simp add: out(1))
  moreover have "target = of_nat (length (lt_accepted d))" using inv assms(5) by (simp add: log_inv_def)
  ultimately have "length (lt_accepted d) \<le> length out"
    using d'(2) out(3) by (simp add: flush_waits_def not_less word_le_nat_alt)
  then show ?thesis using out d'(1) by simp
qed

theorem flush_writes_everything_witness:
  "\<exists>d d' r. lg_reach (log_start (2 ^ 1) Info [Write Info ''up'', Flush] \<lparr>clock = of_nat, ticks = 0, events = []\<rparr>) d
    \<and> lg_step Caller d d' \<and> lt_accepted d' = [r] \<and> lg_out (lt_logger d') = format_record r"
proof -
  let ?d0 = "log_start (2 ^ 1) Info [Write Info ''up'', Flush] \<lparr>clock = of_nat, ticks = 0, events = []\<rparr>"
  let ?r = "make_record Info ''up'' 0"
  have ok: "ring_ok (lg_queue (lt_logger ?d0))" "items (lg_queue (lt_logger ?d0)) = []" "ring_capacity (lg_queue (lt_logger ?d0)) = 1"
    using ring_new_ok [of 1, where 'a = LogRecord] by (simp_all add: log_start_def logger_new_def ring_capacity_def ring_new_def)
  obtain q where q: "try_push ?r (lg_queue (lt_logger ?d0)) = Some (True, q)" "ring_ok q" "items q = [?r]"
    using ring.push_law [OF ok(1), of ?r] ok(2,3) by auto
  let ?d1 = "?d0\<lparr>lt_logger := (lt_logger ?d0)\<lparr>lg_queue := q\<rparr>, lt_world := \<lparr>clock = of_nat, ticks = 1, events = []\<rparr>,
    lt_caller := Counting True [Flush], lt_accepted := [?r]\<rparr>"
  let ?d2 = "?d1\<lparr>lt_logger := count_record True (lt_logger ?d1), lt_caller := Calling [Flush]\<rparr>"
  let ?d3 = "?d2\<lparr>lt_caller := Flushing (flush_target (lt_logger ?d2)) []\<rparr>"
  have "push_record Info ''up'' [Flush] ?d0 = Some ?d1" using q(1) by (simp add: push_record_def log_start_def now_ns_def)
  then have "lg_step Caller ?d0 ?d1" by (intro lg_step.pushed [of _ Info "''up''" "[Flush]"]) (simp_all add: log_start_def logger_new_def)
  moreover have "lg_step Caller ?d1 ?d2" by (rule lg_step.counted) simp
  moreover have "lg_step Caller ?d2 ?d3" by (rule lg_step.flush) simp
  ultimately have reach: "lg_reach ?d0 ?d3" by (meson lg_reach.intros)
  obtain q' where q': "try_pop q = Some (Some ?r, q')" using ring.pop_law [OF q(2)] q(3) by auto
  let ?d4 = "?d3\<lparr>lt_logger := (lt_logger ?d3)\<lparr>lg_queue := q'\<rparr>, lt_worker := Writing ?r\<rparr>"
  let ?d5 = "?d4\<lparr>lt_logger := write_record ?r (lt_logger ?d4), lt_worker := Polling\<rparr>"
  let ?d6 = "?d5\<lparr>lt_caller := Calling []\<rparr>"
  have "lg_step Worker ?d3 ?d4" using q' by (intro lg_step.popped) (simp_all add: log_start_def count_record_def)
  moreover have "lg_step Worker ?d4 ?d5" by (rule lg_step.written) simp
  ultimately have reach: "lg_reach ?d0 ?d5" using reach by (meson lg_reach.intros)
  have caller: "lt_caller ?d5 = Flushing (flush_target (lt_logger ?d2)) []" by simp
  have step: "lg_step Caller ?d5 ?d6" using caller
    by (rule lg_step.flushed) (simp add: flush_waits_def flush_target_def count_record_def write_record_def log_start_def logger_new_def)
  have "lg_out (lt_logger ?d6) = concat (map format_record (lt_accepted ?d6))"
    by (rule flush_writes_everything [OF _ _ _ reach caller step]) simp_all
  moreover have "lt_accepted ?d6 = [?r]" by simp
  ultimately have "lt_accepted ?d6 = [?r] \<and> lg_out (lt_logger ?d6) = format_record ?r" by simp
  then show ?thesis using reach step by blast
qed

end
