(* ===== verification/Command_Line.thy ===== *)
theory Command_Line
  imports Threaded_Demo Book_Print Book_Examples Replay Logger_Threads
begin

text \<open>
  \<open>src/main.cpp\<close>: the command line, the scripted walkthrough and the replay mode.

  A run of a mode is the list of its effects: lines handed to the logger, flushes, text for the two output streams.
  The scripted walkthrough drives an engine over an array book; trades reach the log through the trade callback.
  \<open>None\<close> stands for undefined behaviour or an exception nobody catches.
\<close>

section \<open>Texts\<close>

datatype effect = LogInfo string | FlushLog | Out string | Err string

definition usage :: "string \<Rightarrow> string" where
  "usage argv0 = ''Usage: '' @ argv0 @ '' [mode]'' @ [newline]
     @ ''  (no args)          run the scripted walkthrough demo'' @ [newline]
     @ ''  replay <csv path>  replay a historical order CSV through the engine'' @ [newline]
     @ ''  mt-demo            run the multi-threaded lock-free gateway demo'' @ [newline]
     @ ''  --help             show this message'' @ [newline]"

definition report_text :: "ExecutionReport \<Rightarrow> string" where
  "report_text rep = ''order '' @ show_nat (unat (r_order_id rep)) @ '' -> '' @ to_string_OrderStatus (r_status rep)
     @ '' filled='' @ show_int (r_filled_quantity rep) @ '' remaining='' @ show_int (r_remaining_quantity rep)
     @ '' reason='' @ to_string_RejectReason (r_reject_reason rep)"

definition trade_text :: "Trade \<Rightarrow> string" where
  "trade_text trade = ''TRADE symbol='' @ show_nat (unat (t_symbol trade)) @ '' price='' @ show_int (t_price trade)
     @ '' qty='' @ show_int (t_quantity trade) @ '' taker_order='' @ show_nat (unat (t_taker_order_id trade))
     @ '' maker_order='' @ show_nat (unat (t_maker_order_id trade)) @ '' taker_side='' @ to_string_Side (t_taker_side trade)"

section \<open>The scripted walkthrough\<close>

record Walk =
  wk_engine :: "OrderBookArray MatchingEngine"
  wk_world :: World
  wk_effects :: "effect list"

definition say :: "effect \<Rightarrow> Walk \<Rightarrow> Walk" where
  "say x wk = wk\<lparr>wk_effects := wk_effects wk @ [x]\<rparr>"

text \<open>A call into the engine; the callback logs every trade of the call.\<close>

definition observed :: "(OrderBookArray MatchingEngine \<Rightarrow> World \<Rightarrow> ('r \<times> OrderBookArray MatchingEngine \<times> World) option) \<Rightarrow> Walk \<Rightarrow> ('r \<times> Walk) option" where
  "observed call wk = do {
     (r, e, w) \<leftarrow> call (wk_engine wk) (wk_world wk);
     let trades = drop (length (events (wk_world wk))) (events w);
     Some (r, \<lparr>wk_engine = e, wk_world = w, wk_effects = wk_effects wk @ map (\<lambda>t. LogInfo (trade_text t)) trades\<rparr>) }"

definition walk_request :: "Side \<Rightarrow> OrderType \<Rightarrow> Price \<Rightarrow> Quantity \<Rightarrow> TimeInForce \<Rightarrow> OrderRequest" where
  "walk_request side type price qty tif = \<lparr>req_client_order_id = 0, req_symbol = 1, req_participant_id = kNoParticipant, req_side = side,
     req_type = type, req_price = price, req_quantity = qty, req_time_in_force = tif\<rparr>"

definition walk_submit :: "Side \<Rightarrow> OrderType \<Rightarrow> Price \<Rightarrow> Quantity \<Rightarrow> TimeInForce \<Rightarrow> Walk \<Rightarrow> (OrderId \<times> Walk) option" where
  "walk_submit side type price qty tif wk = do {
     (rep, wk) \<leftarrow> observed (submit_order arr_class (walk_request side type price qty tif)) wk;
     Some (r_order_id rep, say (LogInfo (report_text rep)) wk) }"

definition print_book :: "nat \<Rightarrow> Walk \<Rightarrow> Walk option" where
  "print_book depth wk = do {
     b \<leftarrow> book 1 (wk_engine wk);
     text \<leftarrow> arr_print depth b;
     Some (say (Out text) wk) }"

definition walk_limits :: SymbolRiskLimits where
  "walk_limits = \<lparr>max_position = 100000, max_order_size = 10000, max_orders_per_second = 100000\<rparr>"

definition walk_engine :: "range_error + OrderBookArray MatchingEngine" where
  "walk_engine = (case add_symbol arr_class 1 1 100000 4096 NoPrevention (engine_new Map.empty) of
     Inl err \<Rightarrow> Inl err
   | Inr e \<Rightarrow> Inr (engine_set_trade_callback True (set_risk_limits 1 kNoParticipant walk_limits e)))"

definition walk :: "OrderBookArray MatchingEngine \<Rightarrow> World \<Rightarrow> effect list option" where
  "walk e w = do {
     let wk = \<lparr>wk_engine = e, wk_world = w, wk_effects = [LogInfo ''LightningLOB scripted walkthrough starting'']\<rparr>;
     let wk = say (LogInfo ''--- resting some liquidity ---'') wk;
     (_, wk) \<leftarrow> walk_submit Buy Limit 9995 50 GTC wk;
     (_, wk) \<leftarrow> walk_submit Buy Limit 9990 100 GTC wk;
     (_, wk) \<leftarrow> walk_submit Sell Limit 10005 40 GTC wk;
     (_, wk) \<leftarrow> walk_submit Sell Limit 10010 80 GTC wk;
     let wk = say (Out [newline]) (say FlushLog wk);
     wk \<leftarrow> print_book 5 wk;
     let wk = say (LogInfo ''--- an order that crosses the spread ---'') wk;
     (_, wk) \<leftarrow> walk_submit Buy Limit 10005 60 GTC wk;
     let wk = say (LogInfo ''--- cancel + amend ---'') wk;
     (resting_id, wk) \<leftarrow> walk_submit Buy Limit 9980 30 GTC wk;
     (amend_report, wk) \<leftarrow> observed (amend_order arr_class 1 resting_id 15 None) wk;
     let wk = say (LogInfo (report_text amend_report)) wk;
     (cancelled, e) \<leftarrow> cancel_order arr_class 1 resting_id (wk_engine wk);
     let wk = say (LogInfo (''cancel of order '' @ show_nat (unat resting_id) @ '' -> '' @ (if cancelled then ''OK'' else ''FAILED'')))
       (wk\<lparr>wk_engine := e\<rparr>);
     let wk = say (LogInfo ''--- a market order sweep ---'') wk;
     (_, wk) \<leftarrow> walk_submit Sell Market kMarketOrderPrice 25 GTC wk;
     let wk = say (Out (newline # ''Final book:'' @ [newline])) (say FlushLog wk);
     wk \<leftarrow> print_book 5 wk;
     let pos = position 1 kNoParticipant (e_risk_manager (wk_engine wk));
     Some (wk_effects (say (Out (newline # ''Net position (symbol 1): '' @ show_int pos @ [newline])) wk)) }"

definition run_scripted_demo :: "World \<Rightarrow> effect list option" where
  "run_scripted_demo w = (case walk_engine of Inl _ \<Rightarrow> None | Inr e \<Rightarrow> walk e w)"

section \<open>The replay mode\<close>

text \<open>\<open>fmt_ms\<close> and \<open>fmt_rate\<close> print the elapsed milliseconds and the orders per second, floating-point numbers.\<close>

definition stats_text :: "(int \<Rightarrow> string) \<Rightarrow> (nat \<Rightarrow> int \<Rightarrow> string) \<Rightarrow> ReplayStats \<Rightarrow> nat \<Rightarrow> string" where
  "stats_text fmt_ms fmt_rate stats trade_count = newline # ''Replay complete:'' @ [newline]
     @ ''  orders processed:  '' @ show_nat (rs_total stats) @ [newline]
     @ ''  accepted:          '' @ show_nat (rs_accepted stats) @ [newline]
     @ ''  rejected:          '' @ show_nat (rs_rejected stats) @ [newline]
     @ ''  fully filled:      '' @ show_nat (rs_filled stats) @ [newline]
     @ ''  partially filled:  '' @ show_nat (rs_partially_filled stats) @ [newline]
     @ ''  trades generated:  '' @ show_nat trade_count @ [newline]
     @ ''  elapsed:           '' @ fmt_ms (rs_elapsed stats) @ '' ms'' @ [newline]
     @ ''  throughput:        '' @ fmt_rate (rs_total stats) (rs_elapsed stats) @ '' orders/sec'' @ [newline, newline]"

definition run_replay_mode :: "(string \<Rightarrow> string option) \<Rightarrow> (int \<Rightarrow> string) \<Rightarrow> (nat \<Rightarrow> int \<Rightarrow> string) \<Rightarrow> World \<Rightarrow> string
    \<Rightarrow> (effect list \<times> replay_error option) option" where
  "run_replay_mode files fmt_ms fmt_rate w path = do {
     let loading = [LogInfo (''loading replay data from '' @ path)];
     (case load_csv (files path) of
        Inl err \<Rightarrow> Some (loading, Some err)
      | Inr orders \<Rightarrow> do {
          let loaded = loading @ [LogInfo (''loaded '' @ show_nat (length orders) @ '' orders'')];
          e \<leftarrow> (case demo_book_engine of Inl _ \<Rightarrow> None | Inr e \<Rightarrow> Some (engine_set_trade_callback True e));
          (stats, e, w') \<leftarrow> replay arr_class orders e w;
          let trade_count = length (events w') - length (events w);
          b \<leftarrow> book 1 e;
          text \<leftarrow> arr_print 8 b;
          Some (loaded @ [FlushLog, Out (stats_text fmt_ms fmt_rate stats trade_count), Out text], None) }) }"

section \<open>Pinning and priority\<close>

text \<open>
  \<open>include/lightninglob/thread_affinity.hpp\<close>.  The operating system is a parameter: the type of CPU sets with its
  operations, and the return codes of the two calls for the calling thread.
\<close>

record 'cpus OS =
  cpu_zero :: 'cpus
  cpu_set :: "u32 \<Rightarrow> 'cpus \<Rightarrow> 'cpus"
  setaffinity :: "'cpus \<Rightarrow> int"
  setschedparam_fifo :: "int \<Rightarrow> int"

definition pin_current_thread_to_core :: "'cpus OS \<Rightarrow> u32 \<Rightarrow> bool" where
  "pin_current_thread_to_core os core_id \<longleftrightarrow> setaffinity os (cpu_set os core_id (cpu_zero os)) = 0"

definition set_current_thread_realtime_priority :: "'cpus OS \<Rightarrow> int \<Rightarrow> bool" where
  "set_current_thread_realtime_priority os priority \<longleftrightarrow> setschedparam_fifo os priority = 0"

definition bool_text :: "bool \<Rightarrow> string" where
  "bool_text b = (if b then ''true'' else ''false'')"

definition matching_thread_setup :: "'cpus OS \<Rightarrow> u32 \<Rightarrow> effect" where
  "matching_thread_setup os cores =
     (if cores > 1 then Out (''Matching thread: pinned to core 0 = '' @ bool_text (pin_current_thread_to_core os 0)
          @ '', SCHED_FIFO priority = '' @ bool_text (set_current_thread_realtime_priority os 10) @ [newline])
      else Out (''Matching thread: skipping pinning/real-time priority ('' @ show_nat (unat cores)
          @ '' core detected - would starve the producer threads competing for it; see docs/DESIGN.md)'' @ [newline]))"

text \<open>What the multi-threaded demo prints, given the state in which its matching thread has left the loop.\<close>

definition threaded_output :: "'cpus OS \<Rightarrow> u32 \<Rightarrow> (int \<Rightarrow> string) \<Rightarrow> (nat \<Rightarrow> int \<Rightarrow> string) \<Rightarrow> int
    \<Rightarrow> (OrderBookArray MatchingEngine \<times> World) Demo \<Rightarrow> effect list option" where
  "threaded_output os cores fmt_ms fmt_rate elapsed_ns d = do {
     b \<leftarrow> book 1 (fst (d_state d));
     Some [Out (''Multi-threaded demo: '' @ show_nat kProducers @ '' producer threads x '' @ show_nat kOrdersPerProducer
         @ '' orders each, 1 matching thread'' @ [newline]),
       matching_thread_setup os cores,
       Out (''Processed '' @ show_nat (unat (d_processed d)) @ '' orders in '' @ fmt_ms elapsed_ns @ '' ms (''
         @ fmt_rate (unat (d_processed d)) elapsed_ns @ '' orders/sec end-to-end through the lock-free gateway)'' @ [newline]),
       Out (''Final resting order count: '' @ show_nat (order_count b) @ [newline])] }"

section \<open>The command line\<close>

definition main_program :: "(string \<Rightarrow> (effect list \<times> replay_error option) option) \<Rightarrow> effect list option \<Rightarrow> effect list option
    \<Rightarrow> string \<Rightarrow> string list \<Rightarrow> (int \<times> effect list) option" where
  "main_program replay_mode threaded scripted argv0 args =
     (if args \<noteq> [] \<and> (hd args = ''--help'' \<or> hd args = ''-h'') then Some (0, [Out (usage argv0)])
      else if args \<noteq> [] \<and> hd args = ''replay'' then
        (if length args < 2 then Some (1, [Err (''replay mode requires a CSV path'' @ [newline]), Out (usage argv0)])
         else do {
           (effects, failure) \<leftarrow> replay_mode (args ! 1);
           (case failure of
              Some err \<Rightarrow> Some (1, effects @ [Err (''Replay failed: '' @ what_text (args ! 1) err @ [newline])])
            | None \<Rightarrow> Some (0, effects)) })
      else if args \<noteq> [] \<and> hd args = ''mt-demo'' then do { effects \<leftarrow> threaded; Some (0, effects) }
      else do { effects \<leftarrow> scripted; Some (0, effects) })"

section \<open>The engine along a session\<close>

fun engine_trace :: "('e, 'b) BookClass \<Rightarrow> engine_op list \<Rightarrow> 'b MatchingEngine \<Rightarrow> World
    \<Rightarrow> (book_res \<times> 'b MatchingEngine \<times> World) list option" where
  "engine_trace C [] e w = Some []"
| "engine_trace C (x # xs) e w = do {
     (r, e, w) \<leftarrow> engine_step C x e w;
     t \<leftarrow> engine_trace C xs e w;
     Some ((r, e, w) # t) }"

text \<open>The array engine passes through the states of the abstract engine.\<close>

definition shadows :: "(book_res \<times> OrderBookArray MatchingEngine \<times> World) \<Rightarrow> (book_res \<times> SpecBook MatchingEngine \<times> World) \<Rightarrow> bool" where
  "shadows x X \<longleftrightarrow> fst x = fst X \<and> snd (snd x) = snd (snd X) \<and> (\<exists>n. ae.sim n (fst (snd x)) (fst (snd X)))"

lemma engine_trace_shadows:
  assumes "ae.sim n e S" "session_allowed (spec_class price_band) xs S w" "n + length xs \<le> unat kNullIndex"
    and "engine_trace (spec_class price_band) xs S w = Some T"
  shows "\<exists>t. engine_trace arr_class xs e w = Some t \<and> list_all2 shadows t T"
  using assms
proof (induction xs arbitrary: n e S w T)
  case (Cons x xs)
  obtain r S1 w1 T1 where S1: "engine_step (spec_class price_band) x S w = Some (r, S1, w1)"
    "engine_trace (spec_class price_band) xs S1 w1 = Some T1" "T = (r, S1, w1) # T1"
    using Cons.prems(4) by (auto simp: bind_eq_Some_conv)
  obtain e1 where e1: "engine_step arr_class x e w = Some (r, e1, w1)" "ae.sim (Suc n) e1 S1"
    using ae.step_sim [OF Cons.prems(1) _ _ S1(1)] Cons.prems(2,3) by auto
  obtain t where "engine_trace arr_class xs e1 w1 = Some t" "list_all2 shadows t T1"
    using Cons.IH [OF e1(2) _ _ S1(2)] Cons.prems(2,3) S1(1) by auto
  moreover have "shadows (r, e1, w1) (r, S1, w1)" using e1(2) by (auto simp: shadows_def)
  ultimately show ?case using e1(1) S1(3) by simp
qed simp

definition walk_ops :: "engine_op list" where
  "walk_ops = [Submit (walk_request Buy Limit 9995 50 GTC), Submit (walk_request Buy Limit 9990 100 GTC),
     Submit (walk_request Sell Limit 10005 40 GTC), Submit (walk_request Sell Limit 10010 80 GTC),
     Submit (walk_request Buy Limit 10005 60 GTC), Submit (walk_request Buy Limit 9980 30 GTC), AmendIn 1 6 15 None, CancelIn 1 6,
     Submit (walk_request Sell Market kMarketOrderPrice 25 GTC)]"

definition walk_spec :: "SpecBook MatchingEngine" where
  "walk_spec = \<lparr>e_books = [1 \<mapsto> \<lparr>sb_book = empty_abook, sb_accepts = (\<lambda>p. 1 \<le> p \<and> p \<le> 100000), sb_stp = NoPrevention, sb_callback = True, sb_symbol = 1\<rparr>],
     e_risk_manager = [pack_key 1 kNoParticipant \<mapsto> fresh_state\<lparr>limits := walk_limits\<rparr>], e_next_order_id = 1, e_user_callback = True\<rparr>"

lemmas walk_eval = submit_order_def cancel_order_def amend_order_def book_call_def on_trade_def on_fill_def now_ns_def
  make_order_def spec_class_def walk_request_def walk_spec_def empty_abook_def
  fresh_state_def state_at_def no_limits_def u32_max_def kRateLimitWindowNs_def chk64_def in_i64_def i64_max_def

lemma digit_chars: "digit_char 0 = CHR ''0''" "digit_char 1 = CHR ''1''" "digit_char (Suc 0) = CHR ''1''" "digit_char 2 = CHR ''2''" "digit_char 3 = CHR ''3''"
  "digit_char 4 = CHR ''4''" "digit_char 5 = CHR ''5''" "digit_char 6 = CHR ''6''" "digit_char 7 = CHR ''7''" "digit_char 8 = CHR ''8''"
  "digit_char 9 = CHR ''9''"
  by (simp_all add: digit_char_def char_of_def bit_Suc_0_iff)

text \<open>
  The rate window of the walkthrough depends on the clock, but with a budget of a hundred thousand orders per second
  none of its few orders is refused for its rate: \<open>counted now st\<close> is the state after one more order, and
  \<open>few n st\<close> bounds the orders of the window.
\<close>

definition counted :: "Timestamp \<Rightarrow> SymbolParticipantState \<Rightarrow> SymbolParticipantState" where
  "counted now st = (let st = (if now - window_start st \<ge> kRateLimitWindowNs then st\<lparr>window_start := now, orders_in_window := 0\<rparr> else st)
     in st\<lparr>orders_in_window := orders_in_window st + 1\<rparr>)"

definition few :: "nat \<Rightarrow> SymbolParticipantState \<Rightarrow> bool" where
  "few n st \<longleftrightarrow> unat (orders_in_window st) \<le> n"

lemma counted_fields [simp]: "limits (counted now st) = limits st" "net_position (counted now st) = net_position st"
  by (simp_all add: counted_def Let_def)

lemma few_counted: "0 < n \<Longrightarrow> n < 100 \<Longrightarrow> few (n - 1) st \<Longrightarrow> few n (counted now st)"
  by (auto simp: few_def counted_def Let_def unat_word_ariths(1) intro: order_trans [OF mod_less_eq_dividend])

lemma few_fields: "few n (st\<lparr>net_position := x\<rparr>) = few n st" "few n \<lparr>limits = l, net_position = x, window_start = t, orders_in_window = 0\<rparr>"
  by (simp_all add: few_def)

lemma walk_check:
  assumes "rm (pack_key 1 kNoParticipant) = Some st" "limits st = walk_limits" "few 50 st" "0 \<le> q" "q \<le> 100" "\<bar>net_position st\<bar> \<le> 1000"
  shows "check_new_order 1 kNoParticipant side q now rm = Some (NoReason, rm(pack_key 1 kNoParticipant \<mapsto> counted now st))"
proof -
  let ?st = "if now - window_start st \<ge> kRateLimitWindowNs then st\<lparr>window_start := now, orders_in_window := 0\<rparr> else st"
  have st: "\<not> max_orders_per_second (limits ?st) \<le> orders_in_window ?st" using assms(2,3) by (simp add: walk_limits_def few_def word_le_nat_alt)
  have "in_i64 (signed_qty side q)" "in_i64 (net_position st + signed_qty side q)" "in_i64 (- max_position (limits st))"
    "\<bar>net_position st + signed_qty side q\<bar> \<le> max_position (limits st)" "q \<le> max_order_size (limits st)"
    using assms(2,4-6) by (auto simp: in_i64_def i64_max_def signed_qty_def walk_limits_def)
  then show ?thesis
    using check_new_order_cases [of rm 1 kNoParticipant st side q ?st now] assms(1) st by (simp add: counted_def Let_def)
qed

lemmas text_eval = trade_text_def report_text_def show_int_def show_nat.simps digit_chars

text \<open>What a reader of the trace sees of a step: the result, the trades so far, the table and the position.\<close>

definition trade_lines :: "World \<Rightarrow> string list" where
  "trade_lines w = map trade_text (events w)"

definition outcome :: "book_res \<times> 'b MatchingEngine \<times> World \<Rightarrow> book_res \<times> string list" where
  "outcome x = (fst x, trade_lines (snd (snd x)))"

definition table :: "nat \<Rightarrow> OrderBookArray MatchingEngine \<Rightarrow> string option" where
  "table k e = do { b \<leftarrow> book 1 e; arr_print k b }"

definition spec_table :: "nat \<Rightarrow> SpecBook MatchingEngine \<Rightarrow> string option" where
  "spec_table k S = do { B \<leftarrow> e_books S 1; Some (print_header ''direct-indexed array'' (sb_symbol B)
     @ print_rows (take k (depth_of (a_bids (sb_book B)))) (take k (depth_of (a_asks (sb_book B))))) }"

definition net :: "'b MatchingEngine \<Rightarrow> int" where
  "net e = position 1 kNoParticipant (e_risk_manager e)"

lemma shadows_same:
  assumes "shadows x X"
  shows "outcome x = outcome X" "table k (fst (snd x)) = spec_table k (fst (snd X))" "net (fst (snd x)) = net (fst (snd X))"
proof -
  obtain n where sim: "ae.sim n (fst (snd x)) (fst (snd X))" using assms by (auto simp: shadows_def)
  show "outcome x = outcome X" "net (fst (snd x)) = net (fst (snd X))" using assms sim by (simp_all add: outcome_def net_def shadows_def ae.sim_def)
  show "table k (fst (snd x)) = spec_table k (fst (snd X))"
  proof (cases "e_books (fst (snd X)) 1")
    case None
    then show ?thesis using ae.sim_none [OF sim, of 1] by (simp add: table_def spec_table_def book_def)
  next
    case (Some B)
    obtain b where b: "e_books (fst (snd x)) 1 = Some b" "arr_inv b" "B = ae.sb b" by (rule ae.sim_book [OF sim Some])
    then show ?thesis using Some prints_depth(3) [OF b(2), of k] by (simp add: table_def spec_table_def book_def ae.sb_def)
  qed
qed

definition views :: "(Price \<times> Quantity \<times> nat) list \<Rightarrow> PriceLevelView list" where
  "views xs = map (\<lambda>(p, q, n). \<lparr>v_price = p, v_total_quantity = q, v_order_count = of_nat n\<rparr>) xs"

definition first_table :: string where
  "first_table = print_header ''direct-indexed array'' 1
     @ print_rows (views [(9995, 50, 1), (9990, 100, 1)]) (views [(10005, 40, 1), (10010, 80, 1)])"

definition final_table :: string where
  "final_table = print_header ''direct-indexed array'' 1 @ print_rows (views [(9995, 45, 1), (9990, 100, 1)]) (views [(10010, 80, 1)])"

definition walk_trades :: "string list" where
  "walk_trades = [''TRADE symbol=1 price=10005 qty=40 taker_order=5 maker_order=3 taker_side=BUY'',
     ''TRADE symbol=1 price=10005 qty=20 taker_order=7 maker_order=5 taker_side=SELL'',
     ''TRADE symbol=1 price=9995 qty=5 taker_order=7 maker_order=1 taker_side=SELL'']"

definition walk_outcomes :: "(book_res \<times> string list) list" where
  "walk_outcomes =
     [(Report (report 1 New 0 50 NoReason), []), (Report (report 2 New 0 100 NoReason), []), (Report (report 3 New 0 40 NoReason), []),
      (Report (report 4 New 0 80 NoReason), []), (Report (report 5 PartiallyFilled 40 20 NoReason), take 1 walk_trades),
      (Report (report 6 New 0 30 NoReason), take 1 walk_trades), (Report (report 6 New 0 15 NoReason), take 1 walk_trades),
      (Done True, take 1 walk_trades), (Report (report 7 Filled 25 0 NoReason), walk_trades)]"

lemma walk_spec_trace:
  "\<exists>T. engine_trace (spec_class price_band) walk_ops walk_spec \<lparr>clock = c, ticks = n, events = []\<rparr> = Some T \<and> map outcome T = walk_outcomes
     \<and> spec_table 5 (fst (snd (T ! 3))) = Some first_table \<and> spec_table 5 (fst (snd (T ! 8))) = Some final_table \<and> net (fst (snd (T ! 8))) = 0"
  by (simp add: walk_ops_def walk_eval spec_eval walk_check few_counted few_fields,
    simp add: outcome_def trade_lines_def spec_table_def net_def walk_outcomes_def walk_trades_def first_table_def final_table_def text_eval views_def position_def volume_def)

lemma walk_allowed: "session_allowed (spec_class price_band) walk_ops walk_spec \<lparr>clock = c, ticks = n, events = []\<rparr>"
  by (simp add: walk_ops_def walk_eval spec_eval walk_check few_counted few_fields submit_allowed_def allowed_eval kMarketOrderPrice_def)

lemma walk_engine_sim:
  obtains e where "walk_engine = Inr e" "ae.sim 0 e walk_spec"
proof -
  let ?S = "(engine_new Map.empty)\<lparr>e_books := e_books walk_spec\<rparr>"
  have "add_symbol (spec_class price_band) 1 1 100000 4096 NoPrevention (engine_new Map.empty) = Inr ?S"
    by (simp add: add_symbol_def spec_class_def price_band_def engine_new_def walk_spec_def)
  then obtain e where e: "add_symbol arr_class 1 1 100000 4096 NoPrevention (engine_new Map.empty) = Inr e" "ae.sim 0 e ?S"
    using ae.add_symbol_sim [OF ae.new_sim, of 100000 1 1 4096 NoPrevention Map.empty] by (auto simp: i64_max_def)
  let ?e = "engine_set_trade_callback True (set_risk_limits 1 kNoParticipant walk_limits e)"
  have "walk_engine = Inr ?e" using e(1) by (simp add: walk_engine_def)
  moreover have "ae.sim 0 ?e walk_spec" using e(2)
    by (auto simp: ae.sim_def engine_set_trade_callback_def set_risk_limits_def set_limits_def walk_spec_def engine_new_def state_at_def)
  ultimately show thesis by (rule that)
qed

definition walk_transcript :: "effect list" where
  "walk_transcript =
    [LogInfo ''LightningLOB scripted walkthrough starting'',
     LogInfo ''--- resting some liquidity ---'',
     LogInfo ''order 1 -> NEW filled=0 remaining=50 reason=NONE'',
     LogInfo ''order 2 -> NEW filled=0 remaining=100 reason=NONE'',
     LogInfo ''order 3 -> NEW filled=0 remaining=40 reason=NONE'',
     LogInfo ''order 4 -> NEW filled=0 remaining=80 reason=NONE'',
     FlushLog, Out [newline],
     Out first_table,
     LogInfo ''--- an order that crosses the spread ---'',
     LogInfo ''TRADE symbol=1 price=10005 qty=40 taker_order=5 maker_order=3 taker_side=BUY'',
     LogInfo ''order 5 -> PARTIALLY_FILLED filled=40 remaining=20 reason=NONE'',
     LogInfo ''--- cancel + amend ---'',
     LogInfo ''order 6 -> NEW filled=0 remaining=30 reason=NONE'',
     LogInfo ''order 6 -> NEW filled=0 remaining=15 reason=NONE'',
     LogInfo ''cancel of order 6 -> OK'',
     LogInfo ''--- a market order sweep ---'',
     LogInfo ''TRADE symbol=1 price=10005 qty=20 taker_order=7 maker_order=5 taker_side=SELL'',
     LogInfo ''TRADE symbol=1 price=9995 qty=5 taker_order=7 maker_order=1 taker_side=SELL'',
     LogInfo ''order 7 -> FILLED filled=25 remaining=0 reason=NONE'',
     FlushLog, Out (newline # ''Final book:'' @ [newline]),
     Out final_table,
     Out (newline # ''Net position (symbol 1): 0'' @ [newline])]"

lemma report_texts:
  "report_text (report 1 New 0 50 NoReason) = ''order 1 -> NEW filled=0 remaining=50 reason=NONE''"
  "report_text (report 2 New 0 100 NoReason) = ''order 2 -> NEW filled=0 remaining=100 reason=NONE''"
  "report_text (report 3 New 0 40 NoReason) = ''order 3 -> NEW filled=0 remaining=40 reason=NONE''"
  "report_text (report 4 New 0 80 NoReason) = ''order 4 -> NEW filled=0 remaining=80 reason=NONE''"
  "report_text (report 5 PartiallyFilled 40 20 NoReason) = ''order 5 -> PARTIALLY_FILLED filled=40 remaining=20 reason=NONE''"
  "report_text (report 6 New 0 30 NoReason) = ''order 6 -> NEW filled=0 remaining=30 reason=NONE''"
  "report_text (report 6 New 0 15 NoReason) = ''order 6 -> NEW filled=0 remaining=15 reason=NONE''"
  "report_text (report 7 Filled 25 0 NoReason) = ''order 7 -> FILLED filled=25 remaining=0 reason=NONE''"
  by (simp_all add: text_eval)

lemma observed_outcome:
  "observed call wk = do {
     (r, e, w) \<leftarrow> call (wk_engine wk) (wk_world wk);
     Some (r, \<lparr>wk_engine = e, wk_world = w, wk_effects = wk_effects wk
       @ map LogInfo (drop (length (trade_lines (wk_world wk))) (trade_lines w))\<rparr>) }"
  by (simp add: observed_def trade_lines_def drop_map comp_def)

lemma print_book_table: "print_book k wk = do { text \<leftarrow> table k (wk_engine wk); Some (say (Out text) wk) }"
  by (simp add: print_book_def table_def)

lemma walk_trace:
  assumes "ae.sim 0 e walk_spec" "events w = []"
  obtains t where "engine_trace arr_class walk_ops e w = Some t" "map outcome t = walk_outcomes"
    "table 5 (fst (snd (t ! 3))) = Some first_table" "table 5 (fst (snd (t ! 8))) = Some final_table" "net (fst (snd (t ! 8))) = 0"
proof -
  have w: "w = \<lparr>clock = clock w, ticks = ticks w, events = []\<rparr>" using assms(2) by simp
  obtain T where T: "engine_trace (spec_class price_band) walk_ops walk_spec w = Some T" "map outcome T = walk_outcomes"
     "spec_table 5 (fst (snd (T ! 3))) = Some first_table" "spec_table 5 (fst (snd (T ! 8))) = Some final_table" "net (fst (snd (T ! 8))) = 0"
    using walk_spec_trace [of "clock w" "ticks w", folded w] by blast
  have "0 + length walk_ops \<le> unat kNullIndex" by (simp add: walk_ops_def unat_null)
  then obtain t where t: "engine_trace arr_class walk_ops e w = Some t" "list_all2 shadows t T"
    using engine_trace_shadows [OF assms(1) walk_allowed [of "clock w" "ticks w", folded w] _ T(1)] by blast
  have "length (map outcome T) = 9" unfolding T(2) by (simp add: walk_outcomes_def)
  then have nth: "shadows (t ! 3) (T ! 3)" "shadows (t ! 8) (T ! 8)" using t(2) by (auto simp: list_all2_conv_all_nth)
  have "map outcome t = map outcome T"
    using t(2) by (intro nth_equalityI) (auto simp: list_all2_conv_all_nth shadows_same(1))
  then show thesis using T(2-5) shadows_same(2,3) [OF nth(1)] shadows_same(2,3) [OF nth(2)] by (intro that [OF t(1)]) simp_all
qed

text \<open>
  C38.  The scripted walkthrough does what its captions say: it logs exactly this transcript, with the trades, fills,
  amendment and cancellation in it, prints these two books, and leaves a flat position.  This holds whatever the clock says: no order of the walkthrough
  is refused for its rate.
\<close>

theorem scripted_demo_transcript: "run_scripted_demo \<lparr>clock = now, ticks = n, events = []\<rparr> = Some walk_transcript"
proof -
  define w where "w = \<lparr>clock = now, ticks = n, events = []\<rparr>"
  have quiet: "events w = []" "trade_lines w = []" by (simp_all add: w_def trade_lines_def)
  obtain e where e: "walk_engine = Inr e" "ae.sim 0 e walk_spec" by (rule walk_engine_sim)
  obtain t where t: "engine_trace arr_class walk_ops e w = Some t" "map outcome t = walk_outcomes"
    "table 5 (fst (snd (t ! 3))) = Some first_table" "table 5 (fst (snd (t ! 8))) = Some final_table" "net (fst (snd (t ! 8))) = 0"
    by (rule walk_trace [OF e(2) quiet(1)])
  obtain e1 e2 e3 e4 e5 e6 e7 e8 e9 w1 w2 w3 w4 w5 w6 w7 w8 w9 where
    t': "t = [(Report (report 1 New 0 50 NoReason), e1, w1), (Report (report 2 New 0 100 NoReason), e2, w2),
        (Report (report 3 New 0 40 NoReason), e3, w3), (Report (report 4 New 0 80 NoReason), e4, w4),
        (Report (report 5 PartiallyFilled 40 20 NoReason), e5, w5), (Report (report 6 New 0 30 NoReason), e6, w6),
        (Report (report 6 New 0 15 NoReason), e7, w7), (Done True, e8, w8), (Report (report 7 Filled 25 0 NoReason), e9, w9)]"
    and ev: "trade_lines w1 = []" "trade_lines w2 = []" "trade_lines w3 = []" "trade_lines w4 = []"
      "trade_lines w5 = take 1 walk_trades" "trade_lines w6 = take 1 walk_trades" "trade_lines w7 = take 1 walk_trades"
      "trade_lines w8 = take 1 walk_trades" "trade_lines w9 = walk_trades"
    using t(2) unfolding walk_outcomes_def map_eq_Cons_conv outcome_def by auto
  have steps: "submit_order arr_class (walk_request Buy Limit 9995 50 GTC) e w = Some (report 1 New 0 50 NoReason, e1, w1)"
    "submit_order arr_class (walk_request Buy Limit 9990 100 GTC) e1 w1 = Some (report 2 New 0 100 NoReason, e2, w2)"
    "submit_order arr_class (walk_request Sell Limit 10005 40 GTC) e2 w2 = Some (report 3 New 0 40 NoReason, e3, w3)"
    "submit_order arr_class (walk_request Sell Limit 10010 80 GTC) e3 w3 = Some (report 4 New 0 80 NoReason, e4, w4)"
    "submit_order arr_class (walk_request Buy Limit 10005 60 GTC) e4 w4 = Some (report 5 PartiallyFilled 40 20 NoReason, e5, w5)"
    "submit_order arr_class (walk_request Buy Limit 9980 30 GTC) e5 w5 = Some (report 6 New 0 30 NoReason, e6, w6)"
    "amend_order arr_class 1 6 15 None e6 w6 = Some (report 6 New 0 15 NoReason, e7, w7)"
    "cancel_order arr_class 1 6 e7 = Some (True, e8)"
    "submit_order arr_class (walk_request Sell Market kMarketOrderPrice 25 GTC) e8 w7 = Some (report 7 Filled 25 0 NoReason, e9, w9)"
    using t(1) unfolding t' by (auto simp: walk_ops_def bind_eq_Some_conv)
  have seen: "table 5 e4 = Some first_table" "table 5 e9 = Some final_table" "position 1 kNoParticipant (e_risk_manager e9) = 0"
    using t(3-5) unfolding t' by (simp_all add: net_def)
  have numbers: "show_nat 6 = ''6''" "show_int 0 = ''0''" by (simp_all add: text_eval)
  show ?thesis unfolding w_def [symmetric]
    by (simp add: run_scripted_demo_def e(1) walk_def walk_submit_def observed_outcome print_book_table say_def steps seen ev quiet
      report_texts numbers walk_trades_def walk_transcript_def)
qed

section \<open>Replaying a file\<close>

text \<open>The abstract engine the replay mode starts with.\<close>

definition replay_spec :: "SpecBook MatchingEngine" where
  "replay_spec = \<lparr>e_books = [1 \<mapsto> \<lparr>sb_book = empty_abook, sb_accepts = (\<lambda>p. 1 \<le> p \<and> p \<le> 200000), sb_stp = NoPrevention, sb_callback = True, sb_symbol = 1\<rparr>],
     e_risk_manager = Map.empty, e_next_order_id = 1, e_user_callback = True\<rparr>"

lemma replay_engine_sim:
  obtains e where "demo_book_engine = Inr e" "ae.sim 0 (engine_set_trade_callback True e) replay_spec"
proof -
  let ?S = "(engine_new Map.empty)\<lparr>e_books := e_books replay_spec\<rparr>"
  have "add_symbol (spec_class price_band) 1 1 200000 4096 NoPrevention (engine_new Map.empty) = Inr ?S"
    by (simp add: add_symbol_def spec_class_def price_band_def engine_new_def replay_spec_def)
  then obtain e where e: "demo_book_engine = Inr e" "ae.sim 0 e ?S"
    using ae.add_symbol_sim [OF ae.new_sim, of 200000 1 1 4096 NoPrevention Map.empty] by (auto simp: demo_book_engine_def i64_max_def)
  have "ae.sim 0 (engine_set_trade_callback True e) replay_spec" using e(2)
    by (auto simp: ae.sim_def engine_set_trade_callback_def replay_spec_def engine_new_def)
  with e(1) show thesis by (rule that)
qed

lemma sim_table:
  assumes "ae.sim n e S"
  shows "table k e = spec_table k S"
  using shadows_same(2) [of "(Done True, e, demo_world)" "(Done True, S, demo_world)"] assms by (auto simp: shadows_def)

text \<open>
  C39.  Replaying a file: for a file in the documented format the replay mode loads exactly the orders written in it,
  feeds them to an array-book engine whose behaviour is that of the abstract engine, and prints the number of
  orders, the number of reports in each status the tally shows (accepted, rejected, filled, partially filled), the
  number of trades published, the time between the two clock readings and the table of the final book.
\<close>

theorem replay_mode_reports:
  assumes "files path = Some (print_csv rows)" "list_all expressible rows" "length rows \<le> unat kNullIndex"
    and "session_allowed (spec_class price_band) (map (Submit \<circ> snd) rows) replay_spec (snd (now_ns w))"
    and "engine_run (spec_class price_band) (map (Submit \<circ> snd) rows) replay_spec (snd (now_ns w)) = Some (rs, S, w1)"
    and "spec_table 8 S = Some shown"
  shows "length (reports_of rs) = length rows \<and> run_replay_mode files fmt_ms fmt_rate w path = Some (
      [LogInfo (''loading replay data from '' @ path), LogInfo (''loaded '' @ show_nat (length rows) @ '' orders''), FlushLog,
       Out (stats_text fmt_ms fmt_rate
         \<lparr>rs_total = length rows,
          rs_accepted = length (filter (\<lambda>r. r_status r \<noteq> Rejected) (reports_of rs)),
          rs_rejected = length (filter (\<lambda>r. r_status r = Rejected) (reports_of rs)),
          rs_filled = length (filter (\<lambda>r. r_status r = Filled) (reports_of rs)),
          rs_partially_filled = length (filter (\<lambda>r. r_status r = PartiallyFilled) (reports_of rs)),
          rs_elapsed = sint (fst (now_ns w1) - fst (now_ns w))\<rparr> (length (events w1) - length (events w))),
       Out shown], None)"
proof -
  let ?orders = "map snd rows" and ?w = "snd (now_ns w)"
  let ?st = "stats_of_reports (reports_of rs) (sint (fst (now_ns w1) - fst (now_ns w)))"
  obtain e where e: "demo_book_engine = Inr e" "ae.sim 0 (engine_set_trade_callback True e) replay_spec" by (rule replay_engine_sim)
  have ops: "map (Submit \<circ> snd) rows = map Submit ?orders" by simp
  have "0 + length (map Submit ?orders) \<le> unat kNullIndex" using assms(3) by simp
  then obtain e' where e': "engine_run arr_class (map Submit ?orders) (engine_set_trade_callback True e) ?w = Some (rs, e', w1)"
      "ae.sim (0 + length (map Submit ?orders)) e' S"
    using ae.run_sim [OF e(2) assms(4) [unfolded ops] _ assms(5) [unfolded ops]] by blast
  obtain b where b: "book 1 e' = Some b" "arr_print 8 b = Some shown"
    using sim_table [OF e'(2), of 8] assms(6) by (auto simp: table_def bind_eq_Some_conv)
  have "load_csv (files path) = Inr ?orders" using load_print [OF assms(2)] assms(1) by simp
  then have "run_replay_mode files fmt_ms fmt_rate w path = Some (
      [LogInfo (''loading replay data from '' @ path), LogInfo (''loaded '' @ show_nat (length rows) @ '' orders''), FlushLog,
       Out (stats_text fmt_ms fmt_rate ?st (length (events w1) - length (events w))), Out shown], None)"
    by (simp add: run_replay_mode_def e(1) replay_of_run [OF e'(1)] b now_ns_def)
  moreover have "length (reports_of rs) = length rows" using reports_of_submits [OF e'(1)] by simp
  moreover have "length (filter (\<lambda>r. r_status r \<noteq> Rejected) reps) = length reps - status_count Rejected reps" for reps
    using sum_length_filter_compl [of "\<lambda>r. r_status r = Rejected" reps] by (simp add: status_count_def)
  ultimately show ?thesis by (simp add: stats_of_reports_def status_count_def)
qed

definition replay_rows :: "(nat \<times> OrderRequest) list" where
  "replay_rows = [(1, walk_request Sell Limit 10050 5 GTC), (2, walk_request Buy Limit 10050 3 GTC), (3, walk_request Buy Limit 250000 3 IOC),
     (4, walk_request Buy Limit 10050 4 GTC)]"

definition replay_reports :: "ExecutionReport list" where
  "replay_reports = [report 1 New 0 5 NoReason, report 2 Filled 3 0 NoReason, report 3 Rejected 0 0 PriceOutOfRange, report 4 PartiallyFilled 2 2 NoReason]"

lemma replay_rows_run:
  "\<exists>rs S w1. engine_run (spec_class price_band) (map (Submit \<circ> snd) replay_rows) replay_spec (snd (now_ns demo_world)) = Some (rs, S, w1)
     \<and> length (events w1) = 2 \<and> reports_of rs = replay_reports
     \<and> spec_table 8 S = Some (print_header ''direct-indexed array'' 1 @ print_rows (views [(10050, 2, 1)]) [])
     \<and> sint (fst (now_ns w1) - fst (now_ns demo_world)) = 7"
  by (simp add: replay_rows_def replay_reports_def replay_spec_def walk_eval check_new_order_def demo_world_def spec_eval spec_table_def views_def volume_def word_le_nat_alt unsigned_minus_1_eq_mask mask_eq_exp_minus_1)

text \<open>Four orders: one rests, one fills, one is refused, one fills in part; two trades.\<close>

theorem replay_mode_reports_witness:
  "run_replay_mode [''orders.csv'' \<mapsto> print_csv replay_rows] (\<lambda>ns. ''0.000'') (\<lambda>n ns. ''0'') demo_world ''orders.csv'' = Some (
      [LogInfo (''loading replay data from '' @ ''orders.csv''), LogInfo (''loaded '' @ show_nat 4 @ '' orders''), FlushLog,
       Out (stats_text (\<lambda>ns. ''0.000'') (\<lambda>n ns. ''0'') \<lparr>rs_total = 4, rs_accepted = 3, rs_rejected = 1, rs_filled = 1,
         rs_partially_filled = 1, rs_elapsed = 7\<rparr> 2),
       Out (print_header ''direct-indexed array'' 1 @ print_rows (views [(10050, 2, 1)]) [])], None)"
proof -
  obtain rs S w1 where run: "engine_run (spec_class price_band) (map (Submit \<circ> snd) replay_rows) replay_spec (snd (now_ns demo_world)) = Some (rs, S, w1)"
     "length (events w1) = 2" "reports_of rs = replay_reports"
     "spec_table 8 S = Some (print_header ''direct-indexed array'' 1 @ print_rows (views [(10050, 2, 1)]) [])"
     "sint (fst (now_ns w1) - fst (now_ns demo_world)) = 7"
    using replay_rows_run by blast
  have ok: "session_allowed (spec_class price_band) (map (Submit \<circ> snd) replay_rows) replay_spec (snd (now_ns demo_world))"
    by (simp add: replay_rows_def replay_spec_def walk_eval check_new_order_def demo_world_def spec_eval submit_allowed_def allowed_eval)
  have rows: "list_all expressible replay_rows" "length replay_rows \<le> unat kNullIndex" "length replay_rows = 4"
    by (simp_all add: replay_rows_def expressible_def walk_request_def in_i64_def i64_max_def unat_null)
  have found: "[''orders.csv'' \<mapsto> print_csv replay_rows] ''orders.csv'' = Some (print_csv replay_rows)" by simp
  have new: "length (events w1) - length (events demo_world) = 2" using run(2) by simp
  have counts: "length (filter (\<lambda>r. r_status r \<noteq> Rejected) replay_reports) = 3" "length (filter (\<lambda>r. r_status r = Rejected) replay_reports) = 1"
    "length (filter (\<lambda>r. r_status r = Filled) replay_reports) = 1" "length (filter (\<lambda>r. r_status r = PartiallyFilled) replay_reports) = 1"
    by (simp_all add: replay_reports_def)
  show ?thesis
    using replay_mode_reports [where files = "[''orders.csv'' \<mapsto> print_csv replay_rows]", OF found rows(1,2) ok run(1,4), of "\<lambda>ns. ''0.000''" "\<lambda>n ns. ''0''"]
    unfolding new rows(3) run(3,5) counts by (rule conjunct2)
qed

section \<open>Exit codes\<close>

text \<open>
  C40.  The program's exit code: 1 exactly when the replay mode is asked for without a path or its file cannot be
  loaded, 0 otherwise; a file that cannot be loaded is reported with the reason and nothing is replayed, and an
  unknown mode runs the walkthrough.
\<close>

theorem main_exit_code:
  assumes "main_program (run_replay_mode files fmt_ms fmt_rate w) threaded scripted argv0 args = Some (code, effects)"
  shows "code = (if args \<noteq> [] \<and> hd args = ''replay'' \<and> (length args < 2 \<or> (\<exists>err. load_csv (files (args ! 1)) = Inl err)) then 1 else 0)
    \<and> (\<forall>path rest err. args = ''replay'' # path # rest \<longrightarrow> load_csv (files path) = Inl err \<longrightarrow>
        effects = [LogInfo (''loading replay data from '' @ path), Err (''Replay failed: '' @ what_text path err @ [newline])])
    \<and> (args = [] \<or> hd args \<notin> {''--help'', ''-h'', ''replay'', ''mt-demo''} \<longrightarrow> scripted = Some effects)"
proof -
  consider (usage) "args \<noteq> []" "hd args = ''--help'' \<or> hd args = ''-h''" | (short) "args = [''replay'']"
    | (path) path rest where "args = ''replay'' # path # rest" | (threads) "args \<noteq> []" "hd args = ''mt-demo''"
    | (walk) "args = [] \<or> hd args \<notin> {''--help'', ''-h'', ''replay'', ''mt-demo''}"
    by (cases args; cases "tl args") auto
  then show ?thesis
  proof cases
    case usage
    then show ?thesis using assms by (auto simp: main_program_def)
  next
    case (path path rest)
    then show ?thesis using assms
      by (cases "load_csv (files path)") (auto simp: main_program_def run_replay_mode_def Let_def bind_eq_Some_conv)
  next
    case threads
    then show ?thesis using assms by (auto simp: main_program_def bind_eq_Some_conv)
  next
    case walk
    then show ?thesis using assms by (auto simp: main_program_def bind_eq_Some_conv)
  qed (use assms in \<open>simp add: main_program_def\<close>)
qed

theorem main_exit_code_witness:
  "\<exists>effects. main_program (run_replay_mode Map.empty (\<lambda>ns. []) (\<lambda>n ns. []) demo_world) None None ''lob'' [''replay'', ''none.csv''] = Some (1, effects)
    \<and> effects = [LogInfo (''loading replay data from '' @ ''none.csv''), Err (''Replay failed: '' @ what_text ''none.csv'' CannotOpen @ [newline])]"
proof -
  obtain code effects where run: "main_program (run_replay_mode Map.empty (\<lambda>ns. []) (\<lambda>n ns. []) demo_world) None None ''lob'' [''replay'', ''none.csv''] = Some (code, effects)"
    by (simp add: main_program_def run_replay_mode_def load_csv_def)
  have bad: "load_csv (Map.empty ''none.csv'') = Inl CannotOpen" by (simp add: load_csv_def)
  from main_exit_code [OF run] bad have "code = 1" "effects = [LogInfo (''loading replay data from '' @ ''none.csv''), Err (''Replay failed: '' @ what_text ''none.csv'' CannotOpen @ [newline])]"
    by auto
  then show ?thesis using run by blast
qed

end
