(* ===== verification/Ring_Memory.thy ===== *)
theory Ring_Memory
  imports Lockfree_Queue
begin

text \<open>
  The ring of \<open>include/lightninglob/lockfree_queue.hpp\<close> under the memory orders the code asks for.

  The memory is the release/acquire fragment of the C++ memory model in its operational form.  An atomic index has
  the list of all values stored to it, in modification order.  A thread may load any of them that is not older than
  one it has already seen, so a load can be stale; an acquire load of a value that was stored with release makes
  everything known that the storing thread knew.  The buffer is not atomic: each thread counts its own accesses to
  it, knows some of the accesses of the other thread to have happened before, and an access to a slot whose last
  access by the other thread it does not know of is a data race.  The two indices have one writer each, so a store
  always becomes the last of its modification order.

  The memory orders are a parameter \<open>RingOrders\<close>; \<open>ring_orders\<close> holds those of the code.
\<close>

section \<open>Memory\<close>

datatype memory_order = Relaxed | Acquire | Release

text \<open>
  What a thread knows: a position in the modification order of each index, and how many stores of the producer and
  takes of the consumer happened before.
\<close>

record View =
  seen_write :: nat
  seen_read :: nat
  known_stores :: nat
  known_takes :: nat

record Message =
  m_value :: nat
  m_view :: View

definition no_view :: View where
  "no_view = \<lparr>seen_write = 0, seen_read = 0, known_stores = 0, known_takes = 0\<rparr>"

definition view_join :: "View \<Rightarrow> View \<Rightarrow> View" where
  "view_join V W = \<lparr>seen_write = max (seen_write V) (seen_write W), seen_read = max (seen_read V) (seen_read W),
     known_stores = max (known_stores V) (known_stores W), known_takes = max (known_takes V) (known_takes W)\<rparr>"

text \<open>What a load makes known, and what a store passes on.\<close>

definition acquired :: "memory_order \<Rightarrow> Message \<Rightarrow> View \<Rightarrow> View" where
  "acquired mo m V = (if mo = Acquire then view_join V (m_view m) else V)"

definition released :: "memory_order \<Rightarrow> View \<Rightarrow> View \<Rightarrow> View" where
  "released mo V own = (if mo = Release then V else own)"

section \<open>The ring\<close>

text \<open>The orders of the accesses in \<open>try_push\<close> (own index, other index, publication) and in \<open>try_pop\<close>.\<close>

record RingOrders =
  push_own :: memory_order
  push_other :: memory_order
  push_publish_order :: memory_order
  pop_own :: memory_order
  pop_other :: memory_order
  pop_publish_order :: memory_order

definition ring_orders :: RingOrders where
  "ring_orders = \<lparr>push_own = Relaxed, push_other = Acquire, push_publish_order = Release,
     pop_own = Relaxed, pop_other = Acquire, pop_publish_order = Release\<rparr>"

text \<open>
  \<open>ra_write\<close> and \<open>ra_read\<close> are the modification orders of \<open>write_idx_\<close> and \<open>read_idx_\<close>; \<open>ra_stored\<close> and \<open>ra_taken\<close>
  number, per slot, the last store into it and the last move out of it.
\<close>

record 'a RaRing =
  ra_write :: "Message list"
  ra_read :: "Message list"
  ra_buffer :: "'a list"
  ra_stored :: "nat list"
  ra_taken :: "nat list"
  ra_pview :: View
  ra_cview :: View
  ra_prod :: "'a producer"
  ra_cons :: "'a consumer"
  ra_race :: bool
  ra_pushed :: "'a list"
  ra_popped :: "'a list"

definition ra_new :: "nat \<Rightarrow> 'a \<Rightarrow> 'a RaRing" where
  "ra_new n dflt = \<lparr>ra_write = [\<lparr>m_value = 0, m_view = no_view\<rparr>], ra_read = [\<lparr>m_value = 0, m_view = no_view\<rparr>],
     ra_buffer = replicate n dflt, ra_stored = replicate n 0, ra_taken = replicate n 0, ra_pview = no_view, ra_cview = no_view,
     ra_prod = P_idle, ra_cons = C_idle, ra_race = False, ra_pushed = [], ra_popped = []\<rparr>"

definition load_write_idx :: "memory_order \<Rightarrow> nat \<Rightarrow> 'a RaRing \<Rightarrow> View \<Rightarrow> (nat \<times> View) option" where
  "load_write_idx mo ts R V = (if seen_write V \<le> ts \<and> ts < length (ra_write R)
     then Some (m_value (ra_write R ! ts), acquired mo (ra_write R ! ts) (V\<lparr>seen_write := ts\<rparr>)) else None)"

definition load_read_idx :: "memory_order \<Rightarrow> nat \<Rightarrow> 'a RaRing \<Rightarrow> View \<Rightarrow> (nat \<times> View) option" where
  "load_read_idx mo ts R V = (if seen_read V \<le> ts \<and> ts < length (ra_read R)
     then Some (m_value (ra_read R ! ts), acquired mo (ra_read R ! ts) (V\<lparr>seen_read := ts\<rparr>)) else None)"

text \<open>The next access of the producer; \<open>ts\<close> is the position a load reads from, \<open>x\<close> the item of a new \<open>try_push\<close>.\<close>

definition producer_access :: "RingOrders \<Rightarrow> 'a \<Rightarrow> nat \<Rightarrow> 'a RaRing \<Rightarrow> 'a RaRing option" where
  "producer_access mo x ts R = (case ra_prod R of
     P_idle \<Rightarrow> do {
       (write, V) \<leftarrow> load_write_idx (push_own mo) ts R (ra_pview R);
       Some (R\<lparr>ra_pview := V, ra_prod := P_loaded x write ((write + 1) AND (length (ra_buffer R) - 1))\<rparr>) }
   | P_loaded y write nxt \<Rightarrow> do {
       (read, V) \<leftarrow> load_read_idx (push_other mo) ts R (ra_pview R);
       Some (R\<lparr>ra_pview := V, ra_prod := (if nxt = read then P_idle else P_storing y write nxt)\<rparr>) }
   | P_storing y write nxt \<Rightarrow> do {
       buf \<leftarrow> vset (ra_buffer R) write y;
       let n = Suc (known_stores (ra_pview R));
       Some (R\<lparr>ra_buffer := buf, ra_stored := (ra_stored R)[write := n], ra_pview := (ra_pview R)\<lparr>known_stores := n\<rparr>,
         ra_race := (ra_race R \<or> known_takes (ra_pview R) < ra_taken R ! write), ra_prod := P_stored y write nxt\<rparr>) }
   | P_stored y write nxt \<Rightarrow> do {
       let n = length (ra_write R);
       let V = (ra_pview R)\<lparr>seen_write := n\<rparr>;
       Some (R\<lparr>ra_write := ra_write R @ [\<lparr>m_value = nxt, m_view = released (push_publish_order mo) V (no_view\<lparr>seen_write := n\<rparr>)\<rparr>],
         ra_pview := V, ra_prod := P_idle, ra_pushed := ra_pushed R @ [y]\<rparr>) })"

definition consumer_access :: "RingOrders \<Rightarrow> nat \<Rightarrow> 'a RaRing \<Rightarrow> 'a RaRing option" where
  "consumer_access mo ts R = (case ra_cons R of
     C_idle \<Rightarrow> do {
       (read, V) \<leftarrow> load_read_idx (pop_own mo) ts R (ra_cview R);
       Some (R\<lparr>ra_cview := V, ra_cons := C_loaded read\<rparr>) }
   | C_loaded read \<Rightarrow> do {
       (write, V) \<leftarrow> load_write_idx (pop_other mo) ts R (ra_cview R);
       Some (R\<lparr>ra_cview := V, ra_cons := (if read = write then C_idle else C_taking read)\<rparr>) }
   | C_taking read \<Rightarrow> do {
       y \<leftarrow> vget (ra_buffer R) read;
       let n = Suc (known_takes (ra_cview R));
       Some (R\<lparr>ra_taken := (ra_taken R)[read := n], ra_cview := (ra_cview R)\<lparr>known_takes := n\<rparr>,
         ra_race := (ra_race R \<or> known_stores (ra_cview R) < ra_stored R ! read), ra_cons := C_taken y read\<rparr>) }
   | C_taken y read \<Rightarrow> do {
       let n = length (ra_read R);
       let V = (ra_cview R)\<lparr>seen_read := n\<rparr>;
       Some (R\<lparr>ra_read := ra_read R @ [\<lparr>m_value = (read + 1) AND (length (ra_buffer R) - 1),
           m_view = released (pop_publish_order mo) V (no_view\<lparr>seen_read := n\<rparr>)\<rparr>],
         ra_cview := V, ra_cons := C_idle, ra_popped := ra_popped R @ [y]\<rparr>) })"

text \<open>\<open>empty()\<close> as the consumer calls it, with the positions its two loads read from.\<close>

definition consumer_empty :: "nat \<Rightarrow> nat \<Rightarrow> 'a RaRing \<Rightarrow> (bool \<times> 'a RaRing) option" where
  "consumer_empty tr tw R = do {
     (read, V) \<leftarrow> load_read_idx Acquire tr R (ra_cview R);
     (write, V) \<leftarrow> load_write_idx Acquire tw R V;
     Some (read = write, R\<lparr>ra_cview := V\<rparr>) }"

inductive ra_reach :: "RingOrders \<Rightarrow> 'a RaRing \<Rightarrow> 'a RaRing \<Rightarrow> bool" for mo R0 where
  start: "ra_reach mo R0 R0"
| produce: "ra_reach mo R0 R \<Longrightarrow> producer_access mo x ts R = Some R' \<Longrightarrow> ra_reach mo R0 R'"
| consume: "ra_reach mo R0 R \<Longrightarrow> consumer_access mo ts R = Some R' \<Longrightarrow> ra_reach mo R0 R'"
| query: "ra_reach mo R0 R \<Longrightarrow> consumer_empty tr tw R = Some (b, R') \<Longrightarrow> ra_reach mo R0 R'"

section \<open>What the threads know\<close>

abbreviation ra_cap :: "'a RaRing \<Rightarrow> nat" where
  "ra_cap R \<equiv> length (ra_buffer R)"

abbreviation ra_pushes :: "'a RaRing \<Rightarrow> nat" where
  "ra_pushes R \<equiv> length (ra_pushed R)"

abbreviation ra_pops :: "'a RaRing \<Rightarrow> nat" where
  "ra_pops R \<equiv> length (ra_popped R)"

text \<open>Knowledge of an index comes with the buffer accesses it stands for.\<close>

definition view_ok :: "'a RaRing \<Rightarrow> View \<Rightarrow> bool" where
  "view_ok R V \<longleftrightarrow> seen_write V \<le> ra_pushes R \<and> seen_read V \<le> ra_pops R \<and> seen_write V \<le> known_stores V \<and> seen_read V \<le> known_takes V
     \<and> known_stores V \<le> known_stores (ra_pview R) \<and> known_takes V \<le> known_takes (ra_cview R)"

text \<open>The \<open>k\<close>-th value of an index is \<open>k\<close> modulo the capacity.\<close>

definition hist_ok :: "(View \<Rightarrow> nat) \<Rightarrow> nat \<Rightarrow> 'a RaRing \<Rightarrow> Message list \<Rightarrow> bool" where
  "hist_ok sel n R h \<longleftrightarrow> length h = Suc n \<and>
     (\<forall>k \<le> n. m_value (h ! k) = k mod ra_cap R \<and> sel (m_view (h ! k)) = k \<and> view_ok R (m_view (h ! k)))"

text \<open>The \<open>j\<close>-th access of a thread to the buffer goes to slot \<open>j\<close> modulo the capacity.\<close>

definition epochs_ok :: "nat \<Rightarrow> nat \<Rightarrow> nat list \<Rightarrow> bool" where
  "epochs_ok n c es \<longleftrightarrow> length es = n \<and> (\<forall>i < n. es ! i = 0 \<or> (\<exists>j < c. es ! i = Suc j \<and> j mod n = i))"

fun prod_sync :: "'a RaRing \<Rightarrow> 'a producer \<Rightarrow> bool" where
  "prod_sync R P_idle = (known_stores (ra_pview R) = ra_pushes R)"
| "prod_sync R (P_loaded x write nxt) = (known_stores (ra_pview R) = ra_pushes R \<and> write = ra_pushes R mod ra_cap R \<and> nxt = Suc (ra_pushes R) mod ra_cap R)"
| "prod_sync R (P_storing x write nxt) = (known_stores (ra_pview R) = ra_pushes R \<and> write = ra_pushes R mod ra_cap R \<and> nxt = Suc (ra_pushes R) mod ra_cap R
     \<and> Suc (ra_pushes R) < seen_read (ra_pview R) + ra_cap R)"
| "prod_sync R (P_stored x write nxt) = (known_stores (ra_pview R) = Suc (ra_pushes R) \<and> write = ra_pushes R mod ra_cap R \<and> nxt = Suc (ra_pushes R) mod ra_cap R
     \<and> Suc (ra_pushes R) < seen_read (ra_pview R) + ra_cap R \<and> ra_buffer R ! write = x)"

fun cons_sync :: "'a RaRing \<Rightarrow> 'a consumer \<Rightarrow> bool" where
  "cons_sync R C_idle = (known_takes (ra_cview R) = ra_pops R)"
| "cons_sync R (C_loaded read) = (known_takes (ra_cview R) = ra_pops R \<and> read = ra_pops R mod ra_cap R)"
| "cons_sync R (C_taking read) = (known_takes (ra_cview R) = ra_pops R \<and> read = ra_pops R mod ra_cap R \<and> ra_pops R < seen_write (ra_cview R))"
| "cons_sync R (C_taken x read) = (known_takes (ra_cview R) = Suc (ra_pops R) \<and> read = ra_pops R mod ra_cap R \<and> ra_pops R < seen_write (ra_cview R)
     \<and> x = ra_pushed R ! ra_pops R)"

definition memory_ok :: "'a RaRing \<Rightarrow> bool" where
  "memory_ok R \<longleftrightarrow> (\<exists>k. 1 \<le> k \<and> ra_cap R = 2 ^ k) \<and> hist_ok seen_write (ra_pushes R) R (ra_write R) \<and> hist_ok seen_read (ra_pops R) R (ra_read R)
     \<and> view_ok R (ra_pview R) \<and> view_ok R (ra_cview R) \<and> seen_write (ra_pview R) = ra_pushes R \<and> seen_read (ra_cview R) = ra_pops R
     \<and> ra_pushes R < seen_read (ra_pview R) + ra_cap R \<and> ra_pops R \<le> seen_write (ra_cview R)
     \<and> epochs_ok (ra_cap R) (known_stores (ra_pview R)) (ra_stored R) \<and> epochs_ok (ra_cap R) (known_takes (ra_cview R)) (ra_taken R)"

definition queue_ok :: "'a RaRing \<Rightarrow> bool" where
  "queue_ok R \<longleftrightarrow> ra_popped R = take (ra_pops R) (ra_pushed R) \<and> (\<forall>k. ra_pops R \<le> k \<and> k < ra_pushes R \<longrightarrow> ra_buffer R ! (k mod ra_cap R) = ra_pushed R ! k)"

definition ra_inv :: "'a RaRing \<Rightarrow> bool" where
  "ra_inv R \<longleftrightarrow> memory_ok R \<and> queue_ok R \<and> prod_sync R (ra_prod R) \<and> cons_sync R (ra_cons R) \<and> \<not> ra_race R"

section \<open>Loads\<close>

lemma view_join_simps [simp]: "seen_write (view_join V W) = max (seen_write V) (seen_write W)" "seen_read (view_join V W) = max (seen_read V) (seen_read W)"
  "known_stores (view_join V W) = max (known_stores V) (known_stores W)" "known_takes (view_join V W) = max (known_takes V) (known_takes W)"
  by (simp_all add: view_join_def)

lemma hist_okD:
  assumes "hist_ok sel n R h" "k < length h"
  shows "m_value (h ! k) = k mod ra_cap R" "sel (m_view (h ! k)) = k" "view_ok R (m_view (h ! k))" "k \<le> n"
  using assms by (auto simp: hist_ok_def)

text \<open>A view a thread may have instead of its present one: it knows more of the other thread.\<close>

definition producer_view :: "'a RaRing \<Rightarrow> View \<Rightarrow> bool" where
  "producer_view R V \<longleftrightarrow> view_ok R V \<and> seen_write V = ra_pushes R \<and> known_stores V = known_stores (ra_pview R) \<and> seen_read (ra_pview R) \<le> seen_read V"

definition consumer_view :: "'a RaRing \<Rightarrow> View \<Rightarrow> bool" where
  "consumer_view R V \<longleftrightarrow> view_ok R V \<and> seen_read V = ra_pops R \<and> known_takes V = known_takes (ra_cview R) \<and> seen_write (ra_cview R) \<le> seen_write V"

lemma own_views: "memory_ok R \<Longrightarrow> producer_view R (ra_pview R)" "memory_ok R \<Longrightarrow> consumer_view R (ra_cview R)"
  by (simp_all add: memory_ok_def producer_view_def consumer_view_def)

lemma joined_views:
  assumes "view_ok R W"
  shows "producer_view R V \<Longrightarrow> producer_view R (view_join V W)" "consumer_view R V \<Longrightarrow> consumer_view R (view_join V W)"
  using assms by (auto simp: producer_view_def consumer_view_def view_ok_def)

lemma load_read_acquire:
  assumes "memory_ok R" "load_read_idx Acquire ts R V = Some (v, V')"
  shows "v = seen_read V' mod ra_cap R" "producer_view R V \<Longrightarrow> producer_view R V'" "consumer_view R V \<Longrightarrow> consumer_view R V'"
proof -
  have ts: "seen_read V \<le> ts" "ts < length (ra_read R)" and V: "v = m_value (ra_read R ! ts)"
    "V' = view_join (V\<lparr>seen_read := ts\<rparr>) (m_view (ra_read R ! ts))"
    using assms(2) by (auto simp: load_read_idx_def acquired_def split: if_splits)
  have h: "hist_ok seen_read (ra_pops R) R (ra_read R)" using assms(1) by (simp add: memory_ok_def)
  note m = hist_okD [OF h ts(2)]
  show "v = seen_read V' mod ra_cap R" "producer_view R V \<Longrightarrow> producer_view R V'" "consumer_view R V \<Longrightarrow> consumer_view R V'"
    using m ts V by (auto simp: view_ok_def producer_view_def consumer_view_def)
qed

lemma load_write_acquire:
  assumes "memory_ok R" "load_write_idx Acquire ts R V = Some (v, V')" "consumer_view R V"
  shows "v = seen_write V' mod ra_cap R" "consumer_view R V'" "seen_write V \<le> seen_write V'"
proof -
  have ts: "seen_write V \<le> ts" "ts < length (ra_write R)" and V: "v = m_value (ra_write R ! ts)"
    "V' = view_join (V\<lparr>seen_write := ts\<rparr>) (m_view (ra_write R ! ts))"
    using assms(2) by (auto simp: load_write_idx_def acquired_def split: if_splits)
  have h: "hist_ok seen_write (ra_pushes R) R (ra_write R)" using assms(1) by (simp add: memory_ok_def)
  note m = hist_okD [OF h ts(2)]
  show "v = seen_write V' mod ra_cap R" "consumer_view R V'" "seen_write V \<le> seen_write V'"
    using m ts V assms(3) by (auto simp: view_ok_def consumer_view_def)
qed

text \<open>A relaxed load of the own index returns its last value.\<close>

lemma own_loads:
  assumes "memory_ok R"
  shows "load_write_idx Relaxed ts R (ra_pview R) = Some (v, V) \<Longrightarrow> v = ra_pushes R mod ra_cap R \<and> V = ra_pview R"
    "load_read_idx Relaxed ts R (ra_cview R) = Some (v, V) \<Longrightarrow> v = ra_pops R mod ra_cap R \<and> V = ra_cview R"
  using assms by (auto simp: memory_ok_def hist_ok_def load_write_idx_def load_read_idx_def acquired_def less_Suc_eq_le
      dest: le_antisym split: if_splits)

section \<open>Every access keeps the invariant\<close>

lemma mod_near:
  fixes j c n :: nat
  assumes "j mod n = c mod n" "j < c + n"
  shows "j \<le> c"
proof (rule ccontr)
  assume "\<not> j \<le> c"
  then have "c < j" "j - c < n" using assms(2) by auto
  moreover have "n dvd j - c" using assms(1) \<open>c < j\<close> by (metis mod_eq_dvd_iff_nat less_imp_le)
  ultimately show False using nat_dvd_not_less by auto
qed

lemma epochs_next:
  assumes "epochs_ok n c es" "0 < n"
  shows "epochs_ok n (Suc c) (es[c mod n := Suc c])"
  using assms by (auto simp: epochs_ok_def nth_list_update less_Suc_eq)

lemma epochs_cases:
  assumes "epochs_ok n c es" "i < n"
  obtains (none) "es ! i = 0" | (last) j where "j < c" "es ! i = Suc j" "j mod n = i"
proof -
  have "es ! i = 0 \<or> (\<exists>j < c. es ! i = Suc j \<and> j mod n = i)" using assms by (simp add: epochs_ok_def)
  then show thesis using none last by blast
qed

lemma view_ok_mono:
  assumes "view_ok R V" "ra_pushes R \<le> ra_pushes R'" "ra_pops R \<le> ra_pops R'" "known_stores (ra_pview R) \<le> known_stores (ra_pview R')"
    "known_takes (ra_cview R) \<le> known_takes (ra_cview R')"
  shows "view_ok R' V"
  using assms by (auto simp: view_ok_def)

lemma mask_step: "\<exists>k. 1 \<le> k \<and> n = 2 ^ k \<Longrightarrow> (c mod n + 1) AND (n - 1) = Suc c mod n"
  using and_mask_mod [of n _ "c mod n + 1"] by (auto simp: mod_Suc_eq)

lemma ra_inv_pview:
  assumes "ra_inv R" "producer_view R V"
  shows "memory_ok (R\<lparr>ra_pview := V\<rparr>)" "ra_inv (R\<lparr>ra_pview := V\<rparr>)"
proof -
  have eq: "view_ok (R\<lparr>ra_pview := V\<rparr>) W = view_ok R W" for W using assms(2) by (simp add: view_ok_def producer_view_def)
  show "memory_ok (R\<lparr>ra_pview := V\<rparr>)" using assms by (auto simp: ra_inv_def memory_ok_def hist_ok_def eq producer_view_def)
  moreover have "prod_sync (R\<lparr>ra_pview := V\<rparr>) (ra_prod R)" using assms by (cases "ra_prod R") (auto simp: ra_inv_def producer_view_def)
  moreover have "cons_sync (R\<lparr>ra_pview := V\<rparr>) (ra_cons R)" using assms by (cases "ra_cons R") (auto simp: ra_inv_def)
  ultimately show "ra_inv (R\<lparr>ra_pview := V\<rparr>)" using assms by (simp add: ra_inv_def queue_ok_def)
qed

lemma ra_inv_cview:
  assumes "ra_inv R" "consumer_view R V"
  shows "memory_ok (R\<lparr>ra_cview := V\<rparr>)" "ra_inv (R\<lparr>ra_cview := V\<rparr>)"
proof -
  have eq: "view_ok (R\<lparr>ra_cview := V\<rparr>) W = view_ok R W" for W using assms(2) by (simp add: view_ok_def consumer_view_def)
  show "memory_ok (R\<lparr>ra_cview := V\<rparr>)" using assms by (auto simp: ra_inv_def memory_ok_def hist_ok_def eq consumer_view_def)
  moreover have "prod_sync (R\<lparr>ra_cview := V\<rparr>) (ra_prod R)" using assms by (cases "ra_prod R") (auto simp: ra_inv_def)
  moreover have "cons_sync (R\<lparr>ra_cview := V\<rparr>) (ra_cons R)" using assms by (cases "ra_cons R") (auto simp: ra_inv_def consumer_view_def)
  ultimately show "ra_inv (R\<lparr>ra_cview := V\<rparr>)" using assms by (simp add: ra_inv_def queue_ok_def)
qed

text \<open>Moving on without touching the memory.\<close>

lemma memory_ok_control [simp]: "memory_ok (R\<lparr>ra_prod := p\<rparr>) = memory_ok R" "memory_ok (R\<lparr>ra_cons := c\<rparr>) = memory_ok R"
  "queue_ok (R\<lparr>ra_prod := p\<rparr>) = queue_ok R" "queue_ok (R\<lparr>ra_cons := c\<rparr>) = queue_ok R"
  by (simp_all add: memory_ok_def queue_ok_def hist_ok_def view_ok_def)

lemma sync_control [simp]: "prod_sync (R\<lparr>ra_prod := p\<rparr>) q = prod_sync R q" "prod_sync (R\<lparr>ra_cons := c\<rparr>) q = prod_sync R q"
  "cons_sync (R\<lparr>ra_prod := p\<rparr>) d = cons_sync R d" "cons_sync (R\<lparr>ra_cons := c\<rparr>) d = cons_sync R d"
  by (cases q; cases d; simp)+

lemma ra_inv_prod: "ra_inv R \<Longrightarrow> prod_sync R p \<Longrightarrow> ra_inv (R\<lparr>ra_prod := p\<rparr>)"
  by (simp add: ra_inv_def)

lemma ra_inv_cons: "ra_inv R \<Longrightarrow> cons_sync R c \<Longrightarrow> ra_inv (R\<lparr>ra_cons := c\<rparr>)"
  by (simp add: ra_inv_def)

lemma memory_okD:
  assumes "memory_ok R"
  shows "0 < ra_cap R" "ra_pops R \<le> ra_pushes R" "ra_pushes R < ra_pops R + ra_cap R" "seen_read (ra_pview R) \<le> ra_pops R"
    "seen_read (ra_pview R) \<le> known_takes (ra_pview R)" "seen_write (ra_cview R) \<le> ra_pushes R"
    "seen_write (ra_cview R) \<le> known_stores (ra_cview R)"
  using assms by (auto simp: memory_ok_def view_ok_def)

lemma push_load_keeps:
  assumes inv: "ra_inv R" and p: "ra_prod R = P_loaded y write nxt" and V: "producer_view R V"
    and load: "load_read_idx Acquire ts R (ra_pview R) = Some (v, V)"
  shows "ra_inv (R\<lparr>ra_pview := V, ra_prod := (if nxt = v then P_idle else P_storing y write nxt)\<rparr>)"
proof -
  let ?R = "R\<lparr>ra_pview := V\<rparr>"
  note R = ra_inv_pview [OF inv V]
  have mem: "memory_ok R" using inv by (simp add: ra_inv_def)
  have sync: "prod_sync ?R (P_loaded y write nxt)" using R(2) p by (simp add: ra_inv_def)
  have "prod_sync ?R (if nxt = v then P_idle else P_storing y write nxt)"
  proof (cases "nxt = v")
    case False
    have "ra_pushes R < seen_read V + ra_cap R" using R(1) by (simp add: memory_ok_def)
    moreover have "Suc (ra_pushes R) \<noteq> seen_read V + ra_cap R"
    proof
      assume "Suc (ra_pushes R) = seen_read V + ra_cap R"
      then have "Suc (ra_pushes R) mod ra_cap R = seen_read V mod ra_cap R" by simp
      then show False using False sync load_read_acquire(1) [OF mem load] by simp
    qed
    ultimately show ?thesis using False sync by simp
  qed (use sync in simp)
  then show ?thesis using ra_inv_prod [OF R(2)] by simp
qed

text \<open>The slot the producer stores into was last taken by an access it knows of.\<close>

lemma store_no_race:
  assumes inv: "ra_inv R" and p: "ra_prod R = P_storing y write nxt"
  shows "ra_taken R ! write \<le> known_takes (ra_pview R)"
proof -
  have mem: "memory_ok R" and sync: "prod_sync R (P_storing y write nxt)" "cons_sync R (ra_cons R)" using inv p by (simp_all add: ra_inv_def)
  note D = memory_okD [OF mem]
  have w: "write = ra_pushes R mod ra_cap R" "Suc (ra_pushes R) < seen_read (ra_pview R) + ra_cap R" using sync by auto
  have "epochs_ok (ra_cap R) (known_takes (ra_cview R)) (ra_taken R)" "write < ra_cap R" using mem D(1) w(1) by (simp_all add: memory_ok_def)
  then show ?thesis
  proof (cases rule: epochs_cases)
    case (last j)
    have "j < ra_pushes R" using sync(2) last(1) D(2,6) by (cases "ra_cons R") auto
    then have "\<not> ra_pushes R \<le> j" by simp
    then have "\<not> ra_pushes R < j + ra_cap R" using mod_near [of "ra_pushes R" "ra_cap R" j] last(3) w(1) by auto
    then show ?thesis using w(2) D(5) last(2) by simp
  qed simp
qed

lemma take_no_race:
  assumes inv: "ra_inv R" and c: "ra_cons R = C_taking read"
  shows "ra_stored R ! read \<le> known_stores (ra_cview R)" "ra_buffer R ! read = ra_pushed R ! ra_pops R" "read < ra_cap R"
proof -
  have mem: "memory_ok R" and sync: "prod_sync R (ra_prod R)" "cons_sync R (C_taking read)" and q: "queue_ok R" using inv c by (simp_all add: ra_inv_def)
  note D = memory_okD [OF mem]
  have r: "read = ra_pops R mod ra_cap R" "ra_pops R < seen_write (ra_cview R)" using sync by auto
  then show "read < ra_cap R" using D(1) by simp
  show "ra_buffer R ! read = ra_pushed R ! ra_pops R" using q r D(6) by (simp add: queue_ok_def)
  have "epochs_ok (ra_cap R) (known_stores (ra_pview R)) (ra_stored R)" "read < ra_cap R" using mem D(1) r(1) by (simp_all add: memory_ok_def)
  then show "ra_stored R ! read \<le> known_stores (ra_cview R)"
  proof (cases rule: epochs_cases)
    case (last j)
    have "j \<le> ra_pushes R" using sync(1) last(1) by (cases "ra_prod R") auto
    then have "j \<le> ra_pops R" using mod_near [of j "ra_cap R" "ra_pops R"] last(3) r(1) D(3) by auto
    then show ?thesis using r(2) D(7) last(2) by simp
  qed simp
qed

lemma hist_ok_mono:
  assumes "hist_ok sel n R h" "ra_cap R' = ra_cap R" "\<And>V. view_ok R V \<Longrightarrow> view_ok R' V"
  shows "hist_ok sel n R' h"
  using assms by (auto simp: hist_ok_def)

lemma hist_ok_snoc:
  assumes "hist_ok sel n R h" "ra_cap R' = ra_cap R" "\<And>V. view_ok R V \<Longrightarrow> view_ok R' V"
    and "m_value m = Suc n mod ra_cap R" "sel (m_view m) = Suc n" "view_ok R' (m_view m)"
  shows "hist_ok sel (Suc n) R' (h @ [m])"
  using assms by (auto simp: hist_ok_def nth_append less_Suc_eq_le le_Suc_eq)

lemma push_store_keeps:
  assumes inv: "ra_inv R" and p: "ra_prod R = P_storing y write nxt"
  defines "n \<equiv> Suc (known_stores (ra_pview R))"
  defines "R' \<equiv> R\<lparr>ra_buffer := (ra_buffer R)[write := y], ra_stored := (ra_stored R)[write := n], ra_pview := (ra_pview R)\<lparr>known_stores := n\<rparr>,
    ra_prod := P_stored y write nxt\<rparr>"
  shows "ra_inv R'"
proof -
  have mem: "memory_ok R" and sync: "prod_sync R (P_storing y write nxt)" "cons_sync R (ra_cons R)" and q: "queue_ok R"
    using inv p by (simp_all add: ra_inv_def)
  note D = memory_okD [OF mem]
  have w: "write = ra_pushes R mod ra_cap R" "known_stores (ra_pview R) = ra_pushes R" "write < ra_cap R" using sync(1) D(1) by auto
  have mono: "view_ok R' V" if "view_ok R V" for V by (rule view_ok_mono [OF that]) (simp_all add: R'_def n_def)
  have "memory_ok R'"
    using mem mono [of "ra_pview R"] mono [of "ra_cview R"] hist_ok_mono [of _ _ R _ R', OF _ _ mono] epochs_next [of "ra_cap R" "ra_pushes R" "ra_stored R"] D(1) w
    by (auto simp: memory_ok_def R'_def n_def view_ok_def)
  moreover have "queue_ok R'"
  proof -
    have "(ra_buffer R)[write := y] ! (k mod ra_cap R) = ra_buffer R ! (k mod ra_cap R)" if "ra_pops R \<le> k" "k < ra_pushes R" for k
      using mod_near [of "ra_pushes R" "ra_cap R" k] that w(1) D(3) by (intro nth_list_update_neq) auto
    then show ?thesis using q by (auto simp: queue_ok_def R'_def)
  qed
  moreover have "prod_sync R' (ra_prod R')" using sync(1) w by (simp add: R'_def n_def)
  moreover have "cons_sync R' (ra_cons R')" using sync(2) by (cases "ra_cons R") (simp_all add: R'_def)
  moreover have "\<not> ra_race R'" using inv by (simp add: ra_inv_def R'_def)
  ultimately show ?thesis unfolding ra_inv_def by blast
qed

lemma push_publish_keeps:
  assumes inv: "ra_inv R" and p: "ra_prod R = P_stored y write nxt"
  defines "V \<equiv> (ra_pview R)\<lparr>seen_write := length (ra_write R)\<rparr>"
  defines "R' \<equiv> R\<lparr>ra_write := ra_write R @ [\<lparr>m_value = nxt, m_view = V\<rparr>], ra_pview := V, ra_prod := P_idle, ra_pushed := ra_pushed R @ [y]\<rparr>"
  shows "ra_inv R'"
proof -
  have mem: "memory_ok R" and sync: "prod_sync R (P_stored y write nxt)" "cons_sync R (ra_cons R)" and q: "queue_ok R"
    using inv p unfolding ra_inv_def by (metis, metis, metis, metis)
  note D = memory_okD [OF mem]
  have len: "length (ra_write R) = Suc (ra_pushes R)" using mem by (simp add: memory_ok_def hist_ok_def)
  have mono: "view_ok R' W" if "view_ok R W" for W by (rule view_ok_mono [OF that]) (simp_all add: R'_def V_def)
  have V: "view_ok R' V" using mem sync(1) len by (auto simp: R'_def V_def memory_ok_def view_ok_def)
  have "hist_ok seen_write (Suc (ra_pushes R)) R' (ra_write R @ [\<lparr>m_value = nxt, m_view = V\<rparr>])"
    using mem sync(1) V len by (intro hist_ok_snoc [OF _ _ mono]) (auto simp: memory_ok_def R'_def V_def)
  moreover have "hist_ok seen_read (ra_pops R) R' (ra_read R)"
    using mem by (intro hist_ok_mono [OF _ _ mono]) (auto simp: memory_ok_def R'_def)
  ultimately have "memory_ok R'"
    using mem V mono [of "ra_cview R"] sync(1) len unfolding memory_ok_def by (auto simp: R'_def V_def)
  moreover have "queue_ok R'"
    using q sync(1) D(2) by (auto simp: queue_ok_def R'_def nth_append less_Suc_eq)
  moreover have "prod_sync R' (ra_prod R')" using sync(1) by (simp add: R'_def V_def)
  moreover have "cons_sync R' (ra_cons R')" using sync(2) D(6) by (cases "ra_cons R") (auto simp: R'_def nth_append)
  moreover have "\<not> ra_race R'" using inv by (simp add: ra_inv_def R'_def)
  ultimately show ?thesis unfolding ra_inv_def by blast
qed

lemma pop_take_keeps:
  assumes inv: "ra_inv R" and c: "ra_cons R = C_taking read"
  defines "n \<equiv> Suc (known_takes (ra_cview R))"
  defines "R' \<equiv> R\<lparr>ra_taken := (ra_taken R)[read := n], ra_cview := (ra_cview R)\<lparr>known_takes := n\<rparr>, ra_cons := C_taken (ra_buffer R ! read) read\<rparr>"
  shows "ra_inv R'"
proof -
  have mem: "memory_ok R" and sync: "prod_sync R (ra_prod R)" "cons_sync R (C_taking read)" and q: "queue_ok R"
    using inv c by (simp_all add: ra_inv_def)
  note D = memory_okD [OF mem]
  have r: "read = ra_pops R mod ra_cap R" "known_takes (ra_cview R) = ra_pops R" using sync(2) by auto
  have mono: "view_ok R' V" if "view_ok R V" for V by (rule view_ok_mono [OF that]) (simp_all add: R'_def n_def)
  have "memory_ok R'"
    using mem mono [of "ra_pview R"] mono [of "ra_cview R"] hist_ok_mono [of _ _ R _ R', OF _ _ mono] epochs_next [of "ra_cap R" "ra_pops R" "ra_taken R"] D(1) r
    by (auto simp: memory_ok_def R'_def n_def view_ok_def)
  moreover have "queue_ok R'" using q by (simp add: queue_ok_def R'_def)
  moreover have "cons_sync R' (ra_cons R')" using sync(2) take_no_race(2) [OF inv c] r by (simp add: R'_def n_def)
  moreover have "prod_sync R' (ra_prod R')" using sync(1) by (cases "ra_prod R") (simp_all add: R'_def)
  moreover have "\<not> ra_race R'" using inv by (simp add: ra_inv_def R'_def)
  ultimately show ?thesis unfolding ra_inv_def by blast
qed

lemma pop_publish_keeps:
  assumes inv: "ra_inv R" and c: "ra_cons R = C_taken y read"
  defines "V \<equiv> (ra_cview R)\<lparr>seen_read := length (ra_read R)\<rparr>"
  defines "R' \<equiv> R\<lparr>ra_read := ra_read R @ [\<lparr>m_value = (read + 1) AND (ra_cap R - 1), m_view = V\<rparr>], ra_cview := V, ra_cons := C_idle,
    ra_popped := ra_popped R @ [y]\<rparr>"
  shows "ra_inv R'"
proof -
  have mem: "memory_ok R" and sync: "prod_sync R (ra_prod R)" "cons_sync R (C_taken y read)" and q: "queue_ok R"
    using inv c unfolding ra_inv_def by (metis, metis, metis, metis)
  note D = memory_okD [OF mem]
  have len: "length (ra_read R) = Suc (ra_pops R)" using mem by (simp add: memory_ok_def hist_ok_def)
  have r: "read = ra_pops R mod ra_cap R" "ra_pops R < ra_pushes R" "y = ra_pushed R ! ra_pops R" using sync(2) D(6) by auto
  have mask: "(read + 1) AND (ra_cap R - 1) = Suc (ra_pops R) mod ra_cap R" using mem r(1) by (simp only: memory_ok_def mask_step)
  have mono: "view_ok R' W" if "view_ok R W" for W by (rule view_ok_mono [OF that]) (simp_all add: R'_def V_def)
  have V: "view_ok R' V" using mem sync(2) len by (auto simp: R'_def V_def memory_ok_def view_ok_def)
  have "hist_ok seen_read (Suc (ra_pops R)) R' (ra_read R @ [\<lparr>m_value = (read + 1) AND (ra_cap R - 1), m_view = V\<rparr>])"
    using mem mask V len by (intro hist_ok_snoc [OF _ _ mono]) (auto simp: memory_ok_def R'_def V_def)
  moreover have "hist_ok seen_write (ra_pushes R) R' (ra_write R)"
    using mem by (intro hist_ok_mono [OF _ _ mono]) (auto simp: memory_ok_def R'_def)
  ultimately have "memory_ok R'"
    using mem V mono [of "ra_pview R"] sync(2) len unfolding memory_ok_def by (auto simp: R'_def V_def)
  moreover have "queue_ok R'" using q r(2,3) by (auto simp: queue_ok_def R'_def take_Suc_conv_app_nth)
  moreover have "cons_sync R' (ra_cons R')" using sync(2) by (simp add: R'_def V_def)
  moreover have "prod_sync R' (ra_prod R')" using sync(1) by (cases "ra_prod R") (auto simp: R'_def)
  moreover have "\<not> ra_race R'" using inv by (simp add: ra_inv_def R'_def)
  ultimately show ?thesis unfolding ra_inv_def by blast
qed

lemma producer_access_keeps:
  assumes inv: "ra_inv R" and step: "producer_access ring_orders x ts R = Some R'"
  shows "ra_inv R'"
proof (cases "ra_prod R")
  case P_idle
  have mem: "memory_ok R" using inv by (simp add: ra_inv_def)
  obtain wr V where load: "load_write_idx Relaxed ts R (ra_pview R) = Some (wr, V)"
    and R': "R' = R\<lparr>ra_pview := V, ra_prod := P_loaded x wr ((wr + 1) AND (ra_cap R - 1))\<rparr>"
    using step P_idle by (auto simp: producer_access_def ring_orders_def bind_eq_Some_conv)
  have V: "wr = ra_pushes R mod ra_cap R" "V = ra_pview R" using own_loads(1) [OF mem load] by auto
  have mask: "(wr + 1) AND (ra_cap R - 1) = Suc (ra_pushes R) mod ra_cap R" using mem V(1) by (simp only: memory_ok_def mask_step)
  have "prod_sync R (P_loaded x wr ((wr + 1) AND (ra_cap R - 1)))" unfolding mask using V(1) inv P_idle by (simp add: ra_inv_def)
  from ra_inv_prod [OF inv this] show ?thesis unfolding R' V(2) by simp
next
  case (P_loaded y wr nxt)
  obtain v V where load: "load_read_idx Acquire ts R (ra_pview R) = Some (v, V)"
    and R': "R' = R\<lparr>ra_pview := V, ra_prod := (if nxt = v then P_idle else P_storing y wr nxt)\<rparr>"
    using step P_loaded by (auto simp: producer_access_def ring_orders_def bind_eq_Some_conv)
  have mem: "memory_ok R" using inv by (simp add: ra_inv_def)
  show ?thesis unfolding R' by (rule push_load_keeps [OF inv P_loaded load_read_acquire(2) [OF mem load own_views(1) [OF mem]] load])
next
  case (P_storing y wr nxt)
  have "wr < ra_cap R" using inv P_storing memory_okD(1) [of R] by (auto simp: ra_inv_def)
  then show ?thesis using push_store_keeps [OF inv P_storing] store_no_race [OF inv P_storing] step P_storing inv
    by (auto simp: producer_access_def ub_simps ra_inv_def Let_def simp flip: ra_inv_def)
next
  case (P_stored y wr nxt)
  then show ?thesis using push_publish_keeps [OF inv P_stored] step
    by (auto simp: producer_access_def ring_orders_def released_def Let_def)
qed

lemma consumer_access_keeps:
  assumes inv: "ra_inv R" and step: "consumer_access ring_orders ts R = Some R'"
  shows "ra_inv R'"
proof (cases "ra_cons R")
  case C_idle
  have mem: "memory_ok R" using inv by (simp add: ra_inv_def)
  obtain rd V where load: "load_read_idx Relaxed ts R (ra_cview R) = Some (rd, V)" and R': "R' = R\<lparr>ra_cview := V, ra_cons := C_loaded rd\<rparr>"
    using step C_idle by (auto simp: consumer_access_def ring_orders_def bind_eq_Some_conv)
  have V: "rd = ra_pops R mod ra_cap R" "V = ra_cview R" using own_loads(2) [OF mem load] by auto
  then have "cons_sync R (C_loaded rd)" using inv C_idle by (simp add: ra_inv_def)
  from ra_inv_cons [OF inv this] show ?thesis unfolding R' V(2) by simp
next
  case (C_loaded rd)
  have mem: "memory_ok R" using inv by (simp add: ra_inv_def)
  obtain v V where load: "load_write_idx Acquire ts R (ra_cview R) = Some (v, V)"
    and R': "R' = R\<lparr>ra_cview := V, ra_cons := (if rd = v then C_idle else C_taking rd)\<rparr>"
    using step C_loaded by (auto simp: consumer_access_def ring_orders_def bind_eq_Some_conv)
  note V = load_write_acquire [OF mem load own_views(2) [OF mem]]
  note R = ra_inv_cview [OF inv V(2)]
  have "ra_pops R \<le> seen_write V" using R(1) by (simp add: memory_ok_def)
  then have "cons_sync (R\<lparr>ra_cview := V\<rparr>) (if rd = v then C_idle else C_taking rd)"
    using R(2) C_loaded V(1) by (auto simp: ra_inv_def le_less)
  from ra_inv_cons [OF R(2) this] show ?thesis unfolding R' by simp
next
  case (C_taking rd)
  then show ?thesis using pop_take_keeps [OF inv C_taking] take_no_race(1,3) [OF inv C_taking] step inv
    by (auto simp: consumer_access_def ub_simps ra_inv_def Let_def simp flip: ra_inv_def)
next
  case (C_taken y rd)
  then show ?thesis using pop_publish_keeps [OF inv C_taken] step
    by (auto simp: consumer_access_def ring_orders_def released_def Let_def)
qed

text \<open>
  \<open>empty()\<close> answers truthfully about the pushes the consumer knows of: when it says that the ring is empty, all of
  them have been popped.
\<close>

lemma consumer_empty_keeps:
  assumes inv: "ra_inv R" and step: "consumer_empty tr tw R = Some (b, R')"
  shows "ra_inv R'" "b \<Longrightarrow> seen_write (ra_cview R) \<le> ra_pops R"
    "R' = R\<lparr>ra_cview := ra_cview R'\<rparr>" "seen_write (ra_cview R) \<le> seen_write (ra_cview R')"
proof -
  have mem: "memory_ok R" using inv by (simp add: ra_inv_def)
  obtain rd V1 wr V2 where load: "load_read_idx Acquire tr R (ra_cview R) = Some (rd, V1)" "load_write_idx Acquire tw R V1 = Some (wr, V2)"
    and R': "b \<longleftrightarrow> rd = wr" "R' = R\<lparr>ra_cview := V2\<rparr>"
    using step by (auto simp: consumer_empty_def bind_eq_Some_conv)
  note V1 = load_read_acquire(1,3) [OF mem load(1)] and own = own_views(2) [OF mem]
  note V2 = load_write_acquire [OF mem load(2) V1(2) [OF own]]
  show "ra_inv R'" "R' = R\<lparr>ra_cview := ra_cview R'\<rparr>" using ra_inv_cview(2) [OF inv V2(2)] R'(2) by simp_all
  have le: "seen_write (ra_cview R) \<le> seen_write V2" using V1(2) [OF own] V2(3) by (auto simp: consumer_view_def)
  then show "seen_write (ra_cview R) \<le> seen_write (ra_cview R')" using R'(2) by simp
  assume b
  have "seen_read V1 = ra_pops R" using V1(2) [OF own] by (simp add: consumer_view_def)
  then have "seen_write V2 mod ra_cap R = ra_pops R mod ra_cap R" using \<open>b\<close> R'(1) V1(1) V2(1) by simp
  moreover have "seen_write V2 < ra_pops R + ra_cap R" using V2(2) memory_okD(3) [OF mem] by (auto simp: consumer_view_def view_ok_def)
  ultimately have "seen_write V2 \<le> ra_pops R" by (rule mod_near)
  then show "seen_write (ra_cview R) \<le> ra_pops R" using le by simp
qed

lemma ra_new_inv:
  assumes "1 \<le> k"
  shows "ra_inv (ra_new (2 ^ k) dflt)"
proof -
  have "view_ok (ra_new (2 ^ k) dflt) no_view" by (simp add: view_ok_def ra_new_def no_view_def)
  then have "memory_ok (ra_new (2 ^ k) dflt)"
    using assms by (auto simp: memory_ok_def ra_new_def no_view_def hist_ok_def epochs_ok_def)
  then show ?thesis by (simp add: ra_inv_def queue_ok_def) (simp add: ra_new_def no_view_def)
qed

lemma ra_reach_inv:
  assumes "ra_reach ring_orders R0 R" "ra_inv R0"
  shows "ra_inv R"
  using assms by (induction rule: ra_reach.induct) (auto intro: producer_access_keeps consumer_access_keeps consumer_empty_keeps(1))

lemma ra_inv_fifo:
  assumes "ra_inv R"
  shows "\<not> ra_race R" "ra_pushed R = ra_popped R @ drop (ra_pops R) (ra_pushed R)" "ra_pushes R < ra_pops R + ra_cap R"
proof -
  show "\<not> ra_race R" using assms by (simp add: ra_inv_def)
  have "ra_popped R = take (ra_pops R) (ra_pushed R)" using assms by (simp add: ra_inv_def queue_ok_def)
  then show "ra_pushed R = ra_popped R @ drop (ra_pops R) (ra_pushed R)" by (metis append_take_drop_id)
  show "ra_pushes R < ra_pops R + ra_cap R" using assms memory_okD(3) by (auto simp: ra_inv_def)
qed

lemma ra_cap_access:
  "producer_access mo x ts R = Some R' \<Longrightarrow> ra_cap R' = ra_cap R" "consumer_access mo ts R = Some R' \<Longrightarrow> ra_cap R' = ra_cap R"
  "consumer_empty tr tw R = Some (b, R') \<Longrightarrow> ra_cap R' = ra_cap R"
  by (auto simp: producer_access_def consumer_access_def consumer_empty_def bind_eq_Some_conv vset_eq_Some_iff Let_def split: producer.splits consumer.splits)

lemma ra_reach_cap: "ra_reach mo R0 R \<Longrightarrow> ra_cap R = ra_cap R0"
  by (induction rule: ra_reach.induct) (simp_all add: ra_cap_access)

text \<open>No access is undefined: each thread always has a next one.\<close>

lemma accesses_defined:
  assumes inv: "ra_inv R"
  shows "\<exists>ts. producer_access mo x ts R \<noteq> None" "\<exists>ts. consumer_access mo ts R \<noteq> None"
proof -
  have mem: "memory_ok R" and sync: "prod_sync R (ra_prod R)" "cons_sync R (ra_cons R)" using inv by (simp_all add: ra_inv_def)
  note D = memory_okD [OF mem]
  have len: "length (ra_write R) = Suc (ra_pushes R)" "length (ra_read R) = Suc (ra_pops R)" using mem by (simp_all add: memory_ok_def hist_ok_def)
  have own: "seen_write (ra_pview R) = ra_pushes R" "seen_read (ra_cview R) = ra_pops R" using mem by (simp_all add: memory_ok_def)
  show "\<exists>ts. producer_access mo x ts R \<noteq> None"
  proof (cases "ra_prod R")
    case P_idle
    then show ?thesis using len own by (intro exI [of _ "ra_pushes R"]) (simp add: producer_access_def load_write_idx_def)
  next
    case (P_loaded y w n)
    then show ?thesis using len D(4) by (intro exI [of _ "ra_pops R"]) (simp add: producer_access_def load_read_idx_def)
  qed (use sync(1) D(1) in \<open>simp_all add: producer_access_def ub_simps Let_def\<close>)
  show "\<exists>ts. consumer_access mo ts R \<noteq> None"
  proof (cases "ra_cons R")
    case C_idle
    then show ?thesis using len own by (intro exI [of _ "ra_pops R"]) (simp add: consumer_access_def load_read_idx_def)
  next
    case (C_loaded r)
    then show ?thesis using len D(6) by (intro exI [of _ "ra_pushes R"]) (simp add: consumer_access_def load_write_idx_def)
  qed (use sync(2) D(1) in \<open>simp_all add: consumer_access_def ub_simps Let_def\<close>)
qed

section \<open>The orders are enough, and none is more than enough\<close>

text \<open>
  C24.  Acquire loads of the other index and release stores of the own one make the ring correct although loads may
  be stale: no access to the buffer races with the other thread's, nothing is lost, duplicated or reordered, the ring
  never holds more than its capacity, and neither thread ever gets stuck.
\<close>

theorem ring_release_acquire:
  assumes "1 \<le> k" "ra_reach ring_orders (ra_new (2 ^ k) dflt) R"
  shows "\<not> ra_race R \<and> (\<exists>pending. ra_pushed R = ra_popped R @ pending \<and> length pending \<le> 2 ^ k - 1)
    \<and> (\<exists>ts. producer_access ring_orders x ts R \<noteq> None) \<and> (\<exists>ts. consumer_access ring_orders ts R \<noteq> None)"
proof -
  have inv: "ra_inv R" by (rule ra_reach_inv [OF assms(2) ra_new_inv [OF assms(1)]])
  have "ra_cap R = 2 ^ k" using ra_reach_cap [OF assms(2)] by (simp add: ra_new_def)
  then have "length (drop (ra_pops R) (ra_pushed R)) \<le> 2 ^ k - 1" using ra_inv_fifo(3) [OF inv] by simp
  then show ?thesis using ra_inv_fifo(1,2) [OF inv] accesses_defined [OF inv] by blast
qed

text \<open>Schedules: \<open>Inl ts\<close> is an access of the producer, who pushes sevens, \<open>Inr ts\<close> one of the consumer.\<close>

fun ra_run :: "RingOrders \<Rightarrow> (nat + nat) list \<Rightarrow> nat RaRing \<Rightarrow> nat RaRing option" where
  "ra_run mo [] R = Some R"
| "ra_run mo (Inl ts # xs) R = do { R \<leftarrow> producer_access mo 7 ts R; ra_run mo xs R }"
| "ra_run mo (Inr ts # xs) R = do { R \<leftarrow> consumer_access mo ts R; ra_run mo xs R }"

lemma ra_run_reach: "ra_run mo xs R = Some R' \<Longrightarrow> ra_reach mo R0 R \<Longrightarrow> ra_reach mo R0 R'"
  by (induction mo xs R rule: ra_run.induct) (auto simp: bind_eq_Some_conv intro: produce consume)

lemmas ra_eval = producer_access_def consumer_access_def load_write_idx_def load_read_idx_def acquired_def released_def view_join_def
  no_view_def ring_orders_def ra_new_def vset_def vget_def Let_def

text \<open>One push and its pop, and three pushes through a ring with a single place.\<close>

definition push_pop :: "(nat + nat) list" where
  "push_pop = [Inl 0, Inl 0, Inl 0, Inl 0, Inr 0, Inr 1, Inr 0, Inr 0]"

definition three_pushes :: "(nat + nat) list" where
  "three_pushes = push_pop @ [Inl 1, Inl 1, Inl 0, Inl 0, Inr 1, Inr 2, Inr 0, Inr 0, Inl 2, Inl 2, Inl 0]"

theorem ring_release_acquire_witness:
  "\<exists>R. ra_run ring_orders push_pop (ra_new 2 (0 :: nat)) = Some R \<and> \<not> ra_race R \<and> ra_popped R = [7]"
proof -
  obtain R where R: "ra_run ring_orders push_pop (ra_new 2 (0 :: nat)) = Some R" "ra_popped R = [7]" by (simp add: push_pop_def ra_eval numeral_2_eq_2)
  have "\<not> ra_race R" using ring_release_acquire [of 1 0 R] ra_run_reach [OF R(1) start] by simp
  then show ?thesis using R by blast
qed

text \<open>Weakening any of the four synchronising accesses to relaxed lets an access to the buffer race.\<close>

theorem weaker_orders_race:
  "\<exists>R. ra_reach (ring_orders\<lparr>push_publish_order := Relaxed\<rparr>) (ra_new 2 (0 :: nat)) R \<and> ra_race R"
  "\<exists>R. ra_reach (ring_orders\<lparr>pop_other := Relaxed\<rparr>) (ra_new 2 (0 :: nat)) R \<and> ra_race R"
  "\<exists>R. ra_reach (ring_orders\<lparr>pop_publish_order := Relaxed\<rparr>) (ra_new 2 (0 :: nat)) R \<and> ra_race R"
  "\<exists>R. ra_reach (ring_orders\<lparr>push_other := Relaxed\<rparr>) (ra_new 2 (0 :: nat)) R \<and> ra_race R"
proof -
  have race: "\<exists>R. ra_reach mo (ra_new 2 (0 :: nat)) R \<and> ra_race R" if "\<exists>R. ra_run mo xs (ra_new 2 (0 :: nat)) = Some R \<and> ra_race R" for mo xs
    using that ra_run_reach start by blast
  show "\<exists>R. ra_reach (ring_orders\<lparr>push_publish_order := Relaxed\<rparr>) (ra_new 2 (0 :: nat)) R \<and> ra_race R"
    by (rule race [of _ push_pop]) (simp add: push_pop_def ra_eval numeral_2_eq_2)
  show "\<exists>R. ra_reach (ring_orders\<lparr>pop_other := Relaxed\<rparr>) (ra_new 2 (0 :: nat)) R \<and> ra_race R"
    by (rule race [of _ push_pop]) (simp add: push_pop_def ra_eval numeral_2_eq_2)
  show "\<exists>R. ra_reach (ring_orders\<lparr>pop_publish_order := Relaxed\<rparr>) (ra_new 2 (0 :: nat)) R \<and> ra_race R"
    by (rule race [of _ three_pushes]) (simp add: three_pushes_def push_pop_def ra_eval numeral_2_eq_2)
  show "\<exists>R. ra_reach (ring_orders\<lparr>push_other := Relaxed\<rparr>) (ra_new 2 (0 :: nat)) R \<and> ra_race R"
    by (rule race [of _ three_pushes]) (simp add: three_pushes_def push_pop_def ra_eval numeral_2_eq_2)
qed

end
