(* ===== verification/Loop_Memory.thy ===== *)
theory Loop_Memory
  imports Ring_Memory
begin

text \<open>
  How the matching thread of \<open>run_multithreaded_demo\<close> (\<open>src/main.cpp\<close>) finds out that it is done, under the memory
  orders of the code.

  A producer pushes its requests into its lane and then decrements \<open>producers_remaining\<close> with release.  The matching
  thread loads the counter with acquire; when it reads zero it asks every lane whether it is empty and leaves the
  loop if all say so.  The counter is modified by read-modify-write operations only, so every value continues the
  release sequences of the earlier ones: a value passes on what all producers knew that have decremented so far.
  Lanes and counter are those of \<open>Ring_Memory\<close>: loads may be stale, and \<open>empty()\<close> may be asked too early.
\<close>

section \<open>Model\<close>

datatype ra_matcher =
    Testing          \<comment> \<open>before the load of \<open>producers_remaining\<close>\<close>
  | Scan nat         \<comment> \<open>\<open>all_lanes_empty\<close>, before it asks lane \<open>k\<close>\<close>
  | Polling nat      \<comment> \<open>\<open>poll_once\<close>, in \<open>try_pop\<close> of its \<open>i\<close>-th lane\<close>
  | Left             \<comment> \<open>after the loop\<close>

text \<open>\<open>rd_counter\<close> is the modification order of \<open>producers_remaining\<close>: a value and, per lane, what acquiring it makes known.\<close>

record 'a RaDemo =
  rd_lanes :: "'a RaRing list"
  rd_finished :: "bool list"
  rd_counter :: "(int \<times> View list) list"
  rd_seen :: nat
  rd_next_lane :: nat
  rd_matcher :: ra_matcher

record DemoOrders =
  decrement_order :: memory_order
  test_order :: memory_order

definition demo_orders :: DemoOrders where
  "demo_orders = \<lparr>decrement_order = Release, test_order = Acquire\<rparr>"

definition ra_demo :: "nat \<Rightarrow> 'a \<Rightarrow> nat \<Rightarrow> 'a RaDemo" where
  "ra_demo lane_capacity dflt producers = \<lparr>rd_lanes = replicate producers (ra_new lane_capacity dflt), rd_finished = replicate producers False,
     rd_counter = [(int producers, replicate producers no_view)], rd_seen = 0, rd_next_lane = 0, rd_matcher = Testing\<rparr>"

text \<open>
  One access of producer \<open>p\<close>, whose requests are \<open>plan ! p\<close>: it retries a request until its push succeeds.
\<close>

definition demo_push :: "'a list list \<Rightarrow> nat \<Rightarrow> nat \<Rightarrow> 'a RaDemo \<Rightarrow> 'a RaDemo option" where
  "demo_push plan p ts d = (let i = ra_pushes (rd_lanes d ! p) in
     if i < length (plan ! p) then do {
       lane \<leftarrow> producer_access ring_orders (plan ! p ! i) ts (rd_lanes d ! p);
       Some (d\<lparr>rd_lanes := (rd_lanes d)[p := lane]\<rparr>) }
     else None)"

definition demo_decrement :: "DemoOrders \<Rightarrow> nat \<Rightarrow> 'a RaDemo \<Rightarrow> 'a RaDemo" where
  "demo_decrement mo p d = (let (c, views) = last (rd_counter d);
     view = view_join (views ! p) (released (decrement_order mo) (ra_pview (rd_lanes d ! p)) no_view) in
     d\<lparr>rd_counter := rd_counter d @ [(c - 1, views[p := view])], rd_finished := (rd_finished d)[p := True]\<rparr>)"

definition demo_test :: "DemoOrders \<Rightarrow> nat \<Rightarrow> 'a RaDemo \<Rightarrow> 'a RaDemo" where
  "demo_test mo ts d = (let (c, views) = rd_counter d ! ts;
     lanes = map2 (\<lambda>lane view. if test_order mo = Acquire then lane\<lparr>ra_cview := view_join (ra_cview lane) view\<rparr> else lane) (rd_lanes d) views in
     d\<lparr>rd_lanes := lanes, rd_seen := ts, rd_matcher := (if c > 0 then Polling 0 else Scan 0)\<rparr>)"

text \<open>
  What can happen next: an access of a producer (\<open>Push p ts\<close>), its decrement after its last request (\<open>Finish p\<close>), and
  the steps of the matching thread: the load of the counter (\<open>Test\<close>), one \<open>empty()\<close> of \<open>all_lanes_empty\<close> (\<open>Ask\<close>), an
  access of a \<open>try_pop\<close> of \<open>poll_once\<close> (\<open>Poll\<close>), the end of a sweep (\<open>Rotate\<close>) and of the loop (\<open>Leave\<close>).  The
  numbers \<open>ts\<close>, \<open>tr\<close> and \<open>tw\<close> are the positions loads read from.
\<close>

datatype demo_action = Push nat nat | Finish nat | Test nat | Ask nat nat | Poll nat | Rotate | Leave

fun demo_do :: "DemoOrders \<Rightarrow> 'a list list \<Rightarrow> demo_action \<Rightarrow> 'a RaDemo \<Rightarrow> 'a RaDemo option" where
  "demo_do mo plan (Push p ts) d = (if p < length (rd_lanes d) \<and> \<not> rd_finished d ! p then demo_push plan p ts d else None)"
| "demo_do mo plan (Finish p) d = (if p < length (rd_lanes d) \<and> \<not> rd_finished d ! p \<and> \<not> ra_pushes (rd_lanes d ! p) < length (plan ! p)
     then Some (demo_decrement mo p d) else None)"
| "demo_do mo plan (Test ts) d = (if rd_matcher d = Testing \<and> rd_seen d \<le> ts \<and> ts < length (rd_counter d) then Some (demo_test mo ts d) else None)"
| "demo_do mo plan (Ask tr tw) d = (case rd_matcher d of Scan k \<Rightarrow> if k < length (rd_lanes d) then do {
     (b, lane) \<leftarrow> consumer_empty tr tw (rd_lanes d ! k);
     Some (d\<lparr>rd_lanes := (rd_lanes d)[k := lane], rd_matcher := (if b then Scan (Suc k) else Polling 0)\<rparr>) } else None | _ \<Rightarrow> None)"
| "demo_do mo plan Leave d = (case rd_matcher d of Scan k \<Rightarrow> if k < length (rd_lanes d) then None else Some (d\<lparr>rd_matcher := Left\<rparr>) | _ \<Rightarrow> None)"
| "demo_do mo plan (Poll ts) d = (case rd_matcher d of Polling i \<Rightarrow> if i < length (rd_lanes d) then do {
     let l = (rd_next_lane d + i) mod length (rd_lanes d);
     lane \<leftarrow> consumer_access ring_orders ts (rd_lanes d ! l);
     Some (d\<lparr>rd_lanes := (rd_lanes d)[l := lane], rd_matcher := (if ra_cons lane = C_idle then Polling (Suc i) else Polling i)\<rparr>) } else None | _ \<Rightarrow> None)"
| "demo_do mo plan Rotate d = (case rd_matcher d of Polling i \<Rightarrow> if i < length (rd_lanes d) then None else
     Some (d\<lparr>rd_next_lane := (if rd_lanes d \<noteq> [] then (rd_next_lane d + 1) mod length (rd_lanes d) else rd_next_lane d), rd_matcher := Testing\<rparr>) | _ \<Rightarrow> None)"

inductive ra_demo_reach :: "DemoOrders \<Rightarrow> 'a list list \<Rightarrow> 'a RaDemo \<Rightarrow> 'a RaDemo \<Rightarrow> bool" for mo plan d0 where
  demo_start: "ra_demo_reach mo plan d0 d0"
| demo_next: "ra_demo_reach mo plan d0 d \<Longrightarrow> demo_do mo plan a d = Some d' \<Longrightarrow> ra_demo_reach mo plan d0 d'"

section \<open>Invariant\<close>

text \<open>What is in a lane are the first requests of its producer.\<close>

definition in_flight :: "'a list \<Rightarrow> 'a RaRing \<Rightarrow> 'a \<Rightarrow> bool" where
  "in_flight plan R x \<longleftrightarrow> ra_pushes R < length plan \<and> x = plan ! ra_pushes R"

definition follows :: "'a list \<Rightarrow> 'a RaRing \<Rightarrow> bool" where
  "follows plan R \<longleftrightarrow> ra_pushes R \<le> length plan \<and> ra_pushed R = take (ra_pushes R) plan \<and>
     (case ra_prod R of P_idle \<Rightarrow> True | P_loaded x w n \<Rightarrow> in_flight plan R x | P_storing x w n \<Rightarrow> in_flight plan R x | P_stored x w n \<Rightarrow> in_flight plan R x)"

definition lane_ok :: "'a list \<Rightarrow> 'a RaRing \<Rightarrow> bool" where
  "lane_ok plan R \<longleftrightarrow> ra_inv R \<and> follows plan R"

text \<open>A counter value passes on the complete lanes of the producers that have decremented.\<close>

definition counter_ok :: "'a list list \<Rightarrow> 'a RaDemo \<Rightarrow> bool" where
  "counter_ok plan d \<longleftrightarrow> length (rd_counter d) = Suc (count_list (rd_finished d) True)
     \<and> (\<forall>ts < length (rd_counter d). fst (rd_counter d ! ts) = int (length plan) - int ts \<and> length (snd (rd_counter d ! ts)) = length plan
         \<and> (\<forall>p < length plan. view_ok (rd_lanes d ! p) (snd (rd_counter d ! ts) ! p)
              \<and> (ts = length plan \<longrightarrow> length (plan ! p) \<le> seen_write (snd (rd_counter d ! ts) ! p))))
     \<and> (\<forall>p < length plan. rd_finished d ! p \<longrightarrow> length (plan ! p) \<le> seen_write (snd (last (rd_counter d)) ! p))"

fun scan_ok :: "'a list list \<Rightarrow> 'a RaDemo \<Rightarrow> ra_matcher \<Rightarrow> bool" where
  "scan_ok plan d (Scan k) = ((\<forall>p < length plan. length (plan ! p) \<le> seen_write (ra_cview (rd_lanes d ! p)))
     \<and> (\<forall>p < length plan. p < k \<longrightarrow> length (plan ! p) \<le> ra_pops (rd_lanes d ! p)))"
| "scan_ok plan d Left = (\<forall>p < length plan. length (plan ! p) \<le> ra_pops (rd_lanes d ! p))"
| "scan_ok plan d _ = True"

definition demo_inv :: "'a list list \<Rightarrow> 'a RaDemo \<Rightarrow> bool" where
  "demo_inv plan d \<longleftrightarrow> length (rd_lanes d) = length plan \<and> length (rd_finished d) = length plan
     \<and> (\<forall>p < length plan. lane_ok (plan ! p) (rd_lanes d ! p)) \<and> counter_ok plan d \<and> scan_ok plan d (rd_matcher d)"

section \<open>Lanes only grow\<close>

definition ra_le :: "'a RaRing \<Rightarrow> 'a RaRing \<Rightarrow> bool" where
  "ra_le R R' \<longleftrightarrow> ra_pushes R \<le> ra_pushes R' \<and> ra_pops R \<le> ra_pops R' \<and> known_stores (ra_pview R) \<le> known_stores (ra_pview R')
     \<and> known_takes (ra_cview R) \<le> known_takes (ra_cview R') \<and> seen_write (ra_cview R) \<le> seen_write (ra_cview R')"

lemma ra_le_refl [simp]: "ra_le R R"
  by (simp add: ra_le_def)

lemma view_ok_le: "view_ok R V \<Longrightarrow> ra_le R R' \<Longrightarrow> view_ok R' V"
  by (rule view_ok_mono) (auto simp: ra_le_def)

lemma load_le:
  "load_write_idx mo ts R V = Some (v, V') \<Longrightarrow> seen_write V \<le> seen_write V' \<and> known_stores V \<le> known_stores V' \<and> known_takes V \<le> known_takes V'"
  "load_read_idx mo ts R V = Some (v, V') \<Longrightarrow> seen_write V \<le> seen_write V' \<and> known_stores V \<le> known_stores V' \<and> known_takes V \<le> known_takes V'"
  by (auto simp: load_write_idx_def load_read_idx_def acquired_def split: if_splits)

lemma producer_access_le:
  assumes "producer_access mo x ts R = Some R'"
  shows "ra_le R R'" "ra_cons R' = ra_cons R" "ra_popped R' = ra_popped R"
  using assms by (auto simp: producer_access_def ra_le_def bind_eq_Some_conv Let_def dest: load_le split: producer.splits)

lemma consumer_access_le:
  assumes "consumer_access mo ts R = Some R'"
  shows "ra_le R R'" "ra_prod R' = ra_prod R" "ra_pushed R' = ra_pushed R"
  using assms by (auto simp: consumer_access_def ra_le_def bind_eq_Some_conv Let_def dest: load_le split: consumer.splits)

lemma consumer_empty_le:
  assumes "consumer_empty tr tw R = Some (b, R')"
  shows "ra_le R R'" "ra_prod R' = ra_prod R" "ra_pushed R' = ra_pushed R"
  using assms by (auto simp: consumer_empty_def ra_le_def bind_eq_Some_conv dest!: load_le)

lemma follows_cong: "ra_prod R' = ra_prod R \<Longrightarrow> ra_pushed R' = ra_pushed R \<Longrightarrow> follows plan R' = follows plan R"
  by (cases "ra_prod R") (simp_all add: follows_def in_flight_def)

lemma lane_push:
  assumes "lane_ok plan R" "ra_pushes R < length plan" "producer_access ring_orders (plan ! ra_pushes R) ts R = Some R'"
  shows "lane_ok plan R'"
proof -
  have "follows plan R'"
    using assms by (auto simp: lane_ok_def follows_def in_flight_def producer_access_def bind_eq_Some_conv Let_def take_Suc_conv_app_nth
        split: producer.splits if_splits)
  then show ?thesis using assms producer_access_keeps by (auto simp: lane_ok_def)
qed

lemma lane_pop:
  assumes "lane_ok plan R" "consumer_access ring_orders ts R = Some R'"
  shows "lane_ok plan R'"
  using assms(1) consumer_access_keeps [OF _ assms(2)] follows_cong [OF consumer_access_le(2,3) [OF assms(2)], of plan] by (simp add: lane_ok_def)

lemma lane_empty:
  assumes "lane_ok plan R" "consumer_empty tr tw R = Some (b, R')"
  shows "lane_ok plan R'"
  using assms(1) consumer_empty_keeps(1) [OF _ assms(2)] follows_cong [OF consumer_empty_le(2,3) [OF assms(2)], of plan] by (simp add: lane_ok_def)

lemma lane_acquire:
  assumes "lane_ok plan R" "view_ok R V"
  shows "lane_ok plan (R\<lparr>ra_cview := view_join (ra_cview R) V\<rparr>)" "ra_le R (R\<lparr>ra_cview := view_join (ra_cview R) V\<rparr>)"
proof -
  have inv: "ra_inv R" using assms(1) by (simp add: lane_ok_def)
  then have "consumer_view R (view_join (ra_cview R) V)" using joined_views(2) [OF assms(2)] own_views(2) by (auto simp: ra_inv_def)
  from ra_inv_cview(2) [OF inv this] show "lane_ok plan (R\<lparr>ra_cview := view_join (ra_cview R) V\<rparr>)"
    using assms(1) follows_cong [of "R\<lparr>ra_cview := view_join (ra_cview R) V\<rparr>" R plan] by (simp add: lane_ok_def)
qed (simp add: ra_le_def)

text \<open>A lane from which as many requests were popped as its producer has to push has delivered them all.\<close>

lemma lane_complete:
  assumes "lane_ok plan R" "length plan \<le> ra_pops R"
  shows "ra_popped R = plan"
proof -
  have "ra_pops R \<le> ra_pushes R" "ra_popped R = take (ra_pops R) (ra_pushed R)" "ra_pushed R = take (ra_pushes R) plan" "ra_pushes R \<le> length plan"
    using assms(1) memory_okD(2) by (auto simp: lane_ok_def ra_inv_def queue_ok_def follows_def)
  then show ?thesis using assms(2) by (metis order_antisym order_trans take_all)
qed

section \<open>Every step keeps the invariant\<close>

lemma demo_invD:
  assumes "demo_inv plan d" "p < length plan"
  shows "lane_ok (plan ! p) (rd_lanes d ! p)" "p < length (rd_lanes d)" "p < length (rd_finished d)"
  using assms by (simp_all add: demo_inv_def)

lemma demo_inv_lanes:
  assumes inv: "demo_inv plan d" and len: "length Rs = length plan"
    and lanes: "\<And>p. p < length plan \<Longrightarrow> lane_ok (plan ! p) (Rs ! p) \<and> ra_le (rd_lanes d ! p) (Rs ! p)"
  shows "demo_inv plan (d\<lparr>rd_lanes := Rs\<rparr>)"
proof -
  have "view_ok (Rs ! p) V" if "p < length plan" "view_ok (rd_lanes d ! p) V" for p V using view_ok_le [OF that(2)] lanes [OF that(1)] by blast
  then have "counter_ok plan (d\<lparr>rd_lanes := Rs\<rparr>)" using inv by (simp add: demo_inv_def counter_ok_def)
  moreover have "scan_ok plan (d\<lparr>rd_lanes := Rs\<rparr>) (rd_matcher d)"
    using inv lanes by (cases "rd_matcher d") (auto simp: demo_inv_def ra_le_def intro: order_trans)
  ultimately show ?thesis using inv len lanes by (simp add: demo_inv_def)
qed

lemma demo_inv_lane:
  assumes inv: "demo_inv plan d" and l: "l < length plan" "lane_ok (plan ! l) R" "ra_le (rd_lanes d ! l) R"
  shows "demo_inv plan (d\<lparr>rd_lanes := (rd_lanes d)[l := R]\<rparr>)"
  using inv l by (intro demo_inv_lanes) (auto simp: demo_inv_def nth_list_update)

lemma demo_inv_control:
  assumes "demo_inv plan d"
  shows "scan_ok plan d m \<Longrightarrow> demo_inv plan (d\<lparr>rd_matcher := m\<rparr>)" "demo_inv plan (d\<lparr>rd_seen := ts\<rparr>)" "demo_inv plan (d\<lparr>rd_next_lane := l\<rparr>)"
proof -
  have "scan_ok plan (d\<lparr>rd_matcher := m\<rparr>) q = scan_ok plan d q" "scan_ok plan (d\<lparr>rd_seen := ts\<rparr>) q = scan_ok plan d q"
    "scan_ok plan (d\<lparr>rd_next_lane := l\<rparr>) q = scan_ok plan d q" for q by (cases q; simp)+
  then show "scan_ok plan d m \<Longrightarrow> demo_inv plan (d\<lparr>rd_matcher := m\<rparr>)" "demo_inv plan (d\<lparr>rd_seen := ts\<rparr>)" "demo_inv plan (d\<lparr>rd_next_lane := l\<rparr>)"
    using assms by (simp_all add: demo_inv_def counter_ok_def)
qed

lemma count_finished:
  assumes "p < length F" "\<not> F ! p"
  shows "count_list (F[p := True]) True = Suc (count_list F True)"
  using assms
proof (induction F arbitrary: p)
  case (Cons b F)
  then show ?case by (cases p) auto
qed simp

lemma count_all_finished:
  assumes "count_list F True = length F" "p < length F"
  shows "F ! p"
  using assms
proof (induction F arbitrary: p)
  case (Cons b F)
  then have "b" "count_list F True = length F" using count_le_length [of F True] by (auto split: if_splits)
  then show ?case using Cons by (cases p) auto
qed simp

lemma view_ok_join: "view_ok R V \<Longrightarrow> view_ok R W \<Longrightarrow> view_ok R (view_join V W)"
  by (auto simp: view_ok_def)

lemma decrement_keeps:
  assumes inv: "demo_inv plan d" and p: "p < length plan" "\<not> rd_finished d ! p" "\<not> ra_pushes (rd_lanes d ! p) < length (plan ! p)"
  shows "demo_inv plan (demo_decrement demo_orders p d)"
proof -
  let ?K = "count_list (rd_finished d) True" and ?L = "rd_lanes d ! p" and ?n = "length plan"
  obtain c W where last: "last (rd_counter d) = (c, W)" by (cases "last (rd_counter d)")
  have C: "counter_ok plan d" "length (rd_finished d) = ?n" using inv by (simp_all add: demo_inv_def)
  have len: "length (rd_counter d) = Suc ?K" using C(1) by (simp add: counter_ok_def)
  then have "rd_counter d ! ?K = (c, W)" using last last_conv_nth [of "rd_counter d"] by (cases "rd_counter d") auto
  then have W: "c = int ?n - int ?K" "length W = ?n" "\<And>q. q < ?n \<Longrightarrow> view_ok (rd_lanes d ! q) (W ! q)"
    "\<And>q. q < ?n \<Longrightarrow> rd_finished d ! q \<Longrightarrow> length (plan ! q) \<le> seen_write (W ! q)"
    using C(1) len last unfolding counter_ok_def by force+
  have lane: "view_ok ?L (ra_pview ?L)" "length (plan ! p) \<le> seen_write (ra_pview ?L)"
    using demo_invD(1) [OF inv p(1)] p(3) by (auto simp: lane_ok_def ra_inv_def memory_ok_def)
  define V where "V = view_join (W ! p) (ra_pview ?L)"
  define F where "F = (rd_finished d)[p := True]"
  have V: "view_ok (rd_lanes d ! q) (W[p := V] ! q)" if "q < ?n" for q
    using that p(1) W(2) W(3) [of q] view_ok_join [OF W(3) [OF p(1)] lane(1)] by (cases "q = p") (simp_all add: V_def)
  have know: "length (plan ! q) \<le> seen_write (W[p := V] ! q)" if "q < ?n" "F ! q" for q
    using that p(1) W(2) W(4) [of q] lane(2) C(2) by (cases "q = p") (simp_all add: V_def F_def le_max_iff_disj)
  have count: "count_list F True = Suc ?K" using count_finished [of p "rd_finished d"] p C(2) by (simp add: F_def)
  have all: "F ! q" if "Suc ?K = ?n" "q < ?n" for q
    by (rule count_all_finished) (use that count C(2) in \<open>simp_all add: F_def\<close>)
  have d': "demo_decrement demo_orders p d = d\<lparr>rd_counter := rd_counter d @ [(c - 1, W[p := V])], rd_finished := F\<rparr>"
    by (simp add: demo_decrement_def last demo_orders_def released_def V_def F_def)
  have "counter_ok plan (d\<lparr>rd_counter := rd_counter d @ [(c - 1, W[p := V])], rd_finished := F\<rparr>)"
    using C(1) len count V know all W(1,2) by (auto simp: counter_ok_def nth_append less_Suc_eq)
  moreover have "scan_ok plan (d\<lparr>rd_counter := cs, rd_finished := fs\<rparr>) q = scan_ok plan d q" for cs fs q by (cases q) simp_all
  ultimately show ?thesis using inv C(2) unfolding d' by (simp add: demo_inv_def F_def)
qed

lemma test_keeps:
  assumes inv: "demo_inv plan d" and ts: "ts < length (rd_counter d)"
  shows "demo_inv plan (demo_test demo_orders ts d)"
proof -
  let ?n = "length plan"
  obtain c W where cw: "rd_counter d ! ts = (c, W)" by (cases "rd_counter d ! ts")
  have W: "c = int ?n - int ts" "length W = ?n" "\<And>q. q < ?n \<Longrightarrow> view_ok (rd_lanes d ! q) (W ! q)"
    "\<And>q. q < ?n \<Longrightarrow> ts = ?n \<Longrightarrow> length (plan ! q) \<le> seen_write (W ! q)"
    using inv ts cw unfolding demo_inv_def counter_ok_def by force+
  have le: "ts \<le> ?n" using inv ts count_le_length [of "rd_finished d" True] by (auto simp: demo_inv_def counter_ok_def)
  define Rs where "Rs = map2 (\<lambda>lane view. lane\<lparr>ra_cview := view_join (ra_cview lane) view\<rparr>) (rd_lanes d) W"
  have Rs: "length Rs = ?n" "\<And>q. q < ?n \<Longrightarrow> Rs ! q = (rd_lanes d ! q)\<lparr>ra_cview := view_join (ra_cview (rd_lanes d ! q)) (W ! q)\<rparr>"
    using inv W(2) by (simp_all add: Rs_def demo_inv_def)
  have d1: "demo_inv plan (d\<lparr>rd_lanes := Rs\<rparr>)"
  proof (rule demo_inv_lanes [OF inv Rs(1)])
    fix q assume q: "q < ?n"
    show "lane_ok (plan ! q) (Rs ! q) \<and> ra_le (rd_lanes d ! q) (Rs ! q)"
      unfolding Rs(2) [OF q] using lane_acquire [OF demo_invD(1) [OF inv q] W(3) [OF q]] by blast
  qed
  have "scan_ok plan (d\<lparr>rd_lanes := Rs, rd_seen := ts\<rparr>) (if c > 0 then Polling 0 else Scan 0)"
    using W(1,4) le Rs(2) by (auto simp: le_max_iff_disj)
  then have "demo_inv plan (d\<lparr>rd_lanes := Rs, rd_seen := ts, rd_matcher := (if c > 0 then Polling 0 else Scan 0)\<rparr>)"
    using demo_inv_control(1) [OF demo_inv_control(2) [OF d1, of ts]] by simp
  then show ?thesis by (simp add: demo_test_def cw demo_orders_def Rs_def)
qed

lemma scan_keeps:
  assumes inv: "demo_inv plan d" and m: "rd_matcher d = Scan k" "k < length plan" and e: "consumer_empty tr tw (rd_lanes d ! k) = Some (b, lane)"
  shows "demo_inv plan (d\<lparr>rd_lanes := (rd_lanes d)[k := lane], rd_matcher := (if b then Scan (Suc k) else Polling 0)\<rparr>)"
proof -
  let ?d = "d\<lparr>rd_lanes := (rd_lanes d)[k := lane]\<rparr>"
  note L = demo_invD [OF inv m(2)]
  have inv': "demo_inv plan ?d" by (rule demo_inv_lane [OF inv m(2) lane_empty [OF L(1) e] consumer_empty_le(1) [OF e]])
  have sc: "scan_ok plan ?d (Scan k)" using inv' m(1) by (simp add: demo_inv_def)
  have "length (plan ! k) \<le> ra_pops lane" if b
  proof -
    have "length (plan ! k) \<le> seen_write (ra_cview (rd_lanes d ! k))" using inv m by (simp add: demo_inv_def)
    also have "\<dots> \<le> ra_pops (rd_lanes d ! k)" using consumer_empty_keeps(2) [OF _ e that] L(1) by (simp add: lane_ok_def)
    also have "\<dots> \<le> ra_pops lane" using consumer_empty_le(1) [OF e] by (simp add: ra_le_def)
    finally show ?thesis .
  qed
  then have "scan_ok plan ?d (if b then Scan (Suc k) else Polling 0)" using sc L(2) by (auto simp: less_Suc_eq)
  from demo_inv_control(1) [OF inv' this] show ?thesis by simp
qed

lemma push_keeps:
  assumes inv: "demo_inv plan d" and p: "p < length plan" and step: "demo_push plan p ts d = Some d'"
  shows "demo_inv plan d'"
proof -
  obtain lane where lane: "ra_pushes (rd_lanes d ! p) < length (plan ! p)"
    "producer_access ring_orders (plan ! p ! ra_pushes (rd_lanes d ! p)) ts (rd_lanes d ! p) = Some lane" "d' = d\<lparr>rd_lanes := (rd_lanes d)[p := lane]\<rparr>"
    using step by (auto simp: demo_push_def Let_def bind_eq_Some_conv split: if_splits)
  show ?thesis unfolding lane(3)
    by (rule demo_inv_lane [OF inv p lane_push [OF demo_invD(1) [OF inv p] lane(1,2)] producer_access_le(1) [OF lane(2)]])
qed

lemma poll_keeps:
  assumes inv: "demo_inv plan d" and l: "l < length plan" and pop: "consumer_access ring_orders ts (rd_lanes d ! l) = Some lane"
  shows "demo_inv plan (d\<lparr>rd_lanes := (rd_lanes d)[l := lane], rd_matcher := (if ra_cons lane = C_idle then Polling (Suc i) else Polling i)\<rparr>)"
proof -
  have "demo_inv plan (d\<lparr>rd_lanes := (rd_lanes d)[l := lane]\<rparr>)"
    by (rule demo_inv_lane [OF inv l lane_pop [OF demo_invD(1) [OF inv l] pop] consumer_access_le(1) [OF pop]])
  from demo_inv_control(1) [OF this, of "if ra_cons lane = C_idle then Polling (Suc i) else Polling i"] show ?thesis by simp
qed

lemma demo_do_inv:
  assumes inv: "demo_inv plan d" and step: "demo_do demo_orders plan a d = Some d'"
  shows "demo_inv plan d'"
proof -
  have n: "length (rd_lanes d) = length plan" using inv by (simp add: demo_inv_def)
  show ?thesis
  proof (cases a)
    case (Push p ts)
    then show ?thesis using push_keeps [OF inv] step n by (simp split: if_splits)
  next
    case (Finish p)
    then show ?thesis using decrement_keeps [OF inv] step n by (auto split: if_splits)
  next
    case (Test ts)
    then show ?thesis using test_keeps [OF inv] step by (auto split: if_splits)
  next
    case (Ask tr tw)
    then obtain k b lane where k: "rd_matcher d = Scan k" "k < length plan" "consumer_empty tr tw (rd_lanes d ! k) = Some (b, lane)"
      "d' = d\<lparr>rd_lanes := (rd_lanes d)[k := lane], rd_matcher := (if b then Scan (Suc k) else Polling 0)\<rparr>"
      using step n by (cases "rd_matcher d") (auto simp: bind_eq_Some_conv simp del: if_split_eq1 split: if_split_asm)
    show ?thesis unfolding k(4) by (rule scan_keeps [OF inv k(1-3)])
  next
    case Leave
    then obtain k where k: "rd_matcher d = Scan k" "\<not> k < length plan" "d' = d\<lparr>rd_matcher := Left\<rparr>"
      using step n by (cases "rd_matcher d") (auto split: if_splits)
    then have "scan_ok plan d Left" using inv by (auto simp: demo_inv_def)
    from demo_inv_control(1) [OF inv this] show ?thesis using k(3) by simp
  next
    case (Poll ts)
    obtain i where i: "rd_matcher d = Polling i" "i < length plan" using step Poll n by (cases "rd_matcher d") (auto split: if_splits)
    let ?l = "(rd_next_lane d + i) mod length plan"
    obtain lane where lane: "consumer_access ring_orders ts (rd_lanes d ! ?l) = Some lane"
      "d' = d\<lparr>rd_lanes := (rd_lanes d)[?l := lane], rd_matcher := (if ra_cons lane = C_idle then Polling (Suc i) else Polling i)\<rparr>"
      using step Poll n i by (simp add: bind_eq_Some_conv Let_def del: if_split) blast
    have "?l < length plan" using i(2) by (intro mod_less_divisor) linarith
    from poll_keeps [OF inv this lane(1)] show ?thesis unfolding lane(2) .
  next
    case Rotate
    have "demo_inv plan (d\<lparr>rd_next_lane := l, rd_matcher := Testing\<rparr>)" "demo_inv plan (d\<lparr>rd_matcher := Testing\<rparr>)" for l
      using demo_inv_control(1) [OF demo_inv_control(3) [OF inv, of l], of Testing] demo_inv_control(1) [OF inv, of Testing] by simp_all
    then show ?thesis using step Rotate by (cases "rd_matcher d") (auto split: if_splits)
  qed
qed

lemma ra_demo_inv:
  assumes "1 \<le> k"
  shows "demo_inv plan (ra_demo (2 ^ k) dflt (length plan))"
proof -
  have new: "ra_inv (ra_new (2 ^ k) dflt)" by (rule ra_new_inv [OF assms])
  have "view_ok (ra_new (2 ^ k) dflt) no_view" by (simp add: view_ok_def ra_new_def no_view_def)
  moreover have "follows xs (ra_new (2 ^ k) dflt)" for xs by (simp add: follows_def ra_new_def)
  moreover have "count_list (replicate n False) True = 0" for n by (induction n) simp_all
  ultimately show ?thesis using new by (auto simp: demo_inv_def ra_demo_def counter_ok_def lane_ok_def)
qed

lemma demo_reach_inv:
  assumes "ra_demo_reach demo_orders plan d0 d" "demo_inv plan d0"
  shows "demo_inv plan d"
  using assms by (induction rule: ra_demo_reach.induct) (auto intro: demo_do_inv)

section \<open>Nothing is left behind\<close>

text \<open>
  C25.  When the matching thread leaves its loop it has taken every request of every producer out of its lane, in the
  producer's order, although each load it decided on may have been stale; and on the way there no access to a lane's
  buffer raced.  The release decrement of \<open>producers_remaining\<close> and its acquire load are what makes the last look at the
  lanes conclusive.
\<close>

theorem loop_release_acquire:
  assumes "1 \<le> k" "ra_demo_reach demo_orders plan (ra_demo (2 ^ k) dflt (length plan)) d"
  shows "(\<forall>p < length plan. \<not> ra_race (rd_lanes d ! p) \<and> (rd_matcher d = Left \<longrightarrow> ra_popped (rd_lanes d ! p) = plan ! p))"
proof -
  have inv: "demo_inv plan d" by (rule demo_reach_inv [OF assms(2) ra_demo_inv [OF assms(1)]])
  show ?thesis
  proof (intro allI impI conjI)
    fix p assume p: "p < length plan"
    show "\<not> ra_race (rd_lanes d ! p)" using demo_invD(1) [OF inv p] by (simp add: lane_ok_def ra_inv_def)
    assume "rd_matcher d = Left"
    then show "ra_popped (rd_lanes d ! p) = plan ! p" using inv p lane_complete [OF demo_invD(1) [OF inv p]] by (simp add: demo_inv_def)
  qed
qed

lemma foldM_demo_reach: "foldM (demo_do mo plan) xs d = Some d' \<Longrightarrow> ra_demo_reach mo plan d0 d \<Longrightarrow> ra_demo_reach mo plan d0 d'"
  by (induction xs arbitrary: d) (auto simp: bind_eq_Some_conv intro: demo_next)

lemmas demo_eval = demo_push_def demo_decrement_def demo_test_def consumer_empty_def ra_demo_def demo_orders_def ra_eval numeral_2_eq_2

definition one_order :: "demo_action list" where
  "one_order = [Push 0 0, Push 0 0, Push 0 0, Push 0 0, Test 0, Poll 0, Poll 1, Poll 0, Poll 0, Rotate, Finish 0, Test 1, Ask 1 1, Leave]"

theorem loop_release_acquire_witness:
  "\<exists>d. foldM (demo_do demo_orders [[7 :: nat]]) one_order (ra_demo 2 0 1) = Some d \<and> rd_matcher d = Left \<and> ra_popped (rd_lanes d ! 0) = [7]"
proof -
  obtain d where d: "foldM (demo_do demo_orders [[7 :: nat]]) one_order (ra_demo 2 0 1) = Some d" "rd_matcher d = Left"
    by (simp add: one_order_def demo_eval)
  have "ra_demo_reach demo_orders [[7]] (ra_demo 2 0 1) d" by (rule foldM_demo_reach [OF d(1) demo_start])
  then show ?thesis using loop_release_acquire [of 1 "[[7]]" 0 d] d by auto
qed

text \<open>
  The two orders are needed: if the decrement or the load of the counter were relaxed, the matching thread could
  read zero, find a stale write index in a lane, and leave an order behind.
\<close>

theorem relaxed_counter_loses_orders:
  "\<exists>d. ra_demo_reach (demo_orders\<lparr>decrement_order := Relaxed\<rparr>) [[7 :: nat]] (ra_demo 2 0 1) d \<and> rd_matcher d = Left \<and> ra_popped (rd_lanes d ! 0) = []"
  "\<exists>d. ra_demo_reach (demo_orders\<lparr>test_order := Relaxed\<rparr>) [[7 :: nat]] (ra_demo 2 0 1) d \<and> rd_matcher d = Left \<and> ra_popped (rd_lanes d ! 0) = []"
proof -
  have lost: "\<exists>d. ra_demo_reach mo [[7 :: nat]] (ra_demo 2 0 1) d \<and> rd_matcher d = Left \<and> ra_popped (rd_lanes d ! 0) = []"
    if "\<exists>d. foldM (demo_do mo [[7 :: nat]]) [Push 0 0, Push 0 0, Push 0 0, Push 0 0, Finish 0, Test 1, Ask 0 0, Leave] (ra_demo 2 0 1) = Some d
      \<and> rd_matcher d = Left \<and> ra_popped (rd_lanes d ! 0) = []" for mo
    using that foldM_demo_reach demo_start by blast
  show "\<exists>d. ra_demo_reach (demo_orders\<lparr>decrement_order := Relaxed\<rparr>) [[7 :: nat]] (ra_demo 2 0 1) d \<and> rd_matcher d = Left \<and> ra_popped (rd_lanes d ! 0) = []"
    by (rule lost) (simp add: demo_eval)
  show "\<exists>d. ra_demo_reach (demo_orders\<lparr>test_order := Relaxed\<rparr>) [[7 :: nat]] (ra_demo 2 0 1) d \<and> rd_matcher d = Left \<and> ra_popped (rd_lanes d ! 0) = []"
    by (rule lost) (simp add: demo_eval)
qed

end
