(* ===== verification/Flush_Memory.thy ===== *)
theory Flush_Memory
  imports Ring_Memory Logger
begin

text \<open>
  \<open>Logger::log\<close>, \<open>flush\<close> and the worker of \<open>src/logger.cpp\<close> under the memory orders of the code.

  The queue is the ring of \<open>Ring_Memory\<close>, with the calling thread as producer and the worker as consumer.
  \<open>processed_count_\<close> has a history: the worker adds to it with release after every write to the stream, the caller
  loads it with acquire while it waits in \<open>flush\<close>, and may see an old value.  The stream is not atomic: \<open>rl_known\<close>
  counts the writes of the worker that happened before what the caller does next, so the caller may look at the
  stream without a race exactly when it knows of all of them.  \<open>pushed_count_\<close> and \<open>dropped_\<close> are modified and loaded by
  the caller only.
\<close>

section \<open>Model\<close>

datatype rl_caller = Ready | Logging LogRecord | Tallying bool | Awaiting u64

datatype rl_worker = Fetching | Printing LogRecord | Reporting

text \<open>\<open>rl_processed\<close>: a value of \<open>processed_count_\<close> and the number of writes that acquiring it makes known.\<close>

record RaLogger =
  rl_ring :: "LogRecord RaRing"
  rl_min_level :: LogLevel
  rl_dropped :: u64
  rl_pushed_count :: u64
  rl_processed :: "(u64 \<times> nat) list"
  rl_out :: string
  rl_writes :: nat
  rl_seen :: nat
  rl_known :: nat
  rl_caller :: rl_caller
  rl_worker :: rl_worker

record LoggerOrders =
  report_order :: memory_order
  await_order :: memory_order

definition logger_orders :: LoggerOrders where
  "logger_orders = \<lparr>report_order = Release, await_order = Acquire\<rparr>"

definition rl_new :: "nat \<Rightarrow> LogLevel \<Rightarrow> RaLogger" where
  "rl_new queue_capacity min_level =
     \<lparr>rl_ring = ra_new queue_capacity \<lparr>lr_timestamp = 0, lr_level = Info, lr_message = replicate message_size (CHR 0x00)\<rparr>,
      rl_min_level = min_level, rl_dropped = 0, rl_pushed_count = 0, rl_processed = [(0, 0)], rl_out = [], rl_writes = 0, rl_seen = 0,
      rl_known = 0, rl_caller = Ready, rl_worker = Fetching\<rparr>"

text \<open>
  The caller begins a \<open>log\<close> or a \<open>flush\<close>, makes an access of \<open>try_push\<close>, counts its result, or looks at
  \<open>processed_count_\<close> while it waits; the worker makes an access of \<open>try_pop\<close>, writes, or counts.  The numbers are the
  positions loads read from.
\<close>

datatype rl_action = Begin_log LogLevel string Timestamp | Push_access nat | Tally | Begin_flush | Look nat | Pop_access nat | Write_record | Count_write

definition caller_push :: "nat \<Rightarrow> LogRecord \<Rightarrow> RaLogger \<Rightarrow> RaLogger option" where
  "caller_push ts rec s = do {
     R \<leftarrow> producer_access ring_orders rec ts (rl_ring s);
     Some (s\<lparr>rl_ring := R, rl_caller := (if ra_pushes (rl_ring s) < ra_pushes R then Tallying True
       else if ra_prod R = P_idle then Tallying False else Logging rec)\<rparr>) }"

definition caller_look :: "LoggerOrders \<Rightarrow> nat \<Rightarrow> u64 \<Rightarrow> RaLogger \<Rightarrow> RaLogger option" where
  "caller_look mo ts target s = (if rl_seen s \<le> ts \<and> ts < length (rl_processed s) then
     let (count, writes) = rl_processed s ! ts in
     Some (s\<lparr>rl_seen := ts, rl_known := (if await_order mo = Acquire then max (rl_known s) writes else rl_known s),
       rl_caller := (if count < target then Awaiting target else Ready)\<rparr>) else None)"

definition worker_pop :: "nat \<Rightarrow> RaLogger \<Rightarrow> RaLogger option" where
  "worker_pop ts s = do {
     R \<leftarrow> consumer_access ring_orders ts (rl_ring s);
     Some (s\<lparr>rl_ring := R, rl_worker := (if ra_pops (rl_ring s) < ra_pops R then Printing (last (ra_popped R)) else Fetching)\<rparr>) }"

definition worker_report :: "LoggerOrders \<Rightarrow> RaLogger \<Rightarrow> RaLogger" where
  "worker_report mo s = (let (count, writes) = last (rl_processed s) in
     s\<lparr>rl_processed := rl_processed s @ [(count + 1, if report_order mo = Release then max writes (rl_writes s) else writes)], rl_worker := Fetching\<rparr>)"

fun rl_do :: "LoggerOrders \<Rightarrow> rl_action \<Rightarrow> RaLogger \<Rightarrow> RaLogger option" where
  "rl_do mo (Begin_log level message now) s = (if rl_caller s = Ready
     then Some (if level < rl_min_level s then s else s\<lparr>rl_caller := Logging (make_record level message now)\<rparr>) else None)"
| "rl_do mo (Push_access ts) s = (case rl_caller s of Logging rec \<Rightarrow> caller_push ts rec s | _ \<Rightarrow> None)"
| "rl_do mo Tally s = (case rl_caller s of Tallying pushed \<Rightarrow>
     Some (if pushed then s\<lparr>rl_pushed_count := rl_pushed_count s + 1, rl_caller := Ready\<rparr>
       else s\<lparr>rl_dropped := rl_dropped s + 1, rl_caller := Ready\<rparr>) | _ \<Rightarrow> None)"
| "rl_do mo Begin_flush s = (if rl_caller s = Ready then Some (s\<lparr>rl_caller := Awaiting (rl_pushed_count s)\<rparr>) else None)"
| "rl_do mo (Look ts) s = (case rl_caller s of Awaiting target \<Rightarrow> caller_look mo ts target s | _ \<Rightarrow> None)"
| "rl_do mo (Pop_access ts) s = (if rl_worker s = Fetching then worker_pop ts s else None)"
| "rl_do mo Write_record s = (case rl_worker s of Printing rec \<Rightarrow>
     Some (s\<lparr>rl_out := rl_out s @ format_record rec, rl_writes := Suc (rl_writes s), rl_worker := Reporting\<rparr>) | _ \<Rightarrow> None)"
| "rl_do mo Count_write s = (if rl_worker s = Reporting then Some (worker_report mo s) else None)"

inductive rl_reach :: "LoggerOrders \<Rightarrow> RaLogger \<Rightarrow> RaLogger \<Rightarrow> bool" for mo s0 where
  rl_start: "rl_reach mo s0 s0"
| rl_next: "rl_reach mo s0 s \<Longrightarrow> rl_do mo a s = Some s' \<Longrightarrow> rl_reach mo s0 s'"

section \<open>Invariant\<close>

fun caller_ok :: "RaLogger \<Rightarrow> rl_caller \<Rightarrow> bool" where
  "caller_ok s (Tallying pushed) = (rl_pushed_count s + (if pushed then 1 else 0) = of_nat (ra_pushes (rl_ring s)))"
| "caller_ok s (Awaiting target) = (rl_pushed_count s = of_nat (ra_pushes (rl_ring s)) \<and> target = rl_pushed_count s)"
| "caller_ok s _ = (rl_pushed_count s = of_nat (ra_pushes (rl_ring s)))"

fun worker_ok :: "RaLogger \<Rightarrow> rl_worker \<Rightarrow> bool" where
  "worker_ok s Fetching = (rl_writes s = ra_pops (rl_ring s) \<and> length (rl_processed s) = Suc (rl_writes s))"
| "worker_ok s (Printing rec) = (Suc (rl_writes s) = ra_pops (rl_ring s) \<and> rec = ra_popped (rl_ring s) ! rl_writes s \<and> length (rl_processed s) = Suc (rl_writes s))"
| "worker_ok s Reporting = (rl_writes s = ra_pops (rl_ring s) \<and> length (rl_processed s) = rl_writes s \<and> 0 < rl_writes s)"

definition rl_inv :: "RaLogger \<Rightarrow> bool" where
  "rl_inv s \<longleftrightarrow> ra_inv (rl_ring s) \<and> caller_ok s (rl_caller s) \<and> worker_ok s (rl_worker s)
     \<and> rl_out s = concat (map format_record (take (rl_writes s) (ra_popped (rl_ring s))))
     \<and> (\<forall>ts < length (rl_processed s). rl_processed s ! ts = (of_nat ts, ts))"

lemma push_effect:
  assumes "producer_access mo x ts R = Some R'"
  shows "ra_popped R' = ra_popped R" "ra_pushes R' = ra_pushes R \<or> ra_pushes R' = Suc (ra_pushes R)"
  using assms by (auto simp: producer_access_def bind_eq_Some_conv Let_def split: producer.splits)

lemma pop_effect:
  assumes "consumer_access mo ts R = Some R'"
  shows "ra_pushed R' = ra_pushed R" "ra_popped R' = ra_popped R \<or> (\<exists>y. ra_popped R' = ra_popped R @ [y])"
  using assms by (auto simp: consumer_access_def bind_eq_Some_conv Let_def split: consumer.splits)

lemma caller_push_keeps:
  assumes inv: "rl_inv s" and c: "rl_caller s = Logging rec" and step: "caller_push ts rec s = Some s'"
  shows "rl_inv s'"
proof -
  obtain R where R: "producer_access ring_orders rec ts (rl_ring s) = Some R"
    and s': "s' = s\<lparr>rl_ring := R, rl_caller := (if ra_pushes (rl_ring s) < ra_pushes R then Tallying True
       else if ra_prod R = P_idle then Tallying False else Logging rec)\<rparr>"
    using step by (auto simp: caller_push_def bind_eq_Some_conv)
  have "ra_inv R" using producer_access_keeps [OF _ R] inv by (simp add: rl_inv_def)
  moreover have "worker_ok s' (rl_worker s)" using inv push_effect(1) [OF R] s' by (cases "rl_worker s") (auto simp: rl_inv_def)
  ultimately show ?thesis using inv c push_effect [OF R] s' by (auto simp: rl_inv_def)
qed

lemma worker_pop_keeps:
  assumes inv: "rl_inv s" and w: "rl_worker s = Fetching" and step: "worker_pop ts s = Some s'"
  shows "rl_inv s'"
proof -
  obtain R where R: "consumer_access ring_orders ts (rl_ring s) = Some R"
    and s': "s' = s\<lparr>rl_ring := R, rl_worker := (if ra_pops (rl_ring s) < ra_pops R then Printing (last (ra_popped R)) else Fetching)\<rparr>"
    using step by (auto simp: worker_pop_def bind_eq_Some_conv)
  have "ra_inv R" using consumer_access_keeps [OF _ R] inv by (simp add: rl_inv_def)
  moreover have "caller_ok s' (rl_caller s)" using inv pop_effect(1) [OF R] s' by (cases "rl_caller s") (simp_all add: rl_inv_def)
  ultimately show ?thesis using inv w pop_effect(2) [OF R] s' by (auto simp: rl_inv_def)
qed

lemma worker_report_keeps:
  assumes inv: "rl_inv s" and w: "rl_worker s = Reporting"
  shows "rl_inv (worker_report logger_orders s)"
proof -
  let ?n = "rl_writes s"
  have len: "length (rl_processed s) = ?n" "0 < ?n" using inv w by (auto simp: rl_inv_def)
  then have "rl_processed s \<noteq> []" by auto
  then have "last (rl_processed s) = (of_nat (?n - 1), ?n - 1)" using inv len last_conv_nth [of "rl_processed s"] by (auto simp: rl_inv_def)
  then have "worker_report logger_orders s = s\<lparr>rl_processed := rl_processed s @ [(of_nat ?n, ?n)], rl_worker := Fetching\<rparr>"
    using len(2) by (simp add: worker_report_def logger_orders_def of_nat_diff)
  moreover have "caller_ok (s\<lparr>rl_processed := p, rl_worker := q\<rparr>) (rl_caller s)" for p q using inv by (cases "rl_caller s") (simp_all add: rl_inv_def)
  ultimately show ?thesis using inv w len by (auto simp: rl_inv_def nth_append less_Suc_eq)
qed

lemma rl_do_inv:
  assumes inv: "rl_inv s" and step: "rl_do logger_orders a s = Some s'"
  shows "rl_inv s'"
proof (cases a)
  case (Push_access ts)
  then show ?thesis using caller_push_keeps [OF inv] step by (cases "rl_caller s") auto
next
  case (Pop_access ts)
  then show ?thesis using worker_pop_keeps [OF inv] step by (auto split: if_splits)
next
  case Count_write
  then show ?thesis using worker_report_keeps [OF inv] step by (auto split: if_splits)
next
  case Write_record
  then obtain rec where rec: "rl_worker s = Printing rec"
    "s' = s\<lparr>rl_out := rl_out s @ format_record rec, rl_writes := Suc (rl_writes s), rl_worker := Reporting\<rparr>"
    using step by (cases "rl_worker s") auto
  have "caller_ok s' (rl_caller s)" using inv rec(2) by (cases "rl_caller s") (simp_all add: rl_inv_def)
  moreover have w: "Suc (rl_writes s) = ra_pops (rl_ring s)" "rec = ra_popped (rl_ring s) ! rl_writes s" using inv rec(1) by (simp_all add: rl_inv_def)
  have tk: "take (Suc (rl_writes s)) (ra_popped (rl_ring s)) = take (rl_writes s) (ra_popped (rl_ring s)) @ [ra_popped (rl_ring s) ! rl_writes s]"
    by (rule take_Suc_conv_app_nth) (use w(1) in simp)
  have "rl_out s @ format_record rec = concat (map format_record (take (Suc (rl_writes s)) (ra_popped (rl_ring s))))"
    unfolding tk w(2) using inv by (simp add: rl_inv_def)
  ultimately show ?thesis using inv rec by (auto simp: rl_inv_def)
next
  case (Look ts)
  then obtain target where t: "rl_caller s = Awaiting target" "caller_look logger_orders ts target s = Some s'"
    using step by (cases "rl_caller s") auto
  have "worker_ok s' (rl_worker s)" using inv t(2) by (cases "rl_worker s") (auto simp: rl_inv_def caller_look_def Let_def split: if_splits prod.splits)
  then show ?thesis using inv t by (auto simp: rl_inv_def caller_look_def Let_def split: if_splits prod.splits)
next
  case (Begin_log level message now)
  have "worker_ok (s\<lparr>rl_caller := c\<rparr>) (rl_worker s)" for c using inv by (cases "rl_worker s") (auto simp: rl_inv_def)
  then show ?thesis using Begin_log inv step by (auto simp: rl_inv_def split: if_splits)
next
  case Begin_flush
  have "worker_ok (s\<lparr>rl_caller := c\<rparr>) (rl_worker s)" for c using inv by (cases "rl_worker s") (auto simp: rl_inv_def)
  then show ?thesis using Begin_flush inv step by (auto simp: rl_inv_def split: if_splits)
next
  case Tally
  have "worker_ok s' (rl_worker s)" using Tally inv step by (cases "rl_worker s"; cases "rl_caller s") (auto simp: rl_inv_def)
  then show ?thesis using Tally inv step by (cases "rl_caller s") (auto simp: rl_inv_def split: if_splits)
qed

lemma rl_new_inv: "1 \<le> k \<Longrightarrow> rl_inv (rl_new (2 ^ k) lv)"
  using ra_new_inv by (auto simp: rl_inv_def rl_new_def) (simp_all add: ra_new_def)

lemma rl_reach_inv:
  assumes "rl_reach logger_orders s0 s" "rl_inv s0"
  shows "rl_inv s"
  using assms by (induction rule: rl_reach.induct) (auto intro: rl_do_inv)

section \<open>\<open>flush\<close> synchronises\<close>

text \<open>
  C37.  When \<open>flush\<close> stops waiting, every record accepted so far is in the output and every write of the worker to the
  stream happened before the return, although the count it read may have been stale: the caller may use the stream
  without a race.  Nothing on the way raced in the queue either.
\<close>

theorem flush_release_acquire:
  assumes "1 \<le> k" "rl_reach logger_orders (rl_new (2 ^ k) lv) s" "ra_pushes (rl_ring s) < 2 ^ 64"
    and "rl_caller s = Awaiting target" "rl_do logger_orders (Look ts) s = Some s'" "rl_caller s' = Ready"
  shows "rl_out s' = concat (map format_record (ra_pushed (rl_ring s'))) \<and> rl_writes s' \<le> rl_known s' \<and> \<not> ra_race (rl_ring s')"
proof -
  let ?R = "rl_ring s"
  have inv: "rl_inv s" by (rule rl_reach_inv [OF assms(2) rl_new_inv [OF assms(1)]])
  then have ring: "memory_ok ?R" "queue_ok ?R" "\<not> ra_race ?R" by (simp_all add: rl_inv_def ra_inv_def)
  obtain c w where cw: "rl_processed s ! ts = (c, w)" by (cases "rl_processed s ! ts")
  have ts: "ts < length (rl_processed s)" "\<not> c < target" and s': "rl_ring s' = ?R" "rl_out s' = rl_out s" "rl_writes s' = rl_writes s" "w \<le> rl_known s'"
    using assms(4-6) cw by (auto simp: caller_look_def logger_orders_def split: if_splits)
  have c: "c = of_nat ts" "w = ts" "target = of_nat (ra_pushes ?R)" using inv ts(1) cw assms(4) by (auto simp: rl_inv_def)
  have le: "ts \<le> rl_writes s" "rl_writes s \<le> ra_pops ?R" using inv ts(1) by (cases "rl_worker s"; auto simp: rl_inv_def)+
  have "ra_pops ?R \<le> ra_pushes ?R" by (rule memory_okD(2) [OF ring(1)])
  moreover have "ra_pushes ?R \<le> ts"
    using ts(2) c le calculation assms(3) by (simp add: not_less word_le_nat_alt unat_of_nat take_bit_nat_eq_self)
  ultimately have eq: "rl_writes s = ra_pushes ?R" "ra_pops ?R = ra_pushes ?R" "ts = ra_pushes ?R" using le by auto
  have "ra_popped ?R = ra_pushed ?R" using ring(2) eq(2) by (simp add: queue_ok_def)
  then show ?thesis using inv ring(3) s' eq c(2) by (simp add: rl_inv_def)
qed

lemma foldM_rl_reach: "foldM (rl_do mo) xs s = Some s' \<Longrightarrow> rl_reach mo s0 s \<Longrightarrow> rl_reach mo s0 s'"
  by (induction xs arbitrary: s) (auto simp: bind_eq_Some_conv intro: rl_next)

text \<open>One message is logged, written and flushed.\<close>

definition one_message :: "rl_action list" where
  "one_message = [Begin_log Info ''up'' 0, Push_access 0, Push_access 0, Push_access 0, Push_access 0, Tally, Begin_flush,
     Pop_access 0, Pop_access 1, Pop_access 0, Pop_access 0, Write_record, Count_write]"

lemmas rl_eval = one_message_def caller_push_def caller_look_def worker_pop_def worker_report_def rl_new_def logger_orders_def ra_eval numeral_2_eq_2

lemma one_message_run:
  "\<exists>s s'. foldM (rl_do mo) one_message (rl_new 2 Info) = Some s \<and> rl_caller s = Awaiting 1 \<and> ra_pushed (rl_ring s) = [make_record Info ''up'' 0]
    \<and> rl_do mo (Look 1) s = Some s' \<and> rl_caller s' = Ready \<and> rl_ring s' = rl_ring s \<and> rl_writes s' = 1
    \<and> (report_order mo = Relaxed \<or> await_order mo = Relaxed \<longrightarrow> rl_known s' = 0)"
  by (simp add: rl_eval)

theorem flush_release_acquire_witness:
  "\<exists>s s'. foldM (rl_do logger_orders) one_message (rl_new 2 Info) = Some s \<and> rl_do logger_orders (Look 1) s = Some s'
    \<and> rl_out s' = format_record (make_record Info ''up'' 0) \<and> rl_writes s' = 1 \<and> 1 \<le> rl_known s'"
proof -
  obtain s s' where s: "foldM (rl_do logger_orders) one_message (rl_new 2 Info) = Some s" "rl_caller s = Awaiting 1"
    "ra_pushed (rl_ring s) = [make_record Info ''up'' 0]" "rl_do logger_orders (Look 1) s = Some s'" "rl_caller s' = Ready"
    "rl_ring s' = rl_ring s" "rl_writes s' = 1"
    using one_message_run by blast
  have "rl_reach logger_orders (rl_new (2 ^ 1) Info) s" using foldM_rl_reach [OF s(1) rl_start] by simp
  from flush_release_acquire [OF _ this _ s(2,4,5)] show ?thesis using s by auto
qed

text \<open>With a relaxed count or a relaxed look, \<open>flush\<close> returns without knowing of the write.\<close>

theorem relaxed_count_does_not_flush:
  assumes "report_order mo = Relaxed \<or> await_order mo = Relaxed"
  shows "\<exists>s s'. rl_reach mo (rl_new 2 Info) s \<and> rl_caller s = Awaiting 1 \<and> rl_do mo (Look 1) s = Some s' \<and> rl_caller s' = Ready
    \<and> rl_known s' < rl_writes s'"
proof -
  obtain s s' where s: "foldM (rl_do mo) one_message (rl_new 2 Info) = Some s" "rl_caller s = Awaiting 1"
    "rl_do mo (Look 1) s = Some s'" "rl_caller s' = Ready" "rl_writes s' = 1" "rl_known s' = 0"
    using one_message_run [of mo] assms by blast
  then show ?thesis using foldM_rl_reach [OF s(1) rl_start] by auto
qed

end
