(* ===== verification/Spec2Isabelle.thy ===== *)
theory Spec2Isabelle
  imports Book_Properties Engine_Agreement Command_Line Loop_Memory Flush_Memory
begin

text \<open>
  A verification of LightningLOB, a limit order book with price-time priority and the engine, queues, logger and
  command line around it.

  \<^bold>\<open>The program\<close>

  An \<^emph>\<open>order book\<close> keeps the resting orders of one symbol.  The repository has three: \<open>OrderBookVector\<close> (sorted
  vectors of price levels), \<open>OrderBookMap\<close> (\<open>std::map\<close> of levels) and \<open>OrderBookArray\<close> (one level per price of a
  fixed band, with a bitmap of the occupied ones).  All three keep their orders in an \<^emph>\<open>order pool\<close>, a slab of nodes
  with a free list whose nodes are linked into one intrusive list per price level, and find an order by its id in an
  open-addressing \<^emph>\<open>id index\<close>.  A \<^emph>\<open>matching engine\<close> owns one book per symbol; every order passes the \<^emph>\<open>risk
  manager\<close> first, and every trade of a book updates the positions there.  Producer threads hand their requests to the
  matching thread through the \<^emph>\<open>order gateway\<close>, one lock-free \<^emph>\<open>ring\<close> per producer; a \<^emph>\<open>logger\<close> thread empties a
  ring of log records.  \<open>main.cpp\<close> drives all this in three modes: a scripted walkthrough, a replay of a CSV file,
  and a demo with four producers and one matching thread.

  \<^bold>\<open>How the code is represented\<close>

  Classes are records with the members of the class, enums are datatypes, ids and handles are words of the code's
  width.  Prices, quantities and positions are integers; where the code computes with them at 64 bits the model
  checks the range.  An operation is a function into \<open>option\<close>: \<open>None\<close> stands for undefined behaviour (an access out
  of range, a failed assertion, signed overflow), an uncaught exception or a run without end, so a theorem that gives
  \<open>Some\<close> also shows that none of these happens.  Exceptions that a caller catches are the left values of sums.
  Pointers into the pool are indices, as in the code.  Loops that need an argument to end are
  \<open>partial_function (option)\<close>, and each of them is shown to return (\<open>probe\<close>, \<open>backshift\<close>, \<open>id_insert\<close>,
  \<open>drain_level\<close>, the three \<open>match_against_book\<close>, \<open>arr_accumulate\<close>, \<open>clear_side\<close>, \<open>worker_drain\<close>); no operation takes
  fuel.  The record \<open>World\<close> holds what is outside the objects: the clock and the trades published so far.

  \<^bold>\<open>The theories\<close>

  \<^item> \<open>LOB_Prelude\<close>: collections of simplification rules, facts on lists, options and words, the 64-bit range checks.
    \<open>Format_Text\<close>: decimal numbers and padded columns as \<open>std::format\<close> prints them.

  \<^item> \<open>Core_Types\<close> (\<open>types.hpp\<close>, \<open>order.hpp\<close>): the enums, ids, orders, trades, reports and the clock.

  \<^item> \<open>Id_Index_Map\<close> (\<open>id_index_map.hpp\<close>): linear probing, growth and backward-shift deletion.  The table behaves as
    a finite map for every session, stays at most half full, and its probes return.  Interface \<open>id_store\<close>.

  \<^item> \<open>Order_Pool\<close> (\<open>order_pool.hpp\<close>): the slab and the intrusive lists.  In every session of a client that releases
    only what it holds (\<open>pool_session\<close>), slots are never handed out twice and release does not allocate; a level is a
    queue from which any element can be unlinked.

  \<^item> \<open>Bitset_Utils\<close> (\<open>bitset_utils.hpp\<close>): the word-at-a-time scans find the nearest set bit.  Interface \<open>bit_store\<close>.

  \<^item> \<open>Book_Spec\<close>: the abstract order book, two lists of orders in priority order.  \<open>spec_add\<close>, \<open>spec_cancel\<close>
    and \<open>spec_amend\<close> say what a book promises.

  \<^item> \<open>Book_Core\<close>: the members and the inner matching loop that the three books share; \<open>Book_Levels\<close>: the
    representation relation between level lists, pool and id index on one side and the abstract book on the other.

  \<^item> \<open>Book_Contract\<close>: the interfaces \<open>level_matcher\<close> and \<open>level_book\<close>, what a container of levels has to do, and
    \<open>order_book\<close>, what a book promises its callers.  Every \<open>level_book\<close> is an \<open>order_book\<close> (a sublocale), so the
    refinement is proved once; \<open>op_allowed\<close> is what a caller has to keep to (a non-zero id, totals that fit in 64
    bits).  \<open>Book_Guarantees\<close>: the consequences for a caller, proved once inside \<open>order_book\<close>.

  \<^item> \<open>Order_Book_Vector\<close>, \<open>Order_Book_Map\<close>, \<open>Order_Book_Array\<close> (the \<open>order_book_*.hpp\<close> and \<open>order_book_*.cpp\<close> of
    these names): every member function, and the interpretation of both interfaces on it.

  \<^item> \<open>Risk_Manager\<close> (\<open>risk_manager.hpp\<close>, \<open>risk_manager.cpp\<close>): the gate and the positions.

  \<^item> \<open>Matching_Engine\<close> (\<open>matching_engine.hpp\<close>): the engine over a record of the book class's operations, its
    template argument.  \<open>engine_book\<close> extends \<open>order_book\<close> with constructor, reset and callback; inside it the engine over
    concrete books is shown to simulate the engine over abstract books.  \<open>Engine_Books\<close> interprets it for the three books.
    \<open>Engine_Agreement\<close>: inside the array book's band the three engines are interchangeable.

  \<^item> \<open>Lockfree_Queue\<close> (\<open>lockfree_queue.hpp\<close>): the ring as a bounded queue (\<open>spsc_queue\<close>), call by call the
    reference list queue \<open>bounded_session\<close>, and a step relation in which producer and consumer interleave at every load and store of the shared members.  \<open>Ring_Memory\<close> lets the same
    accesses run on the release/acquire memory of C++: the indices have histories, loads may be stale, and an access to
    the buffer that does not know of the other thread's last access to its slot is a data race.  The memory orders are
    a parameter; those of the code exclude races, and weakening any of the four that synchronise admits one.
    \<open>Loop_Memory\<close> does the same for the end of the demo's matching loop with its counter of running producers, and
    \<open>Flush_Memory\<close> for the logger's \<open>flush\<close>.

  \<^item> \<open>Order_Gateway\<close> (\<open>order_gateway.hpp\<close>): the lanes and the round-robin sweep, for an arbitrary handler.

  \<^item> \<open>Matching_Loop\<close> and \<open>Threaded_Demo\<close> (\<open>run_multithreaded_demo\<close> of \<open>main.cpp\<close>): producers and matching
    thread as a step relation over an arbitrary handler (\<open>demo_loop\<close>), then with the engine as handler and
    four times 250000 orders.  A schedule is fair when it picks every thread again and again.

  \<^item> \<open>Replay\<close> (\<open>replay.hpp\<close>, \<open>replay.cpp\<close>): CSV parsing with its errors, the replay loop and its tally.

  \<^item> \<open>Logger\<close> (\<open>logger.hpp\<close>, \<open>logger.cpp\<close>): the operations one at a time; \<open>Logger_Threads\<close>: caller and worker as a
    step relation, down to the destructor.

  \<^item> \<open>Book_Print\<close> (the \<open>print\<close> members), \<open>Command_Line\<close> (\<open>main.cpp\<close> and \<open>thread_affinity.hpp\<close>): the three modes,
    what they print and the exit code.

  \<^item> \<open>Book_Examples\<close>: a small populated book of each class.  \<open>Book_Properties\<close>: the properties of the books.

  \<^bold>\<open>What is shown\<close>

  C1 to C3: every session of adds, cancels and amends on each book returns the reports, trades and book of the
  abstract book; C4: the three books agree inside the array book's band, on the trades they publish too.  C5 to C18:
  price-time priority, reports, value ranges, conservation of quantity, fill-or-kill, refusals, cancel, amend, best
  prices and spread after any session, depth, termination of matching.  C19 to C22: id index, pool, level lists,
  bitmap.  C23 to C25: the ring, alone, and with two threads under the memory orders of the code, and the end of the
  matching loop under these.  C26, C27: the threaded demo ends under every fair schedule and loses no order.  C28,
  C29: the risk gate, its decision and its rate windows.  C30 to C33: the engine refines the abstract engine,
  whichever the book class; positions stay balanced, and what an order takes when it is submitted leaves the
  submitter within its position limit.  C34: CSV round trip.  C35
  to C37: the logger shuts down having written what it accepted, \<open>flush\<close> waits for that, also under the memory orders of
  the code.  C38 to C40: the walkthrough's transcript, the replay mode and the exit codes.

  C10 and C15 show behaviour the comments of the code exclude: under \<open>CancelIncoming\<close> a fill-or-kill order can be
  filled in part, because \<open>has_liquidity_for\<close> counts the taker's own resting orders; and amending an order of a map or
  vector book to a non-positive price removes the order although the report says \<open>Rejected\<close>.  The last section below
  shows four more such behaviours of the engine: assigned ids can collide with ids of clients, amendments pass no
  risk check, the gate does not add up a participant's resting orders, so that their fills as makers can exceed the
  position limit, and orders that the book refuses count against the rate limit.

  \<^bold>\<open>Bounds and simplifications\<close>

  \<^item> A book never needs more than \<open>kNullIndex\<close> (\<open>2 ^ 32 - 1\<close>) slots.  The session theorems assume that the number of
    operations stays below it; a handle is taken only by an order that comes to rest, so this is generous.

  \<^item> The trades of one book call are settled in order after the call.  The callback that the engine installs touches
    the risk manager and the caller's callback but no book, so the call cannot observe the difference.

  \<^item> The interleavings of \<open>Matching_Loop\<close>, \<open>Threaded_Demo\<close> and \<open>Logger_Threads\<close> are sequentially consistent, at the
    granularity of the calls on the queues and the accesses to the other shared members.  \<open>Ring_Memory\<close>,
    \<open>Loop_Memory\<close> and \<open>Flush_Memory\<close> do not assume this; they assume that a load never reads from a store that has not happened yet.

  \<^item> Sizes and capacities of containers are unbounded natural numbers: that \<open>IdIndexMap\<close> would wrap around when it
    doubles a capacity hint near \<open>2 ^ 63\<close>, and that \<open>reserve(n)\<close> in the depth queries throws for an absurd \<open>n\<close>, is left
    out.  A full vector doubles its capacity, as libstdc++ does; the standard leaves the factor open.

  \<^item> The replay mode gives \<open>None\<close> where the replay itself would be undefined or throw; \<open>main\<close> would catch such an
    exception like a load error and return 1.  C39 shows that the modelled replay of an allowed file does not get there.

  \<^item> The clock is an arbitrary sequence of readings, and the random draws of the demo are arbitrary values of their
    ranges.

  \<^bold>\<open>Not modelled\<close>

  That fair schedules end under memory orders weaker than sequential consistency, where C++ promises only that a
  store becomes visible eventually.  Floating-point output (\<open>orders_per_second\<close> and the
  rates the modes print): the printed text is a parameter.  The calls of the operating system that pin a thread or
  raise its priority are parameters; the branches for systems other than Linux, which return false, are left out.
  Benchmarks and tests.
\<close>

section \<open>A session through the engine\<close>

definition demo_request :: "OrderId \<Rightarrow> ParticipantId \<Rightarrow> Side \<Rightarrow> Price \<Rightarrow> Quantity \<Rightarrow> OrderRequest" where
  "demo_request i pt s pr q = \<lparr>req_client_order_id = i, req_symbol = 1, req_participant_id = pt, req_side = s, req_type = Limit,
     req_price = pr, req_quantity = q, req_time_in_force = GTC\<rparr>"

definition demo_limits :: SymbolRiskLimits where
  "demo_limits = \<lparr>max_position = 10, max_order_size = 50, max_orders_per_second = 5\<rparr>"

definition demo_engine :: "(Price \<Rightarrow> bool) \<Rightarrow> SpecBook MatchingEngine" where
  "demo_engine band = (engine_new [pack_key 1 7 \<mapsto> fresh_state\<lparr>limits := demo_limits\<rparr>])\<lparr>e_books := [1 \<mapsto>
     \<lparr>sb_book = empty_abook, sb_accepts = band, sb_stp = NoPrevention, sb_callback = True, sb_symbol = 1\<rparr>]\<rparr>"

definition demo_engine_ops :: "engine_op list" where
  "demo_engine_ops = [Submit (demo_request 0 8 Sell 100 5), Submit (demo_request 21 7 Buy 100 3), Submit (demo_request 22 7 Buy 100 20),
     AmendIn 1 1 1 None, CancelIn 1 1, Submit ((demo_request 23 7 Buy 100 1)\<lparr>req_symbol := 9\<rparr>)]"

definition demo_engine_results :: "book_res list" where
  "demo_engine_results = [Report (report 1 New 0 5 NoReason), Report (report 21 Filled 3 0 NoReason),
     Report (report 22 Rejected 0 0 RiskMaxPosition), Report (report 1 New 0 1 NoReason), Done True,
     Report (report 23 Rejected 0 0 UnknownSymbol)]"

lemmas engine_eval = submit_order_def cancel_order_def amend_order_def book_call_def on_trade_def on_fill_def check_new_order_def
  make_order_def spec_class_def demo_request_def demo_engine_def engine_new_def demo_limits_def demo_world_def empty_abook_def
  fresh_state_def state_at_def no_limits_def u32_max_def kRateLimitWindowNs_def chk64_def

lemma demo_engine_run:
  "\<exists>S' w'. engine_run (spec_class price_band) demo_engine_ops (demo_engine (\<lambda>p. 90 \<le> p \<and> p \<le> 110)) demo_world = Some (demo_engine_results, S', w')"
  by (simp add: demo_engine_ops_def demo_engine_results_def engine_eval spec_eval in_i64_def i64_max_def)

text \<open>With a user callback the session publishes the one trade it makes.\<close>

definition demo_engine_trade :: Trade where
  "demo_engine_trade = \<lparr>t_taker_order_id = 21, t_maker_order_id = 1, t_symbol = 1, t_price = 100, t_quantity = 3, t_timestamp = 2,
     t_taker_side = Buy, t_taker_participant_id = 7, t_maker_participant_id = 8\<rparr>"

lemma demo_engine_published:
  "\<exists>S' w'. engine_run (spec_class price_band) demo_engine_ops (engine_set_trade_callback True (demo_engine (\<lambda>p. 90 \<le> p \<and> p \<le> 110))) demo_world
      = Some (demo_engine_results, S', w') \<and> events w' = [demo_engine_trade]"
  "session_allowed (spec_class price_band) demo_engine_ops (engine_set_trade_callback True (demo_engine (\<lambda>p. 90 \<le> p \<and> p \<le> 110))) demo_world"
  by (simp_all add: demo_engine_ops_def demo_engine_results_def demo_engine_trade_def engine_set_trade_callback_def engine_eval spec_eval
    submit_allowed_def allowed_eval)

lemma demo_engine_allowed:
  "session_allowed (spec_class price_band) demo_engine_ops (demo_engine (\<lambda>p. 90 \<le> p \<and> p \<le> 110)) demo_world"
  by (simp add: demo_engine_ops_def engine_eval spec_eval submit_allowed_def allowed_eval)

lemma demo_engine_sim:
  obtains e where "add_symbol arr_class 1 90 110 16 NoPrevention (engine_new [pack_key 1 7 \<mapsto> fresh_state\<lparr>limits := demo_limits\<rparr>]) = Inr e"
    "ae.sim 0 e (demo_engine (\<lambda>p. 90 \<le> p \<and> p \<le> 110))"
proof -
  have "add_symbol (spec_class price_band) 1 90 110 16 NoPrevention (engine_new [pack_key 1 7 \<mapsto> fresh_state\<lparr>limits := demo_limits\<rparr>])
      = Inr (demo_engine (\<lambda>p. 90 \<le> p \<and> p \<le> 110))"
    by (simp add: add_symbol_def spec_class_def price_band_def demo_engine_def engine_new_def)
  then show thesis
    using ae.add_symbol_sim [OF ae.new_sim, of 110 1 90 16 NoPrevention "[pack_key 1 7 \<mapsto> fresh_state\<lparr>limits := demo_limits\<rparr>]"] that
    by (auto simp: i64_max_def)
qed

section \<open>Properties of the engine\<close>

text \<open>
  C30.  An engine over array books behaves as the engine over abstract books: the same reports, the same trades
  published, the same positions and rate windows, for every session of submissions, cancels, amends, resets and
  limit changes over any number of symbols.
\<close>

theorem array_engine_session_refines:
  assumes "ae.sim n e S" "session_allowed (spec_class price_band) xs S w" "n + length xs \<le> unat kNullIndex"
    and "engine_run (spec_class price_band) xs S w = Some (rs, S', w')"
  shows "\<exists>e'. engine_run arr_class xs e w = Some (rs, e', w') \<and> ae.sim (n + length xs) e' S'"
  using ae.run_sim [OF assms] .

theorem array_engine_session_refines_witness:
  "\<exists>e e' w'. add_symbol arr_class 1 90 110 16 NoPrevention (engine_new [pack_key 1 7 \<mapsto> fresh_state\<lparr>limits := demo_limits\<rparr>]) = Inr e
    \<and> engine_run arr_class demo_engine_ops e demo_world = Some (demo_engine_results, e', w')"
proof -
  obtain e where e: "add_symbol arr_class 1 90 110 16 NoPrevention (engine_new [pack_key 1 7 \<mapsto> fresh_state\<lparr>limits := demo_limits\<rparr>]) = Inr e"
      "ae.sim 0 e (demo_engine (\<lambda>p. 90 \<le> p \<and> p \<le> 110))" using demo_engine_sim .
  obtain S' w' where "engine_run (spec_class price_band) demo_engine_ops (demo_engine (\<lambda>p. 90 \<le> p \<and> p \<le> 110)) demo_world =
      Some (demo_engine_results, S', w')" using demo_engine_run by blast
  moreover have "0 + length demo_engine_ops \<le> unat kNullIndex" by (simp add: demo_engine_ops_def unat_null)
  ultimately show ?thesis using array_engine_session_refines [OF e(2) demo_engine_allowed] e(1) by blast
qed

text \<open>
  C31.  The book class is an implementation detail: engines over vector, map and array books, each set up for one
  symbol with the same risk limits and with or without a user callback, answer a session whose prices stay inside
  the array book's range with the same results, publish the same trades in the same order (the world after the
  session holds what was delivered to the callback), and end with the same positions and rate windows.
\<close>

theorem engines_agree:
  assumes "0 < mn" "mn \<le> mx" "mx \<le> i64_max" "length xs \<le> unat kNullIndex"
    and "list_all (in_band (\<lambda>t pr. t = s \<longrightarrow> mn \<le> pr \<and> pr \<le> mx)) xs"
    and "session_allowed (spec_class price_band) xs (one_symbol s (\<lambda>pr. mn \<le> pr \<and> pr \<le> mx) p rm cb) w"
    and "engine_run (spec_class price_band) xs (one_symbol s (\<lambda>pr. mn \<le> pr \<and> pr \<le> mx) p rm cb) w = Some (rs, S', w')"
  shows "\<exists>ev em ea ev' em' ea'.
    add_symbol vec_class s mn mx h p (engine_new rm) = Inr ev \<and> engine_run vec_class xs (engine_set_trade_callback cb ev) w = Some (rs, ev', w') \<and>
    add_symbol map_class s mn mx h p (engine_new rm) = Inr em \<and> engine_run map_class xs (engine_set_trade_callback cb em) w = Some (rs, em', w') \<and>
    add_symbol arr_class s mn mx h p (engine_new rm) = Inr ea \<and> engine_run arr_class xs (engine_set_trade_callback cb ea) w = Some (rs, ea', w') \<and>
    e_risk_manager ev' = e_risk_manager ea' \<and> e_risk_manager em' = e_risk_manager ea'"
proof -
  let ?S = "one_symbol s (\<lambda>pr. mn \<le> pr \<and> pr \<le> mx) p rm cb"
  obtain ev em ea where new: "add_symbol vec_class s mn mx h p (engine_new rm) = Inr ev" "add_symbol map_class s mn mx h p (engine_new rm) = Inr em"
      "add_symbol arr_class s mn mx h p (engine_new rm) = Inr ea"
    and sim: "ve.sim 0 (engine_set_trade_callback cb ev) (widen ?S)" "me.sim 0 (engine_set_trade_callback cb em) (widen ?S)"
      "ae.sim 0 (engine_set_trade_callback cb ea) ?S"
    using one_symbol_sims [OF assms(1-3), of s h p rm cb] unfolding one_symbol_widen .
  have "banded (\<lambda>t pr. t = s \<longrightarrow> mn \<le> pr \<and> pr \<le> mx) ?S" by (rule one_symbol_banded) simp
  from engines_same [OF sim this assms(5,6) _ assms(7)] show ?thesis using new assms(4) by fastforce
qed

theorem engines_agree_witness:
  "\<exists>ev em ea ev' em' ea' w'.
    add_symbol vec_class 1 90 110 16 NoPrevention (engine_new [pack_key 1 7 \<mapsto> fresh_state\<lparr>limits := demo_limits\<rparr>]) = Inr ev \<and>
    engine_run vec_class demo_engine_ops (engine_set_trade_callback True ev) demo_world = Some (demo_engine_results, ev', w') \<and>
    add_symbol map_class 1 90 110 16 NoPrevention (engine_new [pack_key 1 7 \<mapsto> fresh_state\<lparr>limits := demo_limits\<rparr>]) = Inr em \<and>
    engine_run map_class demo_engine_ops (engine_set_trade_callback True em) demo_world = Some (demo_engine_results, em', w') \<and>
    add_symbol arr_class 1 90 110 16 NoPrevention (engine_new [pack_key 1 7 \<mapsto> fresh_state\<lparr>limits := demo_limits\<rparr>]) = Inr ea \<and>
    engine_run arr_class demo_engine_ops (engine_set_trade_callback True ea) demo_world = Some (demo_engine_results, ea', w') \<and>
    events w' = [demo_engine_trade]"
proof -
  have one: "one_symbol 1 (\<lambda>p. 90 \<le> p \<and> p \<le> 110) NoPrevention [pack_key 1 7 \<mapsto> fresh_state\<lparr>limits := demo_limits\<rparr>] True =
      engine_set_trade_callback True (demo_engine (\<lambda>p. 90 \<le> p \<and> p \<le> 110))"
    by (simp add: one_symbol_def demo_engine_def engine_new_def engine_set_trade_callback_def)
  obtain S' w' where run: "engine_run (spec_class price_band) demo_engine_ops (engine_set_trade_callback True (demo_engine (\<lambda>p. 90 \<le> p \<and> p \<le> 110))) demo_world =
      Some (demo_engine_results, S', w')" and ev: "events w' = [demo_engine_trade]" using demo_engine_published(1) by blast
  have len: "length demo_engine_ops \<le> unat kNullIndex" by (simp add: demo_engine_ops_def unat_null)
  have band: "list_all (in_band (\<lambda>t pr. t = 1 \<longrightarrow> 90 \<le> pr \<and> pr \<le> 110)) demo_engine_ops"
    by (simp add: demo_engine_ops_def demo_request_def)
  show ?thesis
    using engines_agree [OF _ _ _ len band demo_engine_published(2) [folded one] run [folded one], of 16] ev by (auto simp: i64_max_def)
qed

text \<open>
  C32.  Positions are a zero-sum game: whatever the book class and the session, the net positions of all
  participants in a symbol add up to what they added up to before.
\<close>

theorem engine_positions_zero_sum:
  assumes "engine_run C xs e w = Some (rs, e', w')"
  shows "total_position s (e_risk_manager e') = total_position s (e_risk_manager e)"
  using engine_run_total [OF assms] .

theorem engine_positions_zero_sum_witness:
  "\<exists>S' w'. engine_run (spec_class price_band) demo_engine_ops (demo_engine (\<lambda>p. 90 \<le> p \<and> p \<le> 110)) demo_world = Some (demo_engine_results, S', w')
    \<and> total_position 1 (e_risk_manager S') = total_position 1 (e_risk_manager (demo_engine (\<lambda>p. 90 \<le> p \<and> p \<le> 110)))"
  using demo_engine_run engine_positions_zero_sum by blast

text \<open>
  C33.  The position limit holds for what an order takes: when a participant whose position is within its limit
  submits an order, then whatever that order trades with resting orders during the submission moves the position in
  the order's direction by at most the order's quantity, and leaves it within the limit.  Only these trades are
  gated: what a resting order of the participant trades later, as a maker in somebody else's submission, is not
  (see \<open>makers_exceed_limit\<close> below).
\<close>

theorem submit_respects_position_limit:
  assumes "ae.sim n e S" "submit_allowed req S w" "n < unat kNullIndex" "submit_order (spec_class price_band) req S w = Some (r, S', w')"
    and "\<And>b. e_books e (req_symbol req) = Some b \<Longrightarrow> b_symbol b = req_symbol req"
    and "e_risk_manager e (pack_key (req_symbol req) (req_participant_id req)) = Some st"
    and "within_limit (req_symbol req) (req_participant_id req) (e_risk_manager e)"
  shows "\<exists>e'. submit_order arr_class req e w = Some (r, e', w') \<and> position_moved req (e_risk_manager e) (e_risk_manager e')
    \<and> within_limit (req_symbol req) (req_participant_id req) (e_risk_manager e')"
  using ae.submit_limit [OF assms] .

text \<open>Participant 8 offers 15 at 100; participant 7, limited to a position of 10, takes exactly 10 of them.\<close>

lemma offered_run:
  "\<exists>S1 w1 S' w'. engine_run (spec_class price_band) [Submit (demo_request 1 8 Sell 100 15)] (demo_engine (\<lambda>p. 90 \<le> p \<and> p \<le> 110)) demo_world
      = Some ([Report (report 1 New 0 15 NoReason)], S1, w1)
    \<and> submit_order (spec_class price_band) (demo_request 21 7 Buy 100 10) S1 w1 = Some (report 21 Filled 10 0 NoReason, S', w')
    \<and> submit_allowed (demo_request 21 7 Buy 100 10) S1 w1 \<and> e_risk_manager S1 = [pack_key 1 7 \<mapsto> fresh_state\<lparr>limits := demo_limits\<rparr>]
    \<and> position 1 7 (e_risk_manager S') = 10 \<and> map_option sb_symbol (e_books S1 1) = Some 1"
  "session_allowed (spec_class price_band) [Submit (demo_request 1 8 Sell 100 15)] (demo_engine (\<lambda>p. 90 \<le> p \<and> p \<le> 110)) demo_world"
  by (simp_all add: engine_eval spec_eval submit_allowed_def allowed_eval position_def)

theorem submit_respects_position_limit_witness:
  "\<exists>e e1 w1 e' w'. add_symbol arr_class 1 90 110 16 NoPrevention (engine_new [pack_key 1 7 \<mapsto> fresh_state\<lparr>limits := demo_limits\<rparr>]) = Inr e
    \<and> engine_run arr_class [Submit (demo_request 1 8 Sell 100 15)] e demo_world = Some ([Report (report 1 New 0 15 NoReason)], e1, w1)
    \<and> submit_order arr_class (demo_request 21 7 Buy 100 10) e1 w1 = Some (report 21 Filled 10 0 NoReason, e', w')
    \<and> within_limit 1 7 (e_risk_manager e') \<and> position 1 7 (e_risk_manager e') = 10"
proof -
  let ?S = "demo_engine (\<lambda>p. 90 \<le> p \<and> p \<le> 110)" and ?req = "demo_request 21 7 Buy 100 10"
  obtain e where e: "add_symbol arr_class 1 90 110 16 NoPrevention (engine_new [pack_key 1 7 \<mapsto> fresh_state\<lparr>limits := demo_limits\<rparr>]) = Inr e"
      "ae.sim 0 e ?S" using demo_engine_sim .
  obtain S1 w1 S' w' where run: "engine_run (spec_class price_band) [Submit (demo_request 1 8 Sell 100 15)] ?S demo_world = Some ([Report (report 1 New 0 15 NoReason)], S1, w1)"
      "submit_order (spec_class price_band) ?req S1 w1 = Some (report 21 Filled 10 0 NoReason, S', w')" "submit_allowed ?req S1 w1"
      "e_risk_manager S1 = [pack_key 1 7 \<mapsto> fresh_state\<lparr>limits := demo_limits\<rparr>]" "position 1 7 (e_risk_manager S') = 10" "map_option sb_symbol (e_books S1 1) = Some 1"
    using offered_run(1) by blast
  have room: "0 + length [Submit (demo_request 1 8 Sell 100 15)] \<le> unat kNullIndex" "(1 :: nat) < unat kNullIndex" by (simp_all add: unat_null)
  obtain e1 where e1: "engine_run arr_class [Submit (demo_request 1 8 Sell 100 15)] e demo_world = Some ([Report (report 1 New 0 15 NoReason)], e1, w1)"
      "ae.sim 1 e1 S1" using ae.run_sim [OF e(2) offered_run(2) room(1) run(1)] by auto
  have sym: "b_symbol b = 1" if "e_books e1 1 = Some b" for b
    using e1(2) run(6) that by (simp add: ae.sim_def ae.sb_def)
  have rm: "e_risk_manager e1 = [pack_key 1 7 \<mapsto> fresh_state\<lparr>limits := demo_limits\<rparr>]" using e1(2) run(4) by (simp add: ae.sim_def)
  have st: "e_risk_manager e1 (pack_key 1 7) = Some (fresh_state\<lparr>limits := demo_limits\<rparr>)" "within_limit 1 7 (e_risk_manager e1)"
    by (simp_all add: rm within_limit_def position_state limits_state state_at_def fresh_state_def demo_limits_def)
  have req: "req_symbol ?req = 1" "req_participant_id ?req = 7" by (simp_all add: demo_request_def)
  obtain e' where e': "submit_order arr_class ?req e1 w1 = Some (report 21 Filled 10 0 NoReason, e', w')" "within_limit 1 7 (e_risk_manager e')"
    using submit_respects_position_limit [OF e1(2) run(3) room(2) run(2), unfolded req, OF sym st] by blast
  have "e_risk_manager e' = e_risk_manager S'"
    using ae.submit_sim [OF e1(2) run(3) room(2) run(2)] e'(1) by (auto simp: ae.sim_def)
  then show ?thesis using e(1) e1(1) e' run(5) by auto
qed

section \<open>What the limits do not cover\<close>

text \<open>Sessions of the array engine with participant 7 limited to orders of 50, positions of 10 and 5 orders a second.\<close>

lemma limited_session:
  assumes "session_allowed (spec_class price_band) xs (demo_engine (\<lambda>p. 90 \<le> p \<and> p \<le> 110)) demo_world" "length xs < 100"
    and "\<exists>S' w'. engine_run (spec_class price_band) xs (demo_engine (\<lambda>p. 90 \<le> p \<and> p \<le> 110)) demo_world = Some (rs, S', w')"
  shows "\<exists>e e' w'. add_symbol arr_class 1 90 110 16 NoPrevention (engine_new [pack_key 1 7 \<mapsto> fresh_state\<lparr>limits := demo_limits\<rparr>]) = Inr e
    \<and> engine_run arr_class xs e demo_world = Some (rs, e', w')"
proof -
  obtain e where e: "add_symbol arr_class 1 90 110 16 NoPrevention (engine_new [pack_key 1 7 \<mapsto> fresh_state\<lparr>limits := demo_limits\<rparr>]) = Inr e"
      "ae.sim 0 e (demo_engine (\<lambda>p. 90 \<le> p \<and> p \<le> 110))" using demo_engine_sim .
  have "0 + length xs \<le> unat kNullIndex" using assms(2) by (simp add: unat_null)
  then show ?thesis using ae.run_sim [OF e(2) assms(1)] assms(3) e(1) by blast
qed

text \<open>The id the engine assigns can be the id of a client's resting order: the order is refused as a duplicate.\<close>

theorem assigned_id_collides:
  "\<exists>e e' w'. add_symbol arr_class 1 90 110 16 NoPrevention (engine_new [pack_key 1 7 \<mapsto> fresh_state\<lparr>limits := demo_limits\<rparr>]) = Inr e
    \<and> engine_run arr_class [Submit (demo_request 1 8 Sell 100 5), Submit (demo_request 0 9 Buy 95 1)] e demo_world
      = Some ([Report (report 1 New 0 5 NoReason), Report (report 1 Rejected 0 0 DuplicateOrderId)], e', w')"
  by (rule limited_session) (simp_all add: engine_eval spec_eval submit_allowed_def allowed_eval in_i64_def i64_max_def)

text \<open>An amendment is not checked: an order of 5 becomes one of 1000 although no order above 50 passes the gate.\<close>

theorem amend_exceeds_limits:
  "\<exists>e e' w'. add_symbol arr_class 1 90 110 16 NoPrevention (engine_new [pack_key 1 7 \<mapsto> fresh_state\<lparr>limits := demo_limits\<rparr>]) = Inr e
    \<and> engine_run arr_class [Submit (demo_request 5 7 Buy 95 5), AmendIn 1 5 1000 None] e demo_world
      = Some ([Report (report 5 New 0 5 NoReason), Report (report 5 New 0 1000 NoReason)], e', w')"
  by (rule limited_session) (simp_all add: engine_eval spec_eval submit_allowed_def allowed_eval in_i64_def i64_max_def)

text \<open>
  The gate looks at the position an order could lead to on its own, not together with the participant's resting
  orders: two bids of 8 pass a position limit of 10, and an offer of 16 that takes both leaves the position at 16.
\<close>

abbreviation two_bids :: "engine_op list" where
  "two_bids \<equiv> [Submit (demo_request 1 7 Buy 95 8), Submit (demo_request 2 7 Buy 95 8), Submit (demo_request 3 8 Sell 95 16)]"

lemma two_bids_run:
  "\<exists>S' w'. engine_run (spec_class price_band) two_bids (demo_engine (\<lambda>p. 90 \<le> p \<and> p \<le> 110)) demo_world
      = Some ([Report (report 1 New 0 8 NoReason), Report (report 2 New 0 8 NoReason), Report (report 3 Filled 16 0 NoReason)], S', w')
    \<and> position 1 7 (e_risk_manager S') = 16 \<and> max_position (limits_for 1 7 (e_risk_manager S')) = 10"
  "session_allowed (spec_class price_band) two_bids (demo_engine (\<lambda>p. 90 \<le> p \<and> p \<le> 110)) demo_world"
  by (simp_all add: engine_eval spec_eval submit_allowed_def allowed_eval position_def limits_for_def word_le_nat_alt)

theorem makers_exceed_limit:
  "\<exists>e e' w'. add_symbol arr_class 1 90 110 16 NoPrevention (engine_new [pack_key 1 7 \<mapsto> fresh_state\<lparr>limits := demo_limits\<rparr>]) = Inr e
    \<and> engine_run arr_class two_bids e demo_world
      = Some ([Report (report 1 New 0 8 NoReason), Report (report 2 New 0 8 NoReason), Report (report 3 Filled 16 0 NoReason)], e', w')
    \<and> position 1 7 (e_risk_manager e') = 16 \<and> \<not> within_limit 1 7 (e_risk_manager e')"
proof -
  obtain e where e: "add_symbol arr_class 1 90 110 16 NoPrevention (engine_new [pack_key 1 7 \<mapsto> fresh_state\<lparr>limits := demo_limits\<rparr>]) = Inr e"
      "ae.sim 0 e (demo_engine (\<lambda>p. 90 \<le> p \<and> p \<le> 110))" using demo_engine_sim .
  obtain S' w' where run: "engine_run (spec_class price_band) two_bids (demo_engine (\<lambda>p. 90 \<le> p \<and> p \<le> 110)) demo_world
      = Some ([Report (report 1 New 0 8 NoReason), Report (report 2 New 0 8 NoReason), Report (report 3 Filled 16 0 NoReason)], S', w')"
      "position 1 7 (e_risk_manager S') = 16" "max_position (limits_for 1 7 (e_risk_manager S')) = 10" using two_bids_run(1) by blast
  have "0 + length two_bids \<le> unat kNullIndex" by (simp add: unat_null)
  then obtain e' where e': "engine_run arr_class two_bids e demo_world
      = Some ([Report (report 1 New 0 8 NoReason), Report (report 2 New 0 8 NoReason), Report (report 3 Filled 16 0 NoReason)], e', w')"
      "ae.sim (0 + length two_bids) e' S'" using ae.run_sim [OF e(2) two_bids_run(2) _ run(1)] by blast
  moreover have "e_risk_manager e' = e_risk_manager S'" using e'(2) by (simp add: ae.sim_def)
  ultimately show ?thesis using e(1) run(2,3) by (auto simp: within_limit_def)
qed

text \<open>Orders the book refuses have consumed rate budget: after five of them a valid order is rate limited.\<close>

theorem refused_orders_spend_budget:
  "\<exists>e e' w'. add_symbol arr_class 1 90 110 16 NoPrevention (engine_new [pack_key 1 7 \<mapsto> fresh_state\<lparr>limits := demo_limits\<rparr>]) = Inr e
    \<and> engine_run arr_class [Submit (demo_request 1 7 Buy 200 1), Submit (demo_request 2 7 Buy 200 1), Submit (demo_request 3 7 Buy 200 1),
        Submit (demo_request 4 7 Buy 200 1), Submit (demo_request 5 7 Buy 200 1), Submit (demo_request 6 7 Buy 95 1)] e demo_world
      = Some ([Report (report 1 Rejected 0 0 PriceOutOfRange), Report (report 2 Rejected 0 0 PriceOutOfRange),
        Report (report 3 Rejected 0 0 PriceOutOfRange), Report (report 4 Rejected 0 0 PriceOutOfRange),
        Report (report 5 Rejected 0 0 PriceOutOfRange), Report (report 6 Rejected 0 0 RiskRateLimited)], e', w')"
  by (rule limited_session) (simp_all add: engine_eval spec_eval submit_allowed_def allowed_eval in_i64_def i64_max_def word_le_nat_alt)

end
